(* ===== verification/Ncode_Prelude.thy ===== *)
theory Ncode_Prelude
  imports Main "HOL-Library.Word"
begin

text \<open>
  Shared material of the development: how the ways a C++ function can fail are written
  (\<open>failure\<close>, \<open>res\<close>), the two \<open>std::vector\<close> operations that lists do not have
  (\<open>vec_resize\<close>, checked access), and the generic lemmas the components share. The
  collections \<open>vec_simps\<close> (vectors) and \<open>res_simps\<close> (results) are what the component
  proofs hand to the simplifier.
\<close>

named_theorems vec_simps
named_theorems res_simps

section \<open>Failures\<close>

text \<open>
  \<open>CHECK(c)\<close> and \<open>LOG(FATAL)\<close> abort the process; reading a vector out of range, popping an
  empty list and so on are undefined in C++. Both are values here, so that every theorem
  that a call succeeds rules them out.
\<close>

datatype failure = Check_failed | Log_fatal | Undefined_behaviour

type_synonym 'a res = "failure + 'a"

abbreviation Ok :: "'a \<Rightarrow> 'a res" where
  "Ok \<equiv> Inr"

abbreviation Fail :: "failure \<Rightarrow> 'a res" where
  "Fail \<equiv> Inl"

definition rbind :: "'a res \<Rightarrow> ('a \<Rightarrow> 'b res) \<Rightarrow> 'b res" where
  "rbind r f = (case r of Inl e \<Rightarrow> Inl e | Inr x \<Rightarrow> f x)"

definition check :: "bool \<Rightarrow> 'a res \<Rightarrow> 'a res" where
  "check c r = (if c then r else Fail Check_failed)"

fun rfold :: "('a \<Rightarrow> 's \<Rightarrow> 's res) \<Rightarrow> 'a list \<Rightarrow> 's \<Rightarrow> 's res" where
  "rfold f [] s = Ok s"
| "rfold f (x # xs) s = rbind (f x s) (rfold f xs)"

lemma rbind_simps [simp, res_simps]:
  "rbind (Ok x) f = f x" "rbind (Fail e) f = Fail e"
  by (simp_all add: rbind_def)

lemma check_simps [simp, res_simps]:
  "check True r = r" "check False r = Fail Check_failed"
  by (simp_all add: check_def)

lemma rbind_eq_Ok [res_simps]: "rbind r f = Ok y \<longleftrightarrow> (\<exists>x. r = Ok x \<and> f x = Ok y)"
  by (cases r) auto

lemma check_eq_Ok [res_simps]: "check c r = Ok y \<longleftrightarrow> c \<and> r = Ok y"
  by (simp add: check_def)

lemma rbind_cong [fundef_cong]:
  "r = r' \<Longrightarrow> (\<And>x. r' = Ok x \<Longrightarrow> f x = g x) \<Longrightarrow> rbind r f = rbind r' g"
  by (cases r') auto

lemma rbind_rfold_Nil [simp]: "rbind r (rfold f []) = r"
  by (cases r) auto

lemma rfold_append: "rfold f (xs @ ys) s = rbind (rfold f xs s) (rfold f ys)"
proof (induction xs arbitrary: s)
  case (Cons x xs)
  then show ?case by (cases "f x s") auto
qed simp

lemma rfold_map: "rfold f (map h xs) s = rfold (\<lambda>x. f (h x)) xs s"
proof (induction xs arbitrary: s)
  case (Cons x xs)
  then show ?case by (cases "f (h x) s") simp_all
qed simp

lemma rfold_Ok_fold: "(\<And>x s. x \<in> set xs \<Longrightarrow> f x s = Ok (g x s)) \<Longrightarrow> rfold f xs s = Ok (fold g xs s)"
  by (induction xs arbitrary: s) auto

text \<open>An invariant kept by every successful step holds after the whole loop.\<close>

lemma rfold_invariant:
  assumes "rfold f xs s = Ok s'" and "P s"
    and "\<And>x s s'. x \<in> set xs \<Longrightarrow> P s \<Longrightarrow> f x s = Ok s' \<Longrightarrow> P s'"
  shows "P s'"
  using assms
proof (induction xs arbitrary: s)
  case (Cons x xs)
  from Cons.prems(1) obtain t where t: "f x s = Ok t" "rfold f xs t = Ok s'"
    by (auto simp: rbind_eq_Ok)
  with Cons.prems have "P t" by auto
  with Cons.IH [OF t(2)] Cons.prems(3) show ?case by auto
qed simp

section \<open>Calls that need not return\<close>

text \<open>A call that need not return is an option, \<open>None\<close> if it does not.\<close>

fun orbind :: "'a res option \<Rightarrow> ('a \<Rightarrow> 'b res option) \<Rightarrow> 'b res option" where
  "orbind None f = None"
| "orbind (Some (Inl e)) f = Some (Inl e)"
| "orbind (Some (Inr x)) f = f x"

fun orfold :: "('a \<Rightarrow> 's \<Rightarrow> 's res option) \<Rightarrow> 'a list \<Rightarrow> 's \<Rightarrow> 's res option" where
  "orfold f [] s = Some (Ok s)"
| "orfold f (x # xs) s = orbind (f x s) (orfold f xs)"

lemma orfold_append: "orfold f (xs @ ys) s = orbind (orfold f xs s) (orfold f ys)"
proof (induction xs arbitrary: s)
  case (Cons x xs)
  then show ?case by (cases "(f x s, orfold f xs)" rule: orbind.cases) simp_all
qed simp

lemma orbind_eq: "orbind r f = Option.bind r (\<lambda>x. case x of Inl e \<Rightarrow> Some (Inl e) | Inr y \<Rightarrow> f y)"
  by (cases "(r, f)" rule: orbind.cases) auto

lemma orbind_mono [partial_function_mono]:
  assumes "mono_option r" and "\<And>x. mono_option (\<lambda>F. f F x)"
  shows "mono_option (\<lambda>F. orbind (r F) (f F))"
  unfolding orbind_eq
proof (rule bind_mono [OF assms(1)])
  fix x :: "'c res"
  show "mono_option (\<lambda>F. case x of Inl e \<Rightarrow> Some (Inl e) | Inr y \<Rightarrow> f F y)"
    using assms(2) by (cases x) (simp_all add: option.const_mono)
qed

lemma orfold_mono [partial_function_mono]:
  assumes "\<And>x s. mono_option (\<lambda>F. g F x s)"
  shows "mono_option (\<lambda>F. orfold (g F) xs s)"
proof (induction xs arbitrary: s)
  case Nil
  show ?case by (simp add: option.const_mono)
next
  case (Cons x xs)
  show ?case unfolding orfold.simps by (rule orbind_mono) (rule assms, rule Cons)
qed

fun ofold :: "('a \<Rightarrow> 's \<Rightarrow> 's option) \<Rightarrow> 'a list \<Rightarrow> 's \<Rightarrow> 's option" where
  "ofold f [] s = Some s"
| "ofold f (x # xs) s = Option.bind (f x s) (ofold f xs)"

lemma ofold_mono [partial_function_mono]:
  assumes "\<And>x s. mono_option (\<lambda>F. g F x s)"
  shows "mono_option (\<lambda>F. ofold (g F) xs s)"
proof (induction xs arbitrary: s)
  case Nil
  show ?case by (simp add: option.const_mono)
next
  case (Cons x xs)
  have "mono_option (\<lambda>F. Option.bind (g F x s) (\<lambda>y. ofold (g F) xs y))"
    by (rule bind_mono) (rule assms, rule Cons)
  then show ?case by simp
qed

section \<open>Vectors\<close>

text \<open>\<open>std::vector::resize(n, d)\<close>: keep the first \<open>n\<close> elements, pad with \<open>d\<close>.\<close>

definition vec_resize :: "nat \<Rightarrow> 'a \<Rightarrow> 'a list \<Rightarrow> 'a list" where
  "vec_resize n d xs = take n xs @ replicate (n - length xs) d"

lemma length_vec_resize [simp, vec_simps]: "length (vec_resize n d xs) = n"
  by (simp add: vec_resize_def min_def)

lemma nth_vec_resize [vec_simps]:
  "i < n \<Longrightarrow> vec_resize n d xs ! i = (if i < length xs then xs ! i else d)"
  by (auto simp: vec_resize_def nth_append)

lemma vec_resize_id [simp]: "vec_resize (length xs) d xs = xs"
  by (simp add: vec_resize_def)

text \<open>A read of \<open>v[i]\<close>: undefined behaviour out of range.\<close>

definition vec_at :: "'a list \<Rightarrow> nat \<Rightarrow> 'a res" where
  "vec_at xs i = (if i < length xs then Ok (xs ! i) else Fail Undefined_behaviour)"

lemma vec_at_Ok [simp, vec_simps]: "i < length xs \<Longrightarrow> vec_at xs i = Ok (xs ! i)"
  by (simp add: vec_at_def)

section \<open>Lists\<close>

lemma fold_flag_update:
  "length (fold (\<lambda>i s. if p i then s[i := c] else s) is s) = length s"
  by (induction "is" arbitrary: s) auto

text \<open>A loop over indices that overwrites the marked ones, read back pointwise.\<close>

lemma nth_fold_flag_update:
  assumes "j < length s"
  shows "fold (\<lambda>i s. if p i then s[i := c] else s) is s ! j =
         (if j \<in> set is \<and> p j then c else s ! j)"
  using assms
proof (induction "is" arbitrary: s)
  case (Cons i "is")
  let ?s = "if p i then s[i := c] else s"
  have "j < length ?s" using Cons.prems by simp
  from Cons.IH [OF this] show ?case
    using Cons.prems by (cases "i = j") auto
qed simp

lemma sorted_wrt_filter_upt: "sorted_wrt (<) (filter P [m..<n])"
  by (simp add: sorted_wrt_filter)

section \<open>Words\<close>

lemma unat_eq_unat_iff [simp]: "unat (i :: 'v::len word) = unat j \<longleftrightarrow> i = j"
  by (simp add: word_unat_eq_iff)

lemma unat_Suc_word: "unat (i :: 'v::len word) < 2 ^ LENGTH('v) - 1 \<Longrightarrow> unat (i + 1) = Suc (unat i)"
  by (simp add: unat_word_ariths)

lemma of_nat_unat_less: "n < 2 ^ LENGTH('v) \<Longrightarrow> unat (of_nat n :: 'v::len word) = n"
  by (simp add: unat_of_nat)

lemma inj_on_of_nat: "n \<le> 2 ^ LENGTH('v) \<Longrightarrow> inj_on (of_nat :: nat \<Rightarrow> 'v::len word) {..<n}"
  by (rule inj_onI) (metis lessThan_iff less_le_trans of_nat_unat_less)

lemma unat_bound: "unat (i :: 'v::len word) < 2 ^ LENGTH('v)"
  by (rule unsigned_less)

end
