(* ===== verification/Perfect_Hash.thy ===== *)
theory Perfect_Hash
  imports Ncode_Prelude
begin

text \<open>
  \<open>src/src/perfect_hash.h\<close>: the store that hands out consecutive indices
  (\<open>PHStore_*\<close>), the set of indices kept as a vector of flags (\<open>PHSet_*\<close>) and the map from
  indices kept as a vector of flagged values (\<open>PHMap_*\<close>). An \<open>Index<Tag, V>\<close> is a word of
  V's width and converts to \<open>size_t\<close> with \<open>unat\<close>. The locales \<open>index_set\<close> and
  \<open>index_map\<close> are the contracts the graph code relies on.
\<close>

section \<open>PerfectHashStore\<close>

type_synonym 'a phstore = "'a list"

definition PHStore_AddItem :: "'a phstore \<Rightarrow> 'a \<Rightarrow> ('v::len word \<times> 'a phstore) res" where
  "PHStore_AddItem items item =
     check (length items < 2 ^ LENGTH('v) - 1)
       (Ok (of_nat (length items), items @ [item]))"

definition PHStore_GetItemOrNull :: "'a phstore \<Rightarrow> 'v::len word \<Rightarrow> 'a option" where
  "PHStore_GetItemOrNull items index =
     (if unat index \<ge> length items then None else Some (items ! unat index))"

definition PHStore_GetItemOrDie :: "'a phstore \<Rightarrow> 'v::len word \<Rightarrow> 'a res" where
  "PHStore_GetItemOrDie items index =
     check (unat index < length items) (Ok (items ! unat index))"

definition PHStore_size :: "'a phstore \<Rightarrow> nat" where
  "PHStore_size items = length items"

section \<open>PerfectHashSet\<close>

type_synonym phset = "bool list"

definition PHSet_Empty :: "phset \<Rightarrow> bool" where
  "PHSet_Empty s = (\<not> list_ex (\<lambda>x. x) s)"

definition PHSet_Contains :: "phset \<Rightarrow> 'v::len word \<Rightarrow> bool" where
  "PHSet_Contains s index = (if length s > unat index then s ! unat index else False)"

definition PHSet_Insert :: "phset \<Rightarrow> 'v::len word \<Rightarrow> phset" where
  "PHSet_Insert s index =
     (vec_resize (max (length s) (unat index + 1)) False s)[unat index := True]"

definition PHSet_Remove :: "phset \<Rightarrow> 'v::len word \<Rightarrow> phset" where
  "PHSet_Remove s index = (if length s > unat index then s[unat index := False] else s)"

definition PHSet_Clear :: "phset \<Rightarrow> phset" where
  "PHSet_Clear s = []"

definition PHSet_FullSetFromStore :: "'a phstore \<Rightarrow> phset" where
  "PHSet_FullSetFromStore store = vec_resize (PHStore_size store) True []"

definition PHSet_of_vector :: "'v::len word list \<Rightarrow> phset" where
  "PHSet_of_vector init_v = fold (\<lambda>i s. PHSet_Insert s i) init_v []"

definition PHSet_InsertAll :: "phset \<Rightarrow> phset \<Rightarrow> phset" where
  "PHSet_InsertAll s other =
     fold (\<lambda>i s. if other ! i then s[i := True] else s) [0..<length other]
       (vec_resize (max (length s) (length other)) False s)"

definition PHSet_RemoveAll :: "phset \<Rightarrow> phset \<Rightarrow> phset" where
  "PHSet_RemoveAll s other =
     fold (\<lambda>i s. if other ! i then s[i := False] else s)
       [0..<min (length s) (length other)] s"

text \<open>\<open>Intersection\<close> and \<open>Difference\<close> build their result with \<open>Insert(Index(i))\<close>.\<close>

definition PHSet_Intersection :: "'v::len itself \<Rightarrow> phset \<Rightarrow> phset \<Rightarrow> phset" where
  "PHSet_Intersection _ s other =
     fold (\<lambda>i out. if s ! i \<and> other ! i then PHSet_Insert out (of_nat i :: 'v word) else out)
       [0..<min (length other) (length s)] []"

definition PHSet_Intersects :: "phset \<Rightarrow> phset \<Rightarrow> bool" where
  "PHSet_Intersects s other =
     list_ex (\<lambda>i. s ! i \<and> other ! i) [0..<min (length other) (length s)]"

definition PHSet_Difference :: "'v::len itself \<Rightarrow> phset \<Rightarrow> phset \<Rightarrow> phset" where
  "PHSet_Difference _ s other =
     fold (\<lambda>i out. if other ! i \<and> (i \<ge> length s \<or> \<not> s ! i)
                   then PHSet_Insert out (of_nat i :: 'v word) else out)
       [0..<length other] []"

definition PHSet_DifferenceEmpty :: "phset \<Rightarrow> phset \<Rightarrow> bool" where
  "PHSet_DifferenceEmpty s other =
     (\<not> list_ex (\<lambda>i. other ! i \<and> (i \<ge> length s \<or> \<not> s ! i)) [0..<length other])"

definition PHSet_Count :: "phset \<Rightarrow> nat" where
  "PHSet_Count s = length (filter (\<lambda>x. x) s)"

text \<open>Iteration. \<open>Index(i)\<close> narrows a \<open>size_t\<close> to V, so \<open>begin\<close> and \<open>end\<close> may wrap.\<close>

fun PHSet_first_from :: "phset \<Rightarrow> nat \<Rightarrow> nat" where
  "PHSet_first_from [] i = i"
| "PHSet_first_from (x # xs) i = (if x then i else PHSet_first_from xs (Suc i))"

definition PHSet_begin :: "phset \<Rightarrow> 'v::len word" where
  "PHSet_begin s = of_nat (PHSet_first_from s 0)"

definition PHSet_end :: "phset \<Rightarrow> 'v::len word" where
  "PHSet_end s = of_nat (length s)"

partial_function (option) PHSet_next :: "phset \<Rightarrow> 'v::len word \<Rightarrow> 'v word option" where
  "PHSet_next s index =
     (if unat index = length s then Some index
      else if PHSet_Contains s (index + 1) then Some (index + 1)
      else PHSet_next s (index + 1))"

partial_function (option) PHSet_loop :: "phset \<Rightarrow> 'v::len word \<Rightarrow> 'v word list \<Rightarrow> 'v word list option" where
  "PHSet_loop s it acc =
     (if it \<noteq> PHSet_end s
      then Option.bind (PHSet_next s it) (\<lambda>it'. PHSet_loop s it' (acc @ [it]))
      else Some acc)"

definition PHSet_iterate :: "phset \<Rightarrow> 'v::len word list option" where
  "PHSet_iterate s = PHSet_loop s (PHSet_begin s) []"

text \<open>The members in increasing order: what the loops of the graph code run over.\<close>

definition PHSet_elems :: "phset \<Rightarrow> 'v::len word list" where
  "PHSet_elems s = map of_nat (filter (\<lambda>i. s ! i) [0..<length s])"

text \<open>The comparison operators compare the vectors of flags.\<close>

definition PHSet_eq :: "phset \<Rightarrow> phset \<Rightarrow> bool" where
  "PHSet_eq a b = (a = b)"

definition PHSet_less :: "phset \<Rightarrow> phset \<Rightarrow> bool" where
  "PHSet_less a b = ord_class.lexordp a b"

section \<open>PerfectHashMap\<close>

text \<open>
  \<open>values_.resize(n)\<close> pads with a value-initialised pair, so the operations that grow the
  map take the value \<open>dflt\<close> of the default constructor.
\<close>

type_synonym 'b phmap = "(bool \<times> 'b) list"

definition PHMap_Resize :: "'b \<Rightarrow> 'b phmap \<Rightarrow> nat \<Rightarrow> 'b phmap" where
  "PHMap_Resize dflt m n = vec_resize n (False, dflt) m"

definition PHMap_Add :: "'b \<Rightarrow> 'b phmap \<Rightarrow> 'v::len word \<Rightarrow> 'b \<Rightarrow> 'b phmap" where
  "PHMap_Add dflt m index value =
     (vec_resize (max (length m) (unat index + 1)) (False, dflt) m)[unat index := (True, value)]"

definition PHMap_HasValue :: "'b phmap \<Rightarrow> 'v::len word \<Rightarrow> bool" where
  "PHMap_HasValue m index = (if length m > unat index then fst (m ! unat index) else False)"

definition PHMap_GetValueOrDie :: "'b phmap \<Rightarrow> 'v::len word \<Rightarrow> 'b res" where
  "PHMap_GetValueOrDie m index =
     check (length m > unat index) (check (fst (m ! unat index)) (Ok (snd (m ! unat index))))"

text \<open>
  \<open>operator[]\<close> returns a reference: the slot is created and marked (\<open>PHMap_touch\<close>), and the
  value read through the reference is \<open>PHMap_value\<close>; assigning through it is \<open>PHMap_Add\<close>.
\<close>

definition PHMap_touch :: "'b \<Rightarrow> 'b phmap \<Rightarrow> 'v::len word \<Rightarrow> 'b phmap" where
  "PHMap_touch dflt m index =
     (let m' = vec_resize (max (length m) (unat index + 1)) (False, dflt) m
      in m'[unat index := (True, snd (m' ! unat index))])"

definition PHMap_value :: "'b \<Rightarrow> 'b phmap \<Rightarrow> 'v::len word \<Rightarrow> 'b" where
  "PHMap_value dflt m index = (if length m > unat index then snd (m ! unat index) else dflt)"

definition PHMap_UnsafeAccess :: "'b phmap \<Rightarrow> 'v::len word \<Rightarrow> 'b res" where
  "PHMap_UnsafeAccess m index = rbind (vec_at m (unat index)) (\<lambda>p. Ok (snd p))"

definition PHMap_Clear :: "'b phmap \<Rightarrow> 'b phmap" where
  "PHMap_Clear m = []"

definition PHMap_Count :: "'b phmap \<Rightarrow> nat" where
  "PHMap_Count m = length (filter fst m)"

definition PHMap_Empty :: "'b phmap \<Rightarrow> bool" where
  "PHMap_Empty m = (PHMap_Count m = 0)"

definition PHMap_elems :: "'b phmap \<Rightarrow> ('v::len word \<times> 'b) list" where
  "PHMap_elems m = map (\<lambda>i. (of_nat i, snd (m ! i))) (filter (\<lambda>i. fst (m ! i)) [0..<length m])"

definition PHMap_lookup :: "'b phmap \<Rightarrow> 'v::len word \<Rightarrow> 'b option" where
  "PHMap_lookup m index = (if PHMap_HasValue m index then Some (snd (m ! unat index)) else None)"

section \<open>Membership\<close>

lemma length_PHSet_Insert: "length (PHSet_Insert s i) = max (length s) (unat i + 1)"
  by (simp add: PHSet_Insert_def)

lemma PHSet_Contains_Nil [simp]: "\<not> PHSet_Contains [] i"
  by (simp add: PHSet_Contains_def)

lemma PHSet_Contains_Insert [simp]:
  "PHSet_Contains (PHSet_Insert s i) j \<longleftrightarrow> j = i \<or> PHSet_Contains s j"
  by (auto simp: PHSet_Contains_def PHSet_Insert_def nth_list_update vec_simps)

lemma PHSet_Contains_Remove [simp]:
  "PHSet_Contains (PHSet_Remove s i) j \<longleftrightarrow> j \<noteq> i \<and> PHSet_Contains s j"
  by (auto simp: PHSet_Contains_def PHSet_Remove_def nth_list_update)

lemma PHSet_Contains_Clear [simp]: "\<not> PHSet_Contains (PHSet_Clear s) i"
  by (simp add: PHSet_Clear_def)

lemma PHSet_Contains_FullSet [simp]:
  "PHSet_Contains (PHSet_FullSetFromStore store) i \<longleftrightarrow> unat i < length store"
  by (auto simp: PHSet_Contains_def PHSet_FullSetFromStore_def PHStore_size_def vec_simps)

lemma PHSet_Contains_InsertAll [simp]:
  "PHSet_Contains (PHSet_InsertAll s other) i \<longleftrightarrow> PHSet_Contains s i \<or> PHSet_Contains other i"
  by (auto simp: PHSet_Contains_def PHSet_InsertAll_def fold_flag_update
      nth_fold_flag_update vec_simps)

lemma PHSet_Contains_RemoveAll [simp]:
  "PHSet_Contains (PHSet_RemoveAll s other) i \<longleftrightarrow> PHSet_Contains s i \<and> \<not> PHSet_Contains other i"
  by (auto simp: PHSet_Contains_def PHSet_RemoveAll_def fold_flag_update nth_fold_flag_update)

section \<open>The set contract\<close>

locale index_set =
  fixes empty :: 's
    and mem :: "'s \<Rightarrow> 'i \<Rightarrow> bool"
    and ins :: "'s \<Rightarrow> 'i \<Rightarrow> 's"
    and rem :: "'s \<Rightarrow> 'i \<Rightarrow> 's"
  assumes mem_empty: "\<not> mem empty j"
    and mem_ins: "mem (ins s i) j \<longleftrightarrow> j = i \<or> mem s j"
    and mem_rem: "mem (rem s i) j \<longleftrightarrow> j \<noteq> i \<and> mem s j"
begin

lemma mem_fold_ins_if:
  "mem (fold (\<lambda>x s. if P x then ins s (f x) else s) xs s) j \<longleftrightarrow>
   mem s j \<or> (\<exists>x\<in>set xs. P x \<and> f x = j)"
  by (induction xs arbitrary: s) (auto simp: mem_ins)

lemma mem_fold_ins: "mem (fold (\<lambda>x s. ins s x) xs s) j \<longleftrightarrow> mem s j \<or> j \<in> set xs"
  by (induction xs arbitrary: s) (auto simp: mem_ins)

lemma mem_fold_rem: "mem (fold (\<lambda>x s. rem s x) xs s) j \<longleftrightarrow> mem s j \<and> j \<notin> set xs"
  by (induction xs arbitrary: s) (auto simp: mem_rem)

text \<open>Undoing an insertion, as the path search does when it backtracks.\<close>

lemma mem_rem_ins: "\<not> mem s i \<Longrightarrow> mem (rem (ins s i) i) j \<longleftrightarrow> mem s j"
  by (auto simp: mem_ins mem_rem)

end

interpretation phset: index_set "[]" PHSet_Contains PHSet_Insert PHSet_Remove
  by unfold_locales auto

lemma PHSet_Contains_of_vector [simp]: "PHSet_Contains (PHSet_of_vector xs) i \<longleftrightarrow> i \<in> set xs"
  by (simp add: PHSet_of_vector_def phset.mem_fold_ins)

text \<open>
  \<open>Intersection\<close> and \<open>Difference\<close> narrow positions to V; that is harmless as long as the
  vectors are no longer than V can count.
\<close>

lemma of_nat_eq_unat:
  "k < 2 ^ LENGTH('v) \<Longrightarrow> (of_nat k :: 'v::len word) = i \<longleftrightarrow> k = unat i"
  by (auto simp: of_nat_unat_less)

lemma PHSet_Contains_Intersection:
  fixes i :: "'v::len word"
  assumes "length s \<le> 2 ^ LENGTH('v)"
  shows "PHSet_Contains (PHSet_Intersection TYPE('v) s other) i \<longleftrightarrow>
         PHSet_Contains s i \<and> PHSet_Contains other i"
  unfolding PHSet_Intersection_def phset.mem_fold_ins_if
  using assms by (auto simp: PHSet_Contains_def of_nat_eq_unat)

lemma PHSet_Contains_Difference:
  fixes i :: "'v::len word"
  assumes "length other \<le> 2 ^ LENGTH('v)"
  shows "PHSet_Contains (PHSet_Difference TYPE('v) s other) i \<longleftrightarrow>
         PHSet_Contains other i \<and> \<not> PHSet_Contains s i"
  unfolding PHSet_Difference_def phset.mem_fold_ins_if
  using assms by (auto simp: PHSet_Contains_def of_nat_eq_unat)

lemma PHSet_nth_Contains:
  "length s \<le> 2 ^ LENGTH('v) \<Longrightarrow> k < length s \<Longrightarrow> s ! k = PHSet_Contains s (of_nat k :: 'v::len word)"
  by (simp add: PHSet_Contains_def of_nat_unat_less)

lemma PHSet_Empty_iff:
  assumes "length s \<le> 2 ^ LENGTH('v)"
  shows "PHSet_Empty s \<longleftrightarrow> (\<forall>i :: 'v::len word. \<not> PHSet_Contains s i)"
proof
  assume "PHSet_Empty s"
  then show "\<forall>i :: 'v word. \<not> PHSet_Contains s i"
    by (simp add: PHSet_Empty_def list_ex_length PHSet_Contains_def)
next
  assume *: "\<forall>i :: 'v word. \<not> PHSet_Contains s i"
  with PHSet_nth_Contains [OF assms] have "\<not> s ! k" if "k < length s" for k
    using that by simp
  then show "PHSet_Empty s"
    by (simp add: PHSet_Empty_def list_ex_length)
qed

lemma PHSet_Intersects_iff:
  assumes "length s \<le> 2 ^ LENGTH('v)"
  shows "PHSet_Intersects s other \<longleftrightarrow>
         (\<exists>i :: 'v::len word. PHSet_Contains s i \<and> PHSet_Contains other i)"
proof
  assume "PHSet_Intersects s other"
  then obtain k where "k < length s" "k < length other" "s ! k" "other ! k"
    by (auto simp: PHSet_Intersects_def list_ex_iff)
  with assms have "PHSet_Contains s (of_nat k :: 'v word)" "PHSet_Contains other (of_nat k :: 'v word)"
    by (auto simp: PHSet_Contains_def of_nat_unat_less)
  then show "\<exists>i :: 'v word. PHSet_Contains s i \<and> PHSet_Contains other i" by blast
qed (auto simp: PHSet_Intersects_def list_ex_iff PHSet_Contains_def split: if_splits)

lemma PHSet_DifferenceEmpty_iff:
  assumes "length other \<le> 2 ^ LENGTH('v)"
  shows "PHSet_DifferenceEmpty s other \<longleftrightarrow>
         (\<forall>i :: 'v::len word. PHSet_Contains other i \<longrightarrow> PHSet_Contains s i)"
proof
  assume "PHSet_DifferenceEmpty s other"
  then show "\<forall>i :: 'v word. PHSet_Contains other i \<longrightarrow> PHSet_Contains s i"
    by (fastforce simp: PHSet_DifferenceEmpty_def list_ex_iff PHSet_Contains_def split: if_splits)
next
  assume *: "\<forall>i :: 'v word. PHSet_Contains other i \<longrightarrow> PHSet_Contains s i"
  have "k < length s \<and> s ! k" if "k < length other" "other ! k" for k
    using that assms spec [OF *, of "of_nat k"]
    by (auto simp: PHSet_Contains_def of_nat_unat_less split: if_splits)
  then show "PHSet_DifferenceEmpty s other"
    by (fastforce simp: PHSet_DifferenceEmpty_def list_ex_iff)
qed

section \<open>Iteration\<close>

text \<open>
  As long as the vector is shorter than \<open>2 ^ LENGTH('v)\<close>, \<open>end()\<close> does not wrap and the
  range-based loops visit exactly the members, in increasing order.
\<close>

definition PHSet_members_from :: "phset \<Rightarrow> nat \<Rightarrow> nat list" where
  "PHSet_members_from s k = filter (\<lambda>i. s ! i) [k..<length s]"

lemma PHSet_members_from_step:
  "k < length s \<Longrightarrow>
   PHSet_members_from s k = (if s ! k then k # PHSet_members_from s (Suc k) else PHSet_members_from s (Suc k))"
  by (simp add: PHSet_members_from_def upt_conv_Cons)

lemma PHSet_members_from_end [simp]: "length s \<le> k \<Longrightarrow> PHSet_members_from s k = []"
  by (simp add: PHSet_members_from_def)

definition PHSet_position :: "phset \<Rightarrow> nat \<Rightarrow> nat" where
  "PHSet_position s k = (case PHSet_members_from s k of [] \<Rightarrow> length s | j # _ \<Rightarrow> j)"

lemma PHSet_position_step:
  "k < length s \<Longrightarrow> PHSet_position s k = (if s ! k then k else PHSet_position s (Suc k))"
  by (simp add: PHSet_position_def PHSet_members_from_step)

lemma PHSet_position_bounds: "k \<le> length s \<Longrightarrow> k \<le> PHSet_position s k \<and> PHSet_position s k \<le> length s"
proof (induction "length s - k" arbitrary: k)
  case 0
  then show ?case by (simp add: PHSet_position_def)
next
  case (Suc d)
  have "Suc k \<le> PHSet_position s (Suc k) \<and> PHSet_position s (Suc k) \<le> length s"
    using Suc.hyps(2) by (intro Suc.hyps(1)) auto
  with Suc.hyps(2) show ?case by (auto simp: PHSet_position_step [of k])
qed

lemma PHSet_members_from_position:
  "k \<le> length s \<Longrightarrow> PHSet_members_from s (PHSet_position s k) = PHSet_members_from s k \<and>
     (PHSet_position s k < length s \<longrightarrow> s ! PHSet_position s k)"
proof (induction "length s - k" arbitrary: k)
  case 0
  then show ?case by (simp add: PHSet_position_def)
next
  case (Suc d)
  then show ?case
    using Suc.hyps(1) [of "Suc k"] by (auto simp: PHSet_position_step [of k] PHSet_members_from_step [of k])
qed

lemma PHSet_first_from_position: "PHSet_first_from s i = i + PHSet_position s 0"
proof (induction s arbitrary: i)
  case Nil
  then show ?case by (simp add: PHSet_position_def)
next
  case (Cons x xs)
  have shift: "PHSet_members_from (b # xs) (Suc k) = map Suc (PHSet_members_from xs k)" for b k
    by (simp add: PHSet_members_from_def map_Suc_upt [symmetric] filter_map comp_def del: map_Suc_upt upt_Suc)
  show ?case
  proof -
    have "PHSet_position (b # xs) (Suc 0) = Suc (PHSet_position xs 0)" for b
      by (simp add: PHSet_position_def shift split: list.split)
    then show ?thesis
      using Cons.IH [of "Suc i"] by (simp add: PHSet_position_step [of 0])
  qed
qed

lemma PHSet_next_position:
  assumes "length s < 2 ^ LENGTH('v)" and "unat (i :: 'v::len word) < length s"
  shows "PHSet_next s i = Some (of_nat (PHSet_position s (Suc (unat i))))"
  using assms(2)
proof (induction "length s - unat i" arbitrary: i rule: less_induct)
  case less
  have step: "unat (i + 1) = Suc (unat i)"
    using less.prems assms(1) by (intro unat_Suc_word) simp
  show ?case
  proof (cases "Suc (unat i) < length s")
    case True
    have "PHSet_Contains s (i + 1) = s ! Suc (unat i)"
      using True by (simp add: PHSet_Contains_def step)
    moreover have "of_nat (Suc (unat i)) = i + 1"
      by (simp add: add.commute)
    moreover have "PHSet_next s (i + 1) = Some (of_nat (PHSet_position s (Suc (unat (i + 1)))))"
      using True less.prems less.hyps [of "i + 1"] by (simp add: step)
    ultimately show ?thesis
      using True less.prems
      by (subst PHSet_next.simps) (simp add: PHSet_position_step [of "Suc (unat i)"] step)
  next
    case False
    then have eq: "Suc (unat i) = length s" using less.prems by simp
    have "\<not> PHSet_Contains s (i + 1)"
      by (simp add: PHSet_Contains_def step eq)
    moreover have "PHSet_next s (i + 1) = Some (i + 1)"
      by (subst PHSet_next.simps) (simp add: step eq)
    moreover have "of_nat (length s) = i + 1"
      by (simp add: add.commute flip: eq)
    ultimately show ?thesis
      using less.prems by (subst PHSet_next.simps) (simp add: eq PHSet_position_def)
  qed
qed

lemma PHSet_loop_position:
  assumes "length s < 2 ^ LENGTH('v)" and "k \<le> length s"
  shows "PHSet_loop s (of_nat (PHSet_position s k) :: 'v::len word) acc =
         Some (acc @ map of_nat (PHSet_members_from s k))"
  using assms(2)
proof (induction "length s - k" arbitrary: k acc rule: less_induct)
  case less
  let ?p = "PHSet_position s k"
  let ?it = "of_nat ?p :: 'v word"
  have bounds: "k \<le> ?p" "?p \<le> length s"
    using PHSet_position_bounds [OF less.prems] by auto
  have pos: "unat ?it = ?p" using bounds assms(1) by (intro of_nat_unat_less) simp
  have fin: "?it = PHSet_end s \<longleftrightarrow> ?p = length s"
    using bounds assms(1) by (simp add: PHSet_end_def of_nat_eq_unat of_nat_unat_less)
  show ?case
  proof (cases "?p = length s")
    case True
    with PHSet_members_from_position [OF less.prems] have "PHSet_members_from s k = []"
      by simp
    with True fin show ?thesis
      by (subst PHSet_loop.simps) (simp add: PHSet_end_def)
  next
    case False
    then have lt: "?p < length s" using bounds by simp
    with PHSet_members_from_position [OF less.prems]
    have mem: "PHSet_members_from s k = ?p # PHSet_members_from s (Suc ?p)"
      using PHSet_members_from_step [OF lt] lt by metis
    have nxt: "PHSet_next s ?it = Some (of_nat (PHSet_position s (Suc ?p)))"
      using PHSet_next_position [OF assms(1), of ?it] lt by (simp add: pos)
    have "PHSet_loop s (of_nat (PHSet_position s (Suc ?p)) :: 'v word) (acc @ [?it]) =
          Some ((acc @ [?it]) @ map of_nat (PHSet_members_from s (Suc ?p)))"
      using lt bounds by (intro less.hyps) auto
    with nxt mem fin False show ?thesis
      by (subst PHSet_loop.simps) simp
  qed
qed

lemma PHSet_elems_members: "PHSet_elems s = map of_nat (PHSet_members_from s 0)"
  by (simp add: PHSet_elems_def PHSet_members_from_def)

lemma PHSet_iterate_elems:
  assumes "length s < 2 ^ LENGTH('v)"
  shows "PHSet_iterate s = Some (PHSet_elems s :: 'v::len word list)"
  using PHSet_loop_position [OF assms, of 0 "[]"]
  by (simp add: PHSet_iterate_def PHSet_begin_def PHSet_first_from_position PHSet_elems_members)

lemma set_PHSet_elems:
  assumes "length s \<le> 2 ^ LENGTH('v)"
  shows "set (PHSet_elems s :: 'v::len word list) = {i. PHSet_Contains s i}"
proof -
  have "i \<in> of_nat ` {k. k < length s \<and> s ! k}" if "PHSet_Contains s i" for i :: "'v word"
    using that by (auto simp: PHSet_Contains_def split: if_splits intro!: image_eqI [of _ _ "unat i"])
  then show ?thesis
    using assms by (auto simp: PHSet_elems_def PHSet_nth_Contains)
qed

lemma distinct_PHSet_elems:
  "length s \<le> 2 ^ LENGTH('v) \<Longrightarrow> distinct (PHSet_elems s :: 'v::len word list)"
  unfolding PHSet_elems_def distinct_map
  by (auto intro!: inj_onI simp: of_nat_eq_unat of_nat_unat_less)

lemma length_PHSet_elems: "length (PHSet_elems s :: 'v::len word list) = PHSet_Count s"
proof -
  have "filter (\<lambda>x. x) s = map ((!) s) (filter ((!) s) [0..<length s])"
    by (metis (no_types, lifting) comp_def filter_cong filter_map map_nth)
  then show ?thesis by (simp add: PHSet_elems_def PHSet_Count_def)
qed

lemma PHSet_Count_card:
  assumes "length s \<le> 2 ^ LENGTH('v)"
  shows "PHSet_Count s = card {i :: 'v::len word. PHSet_Contains s i}"
  using distinct_card [OF distinct_PHSet_elems [OF assms]] assms
  by (simp add: length_PHSet_elems set_PHSet_elems)

section \<open>Maps\<close>

lemma PHMap_lookup_Nil [simp]: "PHMap_lookup [] i = None"
  by (simp add: PHMap_lookup_def PHMap_HasValue_def)

lemma PHMap_lookup_Add [simp]:
  "PHMap_lookup (PHMap_Add d m i v) j = (if j = i then Some v else PHMap_lookup m j)"
  by (auto simp: PHMap_lookup_def PHMap_HasValue_def PHMap_Add_def nth_list_update vec_simps)

lemma PHMap_lookup_Resize:
  "length m \<le> n \<Longrightarrow> PHMap_lookup (PHMap_Resize d m n) j = PHMap_lookup m j"
  by (auto simp: PHMap_lookup_def PHMap_HasValue_def PHMap_Resize_def vec_simps)

lemma PHMap_lookup_touch [simp]:
  "PHMap_lookup (PHMap_touch d m i) j =
     (if j = i then Some (PHMap_value d m i) else PHMap_lookup m j)"
  by (auto simp: PHMap_lookup_def PHMap_HasValue_def PHMap_touch_def PHMap_value_def Let_def
      nth_list_update vec_simps)

lemma PHMap_HasValue_lookup: "PHMap_HasValue m i \<longleftrightarrow> PHMap_lookup m i \<noteq> None"
  by (simp add: PHMap_lookup_def)

lemma PHMap_GetValueOrDie_lookup:
  "PHMap_GetValueOrDie m i =
     (case PHMap_lookup m i of None \<Rightarrow> Fail Check_failed | Some v \<Rightarrow> Ok v)"
  by (auto simp: PHMap_GetValueOrDie_def PHMap_lookup_def PHMap_HasValue_def check_def)

text \<open>The contract of the map, and what a sequence of updates leaves behind.\<close>

locale index_map =
  fixes empty :: 'm
    and lookup :: "'m \<Rightarrow> 'i \<Rightarrow> 'b option"
    and upd :: "'m \<Rightarrow> 'i \<Rightarrow> 'b \<Rightarrow> 'm"
  assumes lookup_empty: "lookup empty j = None"
    and lookup_upd: "lookup (upd m i v) j = (if j = i then Some v else lookup m j)"
begin

lemma lookup_fold_upd:
  "lookup (fold (\<lambda>(i, v) m. upd m i v) ps m) j =
     (case map_of (rev ps) j of None \<Rightarrow> lookup m j | Some v \<Rightarrow> Some v)"
  by (induction ps arbitrary: m) (auto simp: lookup_upd map_add_def split: option.split)

lemma lookup_fold_upd_const:
  "lookup (fold (\<lambda>i m. upd m i v) is m) j = (if j \<in> set is then Some v else lookup m j)"
  by (induction "is" arbitrary: m) (auto simp: lookup_upd)

end

interpretation phmap: index_map "[]" PHMap_lookup "PHMap_Add d" for d
  by unfold_locales auto

section \<open>Stores\<close>

lemma PHStore_AddItem_Ok:
  assumes "PHStore_AddItem items x = Ok (i :: 'v::len word, items')"
  shows "unat i = length items \<and> items' = items @ [x] \<and> length items' < 2 ^ LENGTH('v)"
  using assms by (auto simp: PHStore_AddItem_def check_eq_Ok of_nat_unat_less)

lemma PHStore_Get_Add:
  assumes "PHStore_AddItem items x = Ok (i :: 'v::len word, items')"
  shows "PHStore_GetItemOrDie items' i = Ok x"
    and "unat (j :: 'v word) < length items \<Longrightarrow> PHStore_GetItemOrDie items' j = PHStore_GetItemOrDie items j"
  using PHStore_AddItem_Ok [OF assms] by (auto simp: PHStore_GetItemOrDie_def nth_append)

lemma sorted_PHSet_elems:
  assumes "length s \<le> 2 ^ LENGTH('v)"
  shows "sorted_wrt (<) (PHSet_elems s :: 'v::len word list)"
proof -
  have "(of_nat i :: 'v word) < of_nat j" if "i < j" "j < length s" for i j
    using that assms by (simp add: word_less_nat_alt of_nat_unat_less)
  moreover have "sorted_wrt (<) (filter (\<lambda>i. s ! i) [0..<length s])"
    by (rule sorted_wrt_filter_upt)
  ultimately show ?thesis
    unfolding PHSet_elems_def sorted_wrt_map
    by (elim sorted_wrt_mono_rel [rotated]) auto
qed

section \<open>Properties\<close>

text \<open>C37. A range-based loop over a \<open>PerfectHashSet\<close> whose vector is shorter than the index
  type can count terminates and visits every member exactly once, in increasing order.\<close>

theorem PHSet_iteration:
  assumes "length s < 2 ^ LENGTH('v::len)"
  shows "\<exists>es :: 'v word list. PHSet_iterate s = Some es \<and> set es = {i. PHSet_Contains s i} \<and>
           sorted_wrt (<) es \<and> length es = PHSet_Count s"
  using assms
  by (simp add: PHSet_iterate_elems set_PHSet_elems sorted_PHSet_elems length_PHSet_elems)

theorem PHSet_iteration_witness:
  "length [True, False, True] < 2 ^ LENGTH(16) \<and>
   (\<exists>es :: 16 word list. PHSet_iterate [True, False, True] = Some es \<and>
      set es = {i. PHSet_Contains [True, False, True] i} \<and>
      sorted_wrt (<) es \<and> length es = PHSet_Count [True, False, True])"
proof -
  have "length [True, False, True] < 2 ^ LENGTH(16)" by simp
  from this PHSet_iteration [OF this] show ?thesis by (rule conjI)
qed

text \<open>The bound is needed: with 16-bit indices, inserting index 65535 makes the vector
  65536 long, \<open>end()\<close> wraps to 0, and a loop over the two-element set visits nothing.\<close>

theorem PHSet_iteration_wraps:
  "PHSet_iterate (PHSet_of_vector [0, 65535 :: 16 word]) = Some ([] :: 16 word list) \<and>
   PHSet_Contains (PHSet_of_vector [0, 65535 :: 16 word]) (0 :: 16 word) \<and>
   PHSet_Contains (PHSet_of_vector [0, 65535 :: 16 word]) (65535 :: 16 word)"
proof -
  let ?s = "PHSet_of_vector [0, 65535 :: 16 word]"
  have len: "length ?s = 65536"
    by (simp add: PHSet_of_vector_def length_PHSet_Insert)
  have "?s ! 0"
    using PHSet_Contains_of_vector [of "[0, 65535 :: 16 word]" 0] len
    by (simp add: PHSet_Contains_def)
  then have "PHSet_first_from ?s 0 = 0"
    using len by (simp add: PHSet_first_from_position PHSet_position_step)
  then have "(PHSet_begin ?s :: 16 word) = PHSet_end ?s"
    by (simp add: PHSet_begin_def PHSet_end_def len)
  then show ?thesis
    by (simp add: PHSet_iterate_def PHSet_loop.simps)
qed

text \<open>The bulk operations are the set operations on members: \<open>InsertAll\<close> is union,
  \<open>RemoveAll\<close> removes, \<open>Intersection\<close> and \<open>Intersects\<close> are intersection, \<open>Difference\<close> and
  \<open>DifferenceEmpty\<close> are \<open>other\<close> without this set.\<close>

theorem PHSet_algebra:
  fixes i :: "'v::len word"
  assumes "length s \<le> 2 ^ LENGTH('v)" and "length t \<le> 2 ^ LENGTH('v)"
  shows "(PHSet_Contains (PHSet_InsertAll s t) i \<longleftrightarrow> PHSet_Contains s i \<or> PHSet_Contains t i) \<and>
         (PHSet_Contains (PHSet_RemoveAll s t) i \<longleftrightarrow> PHSet_Contains s i \<and> \<not> PHSet_Contains t i) \<and>
         (PHSet_Contains (PHSet_Intersection TYPE('v) s t) i \<longleftrightarrow> PHSet_Contains s i \<and> PHSet_Contains t i) \<and>
         (PHSet_Contains (PHSet_Difference TYPE('v) s t) i \<longleftrightarrow> PHSet_Contains t i \<and> \<not> PHSet_Contains s i) \<and>
         (PHSet_Intersects s t \<longleftrightarrow> (\<exists>k :: 'v word. PHSet_Contains s k \<and> PHSet_Contains t k)) \<and>
         (PHSet_DifferenceEmpty s t \<longleftrightarrow> (\<forall>k :: 'v word. PHSet_Contains t k \<longrightarrow> PHSet_Contains s k)) \<and>
         (PHSet_Empty s \<longleftrightarrow> (\<forall>k :: 'v word. \<not> PHSet_Contains s k)) \<and>
         (PHSet_Count s = card {k :: 'v word. PHSet_Contains s k})"
  using assms
  by (simp_all add: PHSet_Contains_Intersection PHSet_Contains_Difference PHSet_Intersects_iff
      PHSet_DifferenceEmpty_iff PHSet_Empty_iff PHSet_Count_card)

theorem PHSet_algebra_witness:
  "length [True] \<le> 2 ^ LENGTH(16) \<and> length [True, True] \<le> 2 ^ LENGTH(16) \<and>
   PHSet_Contains (PHSet_Difference TYPE(16) [True] [True, True]) (1 :: 16 word)"
proof -
  have "PHSet_Contains [True, True] (1 :: 16 word)" "\<not> PHSet_Contains [True] (1 :: 16 word)"
    by (simp_all add: PHSet_Contains_def)
  moreover have "length [True] \<le> 2 ^ LENGTH(16)" "length [True, True] \<le> 2 ^ LENGTH(16)"
    by simp_all
  ultimately show ?thesis
    using PHSet_algebra [of "[True]" "[True, True]" "1 :: 16 word"] by blast
qed

text \<open>\<open>operator==\<close> on sets is not equality of members: a set from which an element was
  removed differs from the empty set.\<close>

theorem PHSet_eq_not_extensional:
  "\<not> PHSet_eq (PHSet_Remove (PHSet_Insert [] (3 :: 16 word)) (3 :: 16 word)) [] \<and>
   (\<forall>i :: 16 word. \<not> PHSet_Contains (PHSet_Remove (PHSet_Insert [] (3 :: 16 word)) (3 :: 16 word)) i)"
proof -
  have "length (PHSet_Remove (PHSet_Insert [] (3 :: 16 word)) (3 :: 16 word)) = 4"
    by (simp add: PHSet_Remove_def length_PHSet_Insert)
  then show ?thesis by (auto simp: PHSet_eq_def)
qed

text \<open>A store gives a new item the next index, finds it again under that index, keeps
  the earlier items where they were, and every set it can be the source of is iterable.\<close>

theorem PHStore_add_get:
  assumes "PHStore_AddItem items x = Ok (i :: 'v::len word, items')"
  shows "unat i = length items \<and> PHStore_GetItemOrDie items' i = Ok x \<and>
         (\<forall>j :: 'v word. unat j < length items \<longrightarrow>
            PHStore_GetItemOrDie items' j = PHStore_GetItemOrDie items j) \<and>
         length (PHSet_FullSetFromStore items') < 2 ^ LENGTH('v)"
  using PHStore_AddItem_Ok [OF assms] PHStore_Get_Add [OF assms]
  by (auto simp: PHSet_FullSetFromStore_def PHStore_size_def)

theorem PHStore_add_get_witness:
  "PHStore_AddItem [10, 20] (30 :: nat) = Ok (2 :: 16 word, [10, 20, 30]) \<and>
   PHStore_GetItemOrDie [10, 20, 30 :: nat] (2 :: 16 word) = Ok 30"
proof -
  have h: "PHStore_AddItem [10, 20] (30 :: nat) = Ok (2 :: 16 word, [10, 20, 30])"
    by (simp add: PHStore_AddItem_def)
  from PHStore_add_get [OF h] h show ?thesis by simp
qed

text \<open>Read over write for \<open>PerfectHashMap\<close>: after \<open>Add\<close> (or an assignment through
  \<open>operator[]\<close>) the written index yields the value, every other index what it held before,
  and a read of an index that was never written aborts.\<close>

theorem PHMap_read_over_write:
  "PHMap_GetValueOrDie (PHMap_Add d m i v) (j :: 'v::len word) =
     (if j = i then Ok v else PHMap_GetValueOrDie m j) \<and>
   PHMap_GetValueOrDie ([] :: 'b phmap) j = Fail Check_failed"
  by (simp add: PHMap_GetValueOrDie_lookup)

end
