(* ===== verification/Priority_Queue.thy ===== *)
theory Priority_Queue
  imports Ncode_Prelude "HOL-Library.Multiset"
begin

text \<open>
  \<open>VectorPriorityQueue\<close> of \<open>src/src/common.h\<close>: a vector kept as a binary heap with
  \<open>std::push_heap\<close> and \<open>std::pop_heap\<close>. Every comparator of the program compares a key in
  reverse, so \<open>top()\<close> is an element with the least key; the operations here take the key.
  The standard fixes what the two heap algorithms achieve, not how elements with equal keys
  are ordered: the clients use the contract \<open>priority_queue\<close> only, and the interpretation
  shows that sifting up and down in the vector meets it.
\<close>

section \<open>The heap algorithms\<close>

definition heap_parent :: "nat \<Rightarrow> nat" where
  "heap_parent i = (i - 1) div 2"

text \<open>Move the element at \<open>i\<close> towards the root while its key is smaller than its parent's.\<close>

function sift_up :: "('a \<Rightarrow> 'k::linorder) \<Rightarrow> 'a list \<Rightarrow> nat \<Rightarrow> 'a list" where
  "sift_up key xs i =
     (if i = 0 then xs
      else if key (xs ! i) < key (xs ! heap_parent i)
      then sift_up key (xs[i := xs ! heap_parent i, heap_parent i := xs ! i]) (heap_parent i)
      else xs)"
  by pat_completeness auto
termination
  by (relation "measure (\<lambda>(key, xs, i). i)") (auto simp: heap_parent_def)

text \<open>Move the element at \<open>i\<close> towards the leaves, exchanging it with its smaller child.\<close>

definition min_child :: "('a \<Rightarrow> 'k::linorder) \<Rightarrow> 'a list \<Rightarrow> nat \<Rightarrow> nat" where
  "min_child key xs i =
     (if 2 * i + 2 < length xs \<and> key (xs ! (2 * i + 2)) < key (xs ! (2 * i + 1))
      then 2 * i + 2 else 2 * i + 1)"

function sift_down :: "('a \<Rightarrow> 'k::linorder) \<Rightarrow> 'a list \<Rightarrow> nat \<Rightarrow> 'a list" where
  "sift_down key xs i =
     (if 2 * i + 1 < length xs \<and> key (xs ! min_child key xs i) < key (xs ! i)
      then sift_down key (xs[i := xs ! min_child key xs i, min_child key xs i := xs ! i])
             (min_child key xs i)
      else xs)"
  by pat_completeness auto
termination
  by (relation "measure (\<lambda>(key, xs, i). length xs - i)") (auto simp: min_child_def)

declare sift_up.simps [simp del] sift_down.simps [simp del]

section \<open>VectorPriorityQueue\<close>

definition VPQ_empty :: "'a list \<Rightarrow> bool" where
  "VPQ_empty container = (container = [])"

definition VPQ_size :: "'a list \<Rightarrow> nat" where
  "VPQ_size container = length container"

definition VPQ_top :: "'a list \<Rightarrow> 'a res" where
  "VPQ_top container = vec_at container 0"

definition VPQ_emplace :: "('a \<Rightarrow> 'k::linorder) \<Rightarrow> 'a list \<Rightarrow> 'a \<Rightarrow> 'a list" where
  "VPQ_emplace key container x = sift_up key (container @ [x]) (length container)"

text \<open>\<open>pop_heap\<close> moves the last element into the root and sifts it down; \<open>pop_back\<close> drops
  the old root. Popping an empty vector is undefined.\<close>

definition pop_heap_back :: "('a \<Rightarrow> 'k::linorder) \<Rightarrow> 'a list \<Rightarrow> 'a list" where
  "pop_heap_back key container =
     (if tl container = [] then []
      else sift_down key (last (tl container) # butlast (tl container)) 0)"

definition VPQ_pop :: "('a \<Rightarrow> 'k::linorder) \<Rightarrow> 'a list \<Rightarrow> 'a list res" where
  "VPQ_pop key container =
     (if container = [] then Fail Undefined_behaviour else Ok (pop_heap_back key container))"

definition VPQ_PopTop :: "('a \<Rightarrow> 'k::linorder) \<Rightarrow> 'a list \<Rightarrow> ('a \<times> 'a list) res" where
  "VPQ_PopTop key container =
     rbind (VPQ_top container) (\<lambda>x. rbind (VPQ_pop key container) (\<lambda>c. Ok (x, c)))"

section \<open>The heap order\<close>

definition heap_ordered :: "('a \<Rightarrow> 'k::linorder) \<Rightarrow> 'a list \<Rightarrow> bool" where
  "heap_ordered key xs \<longleftrightarrow>
     (\<forall>j. 0 < j \<longrightarrow> j < length xs \<longrightarrow> key (xs ! heap_parent j) \<le> key (xs ! j))"

lemma heap_parent_less: "0 < j \<Longrightarrow> heap_parent j < j"
  by (auto simp: heap_parent_def)

lemma heap_parent_eq_iff: "0 < j \<Longrightarrow> heap_parent j = i \<longleftrightarrow> j = 2 * i + 1 \<or> j = 2 * i + 2"
  by (auto simp: heap_parent_def)

lemma heap_ordered_root:
  "heap_ordered key xs \<Longrightarrow> j < length xs \<Longrightarrow> key (xs ! 0) \<le> key (xs ! j)"
proof (induction j rule: less_induct)
  case (less j)
  show ?case
  proof (cases "j = 0")
    case False
    then have "key (xs ! 0) \<le> key (xs ! heap_parent j)"
      using less.prems heap_parent_less [of j] by (intro less.IH) auto
    also have "\<dots> \<le> key (xs ! j)"
      using less.prems False by (simp add: heap_ordered_def)
    finally show ?thesis .
  qed simp
qed

text \<open>Ordered except possibly between \<open>i\<close> and its parent; \<open>i\<close>'s children fit under it.\<close>

definition ordered_above :: "('a \<Rightarrow> 'k::linorder) \<Rightarrow> 'a list \<Rightarrow> nat \<Rightarrow> bool" where
  "ordered_above key xs i \<longleftrightarrow>
     (\<forall>j. 0 < j \<longrightarrow> j < length xs \<longrightarrow> j \<noteq> i \<longrightarrow> key (xs ! heap_parent j) \<le> key (xs ! j)) \<and>
     (\<forall>j. 0 < j \<longrightarrow> j < length xs \<longrightarrow> 0 < i \<longrightarrow> heap_parent j = i \<longrightarrow>
        key (xs ! heap_parent i) \<le> key (xs ! j))"

lemma ordered_above_swap:
  assumes "ordered_above key xs i" and "0 < i" and "i < length xs"
    and less: "key (xs ! i) < key (xs ! heap_parent i)"
  shows "ordered_above key (xs[i := xs ! heap_parent i, heap_parent i := xs ! i]) (heap_parent i)"
    (is "ordered_above key ?ys ?p")
proof -
  have p: "?p < i" using heap_parent_less [OF assms(2)] .
  have nth: "?ys ! k = (if k = ?p then xs ! i else if k = i then xs ! ?p else xs ! k)"
    if "k < length xs" for k
    using that p assms(3) by (auto simp: nth_list_update)
  have up: "key (xs ! heap_parent j) \<le> key (xs ! j)" if "0 < j" "j < length xs" "j \<noteq> i" for j
    using assms(1) that by (simp add: ordered_above_def)
  have kids: "key (xs ! ?p) \<le> key (xs ! j)" if "0 < j" "j < length xs" "heap_parent j = i" for j
    using assms(1,2) that by (simp add: ordered_above_def)
  have one: "key (?ys ! heap_parent j) \<le> key (?ys ! j)"
    if j: "0 < j" "j < length xs" "j \<noteq> ?p" for j
  proof -
    have lt: "heap_parent j < length xs" using heap_parent_less [OF j(1)] j(2) by simp
    consider "j = i" | "j \<noteq> i" "heap_parent j = i" | "j \<noteq> i" "heap_parent j = ?p"
      | "j \<noteq> i" "heap_parent j \<noteq> i" "heap_parent j \<noteq> ?p" by blast
    then show ?thesis
    proof cases
      case 1
      with less p assms(3) show ?thesis by (simp add: nth)
    next
      case 2
      with kids j p assms(3) show ?thesis by (simp add: nth)
    next
      case 3
      with up [OF j(1,2)] less j p assms(3) show ?thesis by (simp add: nth)
    next
      case 4
      with up [OF j(1,2)] j show ?thesis by (simp add: nth lt)
    qed
  qed
  have two: "key (?ys ! heap_parent ?p) \<le> key (?ys ! j)"
    if j: "0 < j" "j < length xs" "0 < ?p" "heap_parent j = ?p" for j
  proof -
    have pp: "heap_parent ?p < ?p" using heap_parent_less [OF j(3)] .
    have top: "key (xs ! heap_parent ?p) \<le> key (xs ! ?p)"
      using up [of ?p] p j(3) assms(3) by simp
    have jp: "j \<noteq> ?p" using heap_parent_less [OF j(1)] j(4) by simp
    show ?thesis
    proof (cases "j = i")
      case True
      with top pp p assms(3) show ?thesis by (simp add: nth)
    next
      case False
      with up [OF j(1,2)] top j pp p jp show ?thesis by (simp add: nth)
    qed
  qed
  from one two show ?thesis by (simp add: ordered_above_def)
qed

lemma sift_up_heap_ordered:
  "ordered_above key xs i \<Longrightarrow> i < length xs \<Longrightarrow> heap_ordered key (sift_up key xs i)"
proof (induction key xs i rule: sift_up.induct)
  case (1 key xs i)
  show ?case
  proof (cases "i \<noteq> 0 \<and> key (xs ! i) < key (xs ! heap_parent i)")
    case True
    then have "heap_ordered key
        (sift_up key (xs[i := xs ! heap_parent i, heap_parent i := xs ! i]) (heap_parent i))"
      using "1.prems" heap_parent_less [of i]
      by (intro "1.IH" ordered_above_swap) auto
    with True show ?thesis by (subst sift_up.simps) simp
  next
    case False
    with "1.prems" have "heap_ordered key xs"
      by (auto simp: heap_ordered_def ordered_above_def) (metis not_less)
    with False show ?thesis by (subst sift_up.simps) auto
  qed
qed

lemma mset_sift_up: "i < length xs \<Longrightarrow> mset (sift_up key xs i) = mset xs"
proof (induction key xs i rule: sift_up.induct)
  case (1 key xs i)
  show ?case
  proof (cases "i \<noteq> 0 \<and> key (xs ! i) < key (xs ! heap_parent i)")
    case True
    with "1" heap_parent_less [of i] show ?thesis
      by (subst sift_up.simps) (simp add: mset_swap)
  next
    case False
    then show ?thesis by (subst sift_up.simps) auto
  qed
qed

text \<open>Ordered except possibly between \<open>i\<close> and its children; they fit under \<open>i\<close>'s parent.\<close>

definition ordered_below :: "('a \<Rightarrow> 'k::linorder) \<Rightarrow> 'a list \<Rightarrow> nat \<Rightarrow> bool" where
  "ordered_below key xs i \<longleftrightarrow>
     (\<forall>j. 0 < j \<longrightarrow> j < length xs \<longrightarrow> heap_parent j \<noteq> i \<longrightarrow> key (xs ! heap_parent j) \<le> key (xs ! j)) \<and>
     (\<forall>j. 0 < j \<longrightarrow> j < length xs \<longrightarrow> 0 < i \<longrightarrow> heap_parent j = i \<longrightarrow>
        key (xs ! heap_parent i) \<le> key (xs ! j))"

lemma min_child_facts:
  assumes "2 * i + 1 < length xs"
  shows "min_child key xs i < length xs" "i < min_child key xs i"
    "heap_parent (min_child key xs i) = i"
    "0 < j \<Longrightarrow> j < length xs \<Longrightarrow> heap_parent j = i \<Longrightarrow> key (xs ! min_child key xs i) \<le> key (xs ! j)"
  using assms by (auto simp: min_child_def heap_parent_eq_iff not_less less_imp_le)

lemma ordered_below_swap:
  assumes ord: "ordered_below key xs i" and kid: "2 * i + 1 < length xs"
    and less: "key (xs ! min_child key xs i) < key (xs ! i)"
  shows "ordered_below key (xs[i := xs ! min_child key xs i, min_child key xs i := xs ! i])
           (min_child key xs i)" (is "ordered_below key ?ys ?c")
proof -
  have c: "?c < length xs" "i < ?c" "heap_parent ?c = i"
    "0 < j \<Longrightarrow> j < length xs \<Longrightarrow> heap_parent j = i \<Longrightarrow> key (xs ! ?c) \<le> key (xs ! j)" for j
    by (rule min_child_facts [OF kid]; assumption)+
  have nth: "?ys ! k = (if k = ?c then xs ! i else if k = i then xs ! ?c else xs ! k)"
    if "k < length xs" for k
    using that c(1,2) by (auto simp: nth_list_update)
  have up: "key (xs ! heap_parent j) \<le> key (xs ! j)"
    if "0 < j" "j < length xs" "heap_parent j \<noteq> i" for j
    using ord that by (simp add: ordered_below_def)
  have kids: "key (xs ! heap_parent i) \<le> key (xs ! j)"
    if "0 < j" "j < length xs" "0 < i" "heap_parent j = i" for j
    using ord that by (simp add: ordered_below_def)
  have one: "key (?ys ! heap_parent j) \<le> key (?ys ! j)"
    if j: "0 < j" "j < length xs" "heap_parent j \<noteq> ?c" for j
  proof -
    have pj: "heap_parent j < j" using heap_parent_less [OF j(1)] .
    then have lt: "heap_parent j < length xs" using j(2) by simp
    consider "j = i" | "j = ?c" | "j \<noteq> i" "j \<noteq> ?c" "heap_parent j = i"
      | "j \<noteq> i" "j \<noteq> ?c" "heap_parent j \<noteq> i" by blast
    then show ?thesis
    proof cases
      case 1
      with kids [of ?c] c(1-3) j pj show ?thesis by (simp add: nth)
    next
      case 2
      with less c pj show ?thesis by (simp add: nth)
    next
      case 3
      with c(4) [OF j(1,2)] j c(1,2) show ?thesis by (simp add: nth)
    next
      case 4
      with up [OF j(1,2)] j show ?thesis by (simp add: nth lt)
    qed
  qed
  have two: "key (?ys ! heap_parent ?c) \<le> key (?ys ! j)"
    if j: "0 < j" "j < length xs" "heap_parent j = ?c" for j
  proof -
    have "j \<noteq> i" "j \<noteq> ?c" using heap_parent_less [OF j(1)] j(3) c(2) by auto
    with up [OF j(1,2)] j c show ?thesis by (simp add: nth)
  qed
  from one two show ?thesis by (simp add: ordered_below_def)
qed

lemma sift_down_heap_ordered: "ordered_below key xs i \<Longrightarrow> heap_ordered key (sift_down key xs i)"
proof (induction key xs i rule: sift_down.induct)
  case (1 key xs i)
  show ?case
  proof (cases "2 * i + 1 < length xs \<and> key (xs ! min_child key xs i) < key (xs ! i)")
    case True
    then have "heap_ordered key
        (sift_down key (xs[i := xs ! min_child key xs i, min_child key xs i := xs ! i]) (min_child key xs i))"
      using "1.prems" by (intro "1.IH" ordered_below_swap) auto
    with True show ?thesis by (subst sift_down.simps) simp
  next
    case False
    have "key (xs ! i) \<le> key (xs ! j)" if j: "0 < j" "j < length xs" "heap_parent j = i" for j
    proof -
      have kid: "2 * i + 1 < length xs" using j by (auto simp: heap_parent_eq_iff)
      with False have "key (xs ! i) \<le> key (xs ! min_child key xs i)" by simp
      also have "\<dots> \<le> key (xs ! j)" using min_child_facts(4) [OF kid j] .
      finally show ?thesis .
    qed
    with "1.prems" have "heap_ordered key xs"
      by (auto simp: heap_ordered_def ordered_below_def)
    with False show ?thesis by (subst sift_down.simps) auto
  qed
qed

lemma mset_sift_down: "mset (sift_down key xs i) = mset xs"
proof (induction key xs i rule: sift_down.induct)
  case (1 key xs i)
  show ?case
  proof (cases "2 * i + 1 < length xs \<and> key (xs ! min_child key xs i) < key (xs ! i)")
    case True
    then have c: "min_child key xs i < length xs" "i < length xs"
      using min_child_facts(1) [of i xs key] by auto
    from True "1.IH" show ?thesis
      by (subst sift_down.simps) (simp add: mset_swap c)
  next
    case False
    then show ?thesis by (subst sift_down.simps) auto
  qed
qed

section \<open>The contract\<close>

locale priority_queue =
  fixes key :: "'a \<Rightarrow> 'k::linorder"
    and inv :: "'q \<Rightarrow> bool"
    and elems :: "'q \<Rightarrow> 'a multiset"
    and push :: "'q \<Rightarrow> 'a \<Rightarrow> 'q"
    and top :: "'q \<Rightarrow> 'a"
    and pop :: "'q \<Rightarrow> 'q"
  assumes push: "inv q \<Longrightarrow> inv (push q x) \<and> elems (push q x) = add_mset x (elems q)"
    and pop: "inv q \<Longrightarrow> elems q \<noteq> {#} \<Longrightarrow> inv (pop q) \<and> elems (pop q) = elems q - {#top q#}"
    and top: "inv q \<Longrightarrow> elems q \<noteq> {#} \<Longrightarrow> top q \<in># elems q \<and> (\<forall>x. x \<in># elems q \<longrightarrow> key (top q) \<le> key x)"
begin

lemma elems_pop_size: "inv q \<Longrightarrow> elems q \<noteq> {#} \<Longrightarrow> size (elems (pop q)) < size (elems q)"
  using pop [of q] top [of q] by (simp add: size_Diff1_less)

lemma pop_min: "inv q \<Longrightarrow> elems q \<noteq> {#} \<Longrightarrow> x \<in># elems (pop q) \<Longrightarrow> key (top q) \<le> key x"
  using pop [of q] top [of q] by (metis in_diffD)

lemma pushes: "inv q \<Longrightarrow> inv (fold (\<lambda>x q. push q x) xs q) \<and>
   elems (fold (\<lambda>x q. push q x) xs q) = elems q + mset xs"
proof (induction xs arbitrary: q)
  case (Cons x xs)
  have "inv (push q x)" "elems (push q x) = add_mset x (elems q)" using push [OF Cons.prems] by auto
  with Cons.IH [of "push q x"] show ?case by simp
qed simp

end

lemma ordered_above_snoc: "heap_ordered key xs \<Longrightarrow> ordered_above key (xs @ [x]) (length xs)"
  unfolding heap_ordered_def ordered_above_def
proof (intro conjI allI impI)
  fix j
  assume ord: "\<forall>j>0. j < length xs \<longrightarrow> key (xs ! heap_parent j) \<le> key (xs ! j)"
    and j: "0 < j" "j < length (xs @ [x])"
  { assume "j \<noteq> length xs"
    with j heap_parent_less [OF j(1)] ord
    show "key ((xs @ [x]) ! heap_parent j) \<le> key ((xs @ [x]) ! j)"
      by (simp add: nth_append) }
  { assume "heap_parent j = length xs"
    with j heap_parent_less [OF j(1)]
    show "key ((xs @ [x]) ! heap_parent (length xs)) \<le> key ((xs @ [x]) ! j)" by simp }
qed

lemma VPQ_emplace_heap:
  "heap_ordered key c \<Longrightarrow> heap_ordered key (VPQ_emplace key c x)"
  unfolding VPQ_emplace_def by (intro sift_up_heap_ordered ordered_above_snoc) auto

lemma mset_VPQ_emplace: "mset (VPQ_emplace key c x) = add_mset x (mset c)"
  by (simp add: VPQ_emplace_def mset_sift_up)

lemma pop_heap_back_heap:
  assumes "heap_ordered key c"
  shows "heap_ordered key (pop_heap_back key c)"
proof (cases "tl c = []")
  case False
  then obtain x xs z where c: "c = x # xs @ [z]" by (metis list.collapse list.sel(2) rev_exhaust)
  have "ordered_below key (z # xs) 0"
    unfolding ordered_below_def
  proof (intro conjI allI impI)
    fix j assume j: "0 < j" "j < length (z # xs)" "heap_parent j \<noteq> 0"
    have "key (c ! heap_parent j) \<le> key (c ! j)"
      using assms j c by (simp add: heap_ordered_def del: nth_Cons_pos)
    moreover have "heap_parent j < length (z # xs)" using heap_parent_less [OF j(1)] j(2) by simp
    ultimately show "key ((z # xs) ! heap_parent j) \<le> key ((z # xs) ! j)"
      using j c by (auto simp: nth_Cons nth_append split: nat.split)
  qed simp
  with c show ?thesis by (simp add: pop_heap_back_def sift_down_heap_ordered)
qed (simp add: pop_heap_back_def heap_ordered_def)

lemma mset_pop_heap_back: "c \<noteq> [] \<Longrightarrow> mset (pop_heap_back key c) = mset c - {#hd c#}"
proof (cases "tl c = []")
  case False
  assume "c \<noteq> []"
  with False obtain x xs z where c: "c = x # xs @ [z]" by (metis list.collapse rev_exhaust)
  then show ?thesis by (simp add: pop_heap_back_def mset_sift_down)
qed (auto simp: pop_heap_back_def neq_Nil_conv)

interpretation vpq: priority_queue key "heap_ordered key" mset "VPQ_emplace key" hd "pop_heap_back key"
  for key :: "'a \<Rightarrow> 'k::linorder"
proof unfold_locales
  fix q :: "'a list"
  assume q: "heap_ordered key q" "mset q \<noteq> {#}"
  then have ne: "q \<noteq> []" by simp
  have "key (hd q) \<le> key x" if "x \<in> set q" for x
    using that heap_ordered_root [OF q(1)] ne by (auto simp: in_set_conv_nth hd_conv_nth)
  with ne show "hd q \<in># mset q \<and> (\<forall>x. x \<in># mset q \<longrightarrow> key (hd q) \<le> key x)" by simp
qed (auto simp: VPQ_emplace_heap mset_VPQ_emplace pop_heap_back_heap mset_pop_heap_back)

lemma VPQ_PopTop_Ok [simp]:
  "c \<noteq> [] \<Longrightarrow> VPQ_PopTop key c = Ok (hd c, pop_heap_back key c)"
  by (simp add: VPQ_PopTop_def VPQ_top_def VPQ_pop_def hd_conv_nth)

lemma heap_ordered_Nil [simp]: "heap_ordered key []"
  by (simp add: heap_ordered_def)

section \<open>Properties\<close>

text \<open>C36. On a vector in heap order, \<open>emplace\<close> adds exactly the new element and \<open>PopTop\<close> returns an
  element of least key and leaves exactly the others, both keeping the heap order; on an empty
  queue \<open>PopTop\<close> is undefined.\<close>

theorem VPQ_emplace_PopTop:
  assumes "heap_ordered key c"
  shows "heap_ordered key (VPQ_emplace key c x) \<and> mset (VPQ_emplace key c x) = add_mset x (mset c) \<and>
         (c \<noteq> [] \<longrightarrow> (\<exists>y c'. VPQ_PopTop key c = Ok (y, c') \<and> heap_ordered key c' \<and>
            mset c = add_mset y (mset c') \<and> (\<forall>z\<in>set c. key y \<le> key z))) \<and>
         (c = [] \<longrightarrow> VPQ_PopTop key c = Fail Undefined_behaviour)"
proof -
  have "mset c = add_mset (hd c) (mset (pop_heap_back key c))" if "c \<noteq> []"
    using that by (simp add: mset_pop_heap_back)
  moreover have "key (hd c) \<le> key z" if "c \<noteq> []" "z \<in> set c" for z
    using vpq.top [OF assms] that by simp
  moreover have "VPQ_PopTop key [] = Fail Undefined_behaviour"
    by (simp add: VPQ_PopTop_def VPQ_top_def vec_at_def)
  ultimately show ?thesis
    using assms by (auto simp: VPQ_emplace_heap mset_VPQ_emplace pop_heap_back_heap)
qed

theorem VPQ_emplace_PopTop_witness:
  "heap_ordered (\<lambda>x. x) [1, 3, 2 :: nat] \<and>
   (\<exists>c'. VPQ_PopTop (\<lambda>x. x) [1, 3, 2 :: nat] = Ok (1, c') \<and> heap_ordered (\<lambda>x. x) c')"
proof -
  have h: "heap_ordered (\<lambda>x. x) [1, 3, 2 :: nat]"
    by (auto simp: heap_ordered_def heap_parent_def less_Suc_eq)
  from VPQ_emplace_PopTop [OF h, of 0] h show ?thesis by auto
qed

end
