(* ===== verification/Std_Map.thy ===== *)
theory Std_Map
  imports Ncode_Prelude "HOL-Library.List_Lexorder" "HOL-Library.Char_ord"
begin

text \<open>
  \<open>std::map\<close> and \<open>std::set\<close>: ordered containers whose iteration runs in increasing key order.
  A map is the list of its entries sorted by key, a set the sorted list of its elements, so
  that the loops of the program over a container are loops over a list; what is looked up is
  read with \<open>map_of\<close>. \<open>std::string\<close> keys compare as lists of characters do.
\<close>

type_synonym ('k, 'v) smap = "('k \<times> 'v) list"

section \<open>Operations\<close>

fun smap_put :: "'k::linorder \<Rightarrow> 'v \<Rightarrow> ('k, 'v) smap \<Rightarrow> ('k, 'v) smap" where
  "smap_put k v [] = [(k, v)]"
| "smap_put k v ((k', v') # m) =
     (if k < k' then (k, v) # (k', v') # m
      else if k = k' then (k, v) # m
      else (k', v') # smap_put k v m)"

definition smap_del :: "'k \<Rightarrow> ('k, 'v) smap \<Rightarrow> ('k, 'v) smap" where
  "smap_del k m = filter (\<lambda>e. fst e \<noteq> k) m"

text \<open>\<open>m[k]\<close> read through \<open>operator[]\<close>, which inserts \<open>d\<close> for a missing key.\<close>

definition smap_get :: "'v \<Rightarrow> 'k \<Rightarrow> ('k, 'v) smap \<Rightarrow> 'v" where
  "smap_get d k m = (case map_of m k of None \<Rightarrow> d | Some v \<Rightarrow> v)"

definition smap_upd :: "'v \<Rightarrow> 'k::linorder \<Rightarrow> ('v \<Rightarrow> 'v) \<Rightarrow> ('k, 'v) smap \<Rightarrow> ('k, 'v) smap" where
  "smap_upd d k f m = smap_put k (f (smap_get d k m)) m"

text \<open>\<open>FindOrDie\<close> of \<open>map_util.h\<close>.\<close>

definition FindOrDie :: "('k, 'v) smap \<Rightarrow> 'k \<Rightarrow> 'v res" where
  "FindOrDie m k = (case map_of m k of None \<Rightarrow> Fail Check_failed | Some v \<Rightarrow> Ok v)"

definition smap_wf :: "('k::linorder, 'v) smap \<Rightarrow> bool" where
  "smap_wf m \<longleftrightarrow> sorted_wrt (<) (map fst m)"

section \<open>Laws\<close>

lemma map_of_smap_put [simp]:
  "smap_wf m \<Longrightarrow> map_of (smap_put k v m) k' = (if k' = k then Some v else map_of m k')"
proof (induction k v m rule: smap_put.induct)
  case (2 k v j w m)
  have "map_of m j = None" if "j < k" using that 2(2) by (auto simp: smap_wf_def map_of_eq_None_iff)
  with 2 show ?case by (auto simp: smap_wf_def)
qed auto

lemma set_fst_smap_put: "fst ` set (smap_put k v m) = insert k (fst ` set m)"
  by (induction k v m rule: smap_put.induct) auto

lemma smap_wf_put [simp]: "smap_wf m \<Longrightarrow> smap_wf (smap_put k v m)"
proof (induction k v m rule: smap_put.induct)
  case (2 k v j w m)
  have "\<forall>a \<in> fst ` set (smap_put k v m). j < a" if "j < k"
    using 2(2) that unfolding set_fst_smap_put by (auto simp: smap_wf_def)
  with 2 show ?case by (auto simp: smap_wf_def)
qed (auto simp: smap_wf_def)

lemma smap_wf_Nil [simp]: "smap_wf []"
  by (simp add: smap_wf_def)

lemma smap_wf_distinct: "smap_wf m \<Longrightarrow> distinct (map fst m)"
  by (simp add: smap_wf_def strict_sorted_iff)

lemma map_of_smap_del [simp]: "map_of (smap_del k m) k' = (if k' = k then None else map_of m k')"
  by (induction m) (auto simp: smap_del_def)

lemma smap_wf_del [simp]: "smap_wf m \<Longrightarrow> smap_wf (smap_del k m)"
  by (induction m) (auto simp: smap_wf_def smap_del_def)

lemma smap_get_put: "smap_wf m \<Longrightarrow> smap_get d k' (smap_put k v m) = (if k' = k then v else smap_get d k' m)"
  by (simp add: smap_get_def)

lemma smap_wf_upd [simp]: "smap_wf m \<Longrightarrow> smap_wf (smap_upd d k f m)"
  by (simp add: smap_upd_def)

lemma map_of_smap_upd [simp]:
  "smap_wf m \<Longrightarrow> map_of (smap_upd d k f m) k' =
     (if k' = k then Some (f (smap_get d k m)) else map_of m k')"
  by (simp add: smap_upd_def)

lemma smap_mem_iff: "smap_wf m \<Longrightarrow> (k, v) \<in> set m \<longleftrightarrow> map_of m k = Some v"
  using smap_wf_distinct [of m] by (simp add: map_of_eq_Some_iff)

lemma FindOrDie_Ok [simp]: "FindOrDie m k = Ok v \<longleftrightarrow> map_of m k = Some v"
  by (simp add: FindOrDie_def split: option.split)

section \<open>The contract\<close>

text \<open>What the clients use of an ordered map: reads after writes, and the iteration order.\<close>

locale ordered_map =
  fixes wf :: "'m \<Rightarrow> bool"
    and entries :: "'m \<Rightarrow> ('k::linorder \<times> 'v) list"
    and look :: "'m \<Rightarrow> 'k \<Rightarrow> 'v option"
    and put :: "'k \<Rightarrow> 'v \<Rightarrow> 'm \<Rightarrow> 'm"
  assumes wf_put: "wf m \<Longrightarrow> wf (put k v m)"
    and look_put: "wf m \<Longrightarrow> look (put k v m) k' = (if k' = k then Some v else look m k')"
    and entries_look: "wf m \<Longrightarrow> (k, v) \<in> set (entries m) \<longleftrightarrow> look m k = Some v"
    and entries_sorted: "wf m \<Longrightarrow> sorted_wrt (<) (map fst (entries m))"
begin

lemma entries_put: "wf m \<Longrightarrow> set (entries (put k v m)) = insert (k, v) {e \<in> set (entries m). fst e \<noteq> k}"
  using wf_put [of m k v] by (auto simp: entries_look look_put split: if_splits)

lemma wf_fold_put: "wf m \<Longrightarrow> wf (fold (\<lambda>x. put (f x) (g x)) xs m)"
  by (induction xs arbitrary: m) (auto simp: wf_put)

lemma look_fold_put:
  "wf m \<Longrightarrow> look (fold (\<lambda>x. put (f x) (g x)) xs m) k =
     (case map_of (rev (map (\<lambda>x. (f x, g x)) xs)) k of None \<Rightarrow> look m k | Some v \<Rightarrow> Some v)"
  by (induction xs arbitrary: m) (auto simp: wf_put look_put map_add_def split: option.split)

lemma entries_distinct: "wf m \<Longrightarrow> distinct (map fst (entries m))"
  using entries_sorted [of m] by (simp add: strict_sorted_iff)

end

interpretation smap: ordered_map smap_wf "\<lambda>m. m" map_of smap_put
  by unfold_locales (auto simp: smap_mem_iff, simp add: smap_wf_def)

section \<open>Sets\<close>

definition sset_insert :: "'k::linorder \<Rightarrow> 'k list \<Rightarrow> 'k list" where
  "sset_insert k s = (if k \<in> set s then s else insort k s)"

definition sset_wf :: "'k::linorder list \<Rightarrow> bool" where
  "sset_wf s \<longleftrightarrow> sorted_wrt (<) s"

lemma set_sset_insert [simp]: "set (sset_insert k s) = insert k (set s)"
  by (auto simp: sset_insert_def set_insort_key)

lemma sset_wf_insert [simp]: "sset_wf s \<Longrightarrow> sset_wf (sset_insert k s)"
  by (auto simp: sset_wf_def sset_insert_def strict_sorted_iff sorted_insort distinct_insort)

end
