(* ===== verification/Net_Types.thy ===== *)
theory Net_Types
  imports Ncode_Prelude "HOL-Library.Product_Lexorder"
begin

text \<open>
  The scalar types of \<open>src/src/net/net_common.h\<close>: addresses, ports and protocols as machine
  words, \<open>FiveTuple\<close> with its hash and ordering, \<open>Bandwidth\<close>, and \<open>IPRange\<close> with
  \<open>MaskAddress\<close>. An \<open>IPAddress\<close> holds the address in network byte order, as \<open>inet_pton\<close> leaves
  it; \<open>ntohl\<close> and \<open>htonl\<close> are those of a little-endian host. The string conversions and the
  scaling of a bandwidth by a \<open>double\<close> are left out.
\<close>

unbundle bit_operations_syntax

type_synonym IPAddress = "32 word"
type_synonym AccessLayerPort = "16 word"
type_synonym IPProto = "8 word"
type_synonym DevicePortNumber = "32 word"
type_synonym Bandwidth = "64 word"

text \<open>\<open>std::chrono::microseconds\<close>: a signed 64-bit count.\<close>

type_synonym Delay = int

section \<open>Bandwidth\<close>

definition Bandwidth_FromBitsPerSecond :: "64 word \<Rightarrow> Bandwidth" where
  "Bandwidth_FromBitsPerSecond bps = bps"

definition Bandwidth_Zero :: Bandwidth where
  "Bandwidth_Zero = Bandwidth_FromBitsPerSecond 0"

definition Bandwidth_Max :: Bandwidth where
  "Bandwidth_Max = Bandwidth_FromBitsPerSecond (- 1)"

definition Bandwidth_plus_assign :: "Bandwidth \<Rightarrow> Bandwidth \<Rightarrow> Bandwidth" where
  "Bandwidth_plus_assign m_val other = m_val + other"

definition Bandwidth_minus_assign :: "Bandwidth \<Rightarrow> Bandwidth \<Rightarrow> Bandwidth" where
  "Bandwidth_minus_assign m_val other = m_val - other"

section \<open>FiveTuple\<close>

record FiveTuple =
  ft_ip_src :: IPAddress
  ft_ip_dst :: IPAddress
  ft_ip_proto :: IPProto
  ft_src_port :: AccessLayerPort
  ft_dst_port :: AccessLayerPort
  ft_hash :: "64 word"

text \<open>
  The 8- and 16-bit operands are promoted and the 32-bit addresses are \<open>unsigned int\<close>: the sum
  is computed modulo \<open>2 ^ 32\<close> and widened when it is returned.
\<close>

definition FiveTuple_GetHash ::
    "IPAddress \<Rightarrow> IPAddress \<Rightarrow> IPProto \<Rightarrow> AccessLayerPort \<Rightarrow> AccessLayerPort \<Rightarrow> 64 word" where
  "FiveTuple_GetHash ip_src ip_dst ip_proto src_port dst_port =
     ucast (37 * (37 * (37 * (37 * (37 * 17 + ucast ip_proto) + ip_src) + ip_dst)
              + ucast src_port) + ucast dst_port :: 32 word)"

definition FiveTuple_default :: FiveTuple where
  "FiveTuple_default =
     \<lparr>ft_ip_src = 0, ft_ip_dst = 0, ft_ip_proto = 0, ft_src_port = 0, ft_dst_port = 0, ft_hash = 0\<rparr>"

definition FiveTuple_new ::
    "IPAddress \<Rightarrow> IPAddress \<Rightarrow> IPProto \<Rightarrow> AccessLayerPort \<Rightarrow> AccessLayerPort \<Rightarrow> FiveTuple" where
  "FiveTuple_new ip_src ip_dst ip_proto src_port dst_port =
     \<lparr>ft_ip_src = ip_src, ft_ip_dst = ip_dst, ft_ip_proto = ip_proto, ft_src_port = src_port,
      ft_dst_port = dst_port, ft_hash = FiveTuple_GetHash ip_src ip_dst ip_proto src_port dst_port\<rparr>"

definition FiveTuple_Reverse :: "FiveTuple \<Rightarrow> FiveTuple" where
  "FiveTuple_Reverse t =
     FiveTuple_new (ft_ip_dst t) (ft_ip_src t) (ft_ip_proto t) (ft_dst_port t) (ft_src_port t)"

definition FiveTuple_tie ::
    "FiveTuple \<Rightarrow> IPAddress \<times> IPAddress \<times> IPProto \<times> AccessLayerPort \<times> AccessLayerPort" where
  "FiveTuple_tie t = (ft_ip_src t, ft_ip_dst t, ft_ip_proto t, ft_src_port t, ft_dst_port t)"

definition FiveTuple_eq :: "FiveTuple \<Rightarrow> FiveTuple \<Rightarrow> bool" where
  "FiveTuple_eq a b = (FiveTuple_tie a = FiveTuple_tie b)"

text \<open>\<open>operator<\<close> of \<open>std::tuple\<close>: the first component that differs decides.\<close>

definition FiveTuple_less :: "FiveTuple \<Rightarrow> FiveTuple \<Rightarrow> bool" where
  "FiveTuple_less a b = (FiveTuple_tie a < FiveTuple_tie b)"

section \<open>Addresses and ranges\<close>

text \<open>Reversing the four bytes of a word.\<close>

definition bswap32 :: "32 word \<Rightarrow> 32 word" where
  "bswap32 x =
     push_bit 24 x OR (push_bit 8 x AND push_bit 16 (mask 8)) OR
     (drop_bit 8 x AND push_bit 8 (mask 8)) OR drop_bit 24 x"

definition ntohl :: "32 word \<Rightarrow> 32 word" where
  "ntohl = bswap32"

definition htonl :: "32 word \<Rightarrow> 32 word" where
  "htonl = bswap32"

definition kMaxIPAddressMaskLen :: "8 word" where
  "kMaxIPAddressMaskLen = 32"

definition MaskAddress :: "IPAddress \<Rightarrow> 8 word \<Rightarrow> IPAddress res" where
  "MaskAddress ip_address mask_len =
     check (mask_len \<le> kMaxIPAddressMaskLen)
       (let m = push_bit (unat (kMaxIPAddressMaskLen - mask_len)) (NOT 0 :: 64 word)
        in Ok (htonl (ucast ((ucast (ntohl ip_address) :: 64 word) AND m))))"

record IPRange =
  rng_base_address :: IPAddress
  rng_mask_len :: "8 word"

definition IPRange_Init :: "IPAddress \<Rightarrow> 8 word \<Rightarrow> IPRange res" where
  "IPRange_Init address mask_len =
     rbind (MaskAddress address mask_len)
       (\<lambda>base. Ok \<lparr>rng_base_address = base, rng_mask_len = mask_len\<rparr>)"

definition IPRange_eq :: "IPRange \<Rightarrow> IPRange \<Rightarrow> bool" where
  "IPRange_eq a b = ((rng_base_address a, rng_mask_len a) = (rng_base_address b, rng_mask_len b))"

definition IPRange_less :: "IPRange \<Rightarrow> IPRange \<Rightarrow> bool" where
  "IPRange_less a b =
     (let a_host_order = ntohl (rng_base_address a); b_host_order = ntohl (rng_base_address b)
      in a_host_order < b_host_order \<or>
         \<not> b_host_order < a_host_order \<and> rng_mask_len a < rng_mask_len b)"

definition IPRange_Contains :: "IPRange \<Rightarrow> IPRange \<Rightarrow> bool res" where
  "IPRange_Contains r other =
     (if rng_mask_len r = 0 then Ok True
      else if rng_mask_len other < rng_mask_len r then Ok False
      else rbind (IPRange_Init (rng_base_address other) (rng_mask_len r)) (\<lambda>t. Ok (IPRange_eq t r)))"

text \<open>
  The loop over \<open>i\<close>, counted in bits already matched. \<open>i\<close> is a \<open>uint8_t\<close> that stays at most 33,
  so it does not wrap.
\<close>

fun prefix_match_from :: "32 word \<Rightarrow> 32 word \<Rightarrow> nat \<Rightarrow> nat \<Rightarrow> nat" where
  "prefix_match_from address_one address_two i 0 = i"
| "prefix_match_from address_one address_two i (Suc left) =
     (if address_one AND push_bit (32 - i) 1 \<noteq> address_two AND push_bit (32 - i) 1 then i
      else prefix_match_from address_one address_two (Suc i) left)"

definition IPRange_PrefixMatchLen :: "IPRange \<Rightarrow> IPRange \<Rightarrow> nat" where
  "IPRange_PrefixMatchLen r other =
     (let max_len = unat (min (rng_mask_len r) (rng_mask_len other))
      in prefix_match_from (ntohl (rng_base_address r)) (ntohl (rng_base_address other)) 1 max_len - 1)"

section \<open>Lemmas\<close>

lemma bit_bswap32:
  "bit (bswap32 x) n \<longleftrightarrow>
     n < 32 \<and> bit x (if n < 8 then n + 24 else if n < 16 then n + 8 else if n < 24 then n - 8 else n - 24)"
proof -
  have "\<not> bit x k" if "k \<ge> 32" for k using that by (simp add: bit_word.rep_eq)
  then show ?thesis
    by (auto simp: bswap32_def bit_simps add.commute)
qed

lemma bswap32_bswap32 [simp]: "bswap32 (bswap32 x) = x"
  by (rule bit_word_eqI) (auto simp: bit_bswap32)

lemma ntohl_htonl [simp]: "ntohl (htonl x) = x" "htonl (ntohl x) = x"
  by (simp_all add: ntohl_def htonl_def)

lemma ntohl_eq_iff [simp]: "ntohl x = ntohl y \<longleftrightarrow> x = y"
  by (metis ntohl_htonl(2))

text \<open>Masking keeps the leading bits of the address in host order.\<close>

definition masked :: "IPAddress \<Rightarrow> nat \<Rightarrow> IPAddress" where
  "masked a m = htonl (ntohl a AND push_bit (32 - m) (NOT 0))"

lemma bit_masked: "m \<le> 32 \<Longrightarrow> bit (ntohl (masked a m)) n \<longleftrightarrow> bit (ntohl a) n \<and> 32 - m \<le> n \<and> n < 32"
  by (auto simp: masked_def bit_simps)

lemma MaskAddress_masked: "m \<le> 32 \<Longrightarrow> MaskAddress a m = Ok (masked a (unat m))"
proof -
  assume m: "m \<le> 32"
  then have u: "unat m \<le> 32" "unat (32 - m) = 32 - unat m"
    by (simp_all add: word_le_nat_alt unat_sub)
  have "(ucast ((ucast x :: 64 word) AND push_bit (32 - unat m) (NOT 0)) :: 32 word) =
        x AND push_bit (32 - unat m) (NOT 0)" for x :: "32 word"
    by (rule bit_word_eqI) (use u in \<open>auto simp: bit_simps\<close>)
  with m u show ?thesis
    by (simp add: MaskAddress_def kMaxIPAddressMaskLen_def masked_def Let_def)
qed


lemma MaskAddress_too_long: "\<not> m \<le> 32 \<Longrightarrow> MaskAddress a m = Fail Check_failed"
  by (simp add: MaskAddress_def kMaxIPAddressMaskLen_def)

lemma masked_eq_iff:
  "m \<le> 32 \<Longrightarrow> masked a m = masked b m \<longleftrightarrow>
     (\<forall>n. 32 - m \<le> n \<longrightarrow> n < 32 \<longrightarrow> bit (ntohl a) n = bit (ntohl b) n)"
  by (subst ntohl_eq_iff [symmetric], subst bit_eq_iff) (auto simp: bit_masked)

lemma masked_masked: "m \<le> k \<Longrightarrow> k \<le> 32 \<Longrightarrow> masked (masked a k) m = masked a m"
  by (auto simp: masked_eq_iff bit_masked)

lemma masked_mono_eq: "m \<le> k \<Longrightarrow> k \<le> 32 \<Longrightarrow> masked a k = masked b k \<Longrightarrow> masked a m = masked b m"
  by (auto simp: masked_eq_iff)

lemma IPRange_Init_Ok:
  "IPRange_Init a m = Ok r \<longleftrightarrow> m \<le> 32 \<and> r = \<lparr>rng_base_address = masked a (unat m), rng_mask_len = m\<rparr>"
  by (cases "m \<le> 32") (auto simp: IPRange_Init_def MaskAddress_masked MaskAddress_too_long)

text \<open>The addresses a range stands for.\<close>

definition covered :: "IPRange \<Rightarrow> IPAddress set" where
  "covered r = {x. MaskAddress x (rng_mask_len r) = Ok (rng_base_address r)}"

lemma covered_Init:
  "m \<le> 32 \<Longrightarrow> covered \<lparr>rng_base_address = masked a (unat m), rng_mask_len = m\<rparr> =
     {x. masked x (unat m) = masked a (unat m)}"
  by (simp add: covered_def MaskAddress_masked)

text \<open>A shorter mask covers an address that disagrees in the next bit.\<close>

lemma masked_shorter_differs:
  assumes "k < m" and "m \<le> 32"
  shows "\<exists>x. masked x k = masked b k \<and> masked x m \<noteq> masked b m"
proof -
  let ?x = "htonl (flip_bit (32 - m) (ntohl b))"
  have bits: "bit (flip_bit (32 - m) (ntohl b)) n \<longleftrightarrow> n < 32 \<and> (bit (ntohl b) n \<noteq> (n = 32 - m))" for n
    using assms by (auto simp: bit_simps)
  have "masked ?x k = masked b k"
    using assms by (auto simp: masked_eq_iff bits)
  moreover have "masked ?x m \<noteq> masked b m"
    using assms by (auto simp: masked_eq_iff bits intro!: exI [of _ "32 - m"])
  ultimately show ?thesis by blast
qed

lemma masked_subset_iff:
  assumes "m \<le> 32" and "k \<le> 32"
  shows "{x. masked x k = masked b k} \<subseteq> {x. masked x m = masked a m} \<longleftrightarrow>
         m = 0 \<or> m \<le> k \<and> masked b m = masked a m" (is "?K \<subseteq> ?M \<longleftrightarrow> _")
proof (cases "m \<le> k")
  case True
  have zero: "masked x 0 = masked y 0" for x y by (simp add: masked_eq_iff)
  have "?K \<subseteq> ?M \<longleftrightarrow> masked b m = masked a m"
  proof
    assume "?K \<subseteq> ?M"
    then have "b \<in> ?M" by (rule subsetD) simp
    then show "masked b m = masked a m" by simp
  next
    assume eq: "masked b m = masked a m"
    show "?K \<subseteq> ?M"
    proof
      fix x assume "x \<in> ?K"
      then have "masked x k = masked b k" by simp
      from masked_mono_eq [OF True assms(2) this] eq show "x \<in> ?M" by simp
    qed
  qed
  moreover have "masked b m = masked a m" if "m = 0" using that zero by simp
  ultimately show ?thesis using True by blast
next
  case False
  then obtain x where x: "masked x k = masked b k" "masked x m \<noteq> masked b m"
    using masked_shorter_differs assms by (meson not_le)
  have "\<not> ?K \<subseteq> ?M"
  proof
    assume "?K \<subseteq> ?M"
    then have "b \<in> ?M" "x \<in> ?M" using x(1) by (auto elim!: subsetD)
    with x(2) show False by simp
  qed
  with False show ?thesis by auto
qed

lemma IPRange_Contains_masked:
  assumes "IPRange_Init a m = Ok r" and "IPRange_Init b k = Ok other"
  shows "IPRange_Contains r other =
         Ok (unat m = 0 \<or> unat m \<le> unat k \<and> masked b (unat m) = masked a (unat m))"
proof -
  have mk: "m \<le> 32" "k \<le> 32" "unat m \<le> 32" "unat k \<le> 32"
    and r: "r = \<lparr>rng_base_address = masked a (unat m), rng_mask_len = m\<rparr>"
    and o: "other = \<lparr>rng_base_address = masked b (unat k), rng_mask_len = k\<rparr>"
    using assms by (auto simp: IPRange_Init_Ok word_le_nat_alt)
  have init: "IPRange_Init (masked b (unat k)) m =
      Ok \<lparr>rng_base_address = masked (masked b (unat k)) (unat m), rng_mask_len = m\<rparr>"
    using mk by (simp add: IPRange_Init_Ok)
  show ?thesis
    using mk by (auto simp: IPRange_Contains_def r o init IPRange_eq_def masked_masked
        word_less_nat_alt unat_eq_0)
qed

lemma and_exp_eq_iff:
  "x AND 2 ^ k = y AND 2 ^ k \<longleftrightarrow> (k < 32 \<longrightarrow> bit x k = bit (y :: 32 word) k)"
  by (subst bit_eq_iff) (auto simp: bit_simps)

lemma prefix_match_from_spec:
  assumes "1 \<le> i" and "i + left \<le> 33"
  shows "let n = prefix_match_from x y i left - 1 in i - 1 \<le> n \<and> n < i + left \<and>
     (\<forall>j. i - 1 \<le> j \<longrightarrow> j < n \<longrightarrow> bit x (31 - j) = bit y (31 - j)) \<and>
     (n < i + left - 1 \<longrightarrow> bit x (31 - n) \<noteq> bit y (31 - n))"
  using assms
proof (induction x y i left rule: prefix_match_from.induct)
  case (2 x y i left)
  have i: "31 - (i - 1) = 32 - i" "32 - i < 32" using 2(2) by auto
  show ?case
  proof (cases "bit x (32 - i) = bit y (32 - i)")
    case True
    have eq: "prefix_match_from x y i (Suc left) = prefix_match_from x y (Suc i) left"
      using True by (auto simp: and_exp_eq_iff)
    have IH: "let n = prefix_match_from x y (Suc i) left - 1 in Suc i - 1 \<le> n \<and> n < Suc i + left \<and>
       (\<forall>j. Suc i - 1 \<le> j \<longrightarrow> j < n \<longrightarrow> bit x (31 - j) = bit y (31 - j)) \<and>
       (n < Suc i + left - 1 \<longrightarrow> bit x (31 - n) \<noteq> bit y (31 - n))"
      by (rule 2(1)) (use 2(2,3) True in \<open>simp_all add: and_exp_eq_iff\<close>)
    have "bit x (31 - j) = bit y (31 - j)" if "i - 1 \<le> j" "j < prefix_match_from x y (Suc i) left - 1" for j
    proof (cases "j = i - 1")
      case True
      then have "31 - j = 32 - i" using 2(2) by linarith
      with \<open>bit x (32 - i) = bit y (32 - i)\<close> show ?thesis by (simp only:)
    next
      case False
      with that have "Suc i - 1 \<le> j" by simp
      with that(2) IH show ?thesis unfolding Let_def by blast
    qed
    then have all: "\<forall>j. i - 1 \<le> j \<longrightarrow> j < prefix_match_from x y (Suc i) left - 1 \<longrightarrow>
        bit x (31 - j) = bit y (31 - j)" by blast
    have ar: "i + Suc left - 1 = Suc i + left - 1" "i + Suc left = Suc i + left" by simp_all
    have "i - 1 \<le> prefix_match_from x y (Suc i) left - 1" using IH unfolding Let_def by linarith
    with all IH show ?thesis unfolding eq Let_def ar by blast
  next
    case False
    then show ?thesis using i 2(2,3) by (auto simp: and_exp_eq_iff Let_def)
  qed
qed simp

lemma IPRange_PrefixMatchLen_spec:
  assumes "rng_mask_len r \<le> 32" and "rng_mask_len other \<le> 32"
  defines "x \<equiv> ntohl (rng_base_address r)" and "y \<equiv> ntohl (rng_base_address other)"
    and "n \<equiv> IPRange_PrefixMatchLen r other"
    and "l \<equiv> min (unat (rng_mask_len r)) (unat (rng_mask_len other))"
  shows "n \<le> l \<and> (\<forall>j<n. bit x (31 - j) = bit y (31 - j)) \<and>
         (n < l \<longrightarrow> bit x (31 - n) \<noteq> bit y (31 - n))"
proof -
  have l: "unat (min (rng_mask_len r) (rng_mask_len other)) = l"
    by (simp add: l_def min_def word_le_nat_alt)
  have "1 + l \<le> 33" using assms(1) by (simp add: l_def word_le_nat_alt)
  from prefix_match_from_spec [OF order_refl this, of x y] show ?thesis
    unfolding n_def IPRange_PrefixMatchLen_def l x_def [symmetric] y_def [symmetric] Let_def by simp
qed

section \<open>Properties\<close>

text \<open>For two ranges built by the constructor, \<open>Contains\<close> returns true exactly when every
  address of the other range is an address of this one.\<close>

theorem IPRange_Contains_covers:
  assumes "IPRange_Init a m = Ok r" and "IPRange_Init b k = Ok other"
  shows "IPRange_Contains r other = Ok (covered other \<subseteq> covered r)"
proof -
  have "m \<le> 32" "k \<le> 32" "unat m \<le> 32" "unat k \<le> 32"
    and r: "r = \<lparr>rng_base_address = masked a (unat m), rng_mask_len = m\<rparr>"
    and o: "other = \<lparr>rng_base_address = masked b (unat k), rng_mask_len = k\<rparr>"
    using assms by (auto simp: IPRange_Init_Ok word_le_nat_alt)
  then show ?thesis
    unfolding IPRange_Contains_masked [OF assms] by (simp add: r o covered_Init masked_subset_iff)
qed

theorem IPRange_Contains_covers_witness:
  "IPRange_Init 10 8 = Ok \<lparr>rng_base_address = masked 10 8, rng_mask_len = 8\<rparr> \<and>
   IPRange_Init 266 16 = Ok \<lparr>rng_base_address = masked 266 16, rng_mask_len = 16\<rparr> \<and>
   IPRange_Contains \<lparr>rng_base_address = masked 10 8, rng_mask_len = 8\<rparr>
     \<lparr>rng_base_address = masked 266 16, rng_mask_len = 16\<rparr> =
   Ok (covered \<lparr>rng_base_address = masked 266 16, rng_mask_len = 16\<rparr> \<subseteq>
       covered \<lparr>rng_base_address = masked 10 8, rng_mask_len = 8\<rparr>)"
proof -
  have h: "IPRange_Init 10 8 = Ok \<lparr>rng_base_address = masked 10 8, rng_mask_len = 8\<rparr>"
    "IPRange_Init 266 16 = Ok \<lparr>rng_base_address = masked 266 16, rng_mask_len = 16\<rparr>"
    by (simp_all add: IPRange_Init_Ok)
  from h IPRange_Contains_covers [OF h] show ?thesis by blast
qed

text \<open>\<open>PrefixMatchLen\<close> is the length of the longest common prefix within both masks, and a
  range contains a range with a mask at least as long exactly when it is that whole prefix.\<close>

theorem IPRange_PrefixMatchLen_longest:
  assumes "IPRange_Init a m = Ok r" and "IPRange_Init b k = Ok other" and "m \<le> k"
  shows "IPRange_PrefixMatchLen r other \<le> unat m \<and>
         (\<forall>j < IPRange_PrefixMatchLen r other. bit (ntohl a) (31 - j) = bit (ntohl b) (31 - j)) \<and>
         (IPRange_PrefixMatchLen r other < unat m \<longrightarrow>
            bit (ntohl a) (31 - IPRange_PrefixMatchLen r other) \<noteq>
            bit (ntohl b) (31 - IPRange_PrefixMatchLen r other)) \<and>
         IPRange_Contains r other = Ok (IPRange_PrefixMatchLen r other = unat m)"
proof -
  have mk: "m \<le> 32" "k \<le> 32" "unat m \<le> 32" "unat k \<le> 32" "unat m \<le> unat k"
    and r: "r = \<lparr>rng_base_address = masked a (unat m), rng_mask_len = m\<rparr>"
    and o: "other = \<lparr>rng_base_address = masked b (unat k), rng_mask_len = k\<rparr>"
    using assms by (auto simp: IPRange_Init_Ok word_le_nat_alt)
  let ?n = "IPRange_PrefixMatchLen r other"
  have bits: "bit (ntohl (masked c l)) (31 - j) = bit (ntohl c) (31 - j)" if "j < l" "l \<le> 32" for c l j
    using that by (auto simp: bit_masked)
  have n: "?n \<le> unat m"
    and pre: "\<forall>j<?n. bit (ntohl a) (31 - j) = bit (ntohl b) (31 - j)"
    and post: "?n < unat m \<longrightarrow> bit (ntohl a) (31 - ?n) \<noteq> bit (ntohl b) (31 - ?n)"
    using IPRange_PrefixMatchLen_spec [of r other] mk by (auto simp: r o bits)
  have "masked b (unat m) = masked a (unat m) \<longleftrightarrow> ?n = unat m"
  proof
    assume eq: "masked b (unat m) = masked a (unat m)"
    have "bit (ntohl b) (31 - ?n) = bit (ntohl a) (31 - ?n)" if "?n < unat m"
      using eq that mk(3) by (auto simp: masked_eq_iff)
    with n post show "?n = unat m" by (metis le_neq_implies_less)
  next
    assume eq: "?n = unat m"
    have "bit (ntohl b) i = bit (ntohl a) i" if "32 - unat m \<le> i" "i < 32" for i
      using pre [rule_format, of "31 - i"] that eq mk(3) by auto
    then show "masked b (unat m) = masked a (unat m)" using mk(3) by (simp add: masked_eq_iff)
  qed
  moreover have "?n = 0" if "unat m = 0" using n that by simp
  ultimately show ?thesis
    using n pre post mk(5) by (auto simp: IPRange_Contains_masked [OF assms(1,2)])
qed

theorem IPRange_PrefixMatchLen_longest_witness:
  "IPRange_Init 10 8 = Ok \<lparr>rng_base_address = masked 10 8, rng_mask_len = 8\<rparr> \<and>
   IPRange_PrefixMatchLen \<lparr>rng_base_address = masked 10 8, rng_mask_len = 8\<rparr>
     \<lparr>rng_base_address = masked 266 16, rng_mask_len = 16\<rparr> \<le> 8"
proof -
  have h: "IPRange_Init 10 8 = Ok \<lparr>rng_base_address = masked 10 8, rng_mask_len = 8\<rparr>"
    "IPRange_Init 266 16 = Ok \<lparr>rng_base_address = masked 266 16, rng_mask_len = 16\<rparr>"
    "(8 :: 8 word) \<le> 16"
    by (simp_all add: IPRange_Init_Ok)
  from h(1) IPRange_PrefixMatchLen_longest [OF h] show ?thesis by simp
qed

text \<open>\<open>operator<\<close> on five-tuples is a strict total order whose equality is \<open>operator==\<close>, and
  \<open>Reverse\<close> undoes itself on tuples built by the constructor.\<close>

theorem FiveTuple_order_and_Reverse:
  "\<not> FiveTuple_less t t \<and>
   (FiveTuple_less t u \<and> FiveTuple_less u v \<longrightarrow> FiveTuple_less t v) \<and>
   (FiveTuple_less t u \<or> FiveTuple_less u t \<or> FiveTuple_eq t u) \<and>
   \<not> (FiveTuple_less t u \<and> (FiveTuple_less u t \<or> FiveTuple_eq t u)) \<and>
   FiveTuple_eq (FiveTuple_Reverse (FiveTuple_Reverse t)) t \<and>
   FiveTuple_Reverse (FiveTuple_Reverse (FiveTuple_new s d p sp dp)) = FiveTuple_new s d p sp dp"
  unfolding FiveTuple_less_def FiveTuple_eq_def
  by (auto simp: FiveTuple_Reverse_def FiveTuple_new_def) (auto simp: FiveTuple_tie_def)

theorem FiveTuple_order_and_Reverse_witness:
  "FiveTuple_less (FiveTuple_new 1 2 6 80 81) (FiveTuple_new 1 2 6 80 82) \<and>
   FiveTuple_less (FiveTuple_new 1 2 6 80 82) (FiveTuple_new 1 3 6 80 80) \<and>
   FiveTuple_less (FiveTuple_new 1 2 6 80 81) (FiveTuple_new 1 3 6 80 80)"
proof -
  have "FiveTuple_less (FiveTuple_new 1 2 6 80 81) (FiveTuple_new 1 2 6 80 82)"
    "FiveTuple_less (FiveTuple_new 1 2 6 80 82) (FiveTuple_new 1 3 6 80 80)"
    by (simp_all add: FiveTuple_less_def FiveTuple_tie_def FiveTuple_new_def)
  with FiveTuple_order_and_Reverse [of "FiveTuple_new 1 2 6 80 81" "FiveTuple_new 1 2 6 80 82"
      "FiveTuple_new 1 3 6 80 80"]
  show ?thesis by blast
qed

text \<open>The default tuple and the tuple built from zero fields compare equal, but their cached
  hashes differ, so \<open>FiveTupleHasher\<close> separates equal keys.\<close>

theorem FiveTuple_default_hash_differs:
  "FiveTuple_eq FiveTuple_default (FiveTuple_new 0 0 0 0 0) \<and>
   ft_hash FiveTuple_default \<noteq> ft_hash (FiveTuple_new 0 0 0 0 0)"
  by (simp add: FiveTuple_eq_def FiveTuple_tie_def FiveTuple_default_def FiveTuple_new_def
      FiveTuple_GetHash_def)

end
