(* ===== verification/Graph_Storage.thy ===== *)
theory Graph_Storage
  imports Perfect_Hash Std_Map Net_Types
begin

text \<open>
  The graph of \<open>src/src/net/net_common.h\<close>: links (\<open>GraphLinkBase\<close>, \<open>GraphLink\<close>), the
  \<open>GraphBuilder\<close>, the \<open>AdjacencyList\<close> and \<open>GraphStorage\<close>, whose constructor assigns the indices
  the rest of the program uses. A \<open>GraphNode\<close> is only its id and never changes, so a pointer to
  one is the id. The links are objects in \<open>link_store_\<close>, addressed by their index.
\<close>

type_synonym GraphNodeIndex = "16 word"
type_synonym GraphLinkIndex = "16 word"
type_synonym GraphNode = string
type_synonym Links = "GraphLinkIndex list"

section \<open>Links\<close>

record GraphLinkBase =
  lb_src_id :: string
  lb_dst_id :: string
  lb_src_port :: DevicePortNumber
  lb_dst_port :: DevicePortNumber
  lb_bandwidth :: Bandwidth
  lb_delay :: Delay

definition GraphLinkBase_new ::
    "string \<Rightarrow> string \<Rightarrow> DevicePortNumber \<Rightarrow> DevicePortNumber \<Rightarrow> Bandwidth \<Rightarrow> Delay \<Rightarrow> GraphLinkBase res" where
  "GraphLinkBase_new src dst src_port dst_port bw delay =
     check (delay \<noteq> 0) (check (bw \<noteq> Bandwidth_Zero)
       (Ok \<lparr>lb_src_id = src, lb_dst_id = dst, lb_src_port = src_port, lb_dst_port = dst_port,
            lb_bandwidth = bw, lb_delay = delay\<rparr>))"

definition GraphLinkBase_new_no_ports :: "string \<Rightarrow> string \<Rightarrow> Bandwidth \<Rightarrow> Delay \<Rightarrow> GraphLinkBase res" where
  "GraphLinkBase_new_no_ports src dst bw delay = GraphLinkBase_new src dst 0 0 bw delay"

definition GraphLinkBase_AddToBandwidth :: "GraphLinkBase \<Rightarrow> Bandwidth \<Rightarrow> GraphLinkBase" where
  "GraphLinkBase_AddToBandwidth l bw =
     (let bw_before = lb_bandwidth l;
          bw_after = Bandwidth_plus_assign (lb_bandwidth l) bw
      in if bw_before > bw_after then l\<lparr>lb_bandwidth := Bandwidth_Max\<rparr>
         else l\<lparr>lb_bandwidth := bw_after\<rparr>)"

record GraphLink = GraphLinkBase +
  gl_src :: GraphNodeIndex
  gl_dst :: GraphNodeIndex
  gl_src_node :: GraphNode
  gl_dst_node :: GraphNode

definition GraphLink_new ::
    "GraphLinkBase \<Rightarrow> GraphNodeIndex \<Rightarrow> GraphNodeIndex \<Rightarrow> GraphNode \<Rightarrow> GraphNode \<Rightarrow> GraphLink" where
  "GraphLink_new base src dst src_node dst_node =
     GraphLinkBase.extend base
       \<lparr>gl_src = src, gl_dst = dst, gl_src_node = src_node, gl_dst_node = dst_node\<rparr>"

section \<open>GraphBuilder\<close>

record GraphBuilder =
  gb_auto_port_numbers :: bool
  gb_links :: "GraphLinkBase list"

definition GraphBuilder_new :: "bool \<Rightarrow> GraphBuilder" where
  "GraphBuilder_new auto_port_numbers = \<lparr>gb_auto_port_numbers = auto_port_numbers, gb_links = []\<rparr>"

definition GraphBuilder_AddLink :: "GraphBuilder \<Rightarrow> GraphLinkBase \<Rightarrow> GraphBuilder res" where
  "GraphBuilder_AddLink b link =
     check (lb_src_id link \<noteq> []) (check (lb_dst_id link \<noteq> []) (check (lb_src_id link \<noteq> lb_dst_id link)
       (if \<not> gb_auto_port_numbers b
        then check (lb_src_port link \<noteq> 0) (check (lb_dst_port link \<noteq> 0)
               (Ok (b\<lparr>gb_links := gb_links b @ [link]\<rparr>)))
        else check (lb_src_port link = 0) (check (lb_dst_port link = 0)
               (let port_num = of_nat (length (gb_links b) + 1)
                in rbind (GraphLinkBase_new (lb_src_id link) (lb_dst_id link) port_num port_num
                            (lb_bandwidth link) (lb_delay link))
                     (\<lambda>l. Ok (b\<lparr>gb_links := gb_links b @ [l]\<rparr>)))))))"

text \<open>
  \<open>RemoveMultipleLinks\<close> keeps, per pair of ids, a pointer to the first link of the pair and adds
  the bandwidth of the later ones to it in place. The pointers are positions of \<open>links_\<close>.
\<close>

type_synonym multi_index = "(string, (string, nat) smap) smap"

definition RemoveMultipleLinks_step ::
    "nat \<Rightarrow> GraphLinkBase list \<times> multi_index \<Rightarrow> GraphLinkBase list \<times> multi_index" where
  "RemoveMultipleLinks_step i = (\<lambda>(links, links_no_multi).
     let link = links ! i
     in case map_of (smap_get [] (lb_src_id link) links_no_multi) (lb_dst_id link) of
          Some j \<Rightarrow>
            (links[j := GraphLinkBase_AddToBandwidth (links ! j) (lb_bandwidth link)], links_no_multi)
        | None \<Rightarrow>
            (links, smap_upd [] (lb_src_id link) (smap_put (lb_dst_id link) i) links_no_multi))"

definition GraphBuilder_RemoveMultipleLinks :: "GraphBuilder \<Rightarrow> GraphBuilder" where
  "GraphBuilder_RemoveMultipleLinks b =
     (let (links, links_no_multi) =
            fold RemoveMultipleLinks_step [0..<length (gb_links b)] (gb_links b, []);
          new_links = concat (map (\<lambda>(src, rest). map (\<lambda>(dst, j). links ! j) rest) links_no_multi)
      in b\<lparr>gb_links := new_links\<rparr>)"

definition GraphBuilder_AllNodeNames :: "GraphBuilder \<Rightarrow> string list" where
  "GraphBuilder_AllNodeNames b =
     fold (\<lambda>link out. sset_insert (lb_dst_id link) (sset_insert (lb_src_id link) out)) (gb_links b) []"

section \<open>AdjacencyList\<close>

record LinkInfo =
  li_link_index :: GraphLinkIndex
  li_src_index :: GraphNodeIndex
  li_dst_index :: GraphNodeIndex
  li_delay :: Delay

record AdjacencyList =
  al_adj :: "LinkInfo list phmap"
  al_all_nodes :: phset

definition AdjacencyList_new :: AdjacencyList where
  "AdjacencyList_new = \<lparr>al_adj = [], al_all_nodes = []\<rparr>"

definition AdjacencyList_AddLink ::
    "AdjacencyList \<Rightarrow> GraphLinkIndex \<Rightarrow> GraphNodeIndex \<Rightarrow> GraphNodeIndex \<Rightarrow> Delay \<Rightarrow> AdjacencyList" where
  "AdjacencyList_AddLink a link_index src dst delay =
     \<lparr>al_adj = PHMap_Add [] (al_adj a) src
        (PHMap_value [] (al_adj a) src @
         [\<lparr>li_link_index = link_index, li_src_index = src, li_dst_index = dst, li_delay = delay\<rparr>]),
      al_all_nodes = PHSet_Insert (PHSet_Insert (al_all_nodes a) src) dst\<rparr>"

definition AdjacencyList_Clear :: "AdjacencyList \<Rightarrow> AdjacencyList" where
  "AdjacencyList_Clear a =
     \<lparr>al_adj = PHMap_Clear (al_adj a), al_all_nodes = PHSet_Clear (al_all_nodes a)\<rparr>"

definition AdjacencyList_GetNeighbors :: "AdjacencyList \<Rightarrow> GraphNodeIndex \<Rightarrow> LinkInfo list" where
  "AdjacencyList_GetNeighbors a node =
     (if \<not> PHMap_HasValue (al_adj a) node then [] else PHMap_value [] (al_adj a) node)"

definition AdjacencyList_AllNodes :: "AdjacencyList \<Rightarrow> phset" where
  "AdjacencyList_AllNodes a = al_all_nodes a"

section \<open>GraphStorage\<close>

record GraphStorage =
  gs_links :: "(string, (string, Links) smap) smap"
  gs_nodes :: "(string, GraphNodeIndex) smap"
  gs_link_store :: "GraphLink phstore"
  gs_node_store :: "GraphNode phstore"
  gs_adjacency_list :: AdjacencyList
  gs_simple :: bool
  gs_node_order :: "string list"

definition GraphStorage_empty :: "string list \<Rightarrow> GraphStorage" where
  "GraphStorage_empty node_order =
     \<lparr>gs_links = [], gs_nodes = [], gs_link_store = [], gs_node_store = [],
      gs_adjacency_list = AdjacencyList_new, gs_simple = True, gs_node_order = node_order\<rparr>"

definition GraphStorage_GetLink :: "GraphStorage \<Rightarrow> GraphLinkIndex \<Rightarrow> GraphLink res" where
  "GraphStorage_GetLink g link_index = PHStore_GetItemOrDie (gs_link_store g) link_index"

definition GraphStorage_GetNode :: "GraphStorage \<Rightarrow> GraphNodeIndex \<Rightarrow> GraphNode res" where
  "GraphStorage_GetNode g node_index = PHStore_GetItemOrDie (gs_node_store g) node_index"

definition GraphStorage_LinkCount :: "GraphStorage \<Rightarrow> nat" where
  "GraphStorage_LinkCount g = PHStore_size (gs_link_store g)"

definition GraphStorage_NodeCount :: "GraphStorage \<Rightarrow> nat" where
  "GraphStorage_NodeCount g = PHStore_size (gs_node_store g)"

definition GraphStorage_AllNodes :: "GraphStorage \<Rightarrow> phset" where
  "GraphStorage_AllNodes g = PHSet_FullSetFromStore (gs_node_store g)"

definition GraphStorage_AllLinks :: "GraphStorage \<Rightarrow> phset" where
  "GraphStorage_AllLinks g = PHSet_FullSetFromStore (gs_link_store g)"

definition GraphStorage_NodeFromString ::
    "GraphStorage \<Rightarrow> string \<Rightarrow> (GraphNodeIndex \<times> GraphStorage) res" where
  "GraphStorage_NodeFromString g nid =
     (case map_of (gs_nodes g) nid of
        Some i \<Rightarrow> Ok (i, g)
      | None \<Rightarrow> rbind (PHStore_AddItem (gs_node_store g) nid) (\<lambda>(index, store).
          Ok (index, g\<lparr>gs_node_store := store, gs_nodes := smap_put nid index (gs_nodes g)\<rparr>)))"

definition GraphStorage_NodeFromStringOrDie :: "GraphStorage \<Rightarrow> string \<Rightarrow> GraphNodeIndex res" where
  "GraphStorage_NodeFromStringOrDie g nid = FindOrDie (gs_nodes g) nid"

definition GraphStorage_NodeFromStringOrNull :: "GraphStorage \<Rightarrow> string \<Rightarrow> GraphNodeIndex option" where
  "GraphStorage_NodeFromStringOrNull g nid = map_of (gs_nodes g) nid"

text \<open>One link of the builder, as the constructor stores it.\<close>

definition GraphStorage_add_link_base :: "GraphLinkBase \<Rightarrow> GraphStorage \<Rightarrow> GraphStorage res" where
  "GraphStorage_add_link_base link_base g =
     rbind (GraphStorage_NodeFromString g (lb_src_id link_base)) (\<lambda>(src_index, g).
     rbind (GraphStorage_NodeFromString g (lb_dst_id link_base)) (\<lambda>(dst_index, g).
     rbind (GraphStorage_GetNode g src_index) (\<lambda>src_node.
     rbind (GraphStorage_GetNode g dst_index) (\<lambda>dst_node.
     rbind (PHStore_AddItem (gs_link_store g)
              (GraphLink_new link_base src_index dst_index src_node dst_node)) (\<lambda>(index, store).
     Ok (g\<lparr>gs_link_store := store,
           gs_links := smap_upd [] (lb_src_id link_base)
             (smap_upd [] (lb_dst_id link_base) (\<lambda>ls. ls @ [index])) (gs_links g)\<rparr>))))))"

definition PopulateAdjacencyList_step :: "GraphLinkIndex \<Rightarrow> GraphStorage \<Rightarrow> GraphStorage res" where
  "PopulateAdjacencyList_step link g =
     rbind (GraphStorage_GetLink g link) (\<lambda>l.
       let dup = list_ex (\<lambda>info. li_dst_index info = gl_dst l)
                   (AdjacencyList_GetNeighbors (gs_adjacency_list g) (gl_src l))
       in Ok (g\<lparr>gs_simple := (if dup then False else gs_simple g),
                gs_adjacency_list :=
                  AdjacencyList_AddLink (gs_adjacency_list g) link (gl_src l) (gl_dst l) (lb_delay l)\<rparr>))"

definition GraphStorage_PopulateAdjacencyList :: "GraphStorage \<Rightarrow> GraphStorage res" where
  "GraphStorage_PopulateAdjacencyList g =
     rfold PopulateAdjacencyList_step (PHSet_elems (GraphStorage_AllLinks g)) (g\<lparr>gs_simple := True\<rparr>)"

text \<open>The constructor. \<open>node_ids\<close> is only filled, and only checked, when an order is given.\<close>

definition GraphStorage_new :: "GraphBuilder \<Rightarrow> string list \<Rightarrow> GraphStorage res" where
  "GraphStorage_new graph_builder node_order =
     rbind (rfold GraphStorage_add_link_base (gb_links graph_builder) (GraphStorage_empty node_order))
       (\<lambda>g. rbind (GraphStorage_PopulateAdjacencyList g) (\<lambda>g.
          if node_order \<noteq> []
          then let node_ids = GraphBuilder_AllNodeNames graph_builder
               in check (length node_ids = length node_order)
                    (check (list_all (\<lambda>id. id \<in> set node_ids) node_order) (Ok g))
          else Ok g))"

definition GraphStorage_LinkOrDie :: "GraphStorage \<Rightarrow> string \<Rightarrow> string \<Rightarrow> GraphLinkIndex res" where
  "GraphStorage_LinkOrDie g src dst =
     check (src \<noteq> [] \<and> dst \<noteq> []) (check (src \<noteq> dst)
       (case map_of (gs_links g) src of
          None \<Rightarrow> Fail Log_fatal
        | Some it_one \<Rightarrow>
            (case map_of it_one dst of
               None \<Rightarrow> Fail Log_fatal
             | Some links \<Rightarrow> vec_at links 0)))"

definition GraphStorage_LinkOrDie_index ::
    "GraphStorage \<Rightarrow> GraphNodeIndex \<Rightarrow> GraphNodeIndex \<Rightarrow> GraphLinkIndex res" where
  "GraphStorage_LinkOrDie_index g src dst =
     check (src \<noteq> dst)
       (case find (\<lambda>info. li_dst_index info = dst)
               (AdjacencyList_GetNeighbors (gs_adjacency_list g) src) of
          Some info \<Rightarrow> Ok (li_link_index info)
        | None \<Rightarrow> Fail Log_fatal)"

definition GraphStorage_HasLink :: "GraphStorage \<Rightarrow> string \<Rightarrow> string \<Rightarrow> bool res" where
  "GraphStorage_HasLink g src dst =
     check (src \<noteq> [] \<and> dst \<noteq> []) (check (src \<noteq> dst)
       (case map_of (gs_links g) src of
          None \<Rightarrow> Ok False
        | Some it_one \<Rightarrow>
            (case map_of it_one dst of
               None \<Rightarrow> Ok False
             | Some links \<Rightarrow> check (links \<noteq> []) (Ok True))))"

definition GraphStorage_FindUniqueInverseOrDie :: "GraphStorage \<Rightarrow> GraphLink \<Rightarrow> GraphLinkIndex res" where
  "GraphStorage_FindUniqueInverseOrDie g link =
     rbind (GraphStorage_GetNode g (gl_src link)) (\<lambda>src.
     rbind (GraphStorage_GetNode g (gl_dst link)) (\<lambda>dst.
     rbind (FindOrDie (gs_links g) dst) (\<lambda>dst_to_links.
     rbind (FindOrDie dst_to_links src) (\<lambda>links.
     check (length links = 1) (vec_at links 0)))))"

definition GraphStorage_FindUniqueInverseOrNull ::
    "GraphStorage \<Rightarrow> GraphLink \<Rightarrow> GraphLinkIndex option res" where
  "GraphStorage_FindUniqueInverseOrNull g link =
     rbind (GraphStorage_GetNode g (gl_src link)) (\<lambda>src.
     rbind (GraphStorage_GetNode g (gl_dst link)) (\<lambda>dst.
     case map_of (gs_links g) dst of
       None \<Rightarrow> Ok None
     | Some dst_to_links \<Rightarrow>
         (case map_of dst_to_links src of
            None \<Rightarrow> Ok None
          | Some links \<Rightarrow> if length links \<noteq> 1 then Ok None else Ok (Some (hd links)))))"

definition GraphStorage_ToBuilder :: "GraphStorage \<Rightarrow> GraphBuilder res" where
  "GraphStorage_ToBuilder g =
     rfold (\<lambda>(src, dst, link_index) out.
              rbind (GraphStorage_GetLink g link_index) (\<lambda>l.
              rbind (GraphLinkBase_new_no_ports src dst (lb_bandwidth l) (lb_delay l))
                (GraphBuilder_AddLink out)))
       (concat (map (\<lambda>(src, rest). concat (map (\<lambda>(dst, links). map (\<lambda>i. (src, dst, i)) links) rest))
          (gs_links g)))
       (GraphBuilder_new True)"

definition GraphStorage_NodeOrderOrDie :: "GraphStorage \<Rightarrow> string list res" where
  "GraphStorage_NodeOrderOrDie g = check (gs_node_order g \<noteq> []) (Ok (gs_node_order g))"

section \<open>Bandwidth and adjacency\<close>

lemma unat_AddToBandwidth:
  "unat (lb_bandwidth (GraphLinkBase_AddToBandwidth l bw)) =
     min (2 ^ 64 - 1) (unat (lb_bandwidth l) + unat bw)"
proof -
  have sum: "unat (lb_bandwidth l + bw) = (unat (lb_bandwidth l) + unat bw) mod 2 ^ 64"
    by (simp add: unat_word_ariths)
  have b: "unat (lb_bandwidth l) < 2 ^ 64" "unat bw < 2 ^ 64"
    using unat_bound [of "lb_bandwidth l"] unat_bound [of bw] by simp_all
  have max: "unat (- 1 :: 64 word) = 2 ^ 64 - 1" by (simp add: unsigned_minus_1_eq_mask mask_eq_exp_minus_1)
  show ?thesis
  proof (cases "unat (lb_bandwidth l) + unat bw < 2 ^ 64")
    case True
    then show ?thesis
      using sum by (simp add: GraphLinkBase_AddToBandwidth_def Let_def Bandwidth_plus_assign_def
          word_less_nat_alt)
  next
    case False
    then have "(unat (lb_bandwidth l) + unat bw) mod 2 ^ 64 = unat (lb_bandwidth l) + unat bw - 2 ^ 64"
      using b by (simp add: mod_if)
    then have "lb_bandwidth l + bw < lb_bandwidth l"
      using False b sum by (simp add: word_less_nat_alt)
    then show ?thesis
      using False max by (simp add: GraphLinkBase_AddToBandwidth_def Let_def Bandwidth_plus_assign_def
          Bandwidth_Max_def Bandwidth_FromBitsPerSecond_def)
  qed
qed

lemma AddToBandwidth_ids [simp]:
  "lb_src_id (GraphLinkBase_AddToBandwidth l bw) = lb_src_id l"
  "lb_dst_id (GraphLinkBase_AddToBandwidth l bw) = lb_dst_id l"
  "lb_delay (GraphLinkBase_AddToBandwidth l bw) = lb_delay l"
  by (simp_all add: GraphLinkBase_AddToBandwidth_def Let_def)

lemma GetNeighbors_lookup:
  "AdjacencyList_GetNeighbors a n = (case PHMap_lookup (al_adj a) n of None \<Rightarrow> [] | Some ls \<Rightarrow> ls)"
  by (simp add: AdjacencyList_GetNeighbors_def PHMap_lookup_def PHMap_value_def PHMap_HasValue_def)

text \<open>A slot without a value holds the default, as it is only ever written by \<open>AddLink\<close>.\<close>

definition adj_clean :: "AdjacencyList \<Rightarrow> bool" where
  "adj_clean a \<longleftrightarrow> (\<forall>i. i < length (al_adj a) \<longrightarrow> \<not> fst (al_adj a ! i) \<longrightarrow> snd (al_adj a ! i) = [])"

lemma adj_clean_new [simp]: "adj_clean AdjacencyList_new"
  by (simp add: adj_clean_def AdjacencyList_new_def)

lemma adj_clean_AddLink: "adj_clean a \<Longrightarrow> adj_clean (AdjacencyList_AddLink a l s d t)"
  by (auto simp: adj_clean_def AdjacencyList_AddLink_def PHMap_Add_def nth_list_update nth_vec_resize)

lemma GetNeighbors_new [simp]: "AdjacencyList_GetNeighbors AdjacencyList_new n = []"
  by (simp add: GetNeighbors_lookup AdjacencyList_new_def)

lemma GetNeighbors_AddLink:
  assumes "adj_clean a"
  shows "AdjacencyList_GetNeighbors (AdjacencyList_AddLink a l s d t) n =
     AdjacencyList_GetNeighbors a n @
       (if n = s then [\<lparr>li_link_index = l, li_src_index = s, li_dst_index = d, li_delay = t\<rparr>] else [])"
proof -
  have "PHMap_value [] (al_adj a) s = AdjacencyList_GetNeighbors a s"
    using assms by (auto simp: AdjacencyList_GetNeighbors_def PHMap_value_def PHMap_HasValue_def adj_clean_def)
  then show ?thesis
    by (simp add: GetNeighbors_lookup [of "AdjacencyList_AddLink a l s d t"] AdjacencyList_AddLink_def)
       (simp add: GetNeighbors_lookup)
qed

lemma AllNodes_AddLink [simp]:
  "PHSet_Contains (AdjacencyList_AllNodes (AdjacencyList_AddLink a l s d t)) n \<longleftrightarrow>
     n = s \<or> n = d \<or> PHSet_Contains (AdjacencyList_AllNodes a) n"
  by (auto simp: AdjacencyList_AllNodes_def AdjacencyList_AddLink_def)

section \<open>The invariant of the stores\<close>

definition links_between :: "GraphLink list \<Rightarrow> string \<Rightarrow> string \<Rightarrow> Links" where
  "links_between store s d =
     map of_nat (filter (\<lambda>k. lb_src_id (store ! k) = s \<and> lb_dst_id (store ! k) = d) [0..<length store])"

definition link_ok :: "string list \<Rightarrow> GraphLink \<Rightarrow> bool" where
  "link_ok ns l \<longleftrightarrow>
     unat (gl_src l) < length ns \<and> ns ! unat (gl_src l) = lb_src_id l \<and> gl_src_node l = lb_src_id l \<and>
     unat (gl_dst l) < length ns \<and> ns ! unat (gl_dst l) = lb_dst_id l \<and> gl_dst_node l = lb_dst_id l"

definition nodes_wf :: "GraphStorage \<Rightarrow> bool" where
  "nodes_wf g \<longleftrightarrow> length (gs_node_store g) < 2 ^ 16 \<and> smap_wf (gs_nodes g) \<and>
     (\<forall>nid i. map_of (gs_nodes g) nid = Some i \<longleftrightarrow>
        unat i < length (gs_node_store g) \<and> gs_node_store g ! unat i = nid)"

definition links_wf :: "GraphStorage \<Rightarrow> bool" where
  "links_wf g \<longleftrightarrow> length (gs_link_store g) < 2 ^ 16 \<and> smap_wf (gs_links g) \<and>
     (\<forall>s. smap_wf (smap_get [] s (gs_links g))) \<and>
     (\<forall>s d. smap_get [] d (smap_get [] s (gs_links g)) = links_between (gs_link_store g) s d) \<and>
     (\<forall>s d. map_of (smap_get [] s (gs_links g)) d \<noteq> Some [])"

definition store_wf :: "GraphStorage \<Rightarrow> bool" where
  "store_wf g \<longleftrightarrow> nodes_wf g \<and> links_wf g \<and> (\<forall>l \<in> set (gs_link_store g). link_ok (gs_node_store g) l)"

lemma nodes_wf_nth:
  assumes "nodes_wf g" and "k < length (gs_node_store g)"
  shows "map_of (gs_nodes g) (gs_node_store g ! k) = Some (of_nat k) \<and> unat (of_nat k :: 16 word) = k"
proof -
  have "unat (of_nat k :: 16 word) = k"
    using assms by (intro of_nat_unat_less) (simp add: nodes_wf_def)
  with assms show ?thesis by (simp add: nodes_wf_def)
qed

lemma nodes_wf_mem: "nodes_wf g \<Longrightarrow> nid \<in> set (gs_node_store g) \<Longrightarrow> map_of (gs_nodes g) nid \<noteq> None"
  using nodes_wf_nth by (fastforce simp: in_set_conv_nth)

lemma nodes_wf_distinct: "nodes_wf g \<Longrightarrow> distinct (gs_node_store g)"
  unfolding distinct_conv_nth by (metis nodes_wf_nth option.inject)

text \<open>\<open>NodeFromString\<close> finds the node or appends it; nothing else changes.\<close>

lemma NodeFromString_Ok:
  assumes "GraphStorage_NodeFromString g nid = Ok (i, g')" and "nodes_wf g"
  shows "nodes_wf g' \<and> map_of (gs_nodes g') nid = Some i \<and>
         (\<exists>ext. gs_node_store g' = gs_node_store g @ ext) \<and>
         set (gs_node_store g') = insert nid (set (gs_node_store g)) \<and>
         g' = g\<lparr>gs_node_store := gs_node_store g', gs_nodes := gs_nodes g'\<rparr>"
proof (cases "map_of (gs_nodes g) nid")
  case None
  then obtain store where add: "PHStore_AddItem (gs_node_store g) nid = Ok (i, store)"
    and g': "g' = g\<lparr>gs_node_store := store, gs_nodes := smap_put nid i (gs_nodes g)\<rparr>"
    using assms(1) by (auto simp: GraphStorage_NodeFromString_def rbind_eq_Ok)
  note st = PHStore_AddItem_Ok [OF add]
  have fresh: "nid \<notin> set (gs_node_store g)"
    using nodes_wf_mem [OF assms(2)] None by blast
  have "map_of (smap_put nid i (gs_nodes g)) n = Some j \<longleftrightarrow>
        unat j < length store \<and> store ! unat j = n" for n j
    using assms(2) st fresh
    by (auto simp: nodes_wf_def nth_append less_Suc_eq simp flip: unat_eq_unat_iff)
  then show ?thesis using st assms(2) by (auto simp: g' nodes_wf_def)
next
  case (Some j)
  then have "i = j" "g' = g" using assms(1) by (auto simp: GraphStorage_NodeFromString_def)
  with Some assms(2) show ?thesis by (auto simp: nodes_wf_def)
qed

lemma NodeFromString_succeeds:
  assumes "nodes_wf g" and "card (insert nid (set (gs_node_store g))) < 2 ^ 16"
  shows "\<exists>i g'. GraphStorage_NodeFromString g nid = Ok (i, g')"
proof (cases "map_of (gs_nodes g) nid")
  case None
  have "nid \<notin> set (gs_node_store g)"
    using nodes_wf_mem [OF assms(1)] None by blast
  then have "Suc (length (gs_node_store g)) < 2 ^ 16"
    using assms distinct_card [OF nodes_wf_distinct [OF assms(1)]] by simp
  with None show ?thesis
    by (simp add: GraphStorage_NodeFromString_def PHStore_AddItem_def check_def)
qed (simp add: GraphStorage_NodeFromString_def)

lemma link_ok_append: "link_ok ns l \<Longrightarrow> link_ok (ns @ ext) l"
  by (auto simp: link_ok_def nth_append)

lemma links_between_snoc:
  "links_between (store @ [l]) s d =
     links_between store s d @ (if lb_src_id l = s \<and> lb_dst_id l = d then [of_nat (length store)] else [])"
proof -
  have "filter (\<lambda>k. lb_src_id ((store @ [l]) ! k) = s \<and> lb_dst_id ((store @ [l]) ! k) = d) [0..<length store] =
        filter (\<lambda>k. lb_src_id (store ! k) = s \<and> lb_dst_id (store ! k) = d) [0..<length store]"
    by (rule filter_cong) (auto simp: nth_append)
  then show ?thesis by (simp add: links_between_def)
qed

lemma links_wf_push:
  assumes "links_wf g" and "PHStore_AddItem (gs_link_store g) l = Ok (i, store)"
    and "gs_link_store g' = store"
    and "gs_links g' = smap_upd [] (lb_src_id l) (smap_upd [] (lb_dst_id l) (\<lambda>ls. ls @ [i])) (gs_links g)"
  shows "links_wf g'"
proof -
  note st = PHStore_AddItem_Ok [OF assms(2)]
  have get: "smap_get [] s (gs_links g') =
      (if s = lb_src_id l
       then smap_upd [] (lb_dst_id l) (\<lambda>ls. ls @ [i]) (smap_get [] (lb_src_id l) (gs_links g))
       else smap_get [] s (gs_links g))" for s
    using assms(1,4) by (simp add: links_wf_def smap_upd_def smap_get_put)
  have inner: "smap_wf (smap_get [] s (gs_links g))" for s
    using assms(1) by (simp add: links_wf_def)
  have "length (gs_link_store g) = unat i" using st by simp
  then have i: "of_nat (length (gs_link_store g)) = i" by simp
  have "smap_get [] d (smap_get [] s (gs_links g')) = links_between store s d" for s d
    using assms(1) inner st i by (auto simp: get links_wf_def links_between_snoc smap_upd_def smap_get_put)
  moreover have "map_of (smap_get [] s (gs_links g')) d \<noteq> Some []" for s d
    using assms(1) inner by (simp add: get links_wf_def)
  moreover have "smap_wf (smap_get [] s (gs_links g'))" for s
    using inner by (simp add: get)
  moreover have "smap_wf (gs_links g')" using assms(1,4) by (simp add: links_wf_def)
  ultimately show ?thesis using st assms(3) unfolding links_wf_def by auto
qed

lemma GetNode_map_of:
  "nodes_wf g \<Longrightarrow> map_of (gs_nodes g) nid = Some i \<Longrightarrow> GraphStorage_GetNode g i = Ok nid"
  by (simp add: nodes_wf_def GraphStorage_GetNode_def PHStore_GetItemOrDie_def)

text \<open>What one link of the builder adds to the stores.\<close>

lemma add_link_base_Ok:
  assumes add: "GraphStorage_add_link_base b g = Ok g'" and wf: "store_wf g"
  shows "store_wf g' \<and>
         map GraphLinkBase.truncate (gs_link_store g') = map GraphLinkBase.truncate (gs_link_store g) @ [b] \<and>
         set (gs_node_store g') = {lb_src_id b, lb_dst_id b} \<union> set (gs_node_store g) \<and>
         gs_adjacency_list g' = gs_adjacency_list g \<and> gs_node_order g' = gs_node_order g"
proof -
  from add obtain si g1 di g2 sn dn i store where
    s: "GraphStorage_NodeFromString g (lb_src_id b) = Ok (si, g1)" and
    d: "GraphStorage_NodeFromString g1 (lb_dst_id b) = Ok (di, g2)" and
    sn: "GraphStorage_GetNode g2 si = Ok sn" and dn: "GraphStorage_GetNode g2 di = Ok dn" and
    it: "PHStore_AddItem (gs_link_store g2) (GraphLink_new b si di sn dn) = Ok (i, store)" and
    g': "g' = g2\<lparr>gs_link_store := store,
           gs_links := smap_upd [] (lb_src_id b) (smap_upd [] (lb_dst_id b) (\<lambda>ls. ls @ [i])) (gs_links g2)\<rparr>"
    by (auto simp: GraphStorage_add_link_base_def rbind_eq_Ok)
  have wf0: "nodes_wf g" "links_wf g" using wf by (auto simp: store_wf_def)
  note n1 = NodeFromString_Ok [OF s wf0(1)]
  then have "nodes_wf g1" by simp
  note n2 = NodeFromString_Ok [OF d this]
  obtain e1 e2 where e: "gs_node_store g1 = gs_node_store g @ e1" "gs_node_store g2 = gs_node_store g @ e1 @ e2"
    using n1 n2 by auto
  have keep: "gs_link_store g2 = gs_link_store g" "gs_links g2 = gs_links g"
    "gs_adjacency_list g2 = gs_adjacency_list g" "gs_node_order g2 = gs_node_order g"
    using n1 n2 by (metis GraphStorage.select_convs GraphStorage.surjective GraphStorage.update_convs)+
  have si: "unat si < length (gs_node_store g2)" "gs_node_store g2 ! unat si = lb_src_id b"
    using n1 n2 by (auto simp: nodes_wf_def nth_append e)
  have di: "unat di < length (gs_node_store g2)" "gs_node_store g2 ! unat di = lb_dst_id b"
    using n2 by (auto simp: nodes_wf_def)
  have names: "sn = lb_src_id b" "dn = lb_dst_id b"
    using sn dn si di by (auto simp: GraphStorage_GetNode_def PHStore_GetItemOrDie_def check_eq_Ok)
  note st = PHStore_AddItem_Ok [OF it]
  have new: "lb_src_id (GraphLink_new b si di sn dn) = lb_src_id b"
    "lb_dst_id (GraphLink_new b si di sn dn) = lb_dst_id b"
    "GraphLinkBase.truncate (GraphLink_new b si di sn dn) = b"
    by (simp_all add: GraphLink_new_def GraphLinkBase.extend_def GraphLinkBase.truncate_def)
  have "links_wf g2" using wf0(2) keep by (simp add: links_wf_def)
  from links_wf_push [OF this it] have "links_wf g'" by (simp add: g' new)
  moreover have "nodes_wf g'" using n2 by (simp add: g' nodes_wf_def)
  moreover have "link_ok (gs_node_store g') l" if "l \<in> set (gs_link_store g')" for l
  proof (cases "l \<in> set (gs_link_store g)")
    case True
    with wf have "link_ok (gs_node_store g) l" by (simp add: store_wf_def)
    then show ?thesis using e by (simp add: g' link_ok_append)
  next
    case False
    with that st keep have "l = GraphLink_new b si di sn dn" by (simp add: g')
    with si di names show ?thesis
      by (simp add: g' link_ok_def GraphLink_new_def GraphLinkBase.extend_def)
  qed
  moreover have "set (gs_node_store g') = {lb_src_id b, lb_dst_id b} \<union> set (gs_node_store g)"
    using n1 n2 by (auto simp: g')
  ultimately show ?thesis using st keep by (simp add: g' store_wf_def new)
qed

lemma add_link_base_succeeds:
  assumes wf: "store_wf g" and room: "length (gs_link_store g) < 2 ^ 16 - 1"
    and names: "card ({lb_src_id b, lb_dst_id b} \<union> set (gs_node_store g)) < 2 ^ 16"
  shows "\<exists>g'. GraphStorage_add_link_base b g = Ok g'"
proof -
  have nwf: "nodes_wf g" using wf by (simp add: store_wf_def)
  have "card (insert (lb_src_id b) (set (gs_node_store g))) \<le>
        card ({lb_src_id b, lb_dst_id b} \<union> set (gs_node_store g))"
    by (rule card_mono) auto
  with NodeFromString_succeeds [OF nwf] names obtain si g1 where
    s: "GraphStorage_NodeFromString g (lb_src_id b) = Ok (si, g1)" by fastforce
  note n1 = NodeFromString_Ok [OF s nwf]
  have "insert (lb_dst_id b) (set (gs_node_store g1)) = {lb_src_id b, lb_dst_id b} \<union> set (gs_node_store g)"
    using n1 by auto
  with NodeFromString_succeeds [of g1 "lb_dst_id b"] names n1 obtain di g2 where
    d: "GraphStorage_NodeFromString g1 (lb_dst_id b) = Ok (di, g2)" by auto
  from n1 have "nodes_wf g1" by simp
  note n2 = NodeFromString_Ok [OF d this]
  have "map_of (gs_nodes g2) (lb_src_id b) = Some si"
    using n1 n2 by (auto simp: nodes_wf_def nth_append)
  then have gn: "GraphStorage_GetNode g2 si = Ok (lb_src_id b)"
    "GraphStorage_GetNode g2 di = Ok (lb_dst_id b)"
    using n2 by (simp_all add: GetNode_map_of)
  have "gs_link_store g2 = gs_link_store g"
    using n1 n2 by (metis GraphStorage.select_convs GraphStorage.surjective GraphStorage.update_convs)
  then show ?thesis
    using room by (simp add: GraphStorage_add_link_base_def s d gn PHStore_AddItem_def check_def)
qed

section \<open>The adjacency list of a storage\<close>

definition link_info :: "GraphLink list \<Rightarrow> nat \<Rightarrow> LinkInfo" where
  "link_info store k =
     \<lparr>li_link_index = of_nat k, li_src_index = gl_src (store ! k), li_dst_index = gl_dst (store ! k),
      li_delay = lb_delay (store ! k)\<rparr>"

definition neighbors :: "GraphLink list \<Rightarrow> nat \<Rightarrow> GraphNodeIndex \<Rightarrow> LinkInfo list" where
  "neighbors store m n = map (link_info store) (filter (\<lambda>k. gl_src (store ! k) = n) [0..<m])"

lemma PHSet_elems_full: "PHSet_elems (PHSet_FullSetFromStore store) = map of_nat [0..<length store]"
proof -
  have "filter (\<lambda>i. vec_resize (length store) True [] ! i) [0..<length store] = [0..<length store]"
    by (rule filter_True) (simp add: nth_vec_resize)
  then show ?thesis by (simp add: PHSet_elems_def PHSet_FullSetFromStore_def PHStore_size_def)
qed

lemma ex_dup_neighbors:
  "list_ex (\<lambda>info. li_dst_index info = d) (neighbors store m s) \<longleftrightarrow>
     (\<exists>k<m. gl_src (store ! k) = s \<and> gl_dst (store ! k) = d)"
  by (auto simp: list_ex_iff neighbors_def link_info_def)

lemma populate_prefix:
  assumes "length (gs_link_store g) < 2 ^ 16" and "gs_adjacency_list g = AdjacencyList_new"
    and "m \<le> length (gs_link_store g)"
  shows "\<exists>a. rfold PopulateAdjacencyList_step (map of_nat [0..<m]) (g\<lparr>gs_simple := True\<rparr>) =
      Ok (g\<lparr>gs_adjacency_list := a,
            gs_simple := distinct (map (\<lambda>l. (gl_src l, gl_dst l)) (take m (gs_link_store g)))\<rparr>) \<and>
      adj_clean a \<and> (\<forall>n. AdjacencyList_GetNeighbors a n = neighbors (gs_link_store g) m n) \<and>
      (\<forall>n. PHSet_Contains (AdjacencyList_AllNodes a) n \<longleftrightarrow>
         (\<exists>k<m. n = gl_src (gs_link_store g ! k) \<or> n = gl_dst (gs_link_store g ! k)))"
  using assms(3)
proof (induction m)
  case 0
  show ?case
    using assms(2)
    by (intro exI [of _ AdjacencyList_new])
       (simp add: neighbors_def AdjacencyList_AllNodes_def, simp add: AdjacencyList_new_def)
next
  case (Suc m)
  let ?st = "gs_link_store g"
  let ?l = "?st ! m"
  from Suc obtain a where
    r: "rfold PopulateAdjacencyList_step (map of_nat [0..<m]) (g\<lparr>gs_simple := True\<rparr>) =
      Ok (g\<lparr>gs_adjacency_list := a,
            gs_simple := distinct (map (\<lambda>l. (gl_src l, gl_dst l)) (take m ?st))\<rparr>)"
    and cl: "adj_clean a" and nb: "\<And>n. AdjacencyList_GetNeighbors a n = neighbors ?st m n"
    and all: "\<And>n. PHSet_Contains (AdjacencyList_AllNodes a) n \<longleftrightarrow>
         (\<exists>k<m. n = gl_src (?st ! k) \<or> n = gl_dst (?st ! k))"
    by auto
  have u: "unat (of_nat m :: 16 word) = m"
    using Suc.prems assms(1) by (intro of_nat_unat_less) simp
  let ?a = "AdjacencyList_AddLink a (of_nat m) (gl_src ?l) (gl_dst ?l) (lb_delay ?l)"
  have tk: "take (Suc m) ?st = take m ?st @ [?l]"
    using Suc.prems by (simp add: take_Suc_conv_app_nth)
  have dup: "(gl_src ?l, gl_dst ?l) \<in> set (map (\<lambda>l. (gl_src l, gl_dst l)) (take m ?st)) \<longleftrightarrow>
      list_ex (\<lambda>info. li_dst_index info = gl_dst ?l) (AdjacencyList_GetNeighbors a (gl_src ?l))"
    using Suc.prems unfolding nb ex_dup_neighbors
    by (auto simp: nth_image [symmetric] image_iff) (metis atLeastLessThan_iff zero_le)
  have "rfold PopulateAdjacencyList_step (map of_nat [0..<Suc m]) (g\<lparr>gs_simple := True\<rparr>) =
      Ok (g\<lparr>gs_adjacency_list := ?a,
            gs_simple := distinct (map (\<lambda>l. (gl_src l, gl_dst l)) (take (Suc m) ?st))\<rparr>)"
    using Suc.prems dup
    by (simp add: rfold_append r PopulateAdjacencyList_step_def GraphStorage_GetLink_def
        PHStore_GetItemOrDie_def u Let_def tk)
  moreover have "AdjacencyList_GetNeighbors ?a n = neighbors ?st (Suc m) n" for n
    by (simp add: GetNeighbors_AddLink [OF cl] nb neighbors_def link_info_def)
  moreover have "adj_clean ?a" using cl by (rule adj_clean_AddLink)
  moreover have "PHSet_Contains (AdjacencyList_AllNodes ?a) n \<longleftrightarrow>
         (\<exists>k<Suc m. n = gl_src (?st ! k) \<or> n = gl_dst (?st ! k))" for n
    by (auto simp: all less_Suc_eq)
  ultimately show ?case by blast
qed

lemma PopulateAdjacencyList_Ok:
  assumes "length (gs_link_store g) < 2 ^ 16" and "gs_adjacency_list g = AdjacencyList_new"
  shows "\<exists>a. GraphStorage_PopulateAdjacencyList g =
      Ok (g\<lparr>gs_adjacency_list := a,
            gs_simple := distinct (map (\<lambda>l. (gl_src l, gl_dst l)) (gs_link_store g))\<rparr>) \<and>
      (\<forall>n. AdjacencyList_GetNeighbors a n = neighbors (gs_link_store g) (length (gs_link_store g)) n) \<and>
      (\<forall>n. PHSet_Contains (AdjacencyList_AllNodes a) n \<longleftrightarrow>
         (\<exists>l \<in> set (gs_link_store g). n = gl_src l \<or> n = gl_dst l))"
proof -
  have "(\<exists>k<length st. n = gl_src (st ! k) \<or> n = gl_dst (st ! k)) \<longleftrightarrow>
        (\<exists>l \<in> set st. n = gl_src l \<or> n = gl_dst l)" for st :: "GraphLink list" and n
    by (metis in_set_conv_nth)
  note ex = this
  show ?thesis
    using populate_prefix [OF assms order_refl]
    unfolding GraphStorage_PopulateAdjacencyList_def GraphStorage_AllLinks_def PHSet_elems_full
      take_all [OF order_refl] ex by blast
qed

section \<open>The constructed graph\<close>

text \<open>What the constructor promises its clients.\<close>

definition graph_wf :: "GraphStorage \<Rightarrow> bool" where
  "graph_wf g \<longleftrightarrow> store_wf g \<and>
     set (gs_node_store g) = (\<Union>l \<in> set (gs_link_store g). {lb_src_id l, lb_dst_id l}) \<and>
     (\<forall>n. AdjacencyList_GetNeighbors (gs_adjacency_list g) n =
            neighbors (gs_link_store g) (length (gs_link_store g)) n) \<and>
     (\<forall>n. PHSet_Contains (AdjacencyList_AllNodes (gs_adjacency_list g)) n \<longleftrightarrow>
            (\<exists>l \<in> set (gs_link_store g). n = gl_src l \<or> n = gl_dst l)) \<and>
     gs_simple g = distinct (map (\<lambda>l. (gl_src l, gl_dst l)) (gs_link_store g))"

lemma store_wf_empty: "store_wf (GraphStorage_empty o')"
  by (simp add: store_wf_def nodes_wf_def links_wf_def GraphStorage_empty_def links_between_def smap_get_def)

lemma add_links_Ok:
  assumes "rfold GraphStorage_add_link_base bs (GraphStorage_empty o') = Ok g"
  shows "store_wf g \<and> map GraphLinkBase.truncate (gs_link_store g) = bs \<and>
         set (gs_node_store g) = (\<Union>b \<in> set bs. {lb_src_id b, lb_dst_id b}) \<and>
         gs_adjacency_list g = AdjacencyList_new \<and> gs_node_order g = o'"
  using assms
proof (induction bs arbitrary: g rule: rev_induct)
  case Nil
  then have "g = GraphStorage_empty o'" by simp
  with store_wf_empty [of o'] show ?case by (simp add: GraphStorage_empty_def)
next
  case (snoc b bs)
  then obtain h where h: "rfold GraphStorage_add_link_base bs (GraphStorage_empty o') = Ok h"
    "GraphStorage_add_link_base b h = Ok g"
    by (auto simp: rfold_append rbind_eq_Ok)
  with snoc.IH [OF h(1)] add_link_base_Ok [OF h(2)] show ?case by auto
qed

lemma add_links_succeeds:
  assumes "length bs < 2 ^ 16" and "card (\<Union>b \<in> set bs. {lb_src_id b, lb_dst_id b}) < 2 ^ 16"
  shows "\<exists>g. rfold GraphStorage_add_link_base bs (GraphStorage_empty o') = Ok g"
  using assms
proof (induction bs rule: rev_induct)
  case (snoc b bs)
  let ?N = "\<lambda>bs :: GraphLinkBase list. \<Union>b \<in> set bs. {lb_src_id b, lb_dst_id b}"
  have "card (?N bs) \<le> card (?N (bs @ [b]))" by (rule card_mono) auto
  with snoc obtain h where h: "rfold GraphStorage_add_link_base bs (GraphStorage_empty o') = Ok h"
    by fastforce
  note hw = add_links_Ok [OF h]
  have "length (gs_link_store h) = length bs" using hw by (metis length_map)
  moreover have "{lb_src_id b, lb_dst_id b} \<union> set (gs_node_store h) = ?N (bs @ [b])" using hw by auto
  ultimately have "\<exists>g. GraphStorage_add_link_base b h = Ok g"
    using snoc.prems hw by (intro add_link_base_succeeds) auto
  with h show ?case by (auto simp: rfold_append)
qed simp

lemma truncate_ids [simp]:
  "lb_src_id (GraphLinkBase.truncate l) = lb_src_id l" "lb_dst_id (GraphLinkBase.truncate l) = lb_dst_id l"
  "lb_bandwidth (GraphLinkBase.truncate l) = lb_bandwidth l" "lb_delay (GraphLinkBase.truncate l) = lb_delay l"
  by (simp_all add: GraphLinkBase.truncate_def)

lemma GraphStorage_new_Ok:
  assumes "GraphStorage_new b o' = Ok g"
  shows "graph_wf g \<and> map GraphLinkBase.truncate (gs_link_store g) = gb_links b \<and> gs_node_order g = o'"
proof -
  from assms obtain h where h: "rfold GraphStorage_add_link_base (gb_links b) (GraphStorage_empty o') = Ok h"
    and p: "GraphStorage_PopulateAdjacencyList h = Ok g"
    by (auto simp: GraphStorage_new_def rbind_eq_Ok Let_def check_eq_Ok split: if_splits)
  note hw = add_links_Ok [OF h]
  then have lt: "length (gs_link_store h) < 2 ^ 16" by (simp add: store_wf_def links_wf_def)
  have names: "(\<Union>b \<in> set (gb_links b). {lb_src_id b, lb_dst_id b}) =
      (\<Union>l \<in> set (gs_link_store h). {lb_src_id l, lb_dst_id l})"
    using hw by (auto simp flip: hw [THEN conjunct2, THEN conjunct1])
  from PopulateAdjacencyList_Ok [OF lt] hw p obtain a where
    g: "g = h\<lparr>gs_adjacency_list := a,
              gs_simple := distinct (map (\<lambda>l. (gl_src l, gl_dst l)) (gs_link_store h))\<rparr>"
    and a: "\<forall>n. AdjacencyList_GetNeighbors a n = neighbors (gs_link_store h) (length (gs_link_store h)) n"
      "\<forall>n. PHSet_Contains (AdjacencyList_AllNodes a) n \<longleftrightarrow>
         (\<exists>l \<in> set (gs_link_store h). n = gl_src l \<or> n = gl_dst l)"
    by auto
  show ?thesis
    using hw names a by (simp add: graph_wf_def g store_wf_def nodes_wf_def links_wf_def)
qed

lemma GraphStorage_new_succeeds:
  assumes "length (gb_links b) < 2 ^ 16"
    and "card (\<Union>l \<in> set (gb_links b). {lb_src_id l, lb_dst_id l}) < 2 ^ 16"
  shows "\<exists>g. GraphStorage_new b [] = Ok g"
proof -
  from add_links_succeeds [OF assms] obtain h where
    h: "rfold GraphStorage_add_link_base (gb_links b) (GraphStorage_empty []) = Ok h" by auto
  note hw = add_links_Ok [OF h]
  then have "length (gs_link_store h) < 2 ^ 16" by (simp add: store_wf_def links_wf_def)
  from PopulateAdjacencyList_Ok [OF this] hw h show ?thesis
    by (auto simp: GraphStorage_new_def)
qed

section \<open>Looking links up\<close>

lemma links_between_nth:
  assumes "length store < 2 ^ 16"
  shows "i \<in> set (links_between store s d) \<longleftrightarrow>
     unat i < length store \<and> lb_src_id (store ! unat i) = s \<and> lb_dst_id (store ! unat i) = d"
proof -
  have "unat (of_nat k :: 16 word) = k" if "k < length store" for k
    using that assms by (simp add: of_nat_unat_less)
  then show ?thesis by (auto simp: links_between_def image_iff)
qed

lemma links_lookup:
  assumes "links_wf g"
  shows "(case map_of (gs_links g) s of None \<Rightarrow> None | Some m \<Rightarrow> map_of m d) =
         (if links_between (gs_link_store g) s d = [] then None
          else Some (links_between (gs_link_store g) s d))"
proof -
  have eq: "smap_get [] d (smap_get [] s (gs_links g)) = links_between (gs_link_store g) s d"
    and ne: "map_of (smap_get [] s (gs_links g)) d \<noteq> Some []"
    using assms by (auto simp: links_wf_def)
  have "(case map_of (gs_links g) s of None \<Rightarrow> None | Some m \<Rightarrow> map_of m d) =
        map_of (smap_get [] s (gs_links g)) d"
    by (simp add: smap_get_def split: option.split)
  moreover have "map_of (smap_get [] s (gs_links g)) d =
        (if links_between (gs_link_store g) s d = [] then None
         else Some (links_between (gs_link_store g) s d))"
    using eq ne by (simp add: smap_get_def [of "[]" d] split: option.splits)
  ultimately show ?thesis by simp
qed

lemma nested_lookup_case:
  "(case map_of m s of None \<Rightarrow> x | Some m' \<Rightarrow> (case map_of m' d of None \<Rightarrow> x | Some ls \<Rightarrow> f ls)) =
   (case (case map_of m s of None \<Rightarrow> None | Some m' \<Rightarrow> map_of m' d) of None \<Rightarrow> x | Some ls \<Rightarrow> f ls)"
  by (simp split: option.split)

lemmas links_lookup_case = nested_lookup_case links_lookup

lemma GetLink_Ok: "GraphStorage_GetLink g i = Ok l \<longleftrightarrow> unat i < length (gs_link_store g) \<and> gs_link_store g ! unat i = l"
  by (auto simp: GraphStorage_GetLink_def PHStore_GetItemOrDie_def check_eq_Ok)

lemma neighbors_mem:
  assumes "length store < 2 ^ 16"
  shows "info \<in> set (neighbors store (length store) n) \<longleftrightarrow>
     unat (li_link_index info) < length store \<and> info = link_info store (unat (li_link_index info)) \<and>
     li_src_index info = n"
proof -
  have set: "set (neighbors store (length store) n) =
      link_info store ` {k. k < length store \<and> gl_src (store ! k) = n}"
    by (auto simp: neighbors_def)
  have idx: "unat (li_link_index (link_info store k)) = k" if "k < length store" for k
    using that assms by (simp add: link_info_def of_nat_unat_less)
  have src: "li_src_index (link_info store k) = gl_src (store ! k)" for k
    by (simp add: link_info_def)
  show ?thesis
  proof
    assume "info \<in> set (neighbors store (length store) n)"
    then show "unat (li_link_index info) < length store \<and>
        info = link_info store (unat (li_link_index info)) \<and> li_src_index info = n"
      unfolding set using idx src by auto
  next
    assume r: "unat (li_link_index info) < length store \<and>
        info = link_info store (unat (li_link_index info)) \<and> li_src_index info = n"
    then have "gl_src (store ! unat (li_link_index info)) = n" using src by metis
    with r show "info \<in> set (neighbors store (length store) n)" unfolding set by blast
  qed
qed

lemma node_index_eq_iff:
  assumes "nodes_wf g" and "link_ok (gs_node_store g) l" and "link_ok (gs_node_store g) l'"
  shows "gl_src l = gl_src l' \<longleftrightarrow> lb_src_id l = lb_src_id l'"
    and "gl_dst l = gl_dst l' \<longleftrightarrow> lb_dst_id l = lb_dst_id l'"
  using assms nodes_wf_distinct [OF assms(1)] unfolding link_ok_def
  by (metis nth_eq_iff_index_eq unat_eq_unat_iff)+

section \<open>Properties\<close>

text \<open>A graph of two nodes and a link in each direction, for the concrete instances.\<close>

definition two_way :: GraphBuilder where
  "two_way = \<lparr>gb_auto_port_numbers = True, gb_links =
     [\<lparr>lb_src_id = ''A'', lb_dst_id = ''B'', lb_src_port = 1, lb_dst_port = 1,
       lb_bandwidth = 10, lb_delay = 5\<rparr>,
      \<lparr>lb_src_id = ''B'', lb_dst_id = ''A'', lb_src_port = 2, lb_dst_port = 2,
       lb_bandwidth = 10, lb_delay = 5\<rparr>]\<rparr>"

lemma two_way_size:
  "length (gb_links two_way) < 2 ^ 16"
  "card (\<Union>l \<in> set (gb_links two_way). {lb_src_id l, lb_dst_id l}) < 2 ^ 16"
  by (simp_all add: two_way_def card_insert_if)

lemma two_way_storage:
  "\<exists>g. GraphStorage_new two_way [] = Ok g \<and> graph_wf g \<and>
     map GraphLinkBase.truncate (gs_link_store g) = gb_links two_way"
proof -
  have "\<exists>g. GraphStorage_new two_way [] = Ok g"
    by (rule GraphStorage_new_succeeds [OF two_way_size])
  with GraphStorage_new_Ok show ?thesis by blast
qed

text \<open>C4. A builder with fewer than \<open>2 ^ 16\<close> links and node names always gives a storage, which holds
  the builder's links in order; every node index and name of a link agree with the node store, the
  name index, the per-pair link lists and the adjacency list describe exactly the stored links, and
  \<open>IsSimple\<close> holds exactly when no two links join the same ordered pair of nodes.\<close>

theorem GraphStorage_new_correct:
  assumes "length (gb_links b) < 2 ^ 16"
    and "card (\<Union>l \<in> set (gb_links b). {lb_src_id l, lb_dst_id l}) < 2 ^ 16"
  shows "\<exists>g. GraphStorage_new b [] = Ok g \<and> graph_wf g \<and>
           map GraphLinkBase.truncate (gs_link_store g) = gb_links b"
  using GraphStorage_new_succeeds [OF assms] GraphStorage_new_Ok by blast

theorem GraphStorage_new_correct_witness:
  "\<exists>g. GraphStorage_new two_way [] = Ok g \<and> graph_wf g"
  using GraphStorage_new_correct [OF two_way_size] by blast

text \<open>In a constructed graph \<open>LinkOrDie\<close> by name returns the first stored link from the source
  to the destination and aborts exactly when there is none; \<open>HasLink\<close> tells which; and
  \<open>FindUniqueInverseOrNull\<close> and \<open>FindUniqueInverseOrDie\<close> return the only link in the opposite
  direction, null and an abort respectively standing for none or several.\<close>

theorem GraphStorage_lookup:
  assumes "graph_wf g" and "src \<noteq> []" and "dst \<noteq> []" and "src \<noteq> dst"
    and "GraphStorage_GetLink g i = Ok link"
  shows "GraphStorage_LinkOrDie g src dst =
           (case links_between (gs_link_store g) src dst of [] \<Rightarrow> Fail Log_fatal | j # _ \<Rightarrow> Ok j) \<and>
         GraphStorage_HasLink g src dst = Ok (links_between (gs_link_store g) src dst \<noteq> []) \<and>
         GraphStorage_FindUniqueInverseOrNull g link =
           Ok (case links_between (gs_link_store g) (lb_dst_id link) (lb_src_id link) of
                 [j] \<Rightarrow> Some j | _ \<Rightarrow> None) \<and>
         GraphStorage_FindUniqueInverseOrDie g link =
           (case links_between (gs_link_store g) (lb_dst_id link) (lb_src_id link) of
              [j] \<Rightarrow> Ok j | _ \<Rightarrow> Fail Check_failed)"
proof -
  have wf: "nodes_wf g" "links_wf g" using assms(1) by (auto simp: graph_wf_def store_wf_def)
  have "link_ok (gs_node_store g) link"
    using assms(1,5) by (auto simp: GetLink_Ok graph_wf_def store_wf_def)
  then have gn: "GraphStorage_GetNode g (gl_src link) = Ok (lb_src_id link)"
    "GraphStorage_GetNode g (gl_dst link) = Ok (lb_dst_id link)"
    by (auto simp: link_ok_def GraphStorage_GetNode_def PHStore_GetItemOrDie_def)
  have or_die: "rbind (FindOrDie (gs_links g) s) (\<lambda>m. rbind (FindOrDie m d) f) =
      (case (case map_of (gs_links g) s of None \<Rightarrow> None | Some m \<Rightarrow> map_of m d) of
         None \<Rightarrow> Fail Check_failed | Some ls \<Rightarrow> f ls)" for s d and f :: "Links \<Rightarrow> GraphLinkIndex res"
    by (simp add: FindOrDie_def split: option.split)
  show ?thesis
    using assms(2-4)
    by (auto simp: GraphStorage_LinkOrDie_def GraphStorage_HasLink_def
        GraphStorage_FindUniqueInverseOrNull_def GraphStorage_FindUniqueInverseOrDie_def gn or_die
        nested_lookup_case links_lookup [OF wf(2)] neq_Nil_conv hd_conv_nth split: list.split)
qed

theorem GraphStorage_lookup_witness:
  "\<exists>g link. graph_wf g \<and> GraphStorage_GetLink g 0 = Ok link \<and>
     GraphStorage_HasLink g ''A'' ''B'' = Ok True \<and>
     GraphStorage_FindUniqueInverseOrDie g link = Ok 1"
proof -
  obtain g where g: "graph_wf g" "map GraphLinkBase.truncate (gs_link_store g) = gb_links two_way"
    using two_way_storage by blast
  have len: "length (gs_link_store g) = 2" using g(2) by (metis length_map two_way_def
      GraphBuilder.select_convs(2) length_Cons list.size(3) numeral_2_eq_2)
  have nth: "GraphLinkBase.truncate (gs_link_store g ! k) = gb_links two_way ! k" if "k < 2" for k
    using that g(2) len by (metis nth_map)
  have ids: "lb_src_id (gs_link_store g ! 0) = ''A''" "lb_dst_id (gs_link_store g ! 0) = ''B''"
    "lb_src_id (gs_link_store g ! 1) = ''B''" "lb_dst_id (gs_link_store g ! 1) = ''A''"
    using nth [of 0] nth [of 1] by (auto simp: two_way_def GraphLinkBase.truncate_def)
  have "[0..<2 :: nat] = [0, 1]" by (simp add: upt_conv_Cons numeral_2_eq_2)
  then have lb: "links_between (gs_link_store g) ''A'' ''B'' = [0]"
    "links_between (gs_link_store g) ''B'' ''A'' = [1]"
    using ids by (simp_all add: links_between_def len)
  have h: "GraphStorage_GetLink g 0 = Ok (gs_link_store g ! 0)" by (simp add: GetLink_Ok len)
  from GraphStorage_lookup [OF g(1) _ _ _ h, of "''A''" "''B''"] g(1) h lb ids
  show ?thesis by auto
qed

end
