(* ===== verification/Graph_Transform.thy ===== *)
theory Graph_Transform
  imports Graph_Storage "HOL-Library.Multiset"
begin

text \<open>
  The two operations that rebuild a list of links from nested ordered maps:
  \<open>GraphBuilder::RemoveMultipleLinks\<close> and \<open>GraphStorage::ToBuilder\<close> of
  \<open>src/src/net/net_common.cc\<close>. Both run over a map of maps; \<open>flatten2\<close> is that loop, and its
  lemmas say which entries it meets and that it meets each of them once.
\<close>

section \<open>Running over a map of maps\<close>

definition flatten2 :: "('a, ('b, 'c) smap) smap \<Rightarrow> ('a \<times> 'b \<times> 'c) list" where
  "flatten2 m = concat (map (\<lambda>(s, rest). map (\<lambda>(d, x). (s, d, x)) rest) m)"

lemma set_flatten2:
  assumes "smap_wf m" and "\<And>s. smap_wf (smap_get [] s m)"
  shows "(s, d, x) \<in> set (flatten2 m) \<longleftrightarrow> map_of (smap_get [] s m) d = Some x"
proof -
  have "(s, d, x) \<in> set (flatten2 m) \<longleftrightarrow> (\<exists>rest. (s, rest) \<in> set m \<and> (d, x) \<in> set rest)"
    by (force simp: flatten2_def)
  also have "\<dots> \<longleftrightarrow> (\<exists>rest. map_of m s = Some rest \<and> (d, x) \<in> set rest)"
    using smap_mem_iff [OF assms(1)] by metis
  also have "\<dots> \<longleftrightarrow> (d, x) \<in> set (smap_get [] s m)"
    by (cases "map_of m s") (auto simp: smap_get_def)
  also have "\<dots> \<longleftrightarrow> map_of (smap_get [] s m) d = Some x"
    using smap_mem_iff [OF assms(2)] .
  finally show ?thesis .
qed

lemma distinct_flatten2_aux:
  assumes "distinct (map fst m)" and "\<And>s rest. (s, rest) \<in> set m \<Longrightarrow> distinct (map fst rest)"
  shows "distinct (map (\<lambda>(s, d, x). (s, d)) (flatten2 m))"
  using assms
proof (induction m)
  case (Cons e m)
  obtain s rest where e: "e = (s, rest)" by (cases e)
  have IH: "distinct (map (\<lambda>(s, d, x). (s, d)) (flatten2 m))"
    using Cons.prems by (intro Cons.IH) auto
  have "distinct (map fst rest)" using Cons.prems(2) [of s rest] e by simp
  then have "distinct (map (\<lambda>(d, x). (s, d)) rest)"
    by (simp add: distinct_map inj_on_def case_prod_beta)
  have "fst ` set (map (\<lambda>(s, d, x). (s, d)) (flatten2 m)) \<subseteq> fst ` set m"
    by (force simp: flatten2_def)
  moreover have "s \<notin> fst ` set m" using Cons.prems(1) e by simp
  moreover have "fst ` set (map (\<lambda>(d, x). (s, d)) rest) \<subseteq> {s}" by auto
  ultimately have "set (map (\<lambda>(d, x). (s, d)) rest) \<inter> set (map (\<lambda>(s, d, x). (s, d)) (flatten2 m)) = {}"
    by blast
  moreover have "map (\<lambda>(s, d, x). (s, d)) (flatten2 (e # m)) =
      map (\<lambda>(d, x). (s, d)) rest @ map (\<lambda>(s, d, x). (s, d)) (flatten2 m)"
    by (simp add: e flatten2_def comp_def case_prod_beta)
  ultimately show ?case
    using IH \<open>distinct (map (\<lambda>(d, x). (s, d)) rest)\<close> by simp
qed (simp add: flatten2_def)

lemma distinct_flatten2:
  assumes "smap_wf m" and "\<And>s. smap_wf (smap_get [] s m)"
  shows "distinct (map (\<lambda>(s, d, x). (s, d)) (flatten2 m))"
proof (rule distinct_flatten2_aux)
  show "distinct (map fst m)" using assms(1) by (rule smap_wf_distinct)
  fix s rest assume "(s, rest) \<in> set m"
  then have "smap_get [] s m = rest" using smap_mem_iff [OF assms(1)] by (simp add: smap_get_def)
  with assms(2) [of s] show "distinct (map fst rest)" by (simp add: smap_wf_distinct)
qed

section \<open>RemoveMultipleLinks\<close>

definition pair_of :: "GraphLinkBase \<Rightarrow> string \<times> string" where
  "pair_of l = (lb_src_id l, lb_dst_id l)"

text \<open>The bandwidth of all the links of a pair among the first \<open>i\<close>.\<close>

definition pair_bandwidth :: "GraphLinkBase list \<Rightarrow> nat \<Rightarrow> string \<times> string \<Rightarrow> nat" where
  "pair_bandwidth bs i p = sum_list (map (unat \<circ> lb_bandwidth) (filter (\<lambda>l. pair_of l = p) (take i bs)))"

lemma pair_bandwidth_Suc:
  "i < length bs \<Longrightarrow> pair_bandwidth bs (Suc i) p =
     pair_bandwidth bs i p + (if pair_of (bs ! i) = p then unat (lb_bandwidth (bs ! i)) else 0)"
  by (simp add: pair_bandwidth_def take_Suc_conv_app_nth)

definition rml_inv :: "GraphLinkBase list \<Rightarrow> nat \<Rightarrow> GraphLinkBase list \<times> multi_index \<Rightarrow> bool" where
  "rml_inv bs i st \<longleftrightarrow> (case st of (links, m) \<Rightarrow>
     length links = length bs \<and> smap_wf m \<and> (\<forall>s. smap_wf (smap_get [] s m)) \<and>
     (\<forall>k. i \<le> k \<longrightarrow> k < length bs \<longrightarrow> links ! k = bs ! k) \<and>
     (\<forall>s d. map_of (smap_get [] s m) d = find (\<lambda>k. pair_of (bs ! k) = (s, d)) [0..<i]) \<and>
     (\<forall>s d j. map_of (smap_get [] s m) d = Some j \<longrightarrow>
        pair_of (links ! j) = (s, d) \<and> lb_delay (links ! j) = lb_delay (bs ! j) \<and>
        unat (lb_bandwidth (links ! j)) = min (2 ^ 64 - 1) (pair_bandwidth bs i (s, d))))"

lemma find_snoc:
  "find P (xs @ [x]) = (case find P xs of None \<Rightarrow> if P x then Some x else None | Some k \<Rightarrow> Some k)"
  by (induction xs) auto

lemma find_upt_Suc:
  "find P [0..<Suc i] = (case find P [0..<i] of None \<Rightarrow> if P i then Some i else None | Some k \<Rightarrow> Some k)"
  by (simp add: find_snoc)

lemma find_upt_less: "find P [0..<i] = Some k \<Longrightarrow> k < i \<and> P k"
  by (auto simp: find_Some_iff)

lemma pair_bandwidth_none:
  assumes "find (\<lambda>k. pair_of (bs ! k) = p) [0..<i] = None" and "i \<le> length bs"
  shows "pair_bandwidth bs i p = 0"
proof -
  have "filter (\<lambda>l. pair_of l = p) (take i bs) = []"
    using assms by (auto simp: find_None_iff filter_empty_conv in_set_conv_nth) blast
  then show ?thesis by (simp add: pair_bandwidth_def)
qed

lemma rml_step:
  assumes inv: "rml_inv bs i (links, m)" and i: "i < length bs"
  shows "rml_inv bs (Suc i) (RemoveMultipleLinks_step i (links, m))"
proof -
  let ?P = "\<lambda>s d k. pair_of (bs ! k) = (s, d)"
  let ?S = "lb_src_id (bs ! i)" and ?D = "lb_dst_id (bs ! i)"
  have len: "length links = length bs" and wf: "smap_wf m" "\<And>s. smap_wf (smap_get [] s m)"
    and same: "\<And>k. i \<le> k \<Longrightarrow> k < length bs \<Longrightarrow> links ! k = bs ! k"
    and fnd: "\<And>s d. map_of (smap_get [] s m) d = find (?P s d) [0..<i]"
    and val: "\<And>s d j. map_of (smap_get [] s m) d = Some j \<Longrightarrow>
        pair_of (links ! j) = (s, d) \<and> lb_delay (links ! j) = lb_delay (bs ! j) \<and>
        unat (lb_bandwidth (links ! j)) = min (2 ^ 64 - 1) (pair_bandwidth bs i (s, d))"
    using inv by (auto simp: rml_inv_def)
  have li: "links ! i = bs ! i" using same i by simp
  have Pi: "?P s d i \<longleftrightarrow> s = ?S \<and> d = ?D" for s d by (auto simp: pair_of_def)
  show ?thesis
  proof (cases "map_of (smap_get [] ?S m) ?D")
    case (Some j)
    let ?links = "links[j := GraphLinkBase_AddToBandwidth (links ! j) (lb_bandwidth (bs ! i))]"
    have st: "RemoveMultipleLinks_step i (links, m) = (?links, m)"
      using Some by (simp add: RemoveMultipleLinks_step_def Let_def li)
    have j: "j < i" using Some fnd find_upt_less by metis
    have fnd': "find (?P s d) [0..<Suc i] = map_of (smap_get [] s m) d" for s d
    proof (cases "s = ?S \<and> d = ?D")
      case True
      then show ?thesis using Some fnd by (simp add: find_upt_Suc del: upt_Suc)
    next
      case False
      then show ?thesis using fnd Pi by (simp add: find_upt_Suc del: upt_Suc split: option.split)
    qed
    have val': "pair_of (?links ! j') = (s, d) \<and> lb_delay (?links ! j') = lb_delay (bs ! j') \<and>
        unat (lb_bandwidth (?links ! j')) = min (2 ^ 64 - 1) (pair_bandwidth bs (Suc i) (s, d))"
      if "map_of (smap_get [] s m) d = Some j'" for s d j'
    proof (cases "s = ?S \<and> d = ?D")
      case True
      with that Some have "j' = j" by simp
      with val [OF that] True j i len show ?thesis
        by (auto simp: unat_AddToBandwidth pair_bandwidth_Suc pair_of_def)
    next
      case False
      then have "pair_of (bs ! i) \<noteq> (s, d)" using Pi by blast
      moreover from False val [OF that] val [OF Some] have "j' \<noteq> j" by auto
      ultimately show ?thesis using val [OF that] i by (simp add: pair_bandwidth_Suc)
    qed
    show ?thesis
      unfolding st rml_inv_def using len wf same j fnd' val' by (simp del: upt_Suc)
  next
    case None
    let ?m = "smap_upd [] ?S (smap_put ?D i) m"
    have st: "RemoveMultipleLinks_step i (links, m) = (links, ?m)"
      using None by (simp add: RemoveMultipleLinks_step_def Let_def li)
    have get: "smap_get [] s ?m = (if s = ?S then smap_put ?D i (smap_get [] ?S m) else smap_get [] s m)" for s
      using wf(1) by (simp add: smap_upd_def smap_get_put)
    have look: "map_of (smap_get [] s ?m) d = (if s = ?S \<and> d = ?D then Some i else map_of (smap_get [] s m) d)"
      for s d using wf(2) [of ?S] by (simp add: get)
    have fnd': "find (?P s d) [0..<Suc i] = map_of (smap_get [] s ?m) d" for s d
    proof (cases "s = ?S \<and> d = ?D")
      case True
      then show ?thesis using None fnd Pi by (simp add: look find_upt_Suc del: upt_Suc)
    next
      case False
      then have "map_of (smap_get [] s ?m) d = find (?P s d) [0..<i]"
        using look [of s d] fnd [of s d] by (metis (lifting))
      moreover have "pair_of (bs ! i) \<noteq> (s, d)" using False Pi by blast
      ultimately show ?thesis by (simp add: find_upt_Suc del: upt_Suc split: option.split)
    qed
    have val': "pair_of (links ! j') = (s, d) \<and> lb_delay (links ! j') = lb_delay (bs ! j') \<and>
        unat (lb_bandwidth (links ! j')) = min (2 ^ 64 - 1) (pair_bandwidth bs (Suc i) (s, d))"
      if "map_of (smap_get [] s ?m) d = Some j'" for s d j'
    proof (cases "s = ?S \<and> d = ?D")
      case True
      with that have j': "j' = i" by (simp add: look)
      have "pair_bandwidth bs i (?S, ?D) = 0"
        using None fnd i by (intro pair_bandwidth_none) auto
      moreover have "unat (lb_bandwidth (bs ! i)) \<le> 2 ^ 64 - 1"
        using unat_bound [of "lb_bandwidth (bs ! i)"] by simp
      ultimately show ?thesis
        using True j' li i by (simp add: pair_of_def pair_bandwidth_Suc)
    next
      case False
      with that have "map_of (smap_get [] s m) d = Some j'" by (simp add: look split: if_splits)
      moreover from False have "pair_of (bs ! i) \<noteq> (s, d)" using Pi by blast
      ultimately show ?thesis using val [of s d j'] i by (simp add: pair_bandwidth_Suc)
    qed
    have "smap_wf (smap_get [] s ?m)" for s using wf by (simp add: get)
    then show ?thesis
      unfolding st rml_inv_def using len wf same fnd' val' by (simp del: upt_Suc)
  qed
qed

lemma rml_fold:
  "i \<le> length bs \<Longrightarrow> rml_inv bs i (fold RemoveMultipleLinks_step [0..<i] (bs, []))"
proof (induction i)
  case 0
  show ?case by (simp add: rml_inv_def smap_get_def)
next
  case (Suc i)
  then show ?case
    by (cases "fold RemoveMultipleLinks_step [0..<i] (bs, [])") (auto intro: rml_step)
qed

lemma RemoveMultipleLinks_flatten2:
  "fold RemoveMultipleLinks_step [0..<length (gb_links b)] (gb_links b, []) = (links, m) \<Longrightarrow>
   gb_links (GraphBuilder_RemoveMultipleLinks b) = map (\<lambda>(s, d, j). links ! j) (flatten2 m)"
  by (simp add: GraphBuilder_RemoveMultipleLinks_def flatten2_def map_concat comp_def split_def)

lemma find_upt_ex: "k < n \<Longrightarrow> P k \<Longrightarrow> \<exists>j. find P [0..<n] = Some j"
  by (cases "find P [0..<n]") (auto simp: find_None_iff)

text \<open>C31. \<open>RemoveMultipleLinks\<close> leaves exactly one link for each ordered pair of nodes that had one,
  and its bandwidth is the sum of the bandwidths of that pair's links, or the largest bandwidth
  where the sum does not fit.\<close>

theorem RemoveMultipleLinks_correct:
  "distinct (map pair_of (gb_links (GraphBuilder_RemoveMultipleLinks b))) \<and>
   pair_of ` set (gb_links (GraphBuilder_RemoveMultipleLinks b)) = pair_of ` set (gb_links b) \<and>
   (\<forall>l \<in> set (gb_links (GraphBuilder_RemoveMultipleLinks b)).
      unat (lb_bandwidth l) = min (2 ^ 64 - 1)
        (sum_list (map (unat \<circ> lb_bandwidth) (filter (\<lambda>k. pair_of k = pair_of l) (gb_links b)))))"
proof -
  let ?bs = "gb_links b"
  obtain links m where f: "fold RemoveMultipleLinks_step [0..<length ?bs] (?bs, []) = (links, m)"
    by (cases "fold RemoveMultipleLinks_step [0..<length ?bs] (?bs, [])")
  have inv: "rml_inv ?bs (length ?bs) (links, m)" using rml_fold [of "length ?bs" ?bs] f by simp
  then have wf: "smap_wf m" "\<And>s. smap_wf (smap_get [] s m)"
    and fnd: "\<And>s d. map_of (smap_get [] s m) d = find (\<lambda>k. pair_of (?bs ! k) = (s, d)) [0..<length ?bs]"
    and val: "\<And>s d j. map_of (smap_get [] s m) d = Some j \<Longrightarrow> pair_of (links ! j) = (s, d) \<and>
        unat (lb_bandwidth (links ! j)) = min (2 ^ 64 - 1) (pair_bandwidth ?bs (length ?bs) (s, d))"
    by (auto simp: rml_inv_def)
  note mem = set_flatten2 [OF wf]
  note out = RemoveMultipleLinks_flatten2 [OF f]
  have pairs: "map pair_of (map (\<lambda>(s, d, j). links ! j) (flatten2 m)) = map (\<lambda>(s, d, j). (s, d)) (flatten2 m)"
    using mem val by (auto simp: case_prod_beta)
  have "pair_of ` set ?bs = {(s, d). \<exists>j. map_of (smap_get [] s m) d = Some j}"
  proof (intro set_eqI iffI)
    fix p assume "p \<in> pair_of ` set ?bs"
    then obtain k where "k < length ?bs" "pair_of (?bs ! k) = p" by (auto simp: in_set_conv_nth)
    then show "p \<in> {(s, d). \<exists>j. map_of (smap_get [] s m) d = Some j}"
      using find_upt_ex [of k "length ?bs" "\<lambda>k. pair_of (?bs ! k) = p"] by (cases p) (simp add: fnd)
  next
    fix p assume "p \<in> {(s, d). \<exists>j. map_of (smap_get [] s m) d = Some j}"
    then obtain j where "j < length ?bs" "pair_of (?bs ! j) = p"
      using find_upt_less [of _ "length ?bs"] by (auto simp: fnd)
    then show "p \<in> pair_of ` set ?bs" by force
  qed
  also have "\<dots> = set (map (\<lambda>(s, d, j). (s, d)) (flatten2 m))"
    using mem by force
  finally have img: "pair_of ` set (gb_links (GraphBuilder_RemoveMultipleLinks b)) = pair_of ` set ?bs"
    unfolding out pairs [symmetric] by (simp add: image_image)
  have dist: "distinct (map pair_of (gb_links (GraphBuilder_RemoveMultipleLinks b)))"
    unfolding out pairs by (rule distinct_flatten2 [OF wf])
  have "unat (lb_bandwidth l) = min (2 ^ 64 - 1) (pair_bandwidth ?bs (length ?bs) (pair_of l))"
    if "l \<in> set (gb_links (GraphBuilder_RemoveMultipleLinks b))" for l
    using that mem val unfolding out by (auto simp: case_prod_beta)
  with img dist show ?thesis by (simp add: pair_bandwidth_def)
qed

definition parallel :: GraphBuilder where
  "parallel = \<lparr>gb_auto_port_numbers = True, gb_links =
     [\<lparr>lb_src_id = ''A'', lb_dst_id = ''B'', lb_src_port = 1, lb_dst_port = 1,
       lb_bandwidth = 10, lb_delay = 5\<rparr>,
      \<lparr>lb_src_id = ''A'', lb_dst_id = ''B'', lb_src_port = 2, lb_dst_port = 2,
       lb_bandwidth = 20, lb_delay = 6\<rparr>]\<rparr>"

theorem RemoveMultipleLinks_correct_witness:
  "\<exists>l. l \<in> set (gb_links (GraphBuilder_RemoveMultipleLinks parallel)) \<and> unat (lb_bandwidth l) = 30"
proof -
  have "pair_of ` set (gb_links (GraphBuilder_RemoveMultipleLinks parallel)) = {(''A'', ''B'')}"
    using RemoveMultipleLinks_correct [of parallel] by (simp add: parallel_def pair_of_def)
  then obtain l where l: "l \<in> set (gb_links (GraphBuilder_RemoveMultipleLinks parallel))"
    "pair_of l = (''A'', ''B'')" by (metis imageE insertI1)
  with RemoveMultipleLinks_correct [of parallel] have "unat (lb_bandwidth l) = 30"
    by (simp add: parallel_def pair_of_def)
  with l show ?thesis by blast
qed

section \<open>ToBuilder\<close>

definition link_valid :: "GraphLinkBase \<Rightarrow> bool" where
  "link_valid l \<longleftrightarrow> lb_src_id l \<noteq> [] \<and> lb_dst_id l \<noteq> [] \<and> lb_src_id l \<noteq> lb_dst_id l \<and>
     lb_delay l \<noteq> 0 \<and> lb_bandwidth l \<noteq> 0"

definition link_attrs :: "GraphLinkBase \<Rightarrow> string \<times> string \<times> Bandwidth \<times> Delay" where
  "link_attrs l = (lb_src_id l, lb_dst_id l, lb_bandwidth l, lb_delay l)"

text \<open>The links in the order \<open>ToBuilder\<close> meets them.\<close>

definition stored_links :: "GraphStorage \<Rightarrow> (string \<times> string \<times> GraphLinkIndex) list" where
  "stored_links g = concat (map (\<lambda>(s, d, ls). map (\<lambda>i. (s, d, i)) ls) (flatten2 (gs_links g)))"

lemma stored_links_loop:
  "concat (map (\<lambda>(src, rest). concat (map (\<lambda>(dst, links). map (\<lambda>i. (src, dst, i)) links) rest)) m) =
   concat (map (\<lambda>(s, d, ls). map (\<lambda>i. (s, d, i)) ls) (flatten2 m))"
  by (induction m) (auto simp: flatten2_def comp_def split_def)

lemma set_expand:
  "(s, d, i) \<in> set (concat (map (\<lambda>(s, d, ls). map (\<lambda>i. (s, d, i)) ls) t)) \<longleftrightarrow>
     (\<exists>ls. (s, d, ls) \<in> set t \<and> i \<in> set ls)"
  by (induction t) auto

lemma set_stored_links:
  assumes "links_wf g"
  shows "set (stored_links g) =
    (\<lambda>k. (lb_src_id (gs_link_store g ! k), lb_dst_id (gs_link_store g ! k), of_nat k)) `
      {..<length (gs_link_store g)}"
proof -
  let ?st = "gs_link_store g"
  have wf: "smap_wf (gs_links g)" "\<And>s. smap_wf (smap_get [] s (gs_links g))"
    using assms by (auto simp: links_wf_def)
  have look: "(\<exists>ls. map_of (smap_get [] s (gs_links g)) d = Some ls \<and> i \<in> set ls) \<longleftrightarrow>
      i \<in> set (links_between ?st s d)" for s d i
  proof -
    have "smap_get [] d (smap_get [] s (gs_links g)) = links_between ?st s d"
      using assms by (simp add: links_wf_def)
    then show ?thesis by (auto simp: smap_get_def [of "[]" d] split: option.splits)
  qed
  have mem: "(s, d, i) \<in> set (stored_links g) \<longleftrightarrow> i \<in> set (links_between ?st s d)" for s d i
  proof -
    have "(s, d, i) \<in> set (stored_links g) \<longleftrightarrow>
        (\<exists>ls. (s, d, ls) \<in> set (flatten2 (gs_links g)) \<and> i \<in> set ls)"
      unfolding stored_links_def by (rule set_expand)
    then show ?thesis by (simp only: set_flatten2 [OF wf] look)
  qed
  show ?thesis
    by (rule set_eqI, case_tac x) (auto simp: mem links_between_def)
qed

lemma distinct_stored_links:
  assumes "links_wf g"
  shows "distinct (stored_links g)"
proof -
  have wf: "smap_wf (gs_links g)" "\<And>s. smap_wf (smap_get [] s (gs_links g))"
    using assms by (auto simp: links_wf_def)
  have inj: "inj_on (of_nat :: nat \<Rightarrow> 16 word) {..<length (gs_link_store g)}"
    using assms by (intro inj_on_of_nat) (simp add: links_wf_def)
  have dl: "distinct ls" if "(s, d, ls) \<in> set (flatten2 (gs_links g))" for s d ls
  proof -
    have "map_of (smap_get [] s (gs_links g)) d = Some ls" using that set_flatten2 [OF wf] by simp
    moreover have "smap_get [] d (smap_get [] s (gs_links g)) = links_between (gs_link_store g) s d"
      using assms by (simp add: links_wf_def)
    ultimately have "ls = links_between (gs_link_store g) s d" by (simp add: smap_get_def)
    moreover have "inj_on (of_nat :: nat \<Rightarrow> 16 word) (set (filter P [0..<length (gs_link_store g)]))" for P
      by (rule inj_on_subset [OF inj]) auto
    ultimately show ?thesis by (simp add: links_between_def distinct_map)
  qed
  have "distinct (concat (map (\<lambda>(s, d, ls). map (\<lambda>i. (s, d, i)) ls) t))"
    if "distinct (map (\<lambda>(s, d, x). (s, d)) t)" "\<And>s d ls. (s, d, ls) \<in> set t \<Longrightarrow> distinct ls"
    for t :: "(string \<times> string \<times> Links) list"
    using that
  proof (induction t)
    case (Cons e t)
    obtain s d ls where e: "e = (s, d, ls)" by (cases e) auto
    have "distinct (map (\<lambda>i. (s, d, i)) ls)"
      using Cons.prems(2) [of s d ls] by (simp add: e distinct_map inj_on_def)
    moreover have "distinct (concat (map (\<lambda>(s, d, ls). map (\<lambda>i. (s, d, i)) ls) t))"
      using Cons.prems by (intro Cons.IH) auto
    moreover have "(s, d, i) \<notin> set (concat (map (\<lambda>(s, d, ls). map (\<lambda>i. (s, d, i)) ls) t))" for i
      using Cons.prems(1) unfolding set_expand by (force simp: e)
    ultimately show ?case by (auto simp: e simp del: set_concat)
  qed simp
  with distinct_flatten2 [OF wf] dl show ?thesis unfolding stored_links_def by blast
qed

lemma mset_stored_links:
  assumes "links_wf g"
  shows "mset (stored_links g) = mset (map (\<lambda>k. (lb_src_id (gs_link_store g ! k),
           lb_dst_id (gs_link_store g ! k), of_nat k)) [0..<length (gs_link_store g)])"
proof -
  have inj: "inj_on (of_nat :: nat \<Rightarrow> 16 word) {..<length (gs_link_store g)}"
    using assms by (intro inj_on_of_nat) (simp add: links_wf_def)
  have "distinct (map (\<lambda>k. (lb_src_id (gs_link_store g ! k), lb_dst_id (gs_link_store g ! k),
          of_nat k :: 16 word)) [0..<length (gs_link_store g)])"
    using inj by (simp add: distinct_map inj_on_def atLeast0LessThan)
  moreover have "set (stored_links g) = set (map (\<lambda>k. (lb_src_id (gs_link_store g ! k),
           lb_dst_id (gs_link_store g ! k), of_nat k)) [0..<length (gs_link_store g)])"
    unfolding set_stored_links [OF assms] by (simp add: atLeast0LessThan)
  ultimately show ?thesis
    using distinct_stored_links [OF assms] set_eq_iff_mset_eq_distinct by blast
qed

lemma ToBuilder_loop:
  assumes "\<And>s d i. (s, d, i) \<in> set t \<Longrightarrow> unat i < length (gs_link_store g) \<and>
      s \<noteq> [] \<and> d \<noteq> [] \<and> s \<noteq> d \<and>
      lb_bandwidth (gs_link_store g ! unat i) \<noteq> 0 \<and> lb_delay (gs_link_store g ! unat i) \<noteq> 0"
    and "gb_auto_port_numbers b"
  shows "\<exists>b'. rfold (\<lambda>(src, dst, link_index) out.
              rbind (GraphStorage_GetLink g link_index) (\<lambda>l.
              rbind (GraphLinkBase_new_no_ports src dst (lb_bandwidth l) (lb_delay l))
                (GraphBuilder_AddLink out))) t b = Ok b' \<and>
     map link_attrs (gb_links b') = map link_attrs (gb_links b) @
       map (\<lambda>(s, d, i). (s, d, lb_bandwidth (gs_link_store g ! unat i),
                                lb_delay (gs_link_store g ! unat i))) t"
  using assms
proof (induction t arbitrary: b)
  case (Cons e t)
  obtain s d i where e: "e = (s, d, i)" by (cases e) auto
  have v: "unat i < length (gs_link_store g)" "s \<noteq> []" "d \<noteq> []" "s \<noteq> d"
    "lb_bandwidth (gs_link_store g ! unat i) \<noteq> 0" "lb_delay (gs_link_store g ! unat i) \<noteq> 0"
    using Cons.prems(1) [of s d i] e by simp_all
  have get: "GraphStorage_GetLink g i = Ok (gs_link_store g ! unat i)" using v(1) by (simp add: GetLink_Ok)
  define new where "new = \<lparr>lb_src_id = s, lb_dst_id = d,
      lb_src_port = of_nat (length (gb_links b) + 1) :: 32 word,
      lb_dst_port = of_nat (length (gb_links b) + 1),
      lb_bandwidth = lb_bandwidth (gs_link_store g ! unat i), lb_delay = lb_delay (gs_link_store g ! unat i)\<rparr>"
  have step: "rbind (GraphLinkBase_new_no_ports s d (lb_bandwidth (gs_link_store g ! unat i))
        (lb_delay (gs_link_store g ! unat i))) (GraphBuilder_AddLink b) =
      Ok (b\<lparr>gb_links := gb_links b @ [new]\<rparr>)"
    using v Cons.prems(2)
    by (simp add: GraphLinkBase_new_no_ports_def GraphLinkBase_new_def GraphBuilder_AddLink_def
        Bandwidth_Zero_def Bandwidth_FromBitsPerSecond_def Let_def new_def)
  have "gb_auto_port_numbers (b\<lparr>gb_links := gb_links b @ [new]\<rparr>)" using Cons.prems(2) by simp
  from Cons.IH [OF Cons.prems(1) this] show ?case
    by (auto simp: e get step new_def link_attrs_def)
qed simp

lemma mset_stored_attrs:
  assumes "links_wf g"
  shows "mset (map (\<lambda>(s, d, i). (s, d, lb_bandwidth (gs_link_store g ! unat i),
                                    lb_delay (gs_link_store g ! unat i))) (stored_links g)) =
         mset (map (link_attrs \<circ> GraphLinkBase.truncate) (gs_link_store g))"
proof -
  let ?st = "gs_link_store g"
  let ?f = "\<lambda>(s, d, i). (s, d, lb_bandwidth (?st ! unat (i :: 16 word)), lb_delay (?st ! unat i))"
  have lt: "length ?st < 2 ^ 16" using assms by (simp add: links_wf_def)
  have u: "unat (of_nat k :: 16 word) = k" if "k < length ?st" for k
    using that lt by (intro of_nat_unat_less) simp
  have eq: "map ?f (map (\<lambda>k. (lb_src_id (?st ! k), lb_dst_id (?st ! k), of_nat k)) [0..<length ?st]) =
        map (link_attrs \<circ> GraphLinkBase.truncate) ?st"
    by (rule nth_equalityI) (auto simp: u link_attrs_def)
  have "mset (map ?f (stored_links g)) =
      mset (map ?f (map (\<lambda>k. (lb_src_id (?st ! k), lb_dst_id (?st ! k), of_nat k)) [0..<length ?st]))"
    unfolding mset_map [of ?f] mset_stored_links [OF assms] ..
  then show ?thesis unfolding eq .
qed



end
