(* ===== verification/Walks.thy ===== *)
theory Walks
  imports Graph_Storage
begin

text \<open>
  \<open>Walk\<close> and the free functions on lists of links of \<open>src/src/net/net_common.cc\<close>: total delay,
  duplicate links and nodes, the detour of one path from another, bottleneck links and the
  ordering of walks. A \<open>size_t\<close> that is used as a sentinel (\<open>LinksDetour\<close>) is a 64-bit word; the
  microsecond counts are unbounded integers. \<open>DCHECK\<close>s are compiled out in release builds, so
  \<open>FirstHop\<close> and \<open>LastHop\<close> of an empty walk are undefined.
\<close>

section \<open>Lists of links\<close>

definition TotalDelayOfLinks :: "Links \<Rightarrow> GraphStorage \<Rightarrow> Delay res" where
  "TotalDelayOfLinks links g =
     rfold (\<lambda>link_index total. rbind (GraphStorage_GetLink g link_index) (\<lambda>l. Ok (total + lb_delay l)))
       links 0"

definition HasDuplicateLinks :: "Links \<Rightarrow> bool" where
  "HasDuplicateLinks links =
     list_ex (\<lambda>i. list_ex (\<lambda>j. links ! i = links ! j) [i + 1..<length links]) [0..<length links]"

fun HasDuplicateNodes_loop :: "GraphStorage \<Rightarrow> Links \<Rightarrow> phset \<Rightarrow> bool res" where
  "HasDuplicateNodes_loop g [] nodes = Ok False"
| "HasDuplicateNodes_loop g (link # links) nodes =
     rbind (GraphStorage_GetLink g link) (\<lambda>l.
       if PHSet_Contains nodes (gl_dst l) then Ok True
       else HasDuplicateNodes_loop g links (PHSet_Insert nodes (gl_dst l)))"

definition HasDuplicateNodes :: "Links \<Rightarrow> GraphStorage \<Rightarrow> bool res" where
  "HasDuplicateNodes links g =
     (case links of
        [] \<Rightarrow> Ok False
      | first # _ \<Rightarrow> rbind (GraphStorage_GetLink g first) (\<lambda>l.
          HasDuplicateNodes_loop g links (PHSet_Insert [] (gl_src l))))"

text \<open>The two scans of \<open>LinksDetour\<close>: the first difference from the front, and from the back.\<close>

fun detour_scan :: "(nat \<Rightarrow> (GraphLinkIndex \<times> GraphLinkIndex) res) \<Rightarrow> nat list \<Rightarrow> 64 word res" where
  "detour_scan pair [] = Ok (- 1)"
| "detour_scan pair (i # is) =
     rbind (pair i) (\<lambda>(link_one, link_two).
       if link_one \<noteq> link_two then Ok (of_nat i) else detour_scan pair is)"

definition LinksDetour :: "Links \<Rightarrow> Links \<Rightarrow> (64 word \<times> 64 word) res" where
  "LinksDetour path_one path_two =
     check (path_one \<noteq> []) (check (path_two \<noteq> [])
       (rbind (detour_scan (\<lambda>i. rbind (vec_at path_one i) (\<lambda>a. rbind (vec_at path_two i) (\<lambda>b. Ok (a, b))))
                [0..<length path_one]) (\<lambda>detour_start.
        if detour_start = - 1 then Ok (- 1, - 1)
        else rbind (detour_scan (\<lambda>i.
                 rbind (if i \<le> length path_one then vec_at path_one (length path_one - i)
                        else Fail Undefined_behaviour) (\<lambda>a.
                 rbind (if i \<le> length path_two then vec_at path_two (length path_two - i)
                        else Fail Undefined_behaviour) (\<lambda>b. Ok (a, b))))
                [1..<length path_one]) (\<lambda>detour_end.
              Ok (detour_start, of_nat (length path_two) - detour_end)))))"

section \<open>Walk\<close>

record Walk =
  walk_links :: Links
  walk_delay :: Delay

definition Walk_new :: Walk where
  "Walk_new = \<lparr>walk_links = [], walk_delay = 0\<rparr>"

definition Walk_of_storage :: "Links \<Rightarrow> GraphStorage \<Rightarrow> Walk res" where
  "Walk_of_storage links g =
     rbind (TotalDelayOfLinks links g) (\<lambda>d. Ok \<lparr>walk_links = links, walk_delay = d\<rparr>)"

definition Walk_Contains :: "Walk \<Rightarrow> GraphLinkIndex \<Rightarrow> bool" where
  "Walk_Contains w link = (link \<in> set (walk_links w))"

definition Walk_ContainsAny_links :: "Walk \<Rightarrow> phset \<Rightarrow> bool" where
  "Walk_ContainsAny_links w links = list_ex (PHSet_Contains links) (walk_links w)"

fun Walk_ContainsAny_nodes_loop :: "Links \<Rightarrow> phset \<Rightarrow> GraphStorage \<Rightarrow> bool res" where
  "Walk_ContainsAny_nodes_loop [] nodes g = Ok False"
| "Walk_ContainsAny_nodes_loop (link # links) nodes g =
     rbind (GraphStorage_GetLink g link) (\<lambda>l.
       if PHSet_Contains nodes (gl_src l) \<or> PHSet_Contains nodes (gl_dst l) then Ok True
       else Walk_ContainsAny_nodes_loop links nodes g)"

definition Walk_ContainsAny_nodes :: "Walk \<Rightarrow> phset \<Rightarrow> GraphStorage \<Rightarrow> bool res" where
  "Walk_ContainsAny_nodes w nodes g = Walk_ContainsAny_nodes_loop (walk_links w) nodes g"

definition Walk_IsTrail :: "Walk \<Rightarrow> bool" where
  "Walk_IsTrail w = (\<not> HasDuplicateLinks (walk_links w))"

definition Walk_IsPath :: "Walk \<Rightarrow> GraphStorage \<Rightarrow> bool res" where
  "Walk_IsPath w g = rbind (HasDuplicateNodes (walk_links w) g) (\<lambda>d. Ok (\<not> d))"

definition Walk_LinkSet :: "Walk \<Rightarrow> phset" where
  "Walk_LinkSet w = fold (\<lambda>link out. PHSet_Insert out link) (walk_links w) []"

definition Walk_FirstHop :: "Walk \<Rightarrow> GraphStorage \<Rightarrow> GraphNodeIndex res" where
  "Walk_FirstHop w g =
     rbind (vec_at (walk_links w) 0) (\<lambda>first_link.
     rbind (GraphStorage_GetLink g first_link) (\<lambda>l. Ok (gl_src l)))"

definition Walk_LastHop :: "Walk \<Rightarrow> GraphStorage \<Rightarrow> GraphNodeIndex res" where
  "Walk_LastHop w g =
     (if walk_links w = [] then Fail Undefined_behaviour
      else rbind (GraphStorage_GetLink g (last (walk_links w))) (\<lambda>l. Ok (gl_dst l)))"

text \<open>
  \<open>BottleneckLinks\<close>, returning the set and what is written to \<open>*bandwidth\<close> (if anything).
  \<open>min_bandwidth\<close> is set once, before the loop.
\<close>

definition Walk_BottleneckLinks :: "Walk \<Rightarrow> GraphStorage \<Rightarrow> (phset \<times> Bandwidth option) res" where
  "Walk_BottleneckLinks w g =
     (let min_bandwidth = Bandwidth_Max
      in rfold (\<lambda>link (out, bandwidth).
             rbind (GraphStorage_GetLink g link) (\<lambda>l.
               let link_bw = lb_bandwidth l
               in if link_bw < min_bandwidth
                  then Ok (PHSet_Insert (PHSet_Clear out) link, Some link_bw)
                  else if link_bw = min_bandwidth then Ok (PHSet_Insert out link, bandwidth)
                  else Ok (out, bandwidth)))
           (walk_links w) ([], None))"

definition Walk_less :: "Walk \<Rightarrow> Walk \<Rightarrow> bool" where
  "Walk_less lhs rhs =
     (if walk_delay lhs \<noteq> walk_delay rhs then walk_delay lhs < walk_delay rhs
      else ord_class.lexordp (walk_links lhs) (walk_links rhs))"

definition Walk_eq :: "Walk \<Rightarrow> Walk \<Rightarrow> bool" where
  "Walk_eq lhs rhs = (walk_links lhs = walk_links rhs)"

section \<open>Links that follow each other\<close>

definition links_in :: "GraphStorage \<Rightarrow> Links \<Rightarrow> bool" where
  "links_in g ls \<longleftrightarrow> (\<forall>i \<in> set ls. unat i < length (gs_link_store g))"

definition link_at :: "GraphStorage \<Rightarrow> GraphLinkIndex \<Rightarrow> GraphLink" where
  "link_at g i = gs_link_store g ! unat i"

lemma GetLink_in: "unat i < length (gs_link_store g) \<Longrightarrow> GraphStorage_GetLink g i = Ok (link_at g i)"
  by (simp add: GetLink_Ok link_at_def)

lemma links_in_Cons [simp]:
  "links_in g (i # ls) \<longleftrightarrow> unat i < length (gs_link_store g) \<and> links_in g ls"
  by (simp add: links_in_def)

text \<open>The nodes a list of links visits: the source of the first link, then every destination.\<close>

definition nodes_of :: "GraphStorage \<Rightarrow> Links \<Rightarrow> GraphNodeIndex list" where
  "nodes_of g ls = (case ls of [] \<Rightarrow> [] | i # _ \<Rightarrow> gl_src (link_at g i) # map (gl_dst \<circ> link_at g) ls)"

lemma TotalDelay_from:
  "links_in g ls \<Longrightarrow> rfold (\<lambda>link_index total. rbind (GraphStorage_GetLink g link_index)
     (\<lambda>l. Ok (total + lb_delay l))) ls t = Ok (t + sum_list (map (lb_delay \<circ> link_at g) ls))"
  by (induction ls arbitrary: t) (auto simp: GetLink_in)

lemma HasDuplicateLinks_iff: "HasDuplicateLinks ls \<longleftrightarrow> \<not> distinct ls"
proof -
  have "HasDuplicateLinks ls \<longleftrightarrow> (\<exists>i j. i < j \<and> j < length ls \<and> ls ! i = ls ! j)"
    unfolding HasDuplicateLinks_def list_ex_iff by (fastforce simp: Suc_le_eq)
  also have "\<dots> \<longleftrightarrow> \<not> distinct ls"
  proof
    assume "\<exists>i j. i < j \<and> j < length ls \<and> ls ! i = ls ! j"
    then obtain i j where "i < j" "j < length ls" "ls ! i = ls ! j" by blast
    then show "\<not> distinct ls" using nth_eq_iff_index_eq [of ls i j] by auto
  next
    assume "\<not> distinct ls"
    then obtain i j where "i < length ls" "j < length ls" "i \<noteq> j" "ls ! i = ls ! j"
      by (auto simp: distinct_conv_nth)
    then show "\<exists>i j. i < j \<and> j < length ls \<and> ls ! i = ls ! j"
      by (cases "i < j") (fastforce, metis linorder_neqE_nat)
  qed
  finally show ?thesis .
qed

lemma HasDuplicateNodes_loop_iff:
  "links_in g ls \<Longrightarrow> HasDuplicateNodes_loop g ls ns =
     Ok (\<not> (distinct (map (gl_dst \<circ> link_at g) ls) \<and>
            (\<forall>i \<in> set ls. \<not> PHSet_Contains ns (gl_dst (link_at g i)))))"
proof (induction ls arbitrary: ns)
  case (Cons i ls)
  let ?d = "gl_dst \<circ> link_at g"
  have "?d i \<in> set (map ?d ls) \<longleftrightarrow> (\<exists>j \<in> set ls. ?d j = ?d i)" by (simp add: image_iff eq_commute)
  with Cons show ?case by (auto simp: GetLink_in)
qed simp

lemma HasDuplicateNodes_iff:
  "links_in g ls \<Longrightarrow> HasDuplicateNodes ls g = Ok (\<not> distinct (nodes_of g ls))"
proof (cases ls)
  case (Cons i ls')
  assume inn: "links_in g ls"
  let ?d = "gl_dst \<circ> link_at g" and ?s = "gl_src (link_at g i)"
  have "?s \<in> set (map ?d ls) \<longleftrightarrow> (\<exists>j \<in> set ls. ?d j = ?s)" by (simp add: image_iff eq_commute)
  moreover have "HasDuplicateNodes ls g = HasDuplicateNodes_loop g ls (PHSet_Insert [] ?s)"
    using inn Cons by (simp add: HasDuplicateNodes_def GetLink_in)
  moreover have "nodes_of g ls = ?s # map ?d ls" using Cons by (simp add: nodes_of_def)
  ultimately show ?thesis using HasDuplicateNodes_loop_iff [OF inn] by auto
qed (simp add: HasDuplicateNodes_def nodes_of_def)

lemma Walk_ContainsAny_nodes_loop_iff:
  "links_in g ls \<Longrightarrow> Walk_ContainsAny_nodes_loop ls ns g =
     Ok (\<exists>i \<in> set ls. PHSet_Contains ns (gl_src (link_at g i)) \<or> PHSet_Contains ns (gl_dst (link_at g i)))"
  by (induction ls) (auto simp: GetLink_in)

section \<open>Detours\<close>

lemma detour_scan_skip:
  "(\<And>i. i \<in> set is \<Longrightarrow> \<exists>a. pair i = Ok (a, a)) \<Longrightarrow> detour_scan pair (is @ js) = detour_scan pair js"
  by (induction "is") (auto, fastforce)

lemma detour_scan_found:
  assumes "\<And>k. k < i \<Longrightarrow> m \<le> k \<Longrightarrow> \<exists>a. pair k = Ok (a, a)" and "pair i = Ok (a, b)" and "a \<noteq> b"
    and "m \<le> i" and "i < n"
  shows "detour_scan pair [m..<n] = Ok (of_nat i)"
proof -
  have "[m..<n] = [m..<i] @ i # [Suc i..<n]"
    using assms(4,5) by (metis le_add_diff_inverse less_imp_le_nat upt_add_eq_append upt_conv_Cons)
  moreover have "detour_scan pair ([m..<i] @ i # [Suc i..<n]) = detour_scan pair (i # [Suc i..<n])"
    using assms(1) by (intro detour_scan_skip) auto
  ultimately show ?thesis using assms(2,3) by simp
qed

lemma detour_front:
  assumes "m1 \<noteq> []" and "m2 \<noteq> []" and "hd m1 \<noteq> hd m2"
  shows "detour_scan (\<lambda>i. rbind (vec_at (pre @ m1) i) (\<lambda>a. rbind (vec_at (pre @ m2) i) (\<lambda>b. Ok (a, b))))
           [0..<length (pre @ m1)] = Ok (of_nat (length pre))"
  by (rule detour_scan_found [where a = "hd m1" and b = "hd m2"])
     (use assms in \<open>auto simp: nth_append hd_conv_nth\<close>)

lemma detour_back:
  assumes "m1 \<noteq> []" and "m2 \<noteq> []" and "last m1 \<noteq> last m2" and "Suc (length post) < length (m1 @ post)"
  shows "detour_scan (\<lambda>i.
      rbind (if i \<le> length (m1 @ post) then vec_at (m1 @ post) (length (m1 @ post) - i)
             else Fail Undefined_behaviour) (\<lambda>a.
      rbind (if i \<le> length (m2 @ post) then vec_at (m2 @ post) (length (m2 @ post) - i)
             else Fail Undefined_behaviour) (\<lambda>b. Ok (a, b))))
    [1..<length (m1 @ post)] = Ok (of_nat (Suc (length post)))"
proof (rule detour_scan_found [where a = "last m1" and b = "last m2"])
  have pos: "0 < length m1" "0 < length m2" using assms(1,2) by auto
  show "rbind (if Suc (length post) \<le> length (m1 @ post)
               then vec_at (m1 @ post) (length (m1 @ post) - Suc (length post))
               else Fail Undefined_behaviour) (\<lambda>a.
        rbind (if Suc (length post) \<le> length (m2 @ post)
               then vec_at (m2 @ post) (length (m2 @ post) - Suc (length post))
               else Fail Undefined_behaviour) (\<lambda>b. Ok (a, b))) = Ok (last m1, last m2)"
    using pos assms(1,2) by (auto simp: Suc_le_eq nth_append last_conv_nth vec_at_def trans_less_add1)
  fix k
  assume k: "k < Suc (length post)" "1 \<le> k"
  have "length (m @ post) - k = length m + (length post - k)" for m :: Links using k by simp
  then have "(m @ post) ! (length (m @ post) - k) = post ! (length post - k)" for m :: Links
    by (simp add: nth_append)
  with k show "\<exists>a. rbind (if k \<le> length (m1 @ post) then vec_at (m1 @ post) (length (m1 @ post) - k)
                    else Fail Undefined_behaviour) (\<lambda>a.
            rbind (if k \<le> length (m2 @ post) then vec_at (m2 @ post) (length (m2 @ post) - k)
                    else Fail Undefined_behaviour) (\<lambda>b. Ok (a, b))) = Ok (a, a)"
    using pos by simp
qed (use assms in auto)

section \<open>Bottlenecks\<close>

lemma BottleneckLinks_loop:
  assumes "links_in g ls" and "\<And>i. i \<in> set ls \<Longrightarrow> lb_bandwidth (link_at g i) < Bandwidth_Max"
  shows "rfold (\<lambda>link (out, bandwidth).
             rbind (GraphStorage_GetLink g link) (\<lambda>l.
               let link_bw = lb_bandwidth l
               in if link_bw < Bandwidth_Max
                  then Ok (PHSet_Insert (PHSet_Clear out) link, Some link_bw)
                  else if link_bw = Bandwidth_Max then Ok (PHSet_Insert out link, bandwidth)
                  else Ok (out, bandwidth))) ls st =
         Ok (if ls = [] then st
             else (PHSet_Insert [] (last ls), Some (lb_bandwidth (link_at g (last ls)))))"
  using assms by (induction ls arbitrary: st) (auto simp: GetLink_in PHSet_Clear_def Let_def)

section \<open>Properties\<close>

text \<open>On links of the storage, the total delay is the sum of the delays, \<open>IsTrail\<close> says that no
  link repeats, \<open>IsPath\<close> that no visited node repeats, and \<open>ContainsAny\<close> that the walk touches
  one of the given nodes.\<close>

theorem Walk_queries:
  assumes "links_in g (walk_links w)"
  shows "Walk_of_storage (walk_links w) g =
           Ok \<lparr>walk_links = walk_links w,
               walk_delay = sum_list (map (lb_delay \<circ> link_at g) (walk_links w))\<rparr> \<and>
         Walk_IsTrail w = distinct (walk_links w) \<and>
         Walk_IsPath w g = Ok (distinct (nodes_of g (walk_links w))) \<and>
         Walk_ContainsAny_nodes w ns g =
           Ok (\<exists>i \<in> set (walk_links w). PHSet_Contains ns (gl_src (link_at g i)) \<or>
                                          PHSet_Contains ns (gl_dst (link_at g i))) \<and>
         (\<forall>i :: GraphLinkIndex. PHSet_Contains (Walk_LinkSet w) i = Walk_Contains w i)"
  using assms
  by (simp add: Walk_of_storage_def TotalDelayOfLinks_def TotalDelay_from Walk_IsTrail_def
      HasDuplicateLinks_iff Walk_IsPath_def HasDuplicateNodes_iff Walk_ContainsAny_nodes_def
      Walk_ContainsAny_nodes_loop_iff Walk_LinkSet_def phset.mem_fold_ins Walk_Contains_def)

theorem Walk_queries_witness:
  "\<exists>g w. walk_links w = [0, 1] \<and> links_in g (walk_links w) \<and>
     Walk_IsPath w g = Ok (distinct (nodes_of g (walk_links w)))"
proof -
  obtain g :: GraphStorage where g: "map GraphLinkBase.truncate (gs_link_store g) = gb_links two_way"
    using two_way_storage by blast
  have "length (gs_link_store g) = 2" using arg_cong [OF g, of length] by (simp add: two_way_def)
  then have "links_in g (walk_links \<lparr>walk_links = [0, 1], walk_delay = 10\<rparr>)"
    by (simp add: links_in_def)
  from this Walk_queries [OF this] show ?thesis
    by (intro exI [of _ g] exI [of _ "\<lparr>walk_links = [0, 1], walk_delay = 10\<rparr>"]) auto
qed



text \<open>Where only the first link of the first path is replaced, the scan from the back stops one
  link too early: the end it returns is past the end of the second path. And where the second path
  is a proper prefix of the first, it is read out of range.\<close>

theorem LinksDetour_misses_first_link:
  "LinksDetour [1, 5] [2, 3, 5] = Ok (0, 4) \<and> LinksDetour [1, 5] [1] = Fail Undefined_behaviour"
  by (simp add: LinksDetour_def vec_at_def upt_conv_Cons)

text \<open>\<open>BottleneckLinks\<close> never lowers its running minimum: on a walk whose links all have less
  than the largest bandwidth it returns the last link only, whatever the bandwidths are.\<close>

theorem BottleneckLinks_returns_last:
  assumes "links_in g (walk_links w)" and "walk_links w \<noteq> []"
    and "\<And>i. i \<in> set (walk_links w) \<Longrightarrow> lb_bandwidth (link_at g i) < Bandwidth_Max"
  shows "Walk_BottleneckLinks w g =
     Ok (PHSet_Insert [] (last (walk_links w)), Some (lb_bandwidth (link_at g (last (walk_links w)))))"
  unfolding Walk_BottleneckLinks_def Let_def
  using BottleneckLinks_loop [OF assms(1,3)] assms(2) by (simp add: Let_def)

theorem BottleneckLinks_returns_last_witness:
  "\<exists>g w. walk_links w = [0, 1] \<and>
     Walk_BottleneckLinks w g = Ok (PHSet_Insert [] (1 :: 16 word), Some 10)"
proof -
  obtain g :: GraphStorage where g: "map GraphLinkBase.truncate (gs_link_store g) = gb_links two_way"
    using two_way_storage by blast
  let ?w = "\<lparr>walk_links = [0, 1], walk_delay = 10\<rparr>"
  have len: "length (gs_link_store g) = 2" using arg_cong [OF g, of length] by (simp add: two_way_def)
  then have "links_in g (walk_links ?w)" by (simp add: links_in_def)
  moreover have bw: "lb_bandwidth (gs_link_store g ! k) = 10" if "k < 2" for k
  proof -
    have "GraphLinkBase.truncate (gs_link_store g ! k) = gb_links two_way ! k"
      using that g len by (metis nth_map)
    moreover have "k = 0 \<or> k = 1" using that by auto
    ultimately show ?thesis by (auto simp: two_way_def GraphLinkBase.truncate_def)
  qed
  ultimately have "Walk_BottleneckLinks ?w g =
     Ok (PHSet_Insert [] (last (walk_links ?w)), Some (lb_bandwidth (link_at g (last (walk_links ?w)))))"
    by (intro BottleneckLinks_returns_last)
       (auto simp: link_at_def Bandwidth_Max_def Bandwidth_FromBitsPerSecond_def)
  then show ?thesis
    by (intro exI [of _ g] exI [of _ ?w]) (simp add: link_at_def bw)
qed

end
