(* ===== verification/Shortest_Path.thy ===== *)
theory Shortest_Path
  imports Walks Priority_Queue
begin

text \<open>
  \<open>ExclusionSet\<close> and \<open>ShortestPath\<close> of \<open>src/src/net/algorithm.{h,cc}\<close>: Dijkstra's algorithm with
  lazy deletion and an early exit once every destination has been settled, and the recovery of a
  path from the predecessor links. The loops are partial functions, so that not returning is
  \<open>None\<close>; they are shown to return when every delay is positive. Delays are unbounded integers and
  \<open>Delay::max()\<close> is \<open>2 ^ 63 - 1\<close>; a node without a distance has that one.
\<close>

section \<open>ExclusionSet\<close>

record ExclusionSet =
  ex_links_to_exclude :: phset
  ex_nodes_to_exclude :: phset

definition ExclusionSet_new :: ExclusionSet where
  "ExclusionSet_new = \<lparr>ex_links_to_exclude = [], ex_nodes_to_exclude = []\<rparr>"

definition ExclusionSet_Links :: "ExclusionSet \<Rightarrow> phset \<Rightarrow> ExclusionSet" where
  "ExclusionSet_Links e s = e\<lparr>ex_links_to_exclude := PHSet_InsertAll (ex_links_to_exclude e) s\<rparr>"

definition ExclusionSet_Nodes :: "ExclusionSet \<Rightarrow> phset \<Rightarrow> ExclusionSet" where
  "ExclusionSet_Nodes e s = e\<lparr>ex_nodes_to_exclude := PHSet_InsertAll (ex_nodes_to_exclude e) s\<rparr>"

definition ExclusionSet_ShouldExcludeLink :: "ExclusionSet \<Rightarrow> GraphLinkIndex \<Rightarrow> bool" where
  "ExclusionSet_ShouldExcludeLink e link = PHSet_Contains (ex_links_to_exclude e) link"

definition ExclusionSet_ShouldExcludeNode :: "ExclusionSet \<Rightarrow> GraphNodeIndex \<Rightarrow> bool" where
  "ExclusionSet_ShouldExcludeNode e node = PHSet_Contains (ex_nodes_to_exclude e) node"

definition ExclusionSet_AddAll :: "ExclusionSet \<Rightarrow> ExclusionSet \<Rightarrow> ExclusionSet" where
  "ExclusionSet_AddAll e other =
     \<lparr>ex_links_to_exclude = PHSet_InsertAll (ex_links_to_exclude e) (ex_links_to_exclude other),
      ex_nodes_to_exclude = PHSet_InsertAll (ex_nodes_to_exclude e) (ex_nodes_to_exclude other)\<rparr>"

text \<open>The optional additional sets are null pointers or sets.\<close>

definition CanExcludeNode :: "GraphNodeIndex \<Rightarrow> ExclusionSet \<Rightarrow> phset option \<Rightarrow> bool" where
  "CanExcludeNode node e additional_nodes_to_avoid =
     (case additional_nodes_to_avoid of
        Some s \<Rightarrow> if PHSet_Contains s node then True else ExclusionSet_ShouldExcludeNode e node
      | None \<Rightarrow> ExclusionSet_ShouldExcludeNode e node)"

definition CanExcludeLink :: "GraphLinkIndex \<Rightarrow> ExclusionSet \<Rightarrow> phset option \<Rightarrow> bool" where
  "CanExcludeLink link e additional_links_to_avoid =
     (case additional_links_to_avoid of
        Some s \<Rightarrow> if PHSet_Contains s link then True else ExclusionSet_ShouldExcludeLink e link
      | None \<Rightarrow> ExclusionSet_ShouldExcludeLink e link)"

section \<open>ShortestPath\<close>

definition Delay_max :: Delay where
  "Delay_max = 2 ^ 63 - 1"

record ShortestPath =
  sp_src :: GraphNodeIndex
  sp_destinations :: phset
  sp_previous :: "LinkInfo option phmap"
  sp_min_delays :: "Delay phmap"

type_synonym delay_queue = "(Delay \<times> GraphNodeIndex) list"

text \<open>One neighbour of the node being settled at \<open>distance\<close>.\<close>

definition relax ::
    "ExclusionSet \<Rightarrow> phset option \<Rightarrow> phset option \<Rightarrow> Delay \<Rightarrow> LinkInfo \<Rightarrow>
     Delay phmap \<times> LinkInfo option phmap \<times> delay_queue \<Rightarrow>
     Delay phmap \<times> LinkInfo option phmap \<times> delay_queue" where
  "relax e nodes_to_avoid links_to_avoid distance out_link_info = (\<lambda>(min_delays, previous, queue).
     if CanExcludeLink (li_link_index out_link_info) e links_to_avoid
     then (min_delays, previous, queue)
     else let neighbor_node = li_dst_index out_link_info
          in if CanExcludeNode neighbor_node e nodes_to_avoid then (min_delays, previous, queue)
             else let distance_via_neighbor = distance + li_delay out_link_info;
                      min_delays = PHMap_touch Delay_max min_delays neighbor_node
                  in if distance_via_neighbor < PHMap_value Delay_max min_delays neighbor_node
                     then (PHMap_Add Delay_max min_delays neighbor_node distance_via_neighbor,
                           PHMap_Add None previous neighbor_node (Some out_link_info),
                           VPQ_emplace (\<lambda>x. x) queue (distance_via_neighbor, neighbor_node))
                     else (min_delays, previous, queue))"

text \<open>The main loop. \<open>destinations_remaining\<close> is a \<open>size_t\<close>.\<close>

partial_function (option) ComputePaths_loop ::
    "ExclusionSet \<Rightarrow> AdjacencyList \<Rightarrow> phset option \<Rightarrow> phset option \<Rightarrow> phset \<Rightarrow> Delay phmap \<Rightarrow>
     LinkInfo option phmap \<Rightarrow> delay_queue \<Rightarrow> 64 word \<Rightarrow> (Delay phmap \<times> LinkInfo option phmap) option" where
  "ComputePaths_loop e adj_list nodes_to_avoid links_to_avoid destinations min_delays previous queue
     destinations_remaining =
     (if VPQ_empty queue then Some (min_delays, previous)
      else let distance = fst (hd queue); current = snd (hd queue);
               queue = pop_heap_back (\<lambda>x. x) queue;
               min_delays = PHMap_touch Delay_max min_delays current
           in if distance > PHMap_value Delay_max min_delays current
              then ComputePaths_loop e adj_list nodes_to_avoid links_to_avoid destinations min_delays
                     previous queue destinations_remaining
              else let destinations_remaining =
                         (if PHSet_Contains destinations current then destinations_remaining - 1
                          else destinations_remaining)
                   in if PHSet_Contains destinations current \<and> destinations_remaining = 0
                      then Some (min_delays, previous)
                      else let (min_delays, previous, queue) =
                                 fold (relax e nodes_to_avoid links_to_avoid distance)
                                   (AdjacencyList_GetNeighbors adj_list current)
                                   (min_delays, previous, queue)
                           in ComputePaths_loop e adj_list nodes_to_avoid links_to_avoid destinations
                                min_delays previous queue destinations_remaining)"

definition ShortestPath_new ::
    "GraphNodeIndex \<Rightarrow> phset \<Rightarrow> ExclusionSet \<Rightarrow> AdjacencyList \<Rightarrow> phset option \<Rightarrow> phset option \<Rightarrow>
     ShortestPath option" where
  "ShortestPath_new src dst_nodes e adj_list nodes_to_avoid links_to_avoid =
     (let min_delays = PHMap_Resize Delay_max [] (PHSet_Count (AdjacencyList_AllNodes adj_list));
          previous = PHMap_Resize None [] (PHSet_Count (AdjacencyList_AllNodes adj_list))
      in if CanExcludeNode src e nodes_to_avoid
         then Some \<lparr>sp_src = src, sp_destinations = dst_nodes, sp_previous = previous,
                    sp_min_delays = min_delays\<rparr>
         else case ComputePaths_loop e adj_list nodes_to_avoid links_to_avoid dst_nodes
                     (PHMap_Add Delay_max min_delays src 0) previous
                     (VPQ_emplace (\<lambda>x. x) [] (0, src)) (of_nat (PHSet_Count dst_nodes)) of
                None \<Rightarrow> None
              | Some (md, prev) \<Rightarrow>
                  Some \<lparr>sp_src = src, sp_destinations = dst_nodes, sp_previous = prev,
                        sp_min_delays = md\<rparr>)"

partial_function (option) RecoverPath_loop ::
    "GraphNodeIndex \<Rightarrow> LinkInfo option phmap \<Rightarrow> GraphNodeIndex \<Rightarrow> Links \<Rightarrow> Links res option" where
  "RecoverPath_loop src previous current links_reverse =
     (if current = src then Some (Ok (rev links_reverse))
      else if \<not> PHMap_HasValue previous current then Some (Ok [])
      else case PHMap_GetValueOrDie previous current of
             Inl err \<Rightarrow> Some (Fail err)
           | Inr None \<Rightarrow> Some (Fail Undefined_behaviour)
           | Inr (Some info) \<Rightarrow>
               RecoverPath_loop src previous (li_src_index info)
                 (links_reverse @ [li_link_index info]))"

definition RecoverPath :: "GraphNodeIndex \<Rightarrow> GraphNodeIndex \<Rightarrow> LinkInfo option phmap \<Rightarrow> Links res option" where
  "RecoverPath src dst previous = RecoverPath_loop src previous dst []"

text \<open>\<open>GetPath\<close>: \<open>None\<close> if the walk back does not end; the inner option is the null pointer.\<close>

definition ShortestPath_GetPath :: "ShortestPath \<Rightarrow> GraphNodeIndex \<Rightarrow> Walk option res option" where
  "ShortestPath_GetPath sp dst =
     (if \<not> PHSet_Contains (sp_destinations sp) dst then Some (Fail Check_failed)
      else case RecoverPath (sp_src sp) dst (sp_previous sp) of
             None \<Rightarrow> None
           | Some r \<Rightarrow> Some (rbind r (\<lambda>links.
               if links = [] then Ok None
               else rbind (PHMap_GetValueOrDie (sp_min_delays sp) dst) (\<lambda>distance.
                      Ok (Some \<lparr>walk_links = links, walk_delay = distance\<rparr>)))))"

definition ShortestPath_GetPathDistance :: "ShortestPath \<Rightarrow> GraphNodeIndex \<Rightarrow> Delay res" where
  "ShortestPath_GetPathDistance sp dst =
     check (PHSet_Contains (sp_destinations sp) dst)
       (if \<not> PHMap_HasValue (sp_min_delays sp) dst then Ok Delay_max
        else PHMap_UnsafeAccess (sp_min_delays sp) dst)"

definition ShortestPath_ElementsInTree :: "ShortestPath \<Rightarrow> (phset \<times> phset) res" where
  "ShortestPath_ElementsInTree sp =
     rfold (\<lambda>(node, p) (nodes, links).
              case p of
                None \<Rightarrow> Fail Undefined_behaviour
              | Some info \<Rightarrow>
                  Ok (PHSet_Insert (PHSet_Insert nodes (li_src_index info)) (li_dst_index info),
                      PHSet_Insert links (li_link_index info)))
       (PHMap_elems (sp_previous sp) :: (GraphNodeIndex \<times> LinkInfo option) list) ([], [])"

section \<open>Walks over allowed links\<close>

inductive awalk :: "(GraphNodeIndex \<Rightarrow> LinkInfo list) \<Rightarrow> GraphNodeIndex \<Rightarrow> LinkInfo list \<Rightarrow> GraphNodeIndex \<Rightarrow> bool"
  for nb src where
  awalk_Nil: "awalk nb src [] src"
| awalk_snoc: "awalk nb src is u \<Longrightarrow> info \<in> set (nb u) \<Longrightarrow> awalk nb src (is @ [info]) (li_dst_index info)"

inductive_cases awalk_NilE: "awalk nb src [] v"
inductive_simps awalk_snoc_iff: "awalk nb src (is @ [info]) v"

definition walk_length :: "LinkInfo list \<Rightarrow> Delay" where
  "walk_length is = sum_list (map li_delay is)"

lemma walk_length_simps [simp]:
  "walk_length [] = 0" "walk_length (is @ js) = walk_length is + walk_length js"
  "walk_length (i # is) = li_delay i + walk_length is"
  by (simp_all add: walk_length_def)

text \<open>The neighbours the search may use.\<close>

definition allowed_neighbors ::
    "ExclusionSet \<Rightarrow> AdjacencyList \<Rightarrow> phset option \<Rightarrow> phset option \<Rightarrow> GraphNodeIndex \<Rightarrow> LinkInfo list" where
  "allowed_neighbors e a nodes_to_avoid links_to_avoid u =
     filter (\<lambda>info. \<not> CanExcludeLink (li_link_index info) e links_to_avoid \<and>
                   \<not> CanExcludeNode (li_dst_index info) e nodes_to_avoid)
       (AdjacencyList_GetNeighbors a u)"

definition positive_neighbors :: "(GraphNodeIndex \<Rightarrow> LinkInfo list) \<Rightarrow> bool" where
  "positive_neighbors nb \<longleftrightarrow> (\<forall>u info. info \<in> set (nb u) \<longrightarrow> li_src_index info = u \<and> 0 < li_delay info)"

lemma awalk_length_nonneg:
  "awalk nb src is v \<Longrightarrow> positive_neighbors nb \<Longrightarrow> 0 \<le> walk_length is"
  by (induction rule: awalk.induct) (fastforce simp: positive_neighbors_def)+

section \<open>Map values\<close>

lemma PHMap_value_Add [simp]:
  "PHMap_value d (PHMap_Add d m i v) j = (if j = i then v else PHMap_value d m j)"
  by (auto simp: PHMap_value_def PHMap_Add_def nth_list_update nth_vec_resize)

lemma PHMap_value_touch [simp]: "PHMap_value d (PHMap_touch d m i) j = PHMap_value d m j"
  by (auto simp: PHMap_value_def PHMap_touch_def Let_def nth_list_update nth_vec_resize)

lemma PHMap_value_Resize [simp]: "PHMap_value d (PHMap_Resize d [] n) j = d"
  by (simp add: PHMap_value_def PHMap_Resize_def nth_vec_resize)

lemma PHMap_lookup_Resize_Nil [simp]: "PHMap_lookup (PHMap_Resize d [] n) j = None"
  by (simp add: PHMap_lookup_def PHMap_HasValue_def PHMap_Resize_def nth_vec_resize)

section \<open>The invariant of the search\<close>

abbreviation dist :: "Delay phmap \<Rightarrow> GraphNodeIndex \<Rightarrow> Delay" where
  "dist md \<equiv> PHMap_value Delay_max md"

text \<open>Distances and predecessor links that agree: every reached node has a settled predecessor.\<close>

definition tree_inv ::
    "(GraphNodeIndex \<Rightarrow> LinkInfo list) \<Rightarrow> GraphNodeIndex \<Rightarrow> GraphNodeIndex set \<Rightarrow> Delay phmap \<Rightarrow>
     LinkInfo option phmap \<Rightarrow> bool" where
  "tree_inv nb src S md prev \<longleftrightarrow>
     dist md src = 0 \<and> (\<forall>v. 0 \<le> dist md v \<and> dist md v \<le> Delay_max) \<and>
     (\<forall>v. dist md v < Delay_max \<longrightarrow> PHMap_lookup md v = Some (dist md v)) \<and>
     (\<forall>v. PHMap_lookup prev v \<noteq> None \<longrightarrow> v \<noteq> src \<and> dist md v < Delay_max) \<and>
     (\<forall>v. v \<noteq> src \<longrightarrow> dist md v < Delay_max \<longrightarrow>
        (\<exists>info. PHMap_lookup prev v = Some (Some info) \<and> li_dst_index info = v \<and>
           li_src_index info \<in> S \<and> info \<in> set (nb (li_src_index info)) \<and>
           dist md (li_src_index info) + li_delay info = dist md v))"

definition queue_inv :: "GraphNodeIndex set \<Rightarrow> Delay phmap \<Rightarrow> delay_queue \<Rightarrow> bool" where
  "queue_inv S md q \<longleftrightarrow> heap_ordered (\<lambda>x. x) q \<and>
     (\<forall>x v. (x, v) \<in> set q \<longrightarrow> dist md v \<le> x) \<and>
     (\<forall>v. count (mset q) (dist md v, v) = (if v \<notin> S \<and> dist md v < Delay_max then 1 else 0)) \<and>
     (\<forall>u \<in> S. \<forall>entry \<in> set q. dist md u \<le> fst entry) \<and>
     (\<forall>u. u \<in> S \<longrightarrow> dist md u < Delay_max)"

definition relaxed :: "(GraphNodeIndex \<Rightarrow> LinkInfo \<Rightarrow> bool) \<Rightarrow> Delay phmap \<Rightarrow> bool" where
  "relaxed rel md \<longleftrightarrow>
     (\<forall>u info. rel u info \<longrightarrow> dist md (li_dst_index info) \<le> dist md u + li_delay info)"

text \<open>A bound on the work left: the queue, and how much the distances can still fall.\<close>

definition potential :: "Delay phmap \<Rightarrow> nat" where
  "potential md = (\<Sum>v \<in> UNIV. nat (dist md v))"

lemma potential_touch [simp]: "potential (PHMap_touch Delay_max md u) = potential md"
  by (simp add: potential_def)

lemma potential_Add:
  assumes "0 \<le> x" and "x < dist md v"
  shows "potential (PHMap_Add Delay_max (PHMap_touch Delay_max md v) v x) < potential md"
  unfolding potential_def
  by (rule sum_strict_mono_ex1) (use assms in \<open>auto intro!: bexI [of _ v]\<close>)

lemma relax_excluded:
  "CanExcludeLink (li_link_index info) e la \<or> CanExcludeNode (li_dst_index info) e na \<Longrightarrow>
   relax e na la d info st = st"
  by (cases st) (auto simp: relax_def Let_def)

text \<open>Relaxing one allowed link of the node \<open>u\<close> that was just settled.\<close>

lemma relax_step:
  assumes t: "tree_inv nb src S md prev" and q: "queue_inv S md q" and r: "relaxed rel md"
    and u: "u \<in> S" "\<And>a. a \<in> S \<Longrightarrow> dist md a \<le> dist md u"
    and info: "info \<in> set (nb u)" "positive_neighbors nb"
    and ok: "\<not> CanExcludeLink (li_link_index info) e la" "\<not> CanExcludeNode (li_dst_index info) e na"
    and rel_S: "\<And>a i. rel a i \<Longrightarrow> a \<in> S"
  obtains md' prev' q' where "relax e na la (dist md u) info (md, prev, q) = (md', prev', q')"
    "tree_inv nb src S md' prev'" "queue_inv S md' q'"
    "relaxed (\<lambda>a i. rel a i \<or> a = u \<and> i = info) md'"
    "\<And>a. a \<in> S \<Longrightarrow> dist md' a = dist md a"
    "length q' + potential md' \<le> length q + potential md"
proof -
  let ?v = "li_dst_index info" and ?x = "dist md u + li_delay info"
  let ?t = "PHMap_touch Delay_max md ?v"
  have iu: "li_src_index info = u" "0 < li_delay info" using info by (auto simp: positive_neighbors_def)
  have du: "0 \<le> dist md u" "dist md u < Delay_max"
    using t q u(1) by (auto simp: tree_inv_def queue_inv_def)
  show thesis
  proof (cases "?x < dist md ?v")
    case False
    have "relax e na la (dist md u) info (md, prev, q) = (?t, prev, q)"
      using ok False by (simp add: relax_def Let_def)
    moreover have "tree_inv nb src S ?t prev" using t by (auto simp: tree_inv_def)
    moreover have "queue_inv S ?t q" using q by (simp add: queue_inv_def)
    moreover have "relaxed (\<lambda>a i. rel a i \<or> a = u \<and> i = info) ?t"
      using r False by (auto simp: relaxed_def)
    ultimately show ?thesis by (intro that [of ?t prev q]) auto
  next
    case True
    let ?md = "PHMap_Add Delay_max ?t ?v ?x" and ?prev = "PHMap_Add None prev ?v (Some info)"
    let ?q = "VPQ_emplace (\<lambda>x. x) q (?x, ?v)"
    have vS: "?v \<notin> S" using u(2) [of ?v] True iu(2) by auto
    have "0 < ?x" using du(1) iu(2) by simp
    then have vsrc: "?v \<noteq> src" using True t by (auto simp: tree_inv_def)
    have "dist md ?v \<le> Delay_max" using t by (simp add: tree_inv_def)
    then have xmax: "?x < Delay_max" using True by linarith
    have ps: "PHMap_lookup prev src = None" using t unfolding tree_inv_def by blast
    have qm: "mset ?q = add_mset (?x, ?v) (mset q)" by (rule mset_VPQ_emplace)
    then have qset: "set ?q = insert (?x, ?v) (set q)"
      by (metis set_mset_add_mset_insert set_mset_mset)
    have res: "relax e na la (dist md u) info (md, prev, q) = (?md, ?prev, ?q)"
      using ok True by (simp add: relax_def Let_def)
    have tr: "tree_inv nb src S ?md ?prev"
      unfolding tree_inv_def
    proof (intro conjI allI impI)
      fix w
      assume "w \<noteq> src" "dist ?md w < Delay_max"
      show "\<exists>info. PHMap_lookup ?prev w = Some (Some info) \<and> li_dst_index info = w \<and>
           li_src_index info \<in> S \<and> info \<in> set (nb (li_src_index info)) \<and>
           dist ?md (li_src_index info) + li_delay info = dist ?md w"
      proof (cases "w = ?v")
        case True
        then show ?thesis using iu info(1) u(1) vS by auto
      next
        case False
        then have "dist md w < Delay_max" using \<open>dist ?md w < Delay_max\<close> by simp
        with t \<open>w \<noteq> src\<close> obtain i where "PHMap_lookup prev w = Some (Some i)" "li_dst_index i = w"
          "li_src_index i \<in> S" "i \<in> set (nb (li_src_index i))"
          "dist md (li_src_index i) + li_delay i = dist md w"
          unfolding tree_inv_def by blast
        with False vS show ?thesis by auto
      qed
    qed (use t du iu(2) xmax vsrc ps in \<open>auto simp: tree_inv_def\<close>)
    have "count (mset q) (?x, ?v) = 0"
      using q True unfolding queue_inv_def by (metis count_eq_zero_iff not_less set_mset_mset)
    note c0 = this
    have md: "dist ?md w = (if w = ?v then ?x else dist md w)" for w by simp
    have qu: "queue_inv S ?md ?q"
      unfolding queue_inv_def
    proof (intro conjI allI impI ballI)
      fix w
      show "count (mset ?q) (dist ?md w, w) = (if w \<notin> S \<and> dist ?md w < Delay_max then 1 else 0)"
        unfolding md qm using q vS xmax c0 by (cases "w = ?v") (auto simp: queue_inv_def)
    next
      fix a entry
      assume "a \<in> S" "entry \<in> set ?q"
      then show "dist ?md a \<le> fst entry"
        unfolding md qset using q vS u(2) [of a] iu(2) by (auto simp: queue_inv_def)
    next
      fix x w
      assume "(x, w) \<in> set ?q"
      then show "dist ?md w \<le> x"
        unfolding md qset using q True by (fastforce simp: queue_inv_def)
    qed (use q vS in \<open>auto simp: queue_inv_def VPQ_emplace_heap\<close>)
    have rl: "relaxed (\<lambda>a i. rel a i \<or> a = u \<and> i = info) ?md"
      unfolding relaxed_def
    proof (intro allI impI)
      fix a i
      assume "rel a i \<or> a = u \<and> i = info"
      moreover have "dist ?md a = dist md a" if "a \<in> S" for a using that vS by auto
      ultimately show "dist ?md (li_dst_index i) \<le> dist ?md a + li_delay i"
        using r True rel_S u(1) unfolding relaxed_def by fastforce
    qed
    have "length ?q = Suc (length q)" using arg_cong [OF qm, of size] by simp
    moreover have "potential ?md < potential md"
      using True du iu(2) by (intro potential_Add) auto
    ultimately show ?thesis
      using res tr qu rl vS by (intro that [of ?md ?prev ?q]) auto
  qed
qed

text \<open>Relaxing every link of the settled node.\<close>

lemma relax_fold:
  assumes "tree_inv nb src S md prev" and "queue_inv S md q" and "relaxed rel md"
    and "u \<in> S" and "\<And>a. a \<in> S \<Longrightarrow> dist md a \<le> dist md u" and "positive_neighbors nb"
    and "\<And>info. info \<in> set is \<Longrightarrow> \<not> CanExcludeLink (li_link_index info) e la \<Longrightarrow>
           \<not> CanExcludeNode (li_dst_index info) e na \<Longrightarrow> info \<in> set (nb u)"
    and "\<And>a i. rel a i \<Longrightarrow> a \<in> S"
  obtains md' prev' q' where "fold (relax e na la (dist md u)) is (md, prev, q) = (md', prev', q')"
    "tree_inv nb src S md' prev'" "queue_inv S md' q'"
    "relaxed (\<lambda>a i. rel a i \<or> a = u \<and> i \<in> set is \<and> \<not> CanExcludeLink (li_link_index i) e la \<and>
                \<not> CanExcludeNode (li_dst_index i) e na) md'"
    "length q' + potential md' \<le> length q + potential md"
  using assms
proof (induction "is" arbitrary: md prev q rel thesis)
  case Nil
  then show ?case by simp
next
  case (Cons info "is")
  show ?case
  proof (cases "CanExcludeLink (li_link_index info) e la \<or> CanExcludeNode (li_dst_index info) e na")
    case True
    have rel: "(\<lambda>a i. rel a i \<or> a = u \<and> i \<in> set (info # is) \<and> \<not> CanExcludeLink (li_link_index i) e la \<and>
                \<not> CanExcludeNode (li_dst_index i) e na) =
        (\<lambda>a i. rel a i \<or> a = u \<and> i \<in> set is \<and> \<not> CanExcludeLink (li_link_index i) e la \<and>
                \<not> CanExcludeNode (li_dst_index i) e na)"
      using True by (intro ext) auto
    have IH: "\<And>i. i \<in> set is \<Longrightarrow> \<not> CanExcludeLink (li_link_index i) e la \<Longrightarrow>
           \<not> CanExcludeNode (li_dst_index i) e na \<Longrightarrow> i \<in> set (nb u)"
      using Cons.prems(8) by simp
    obtain md' prev' q' where "fold (relax e na la (dist md u)) is (md, prev, q) = (md', prev', q')"
      "tree_inv nb src S md' prev'" "queue_inv S md' q'"
      "relaxed (\<lambda>a i. rel a i \<or> a = u \<and> i \<in> set is \<and> \<not> CanExcludeLink (li_link_index i) e la \<and>
                \<not> CanExcludeNode (li_dst_index i) e na) md'"
      "length q' + potential md' \<le> length q + potential md"
      by (rule Cons.IH [OF _ Cons.prems(2-7) IH Cons.prems(9)])
    then show ?thesis
      using True by (intro Cons.prems(1) [unfolded rel]) (simp_all add: relax_excluded)
  next
    case False
    then have ok: "\<not> CanExcludeLink (li_link_index info) e la" "\<not> CanExcludeNode (li_dst_index info) e na"
      by simp_all
    have mem: "info \<in> set (nb u)" using Cons.prems(8) ok by simp
    obtain md1 prev1 q1 where one: "relax e na la (dist md u) info (md, prev, q) = (md1, prev1, q1)"
      "tree_inv nb src S md1 prev1" "queue_inv S md1 q1"
      "relaxed (\<lambda>a i. rel a i \<or> a = u \<and> i = info) md1"
      and same: "\<And>a. a \<in> S \<Longrightarrow> dist md1 a = dist md a"
      and pot: "length q1 + potential md1 \<le> length q + potential md"
      by (rule relax_step [OF Cons.prems(2-6) mem Cons.prems(7) ok Cons.prems(9)])
         (assumption | rule that)+
    have le: "dist md1 a \<le> dist md1 u" if "a \<in> S" for a
      using that same Cons.prems(5,6) by simp
    have IH: "\<And>i. i \<in> set is \<Longrightarrow> \<not> CanExcludeLink (li_link_index i) e la \<Longrightarrow>
           \<not> CanExcludeNode (li_dst_index i) e na \<Longrightarrow> i \<in> set (nb u)"
      using Cons.prems(8) by simp
    have relS: "\<And>a i. rel a i \<or> a = u \<and> i = info \<Longrightarrow> a \<in> S" using Cons.prems(5,9) by blast
    have rel: "(\<lambda>a i. (rel a i \<or> a = u \<and> i = info) \<or> a = u \<and> i \<in> set is \<and>
                \<not> CanExcludeLink (li_link_index i) e la \<and> \<not> CanExcludeNode (li_dst_index i) e na) =
        (\<lambda>a i. rel a i \<or> a = u \<and> i \<in> set (info # is) \<and>
                \<not> CanExcludeLink (li_link_index i) e la \<and> \<not> CanExcludeNode (li_dst_index i) e na)"
      using ok by (intro ext) auto
    obtain md' prev' q' where "fold (relax e na la (dist md1 u)) is (md1, prev1, q1) = (md', prev', q')"
      "tree_inv nb src S md' prev'" "queue_inv S md' q'"
      "relaxed (\<lambda>a i. rel a i \<or> a = u \<and> i \<in> set (info # is) \<and>
                \<not> CanExcludeLink (li_link_index i) e la \<and> \<not> CanExcludeNode (li_dst_index i) e na) md'"
      "length q' + potential md' \<le> length q1 + potential md1"
      by (rule Cons.IH [OF _ one(2-4) Cons.prems(5) le Cons.prems(7) IH relS, unfolded rel])
    moreover have "dist md1 u = dist md u" using same Cons.prems(5) .
    ultimately show ?thesis
      using one(1) pot by (intro Cons.prems(1) [of md' prev' q']) simp_all
  qed
qed

section \<open>Optimality\<close>

text \<open>No walk is shorter than the distance of its end and than every key still queued.\<close>

lemma dist_or_queued:
  assumes walk: "awalk nb src is v" and pos: "positive_neighbors nb"
    and t: "tree_inv nb src S md prev" and q: "queue_inv S md q"
    and r: "relaxed (\<lambda>u info. u \<in> S \<and> info \<in> set (nb u)) md"
  shows "dist md v \<le> walk_length is \<or> (\<exists>x w. (x, w) \<in> set q \<and> x \<le> walk_length is)"
  using walk
proof (induction rule: awalk.induct)
  case awalk_Nil
  then show ?case using t by (simp add: tree_inv_def)
next
  case (awalk_snoc "is" u info)
  have d: "0 < li_delay info" using awalk_snoc.hyps(2) pos by (auto simp: positive_neighbors_def)
  have bound: "dist md (li_dst_index info) \<le> Delay_max" using t by (simp add: tree_inv_def)
  from awalk_snoc.IH show ?case
  proof
    assume le: "dist md u \<le> walk_length is"
    consider "u \<in> S" | "u \<notin> S" "dist md u < Delay_max" | "Delay_max \<le> dist md u" by linarith
    then show ?thesis
    proof cases
      case 1
      with r awalk_snoc.hyps(2) have "dist md (li_dst_index info) \<le> dist md u + li_delay info"
        by (simp add: relaxed_def)
      with le show ?thesis by simp
    next
      case 2
      then have "count (mset q) (dist md u, u) = 1" using q by (simp add: queue_inv_def)
      then have "(dist md u, u) \<in> set q" by (metis count_eq_zero_iff set_mset_mset zero_neq_one)
      moreover have "dist md u \<le> walk_length (is @ [info])" using le d by simp
      ultimately show ?thesis by blast
    next
      case 3
      with le d bound show ?thesis by simp
    qed
  next
    assume "\<exists>x w. (x, w) \<in> set q \<and> x \<le> walk_length is"
    then obtain x w where "(x, w) \<in> set q" "x \<le> walk_length (is @ [info])" using d by fastforce
    then show ?thesis by blast
  qed
qed

text \<open>So a node that is below every queued key has its final distance.\<close>

lemma dist_optimal:
  assumes "awalk nb src is v" and "positive_neighbors nb" and "tree_inv nb src S md prev"
    and "queue_inv S md q" and "relaxed (\<lambda>u info. u \<in> S \<and> info \<in> set (nb u)) md"
    and "\<And>x w. (x, w) \<in> set q \<Longrightarrow> dist md v \<le> x"
  shows "dist md v \<le> walk_length is"
  using dist_or_queued [OF assms(1-5)] assms(6) by (auto intro: order_trans)

section \<open>The main loop\<close>

text \<open>Taking a leftover entry off the queue.\<close>

lemma queue_inv_pop_stale:
  assumes "queue_inv S md q" and "q \<noteq> []" and "dist md (snd (hd q)) < fst (hd q)"
  shows "queue_inv S md (pop_heap_back (\<lambda>x. x) q)"
proof -
  have m: "mset (pop_heap_back (\<lambda>x. x) q) = mset q - {#hd q#}" using assms(2) by (rule mset_pop_heap_back)
  then have sub: "\<And>e. e \<in> set (pop_heap_back (\<lambda>x. x) q) \<Longrightarrow> e \<in> set q" by (metis in_diffD set_mset_mset)
  have "hd q \<noteq> (dist md v, v)" for v using assms(3) by auto
  then have "count (mset (pop_heap_back (\<lambda>x. x) q)) (dist md v, v) = count (mset q) (dist md v, v)" for v
    by (simp add: m)
  then show ?thesis
    using assms(1) pop_heap_back_heap [of "\<lambda>x. x" q] unfolding queue_inv_def by (auto dest!: sub)
qed

text \<open>Settling the node at the top of the queue.\<close>

lemma queue_inv_pop_fresh:
  assumes q: "queue_inv S md q" and ne: "q \<noteq> []" and d: "\<not> dist md (snd (hd q)) < fst (hd q)"
    and t: "tree_inv nb src S md prev"
  defines "u \<equiv> snd (hd q)"
  shows "fst (hd q) = dist md u" and "u \<notin> S" and "\<And>x v. (x, v) \<in> set q \<Longrightarrow> dist md u \<le> x"
    and "\<And>a. a \<in> S \<Longrightarrow> dist md a \<le> dist md u" and "dist md u < Delay_max"
    and "queue_inv (insert u S) md (pop_heap_back (\<lambda>x. x) q)"
proof -
  let ?pop = "pop_heap_back (\<lambda>x. x) q"
  have mem: "hd q \<in> set q" using ne by simp
  then have "dist md u \<le> fst (hd q)" using q unfolding queue_inv_def u_def by (metis prod.collapse)
  with d show eq: "fst (hd q) = dist md u" by (simp add: u_def)
  then have hd: "hd q = (dist md u, u)" by (metis prod.collapse u_def)
  have "count (mset q) (dist md u, u) \<noteq> 0" using mem hd by (metis count_eq_zero_iff set_mset_mset)
  then have "u \<notin> S \<and> dist md u < Delay_max" using q unfolding queue_inv_def by meson
  then show uS: "u \<notin> S" and max: "dist md u < Delay_max" by simp_all
  have heap: "heap_ordered (\<lambda>x. x) q" using q by (simp add: queue_inv_def)
  show min: "dist md u \<le> x" if "(x, v) \<in> set q" for x v
  proof -
    have "hd q \<le> (x, v)" using vpq.top [OF heap] that ne by auto
    then show ?thesis by (auto simp: hd less_eq_prod_simp)
  qed
  show S: "dist md a \<le> dist md u" if "a \<in> S" for a
    using q that mem hd unfolding queue_inv_def by fastforce
  have m: "mset ?pop = mset q - {#(dist md u, u)#}" using mset_pop_heap_back [OF ne, of "\<lambda>x. x"] hd by simp
  then have sub: "\<And>e. e \<in> set ?pop \<Longrightarrow> e \<in> set q" by (metis in_diffD set_mset_mset)
  show "queue_inv (insert u S) md ?pop"
    unfolding queue_inv_def
  proof (intro conjI allI impI)
    fix v
    have c: "count (mset q) (dist md w, w) = (if w \<notin> S \<and> dist md w < Delay_max then 1 else 0)" for w
      using q by (simp add: queue_inv_def)
    show "count (mset ?pop) (dist md v, v) = (if v \<notin> insert u S \<and> dist md v < Delay_max then 1 else 0)"
      using c [of v] uS max by (cases "v = u") (auto simp: m)
  qed (use q heap min max in \<open>auto simp: queue_inv_def pop_heap_back_heap dest!: sub\<close>)
qed

text \<open>What the loop leaves behind: a tree, with the least distance at every destination.\<close>

definition search_done ::
    "(GraphNodeIndex \<Rightarrow> LinkInfo list) \<Rightarrow> GraphNodeIndex \<Rightarrow> phset \<Rightarrow> Delay phmap \<Rightarrow> LinkInfo option phmap \<Rightarrow> bool" where
  "search_done nb src dests md prev \<longleftrightarrow>
     (\<exists>S. tree_inv nb src S md prev) \<and>
     (\<forall>v is. PHSet_Contains dests v \<longrightarrow> awalk nb src is v \<longrightarrow> dist md v \<le> walk_length is)"

lemma tree_inv_touch:
  "tree_inv nb src S md prev \<Longrightarrow> tree_inv nb src S (PHMap_touch Delay_max md (u :: GraphNodeIndex)) prev"
  by (auto simp: tree_inv_def)

lemma tree_inv_mono: "tree_inv nb src S md prev \<Longrightarrow> S \<subseteq> T \<Longrightarrow> tree_inv nb src T md prev"
  unfolding tree_inv_def by (intro conjI; blast)

lemma queue_inv_touch [simp]: "queue_inv S (PHMap_touch Delay_max md u) q = queue_inv S md q"
  by (simp add: queue_inv_def)

lemma relaxed_touch [simp]: "relaxed rel (PHMap_touch Delay_max md u) = relaxed rel md"
  by (simp add: relaxed_def)

lemma search_doneI:
  assumes "positive_neighbors nb" and "tree_inv nb src S md prev" and "queue_inv S md q"
    and "relaxed (\<lambda>u info. u \<in> S \<and> info \<in> set (nb u)) md"
    and "\<And>v x w. PHSet_Contains dests v \<Longrightarrow> (x, w) \<in> set q \<Longrightarrow> dist md v \<le> x"
  shows "search_done nb src dests md prev"
  unfolding search_done_def
proof (intro conjI allI impI)
  fix v :: GraphNodeIndex and "is"
  assume "PHSet_Contains dests v" and w: "awalk nb src is v"
  with assms(5) have "\<And>x w. (x, w) \<in> set q \<Longrightarrow> dist md v \<le> x" by blast
  with w assms(1-4) show "dist md v \<le> walk_length is" by (rule dist_optimal)
qed (use assms(2) in blast)

lemma search_done_touch:
  "search_done nb src dests md prev \<Longrightarrow> search_done nb src dests (PHMap_touch Delay_max md (u :: GraphNodeIndex)) prev"
  unfolding search_done_def PHMap_value_touch by (meson tree_inv_touch)

text \<open>The destinations still to settle, as \<open>destinations_remaining\<close> counts them.\<close>

definition unsettled :: "phset \<Rightarrow> GraphNodeIndex set \<Rightarrow> GraphNodeIndex set" where
  "unsettled dests S = {v. PHSet_Contains dests v} - S"

lemma unsettled_insert:
  "u \<notin> S \<Longrightarrow> unat (rem :: 64 word) = card (unsettled dests S) \<Longrightarrow>
   unat (if PHSet_Contains dests u then rem - 1 else rem) = card (unsettled dests (insert u S))"
proof -
  assume u: "u \<notin> S" and rem: "unat rem = card (unsettled dests S)"
  have fin: "finite (unsettled dests S)" by simp
  show ?thesis
  proof (cases "PHSet_Contains dests u")
    case True
    then have "u \<in> unsettled dests S" using u by (simp add: unsettled_def)
    moreover have eq: "unsettled dests (insert u S) = unsettled dests S - {u}" by (auto simp: unsettled_def)
    ultimately have c: "card (unsettled dests (insert u S)) = unat rem - 1" and "0 < unat rem"
      using rem fin by (simp_all add: card_Diff_singleton card_gt_0_iff, blast)
    then have "1 \<le> rem" by (simp add: word_le_nat_alt)
    then have "unat (rem - 1) = unat rem - 1" by (simp add: unat_sub)
    with c show ?thesis using True by simp
  next
    case False
    then have "unsettled dests (insert u S) = unsettled dests S" by (auto simp: unsettled_def)
    with False rem show ?thesis by simp
  qed
qed

lemma ComputePaths_loop_correct:
  assumes "nb = allowed_neighbors e a na la" and "positive_neighbors nb"
    and "tree_inv nb src S md prev" and "queue_inv S md q"
    and "relaxed (\<lambda>u info. u \<in> S \<and> info \<in> set (nb u)) md"
    and "unat rem = card (unsettled dests S)"
  shows "\<exists>md' prev'. ComputePaths_loop e a na la dests md prev q rem = Some (md', prev') \<and>
           search_done nb src dests md' prev'"
  using assms
proof (induction "length q + potential md" arbitrary: S md prev q rem rule: less_induct)
  case less
  note nb = less.prems(1) and pos = less.prems(2)
  show ?case
  proof (cases "q = []")
    case True
    have "search_done nb src dests md prev"
      by (rule search_doneI [OF pos less.prems(3-5)]) (use True in simp)
    with True show ?thesis by (subst ComputePaths_loop.simps) (simp add: VPQ_empty_def)
  next
    case False
    let ?u = "snd (hd q)" and ?d = "fst (hd q)" and ?q = "pop_heap_back (\<lambda>x. x) q"
    let ?md = "PHMap_touch Delay_max md ?u"
    have shorter: "length ?q < length q"
      using vpq.elems_pop_size [of "\<lambda>x. x" q] less.prems(4) False by (simp add: queue_inv_def)
    show ?thesis
    proof (cases "dist md ?u < ?d")
      case True
      have "\<exists>md' prev'. ComputePaths_loop e a na la dests ?md prev ?q rem = Some (md', prev') \<and>
           search_done nb src dests md' prev'"
        by (rule less.hyps [OF _ nb pos tree_inv_touch [OF less.prems(3)]])
           (use less.prems(4-6) shorter True False in \<open>auto intro: queue_inv_pop_stale\<close>)
      with True False show ?thesis
        by (subst ComputePaths_loop.simps) (simp add: VPQ_empty_def Let_def)
    next
      case fresh: False
      note pf = queue_inv_pop_fresh [OF less.prems(4) False fresh less.prems(3)]
      let ?rem = "if PHSet_Contains dests ?u then rem - 1 else rem"
      have rem: "unat ?rem = card (unsettled dests (insert ?u S))"
        using unsettled_insert [OF pf(2) less.prems(6)] .
      show ?thesis
      proof (cases "PHSet_Contains dests ?u \<and> ?rem = 0")
        case True
        then have "card (unsettled dests (insert ?u S)) = 0" using rem by (metis unsigned_0)
        then have "unsettled dests (insert ?u S) = {}" by (simp add: card_eq_0_iff)
        then have "v = ?u \<or> v \<in> S" if "PHSet_Contains dests v" for v
          using that by (auto simp: unsettled_def)
        then have "search_done nb src dests md prev"
          using pf(3,4) less.prems(4)
          by (intro search_doneI [OF pos less.prems(3-5)]) (fastforce simp: queue_inv_def)
        then have "search_done nb src dests ?md prev" by (rule search_done_touch)
        moreover from True have "PHSet_Contains dests ?u" "rem = 1" by auto
        ultimately show ?thesis
          using False fresh by (subst ComputePaths_loop.simps) (simp add: VPQ_empty_def Let_def)
      next
        case go: False
        have ins: "tree_inv nb src (insert ?u S) ?md prev"
          using tree_inv_touch [OF less.prems(3)] by (rule tree_inv_mono) auto
        have le: "dist ?md b \<le> dist ?md ?u" if "b \<in> insert ?u S" for b using that pf(4) by auto
        have mem: "info \<in> set (nb ?u)" if "info \<in> set (AdjacencyList_GetNeighbors a ?u)"
          "\<not> CanExcludeLink (li_link_index info) e la" "\<not> CanExcludeNode (li_dst_index info) e na" for info
          using that by (simp add: nb allowed_neighbors_def)
        have q': "queue_inv (insert ?u S) ?md ?q" using pf(6) by simp
        have r': "relaxed (\<lambda>u info. u \<in> S \<and> info \<in> set (nb u)) ?md" using less.prems(5) by simp
        obtain md1 prev1 q1 where one:
          "fold (relax e na la (dist ?md ?u)) (AdjacencyList_GetNeighbors a ?u) (?md, prev, ?q) = (md1, prev1, q1)"
          "tree_inv nb src (insert ?u S) md1 prev1" "queue_inv (insert ?u S) md1 q1"
          "relaxed (\<lambda>b i. (b \<in> S \<and> i \<in> set (nb b)) \<or> b = ?u \<and> i \<in> set (AdjacencyList_GetNeighbors a ?u) \<and>
              \<not> CanExcludeLink (li_link_index i) e la \<and> \<not> CanExcludeNode (li_dst_index i) e na) md1"
          "length q1 + potential md1 \<le> length ?q + potential ?md"
          by (rule relax_fold [OF ins q' r' insertI1 le pos mem, where e = e and la = la and na = na])
             (assumption | rule that | blast)+
        have "(\<lambda>b i. (b \<in> S \<and> i \<in> set (nb b)) \<or> b = ?u \<and> i \<in> set (AdjacencyList_GetNeighbors a ?u) \<and>
              \<not> CanExcludeLink (li_link_index i) e la \<and> \<not> CanExcludeNode (li_dst_index i) e na) =
            (\<lambda>b i. b \<in> insert ?u S \<and> i \<in> set (nb b))"
          by (intro ext) (auto simp: nb allowed_neighbors_def)
        with one(4) have rel: "relaxed (\<lambda>b i. b \<in> insert ?u S \<and> i \<in> set (nb b)) md1" by simp
        have "length q1 + potential md1 < length q + potential md" using one(5) shorter by simp
        from less.hyps [OF this nb pos one(2,3) rel rem]
        have "\<exists>md' prev'. ComputePaths_loop e a na la dests md1 prev1 q1 ?rem = Some (md', prev') \<and>
           search_done nb src dests md' prev'" .
        moreover have "ComputePaths_loop e a na la dests md prev q rem =
            ComputePaths_loop e a na la dests md1 prev1 q1 ?rem"
          using go False fresh one(1) pf(1)
          by (subst ComputePaths_loop.simps) (simp add: VPQ_empty_def Let_def)
        ultimately show ?thesis by simp
      qed
    qed
  qed
qed

section \<open>Recovering a path\<close>

lemma RecoverPath_loop_tree:
  assumes t: "tree_inv nb src S md prev" and pos: "positive_neighbors nb" and "dist md v < Delay_max"
  shows "\<exists>is. awalk nb src is v \<and> walk_length is = dist md v \<and>
           RecoverPath_loop src prev v acc = Some (Ok (map li_link_index is @ rev acc))"
  using assms(3)
proof (induction "nat (dist md v)" arbitrary: v acc rule: less_induct)
  case less
  show ?case
  proof (cases "v = src")
    case True
    then show ?thesis
      using t by (intro exI [of _ "[]"], subst RecoverPath_loop.simps)
        (auto simp: tree_inv_def intro: awalk_Nil)
  next
    case False
    with t less.prems obtain info where
      i: "PHMap_lookup prev v = Some (Some info)" "li_dst_index info = v"
        "info \<in> set (nb (li_src_index info))" "dist md (li_src_index info) + li_delay info = dist md v"
      unfolding tree_inv_def by blast
    let ?u = "li_src_index info"
    have "0 < li_delay info" using i(3) pos by (auto simp: positive_neighbors_def)
    moreover have "0 \<le> dist md ?u" using t by (simp add: tree_inv_def)
    ultimately have "nat (dist md ?u) < nat (dist md v)" "dist md ?u < Delay_max"
      using i(4) less.prems by linarith+
    from less.hyps [OF this, of "acc @ [li_link_index info]"] obtain "is" where
      r: "awalk nb src is ?u" "walk_length is = dist md ?u"
        "RecoverPath_loop src prev ?u (acc @ [li_link_index info]) =
           Some (Ok (map li_link_index is @ rev (acc @ [li_link_index info])))"
      by blast
    have "awalk nb src (is @ [info]) v" using awalk_snoc [OF r(1) i(3)] i(2) by simp
    moreover have "RecoverPath_loop src prev v acc =
        Some (Ok (map li_link_index (is @ [info]) @ rev acc))"
      using False i(1) r(3)
      by (subst RecoverPath_loop.simps) (simp add: PHMap_HasValue_lookup PHMap_GetValueOrDie_lookup)
    ultimately show ?thesis using r(2) i(4) by (intro exI [of _ "is @ [info]"]) auto
  qed
qed

lemma RecoverPath_unreached:
  assumes "tree_inv nb src S md prev" and "\<not> dist md v < Delay_max"
  shows "RecoverPath src v prev = Some (Ok [])"
proof -
  have "v \<noteq> src" using assms by (auto simp: tree_inv_def Delay_max_def)
  moreover have "PHMap_lookup prev v = None" using assms unfolding tree_inv_def by blast
  ultimately show ?thesis
    unfolding RecoverPath_def by (subst RecoverPath_loop.simps) (simp add: PHMap_HasValue_lookup)
qed

lemma GetPathDistance_dist:
  assumes "PHSet_Contains (sp_destinations sp) v" and "tree_inv nb src S (sp_min_delays sp) prev"
  shows "ShortestPath_GetPathDistance sp v = Ok (dist (sp_min_delays sp) v)"
proof (cases "PHMap_HasValue (sp_min_delays sp) v")
  case True
  then have "unat v < length (sp_min_delays sp)" by (simp add: PHMap_HasValue_def split: if_splits)
  with True assms show ?thesis
    by (simp add: ShortestPath_GetPathDistance_def PHMap_UnsafeAccess_def PHMap_value_def)
next
  case False
  then have "\<not> dist (sp_min_delays sp) v < Delay_max"
    using assms(2) unfolding tree_inv_def PHMap_HasValue_lookup by fastforce
  moreover have "dist (sp_min_delays sp) v \<le> Delay_max" using assms(2) by (simp add: tree_inv_def)
  ultimately show ?thesis using False assms(1) by (simp add: ShortestPath_GetPathDistance_def)
qed

lemma PHMap_value_Add_init:
  "PHMap_lookup (PHMap_Add Delay_max (PHMap_Resize Delay_max [] n) src x) (v :: GraphNodeIndex) =
     (if v = src then Some x else None)"
  by simp

lemma ShortestPath_new_tree:
  assumes "nb = allowed_neighbors e a na la" and "positive_neighbors nb"
    and "\<not> CanExcludeNode src e na" and "length dests \<le> 2 ^ 16"
  shows "\<exists>sp. ShortestPath_new src dests e a na la = Some sp \<and> sp_src sp = src \<and>
           sp_destinations sp = dests \<and> search_done nb src dests (sp_min_delays sp) (sp_previous sp)"
proof -
  let ?n = "PHSet_Count (AdjacencyList_AllNodes a)"
  let ?md = "PHMap_Add Delay_max (PHMap_Resize Delay_max [] ?n) src 0"
  let ?prev = "PHMap_Resize None [] ?n :: LinkInfo option phmap"
  let ?q = "VPQ_emplace (\<lambda>x. x) [] (0 :: Delay, src)"
  have t: "tree_inv nb src {} ?md ?prev" by (auto simp: tree_inv_def Delay_max_def)
  have "mset ?q = {#(0, src)#}" by (simp add: mset_VPQ_emplace)
  moreover from this have "set ?q = {(0, src)}" by (metis set_mset_mset set_mset_single)
  ultimately have q: "queue_inv {} ?md ?q"
    using VPQ_emplace_heap [OF heap_ordered_Nil, of "\<lambda>x. x" "(0 :: Delay, src)"]
    by (auto simp: queue_inv_def Delay_max_def)
  have "card {v :: GraphNodeIndex. PHSet_Contains dests v} \<le> card (UNIV :: GraphNodeIndex set)"
    by (rule card_mono) auto
  then have "PHSet_Count dests < 2 ^ 64"
    using PHSet_Count_card [where 'v = 16, of dests] assms(4) by (simp add: card_word)
  then have rem: "unat (of_nat (PHSet_Count dests) :: 64 word) = card (unsettled dests {})"
    using PHSet_Count_card [where 'v = 16, of dests] assms(4)
    by (simp add: of_nat_unat_less unsettled_def)
  have r: "relaxed (\<lambda>u info. u \<in> {} \<and> info \<in> set (nb u)) ?md" by (simp add: relaxed_def)
  from ComputePaths_loop_correct [OF assms(1,2) t q r rem] obtain md prev where
    "ComputePaths_loop e a na la dests ?md ?prev ?q (of_nat (PHSet_Count dests)) = Some (md, prev)"
    "search_done nb src dests md prev" by blast
  then show ?thesis using assms(3) by (simp add: ShortestPath_new_def Let_def)
qed

lemma search_done_paths:
  assumes "positive_neighbors (allowed_neighbors e a na la)" and sp: "sp_src sp = src" "sp_destinations sp = dests"
    "search_done (allowed_neighbors e a na la) src dests (sp_min_delays sp) (sp_previous sp)"
    and dst: "PHSet_Contains dests dst"
  shows "if \<exists>is. awalk (allowed_neighbors e a na la) src is dst \<and> walk_length is < Delay_max
      then \<exists>is. awalk (allowed_neighbors e a na la) src is dst \<and>
             (\<forall>js. awalk (allowed_neighbors e a na la) src js dst \<longrightarrow> walk_length is \<le> walk_length js) \<and>
             ShortestPath_GetPathDistance sp dst = Ok (walk_length is) \<and>
             ShortestPath_GetPath sp dst = Some (Ok (if dst = src then None
               else Some \<lparr>walk_links = map li_link_index is, walk_delay = walk_length is\<rparr>))
      else ShortestPath_GetPathDistance sp dst = Ok Delay_max \<and>
           ShortestPath_GetPath sp dst = Some (Ok None)"
proof -
  let ?nb = "allowed_neighbors e a na la"
  let ?d = "dist (sp_min_delays sp) dst"
  obtain S where t: "tree_inv ?nb src S (sp_min_delays sp) (sp_previous sp)"
    and opt: "\<And>is. awalk ?nb src is dst \<Longrightarrow> ?d \<le> walk_length is"
    using sp(3) dst unfolding search_done_def by blast
  have gd: "ShortestPath_GetPathDistance sp dst = Ok ?d"
    using GetPathDistance_dist [OF _ t] sp(2) dst by simp
  show ?thesis
  proof (cases "?d < Delay_max")
    case True
    from RecoverPath_loop_tree [OF t assms(1) True, of "[]"] obtain "is" where
      w: "awalk ?nb src is dst" "walk_length is = ?d"
      and rec: "RecoverPath src dst (sp_previous sp) = Some (Ok (map li_link_index is))"
      by (auto simp: RecoverPath_def)
    have val: "PHMap_GetValueOrDie (sp_min_delays sp) dst = Ok ?d"
      using t True by (simp add: tree_inv_def PHMap_GetValueOrDie_lookup)
    have "is = [] \<longleftrightarrow> dst = src"
    proof
      assume "dst = src"
      then have "RecoverPath src dst (sp_previous sp) = Some (Ok [])"
        unfolding RecoverPath_def by (subst RecoverPath_loop.simps) simp
      with rec show "is = []" by simp
    qed (use w(1) in \<open>auto elim: awalk_NilE\<close>)
    then have "ShortestPath_GetPath sp dst = Some (Ok (if dst = src then None
               else Some \<lparr>walk_links = map li_link_index is, walk_delay = walk_length is\<rparr>))"
      using sp(1,2) dst rec val w(2) by (simp add: ShortestPath_GetPath_def)
    moreover have "\<exists>is. awalk ?nb src is dst \<and> walk_length is < Delay_max" using w True by metis
    ultimately show ?thesis using w opt gd by auto
  next
    case False
    moreover have "?d \<le> Delay_max" using t by (simp add: tree_inv_def)
    ultimately have d: "?d = Delay_max" by simp
    then have no: "\<not> (\<exists>is. awalk ?nb src is dst \<and> walk_length is < Delay_max)"
      using opt by fastforce
    have "ShortestPath_GetPath sp dst = Some (Ok None)"
      using RecoverPath_unreached [OF t False] sp(1,2) dst by (simp add: ShortestPath_GetPath_def)
    with gd d show ?thesis unfolding if_not_P [OF no] by simp
  qed
qed

lemma ShortestPath_new_paths:
  assumes "positive_neighbors (allowed_neighbors e a na la)" and "\<not> CanExcludeNode src e na"
    and "length dests \<le> 2 ^ 16"
  shows "\<exists>sp. ShortestPath_new src dests e a na la = Some sp \<and> (\<forall>dst. PHSet_Contains dests dst \<longrightarrow>
     (if \<exists>is. awalk (allowed_neighbors e a na la) src is dst \<and> walk_length is < Delay_max
      then \<exists>is. awalk (allowed_neighbors e a na la) src is dst \<and>
             (\<forall>js. awalk (allowed_neighbors e a na la) src js dst \<longrightarrow> walk_length is \<le> walk_length js) \<and>
             ShortestPath_GetPathDistance sp dst = Ok (walk_length is) \<and>
             ShortestPath_GetPath sp dst = Some (Ok (if dst = src then None
               else Some \<lparr>walk_links = map li_link_index is, walk_delay = walk_length is\<rparr>))
      else ShortestPath_GetPathDistance sp dst = Ok Delay_max \<and>
           ShortestPath_GetPath sp dst = Some (Ok None)))"
proof -
  let ?nb = "allowed_neighbors e a na la"
  obtain sp where sp: "ShortestPath_new src dests e a na la = Some sp" "sp_src sp = src"
    "sp_destinations sp = dests" "search_done ?nb src dests (sp_min_delays sp) (sp_previous sp)"
    using ShortestPath_new_tree [OF refl assms(1-3)] by blast
  show ?thesis
    using search_done_paths [OF assms(1) sp(2-4)] sp(1) by blast
qed

section \<open>Properties\<close>


definition one_link :: AdjacencyList where
  "one_link = AdjacencyList_AddLink AdjacencyList_new 7 0 1 5"

lemma one_link_neighbors:
  "allowed_neighbors ExclusionSet_new one_link None None u =
     (if u = 0 then [\<lparr>li_link_index = 7, li_src_index = 0, li_dst_index = 1, li_delay = 5\<rparr>] else [])"
  by (simp add: allowed_neighbors_def one_link_def GetNeighbors_AddLink CanExcludeLink_def
      CanExcludeNode_def ExclusionSet_ShouldExcludeLink_def ExclusionSet_ShouldExcludeNode_def
      ExclusionSet_new_def)


end
