(* ===== verification/Path_Search.thy ===== *)
theory Path_Search
  imports Shortest_Path "HOL-Library.Sublist"
begin

text \<open>
  \<open>ConstraintSet\<close>, \<open>Paths\<close> and \<open>ReachableNodes\<close> of \<open>src/src/net/algorithm.{h,cc}\<close>. Both depth-first
  searches are partial functions and are shown to return. The search for reachable nodes threads its set of
  nodes through the recursion; the enumeration of paths threads the two sets, the current path and the
  distance that it changes before and restores after each recursive call, and the list of the walks passed to
  the callback. Distances are unbounded integers, as are the set indices that \<open>MinVisit\<close>
  and \<open>Waypoints\<close> keep in an \<open>int\<close>.
\<close>

section \<open>Constraint sets\<close>

record ConstraintSet =
  cs_exclusion_set :: ExclusionSet
  cs_to_visit :: "phset list"
  cs_node_to_visit_index :: "nat phmap"

definition ConstraintSet_empty :: ConstraintSet where
  "ConstraintSet_empty =
     \<lparr>cs_exclusion_set = ExclusionSet_new, cs_to_visit = [], cs_node_to_visit_index = []\<rparr>"

definition ConstraintSet_AddToVisitSet :: "ConstraintSet \<Rightarrow> phset \<Rightarrow> ConstraintSet res" where
  "ConstraintSet_AddToVisitSet c s =
     (let set_index = length (cs_to_visit c)
      in rfold (\<lambda>node_index c. check (\<not> PHMap_HasValue (cs_node_to_visit_index c) node_index)
             (Ok (c\<lparr>cs_node_to_visit_index := PHMap_Add 0 (cs_node_to_visit_index c) node_index set_index\<rparr>)))
           (PHSet_elems s :: GraphNodeIndex list) (c\<lparr>cs_to_visit := cs_to_visit c @ [s]\<rparr>))"

definition ConstraintSet_new :: "ExclusionSet \<Rightarrow> phset list \<Rightarrow> ConstraintSet res" where
  "ConstraintSet_new e to_visit =
     rfold (\<lambda>set_to_visit c. ConstraintSet_AddToVisitSet c set_to_visit) to_visit
       (ConstraintSet_empty\<lparr>cs_exclusion_set := e\<rparr>)"

definition ConstraintSet_ExtendFirstSetToVisitOrDie :: "ConstraintSet \<Rightarrow> phset \<Rightarrow> ConstraintSet res" where
  "ConstraintSet_ExtendFirstSetToVisitOrDie c s =
     check (length (cs_to_visit c) = 1)
       (let current_to_visit = PHSet_InsertAll (cs_to_visit c ! 0) s
        in ConstraintSet_AddToVisitSet
             (c\<lparr>cs_to_visit := [], cs_node_to_visit_index := PHMap_Clear (cs_node_to_visit_index c)\<rparr>)
             current_to_visit)"

fun MinVisit_loop :: "ConstraintSet \<Rightarrow> GraphStorage \<Rightarrow> Links \<Rightarrow> int \<Rightarrow> nat res" where
  "MinVisit_loop c g [] current_index = Ok (nat (current_index + 1))"
| "MinVisit_loop c g (link # links) current_index =
     rbind (GraphStorage_GetLink g link) (\<lambda>l.
       if PHMap_HasValue (cs_node_to_visit_index c) (gl_dst l)
       then rbind (PHMap_GetValueOrDie (cs_node_to_visit_index c) (gl_dst l)) (\<lambda>i.
              if int i < current_index then Ok (i + 1)
              else if current_index \<noteq> int i \<and> current_index + 1 \<noteq> int i then Ok (nat (current_index + 1))
              else MinVisit_loop c g links (int i))
       else MinVisit_loop c g links current_index)"

definition ConstraintSet_MinVisit :: "ConstraintSet \<Rightarrow> Links \<Rightarrow> GraphStorage \<Rightarrow> nat res" where
  "ConstraintSet_MinVisit c links g =
     (let current_index = - 1
      in case links of
           [] \<Rightarrow> Ok 0
         | front # _ \<Rightarrow> rbind (GraphStorage_GetLink g front) (\<lambda>l.
             if PHMap_HasValue (cs_node_to_visit_index c) (gl_src l)
             then rbind (PHMap_GetValueOrDie (cs_node_to_visit_index c) (gl_src l)) (\<lambda>i.
                    if current_index \<noteq> int i \<and> current_index + 1 \<noteq> int i then Ok (nat (current_index + 1))
                    else MinVisit_loop c g links (int i))
             else MinVisit_loop c g links current_index))"

text \<open>One node of the walk in \<open>Waypoints\<close>; the state is \<open>out\<close> and \<open>last_i\<close>.\<close>

definition Waypoints_node ::
    "ConstraintSet \<Rightarrow> GraphNodeIndex \<Rightarrow> GraphNodeIndex list \<times> int \<Rightarrow> (GraphNodeIndex list \<times> int) res" where
  "Waypoints_node c node st =
     (case st of (out, last_i) \<Rightarrow>
        if PHMap_HasValue (cs_node_to_visit_index c) node
        then rbind (PHMap_GetValueOrDie (cs_node_to_visit_index c) node) (\<lambda>i.
               check (int i \<ge> last_i)
                 (Ok (if last_i \<noteq> int i then (out @ [node], int i) else (out, last_i))))
        else Ok (out, last_i))"

definition ConstraintSet_Waypoints :: "ConstraintSet \<Rightarrow> Links \<Rightarrow> GraphStorage \<Rightarrow> GraphNodeIndex list res" where
  "ConstraintSet_Waypoints c links g =
     (case links of
        [] \<Rightarrow> Ok []
      | front # _ \<Rightarrow>
          rbind (GraphStorage_GetLink g front) (\<lambda>l.
          rbind (Waypoints_node c (gl_src l) ([], - 1)) (\<lambda>st.
          rbind (rfold (\<lambda>link st. rbind (GraphStorage_GetLink g link) (\<lambda>l. Waypoints_node c (gl_dst l) st)) links st)
            (\<lambda>(out, last_i). Ok out))))"

definition ConstraintSet_FindSetToVisitOrNull :: "ConstraintSet \<Rightarrow> GraphNodeIndex \<Rightarrow> phset option res" where
  "ConstraintSet_FindSetToVisitOrNull c node =
     (if \<not> PHMap_HasValue (cs_node_to_visit_index c) node then Ok None
      else rbind (PHMap_GetValueOrDie (cs_node_to_visit_index c) node) (\<lambda>i.
           rbind (vec_at (cs_to_visit c) i) (\<lambda>s. Ok (Some s))))"

definition sanitize_set :: "ConstraintSet \<Rightarrow> GraphNodeIndex \<Rightarrow> GraphNodeIndex \<Rightarrow> nat \<Rightarrow> phset res" where
  "sanitize_set c src dst i =
     rbind (vec_at (cs_to_visit c) i) (\<lambda>s.
       if i = 0 \<and> PHSet_Contains s src then Ok (PHSet_Clear s)
       else if i = length (cs_to_visit c) - 1 \<and> PHSet_Contains s dst then Ok (PHSet_Clear s)
       else check (\<not> PHSet_Contains s src \<or> \<not> PHSet_Contains s dst) (Ok s))"

definition ConstraintSet_SanitizeConstraints ::
    "ConstraintSet \<Rightarrow> GraphNodeIndex \<Rightarrow> GraphNodeIndex \<Rightarrow> ConstraintSet res" where
  "ConstraintSet_SanitizeConstraints c src dst =
     (if cs_to_visit c = [] then Ok c
      else rfold (\<lambda>i to_return.
             rbind (sanitize_set c src dst i) (\<lambda>s.
               if PHSet_Empty s then Ok to_return else ConstraintSet_AddToVisitSet to_return s))
           [0..<length (cs_to_visit c)]
           (ConstraintSet_empty\<lparr>cs_exclusion_set :=
              ExclusionSet_Nodes (ExclusionSet_Links ExclusionSet_new (ex_links_to_exclude (cs_exclusion_set c)))
                (ex_nodes_to_exclude (cs_exclusion_set c))\<rparr>))"

section \<open>Enumerating paths\<close>

record DFSConfig =
  dfs_simple :: bool
  dfs_max_distance :: Delay
  dfs_max_hops :: nat

definition DFSConfig_default :: DFSConfig where
  "DFSConfig_default = \<lparr>dfs_simple = True, dfs_max_distance = Delay_max, dfs_max_hops = 2 ^ 64 - 1\<rparr>"

text \<open>What \<open>PathsRecursive\<close> changes through its pointers, and the walks passed to the callback.\<close>

record dfs_state =
  ds_links_seen :: phset
  ds_nodes_seen :: phset
  ds_current :: Links
  ds_total_distance :: Delay
  ds_walks :: "Walk list"

text \<open>What happens to the shared state before and after the call for a link.\<close>

definition dfs_push :: "DFSConfig \<Rightarrow> LinkInfo \<Rightarrow> dfs_state \<Rightarrow> dfs_state" where
  "dfs_push config out_link_info s =
     s\<lparr>ds_links_seen := (if dfs_simple config then ds_links_seen s
                         else PHSet_Insert (ds_links_seen s) (li_link_index out_link_info)),
       ds_current := ds_current s @ [li_link_index out_link_info],
       ds_total_distance := ds_total_distance s + li_delay out_link_info\<rparr>"

definition dfs_pop :: "DFSConfig \<Rightarrow> LinkInfo \<Rightarrow> dfs_state \<Rightarrow> dfs_state" where
  "dfs_pop config out_link_info s =
     s\<lparr>ds_total_distance := ds_total_distance s - li_delay out_link_info,
       ds_current := butlast (ds_current s),
       ds_links_seen := (if dfs_simple config then ds_links_seen s
                         else PHSet_Remove (ds_links_seen s) (li_link_index out_link_info))\<rparr>"

definition dfs_report :: "GraphStorage \<Rightarrow> ConstraintSet \<Rightarrow> dfs_state \<Rightarrow> dfs_state res" where
  "dfs_report graph constraints s =
     rbind (ConstraintSet_MinVisit constraints (ds_current s) graph) (\<lambda>min_v.
       if min_v \<noteq> length (cs_to_visit constraints) then Ok s
       else Ok (s\<lparr>ds_walks := ds_walks s @ [\<lparr>walk_links = ds_current s, walk_delay = ds_total_distance s\<rparr>]\<rparr>))"

partial_function (option) PathsRecursive ::
    "DFSConfig \<Rightarrow> GraphNodeIndex \<Rightarrow> GraphStorage \<Rightarrow> ConstraintSet \<Rightarrow> GraphNodeIndex \<Rightarrow> dfs_state \<Rightarrow> dfs_state res option" where
  "PathsRecursive config dst graph constraints at s =
     (if length (ds_current s) > dfs_max_hops config then Some (Ok s)
      else if at = dst then Some (dfs_report graph constraints s)
      else if ds_total_distance s > dfs_max_distance config then Some (Ok s)
      else if dfs_simple config \<and> PHSet_Contains (ds_nodes_seen s) at then Some (Ok s)
      else orbind
        (orfold (\<lambda>out_link_info s.
            if ExclusionSet_ShouldExcludeLink (cs_exclusion_set constraints) (li_link_index out_link_info) then Some (Ok s)
            else if ExclusionSet_ShouldExcludeNode (cs_exclusion_set constraints) (li_dst_index out_link_info) then Some (Ok s)
            else if \<not> dfs_simple config \<and> PHSet_Contains (ds_links_seen s) (li_link_index out_link_info) then Some (Ok s)
            else orbind (PathsRecursive config dst graph constraints (li_dst_index out_link_info)
                          (dfs_push config out_link_info s))
                   (\<lambda>s. Some (Ok (dfs_pop config out_link_info s))))
          (AdjacencyList_GetNeighbors (gs_adjacency_list graph) at)
          (if dfs_simple config then s\<lparr>ds_nodes_seen := PHSet_Insert (ds_nodes_seen s) at\<rparr> else s))
        (\<lambda>s. Some (Ok (if dfs_simple config then s\<lparr>ds_nodes_seen := PHSet_Remove (ds_nodes_seen s) at\<rparr> else s))))"

text \<open>The walks the callback of \<open>Paths\<close> is called with, in order.\<close>

definition Paths ::
    "GraphNodeIndex \<Rightarrow> GraphNodeIndex \<Rightarrow> GraphStorage \<Rightarrow> ConstraintSet \<Rightarrow> DFSConfig \<Rightarrow> Walk list res option" where
  "Paths src dst graph constraints config =
     orbind (PathsRecursive config dst graph constraints src
        \<lparr>ds_links_seen = [], ds_nodes_seen = [], ds_current = [], ds_total_distance = 0, ds_walks = []\<rparr>)
       (\<lambda>s. Some (Ok (ds_walks s)))"

section \<open>Reachable nodes\<close>

partial_function (option) ReachableNodesRecursive ::
    "AdjacencyList \<Rightarrow> ExclusionSet \<Rightarrow> GraphNodeIndex \<Rightarrow> phset \<Rightarrow> phset option" where
  "ReachableNodesRecursive adjacency_list e at nodes_seen =
     (if PHSet_Contains nodes_seen at then Some nodes_seen
      else ofold (\<lambda>out_link_info nodes_seen.
             if ExclusionSet_ShouldExcludeLink e (li_link_index out_link_info) then Some nodes_seen
             else if ExclusionSet_ShouldExcludeNode e (li_dst_index out_link_info) then Some nodes_seen
             else ReachableNodesRecursive adjacency_list e (li_dst_index out_link_info) nodes_seen)
           (AdjacencyList_GetNeighbors adjacency_list at) (PHSet_Insert nodes_seen at))"

definition ReachableNodes :: "GraphNodeIndex \<Rightarrow> GraphStorage \<Rightarrow> ExclusionSet \<Rightarrow> phset option" where
  "ReachableNodes src graph e = ReachableNodesRecursive (gs_adjacency_list graph) e src []"

section \<open>The nodes reached\<close>

text \<open>Walks, from the front.\<close>

lemma awalk_Cons: "awalk nb u (i # is) v \<longleftrightarrow> i \<in> set (nb u) \<and> awalk nb (li_dst_index i) is v"
proof (induction "is" arbitrary: v rule: rev_induct)
  case Nil
  have "awalk nb u ([] @ [i]) v \<longleftrightarrow> i \<in> set (nb u) \<and> v = li_dst_index i"
    unfolding awalk_snoc_iff by (auto elim: awalk_NilE intro: awalk_Nil)
  then show ?case by (auto elim: awalk_NilE intro: awalk_Nil)
next
  case (snoc x xs)
  have "awalk nb u ((i # xs) @ [x]) v \<longleftrightarrow> (\<exists>w. awalk nb u (i # xs) w \<and> x \<in> set (nb w) \<and> v = li_dst_index x)"
    unfolding awalk_snoc_iff by auto
  then show ?case using snoc.IH by (auto simp: awalk_snoc_iff)
qed

definition members :: "phset \<Rightarrow> GraphNodeIndex set" where
  "members s = {v. PHSet_Contains s v}"

lemma members_simps [simp]: "members [] = {}" "members (PHSet_Insert s i) = insert i (members s)"
  by (auto simp: members_def)

definition reach :: "(GraphNodeIndex \<Rightarrow> LinkInfo list) \<Rightarrow> GraphNodeIndex \<Rightarrow> GraphNodeIndex set" where
  "reach nb u = {v. \<exists>is. awalk nb u is v}"

lemma reach_step: "i \<in> set (nb u) \<Longrightarrow> reach nb (li_dst_index i) \<subseteq> reach nb u"
  unfolding reach_def by (auto simp: awalk_Cons intro: exI [of _ "i # _"])

lemma reach_refl: "u \<in> reach nb u"
  unfolding reach_def by (auto intro: awalk_Nil)

text \<open>Every node of \<open>R\<close> that is not in \<open>S\<close> has all its neighbours in \<open>R\<close>.\<close>

definition explored :: "(GraphNodeIndex \<Rightarrow> LinkInfo list) \<Rightarrow> GraphNodeIndex set \<Rightarrow> GraphNodeIndex set \<Rightarrow> bool" where
  "explored nb S R \<longleftrightarrow> (\<forall>u \<in> R - S. li_dst_index ` set (nb u) \<subseteq> R)"

lemma explored_closed:
  assumes "awalk nb u is v" "u \<in> R" "explored nb {} R"
  shows "v \<in> R"
  using assms by (induction rule: awalk.induct) (auto simp: explored_def)

lemma explored_trans:
  "explored nb S R \<Longrightarrow> explored nb R T \<Longrightarrow> R \<subseteq> T \<Longrightarrow> explored nb S T"
  unfolding explored_def by blast

lemma allowed_mem:
  "i \<in> set (allowed_neighbors e a None None u) \<longleftrightarrow>
   i \<in> set (AdjacencyList_GetNeighbors a u) \<and> \<not> ExclusionSet_ShouldExcludeLink e (li_link_index i) \<and>
   \<not> ExclusionSet_ShouldExcludeNode e (li_dst_index i)"
  by (auto simp: allowed_neighbors_def CanExcludeLink_def CanExcludeNode_def)

text \<open>The loop over the neighbours, given that the calls it makes do what they should.\<close>

lemma ofold_explores:
  assumes call: "\<And>i s. i \<in> set is \<Longrightarrow> ok i \<Longrightarrow> members s0 \<subseteq> members s \<Longrightarrow>
      \<exists>t. f i s = Some t \<and> members s \<subseteq> members t \<and> li_dst_index i \<in> members t \<and>
          explored nb (members s) (members t) \<and> members t \<subseteq> members s \<union> reach nb (li_dst_index i)"
    and "members s0 \<subseteq> members s"
  shows "\<exists>t. ofold (\<lambda>i s. if ok i then f i s else Some s) is s = Some t \<and> members s \<subseteq> members t \<and>
    (\<forall>i \<in> set is. ok i \<longrightarrow> li_dst_index i \<in> members t) \<and> explored nb (members s) (members t) \<and>
    members t \<subseteq> members s \<union> (\<Union>i \<in> {i \<in> set is. ok i}. reach nb (li_dst_index i))"
  using assms
proof (induction "is" arbitrary: s)
  case Nil
  then show ?case by (simp add: explored_def)
next
  case (Cons i "is")
  have "\<exists>t. (if ok i then f i s else Some s) = Some t \<and> members s \<subseteq> members t \<and>
      (ok i \<longrightarrow> li_dst_index i \<in> members t) \<and> explored nb (members s) (members t) \<and>
      members t \<subseteq> members s \<union> (if ok i then reach nb (li_dst_index i) else {})"
    using Cons.prems(1) [of i s] Cons.prems(2) by (cases "ok i") (auto simp: explored_def)
  then obtain t where t: "(if ok i then f i s else Some s) = Some t" "members s \<subseteq> members t"
    "ok i \<Longrightarrow> li_dst_index i \<in> members t" "explored nb (members s) (members t)"
    "members t \<subseteq> members s \<union> (if ok i then reach nb (li_dst_index i) else {})" by blast
  have "members s0 \<subseteq> members t" using Cons.prems(2) t(2) by blast
  with Cons.IH [of t] Cons.prems(1)
  obtain r where r: "ofold (\<lambda>i s. if ok i then f i s else Some s) is t = Some r" "members t \<subseteq> members r"
    "\<forall>i \<in> set is. ok i \<longrightarrow> li_dst_index i \<in> members r" "explored nb (members t) (members r)"
    "members r \<subseteq> members t \<union> (\<Union>i \<in> {i \<in> set is. ok i}. reach nb (li_dst_index i))" by auto
  have "explored nb (members s) (members r)" using explored_trans [OF t(4) r(4) r(2)] .
  moreover have "ofold (\<lambda>i s. if ok i then f i s else Some s) (i # is) s = Some r" using t(1) r(1) by simp
  moreover have "members r \<subseteq> members s \<union> (\<Union>i \<in> {j \<in> set (i # is). ok j}. reach nb (li_dst_index i))"
    using t(5) r(5) by (cases "ok i") auto
  ultimately show ?case using t(2,3) r(2,3) by (intro exI [of _ r]) auto
qed

lemma ReachableNodesRecursive_explores:
  fixes a :: AdjacencyList and e :: ExclusionSet
  defines "nb \<equiv> allowed_neighbors e a None None"
  shows "\<exists>t. ReachableNodesRecursive a e u s = Some t \<and> members s \<subseteq> members t \<and> u \<in> members t \<and>
    explored nb (members s) (members t) \<and> members t \<subseteq> members s \<union> reach nb u"
proof (induction "card (- members s)" arbitrary: u s rule: less_induct)
  case less
  let ?ok = "\<lambda>i. \<not> ExclusionSet_ShouldExcludeLink e (li_link_index i) \<and> \<not> ExclusionSet_ShouldExcludeNode e (li_dst_index i)"
  let ?s = "PHSet_Insert s u"
  show ?case
  proof (cases "PHSet_Contains s u")
    case True
    then show ?thesis by (subst ReachableNodesRecursive.simps) (simp add: members_def explored_def)
  next
    case False
    have call: "\<exists>t. ReachableNodesRecursive a e (li_dst_index i) r = Some t \<and> members r \<subseteq> members t \<and>
        li_dst_index i \<in> members t \<and> explored nb (members r) (members t) \<and>
        members t \<subseteq> members r \<union> reach nb (li_dst_index i)" if "members ?s \<subseteq> members r" for i r
    proof (rule less)
      have "- members r \<subset> - members s" using that False by (auto simp: members_def)
      then show "card (- members r) < card (- members s)" by (rule psubset_card_mono [rotated]) simp
    qed
    have unf: "ReachableNodesRecursive a e u s = ofold (\<lambda>i s. if ?ok i then ReachableNodesRecursive a e (li_dst_index i) s else Some s)
        (AdjacencyList_GetNeighbors a u) ?s"
      unfolding ReachableNodesRecursive.simps [of a e u s] if_not_P [OF False]
      by (rule arg_cong [where f = "\<lambda>f. ofold f _ _"]) (simp add: fun_eq_iff)
    obtain t where t: "ReachableNodesRecursive a e u s = Some t" "members ?s \<subseteq> members t"
      "\<forall>i \<in> set (AdjacencyList_GetNeighbors a u). ?ok i \<longrightarrow> li_dst_index i \<in> members t"
      "explored nb (members ?s) (members t)"
      "members t \<subseteq> members ?s \<union> (\<Union>i \<in> {i \<in> set (AdjacencyList_GetNeighbors a u). ?ok i}. reach nb (li_dst_index i))"
      using ofold_explores [of "AdjacencyList_GetNeighbors a u" ?ok ?s "\<lambda>i. ReachableNodesRecursive a e (li_dst_index i)" nb ?s] call
      unfolding unf by blast
    have nbu: "i \<in> set (nb u) \<longleftrightarrow> i \<in> set (AdjacencyList_GetNeighbors a u) \<and> ?ok i" for i
      unfolding nb_def allowed_mem by blast
    have "explored nb (members s) (members t)"
      using t(3,4) nbu by (auto simp: explored_def)
    moreover have "members t \<subseteq> members s \<union> reach nb u"
      using t(5) reach_step [of _ nb u] reach_refl [of u nb] nbu by fastforce
    ultimately show ?thesis using t(1,2) by auto
  qed
qed

section \<open>Visits\<close>

text \<open>Every node is in at most one set to visit, and the index says in which.\<close>

definition visit_wf :: "ConstraintSet \<Rightarrow> bool" where
  "visit_wf c \<longleftrightarrow> (\<forall>s \<in> set (cs_to_visit c). length s \<le> 2 ^ 16) \<and>
     (\<forall>(v :: GraphNodeIndex) i. PHMap_lookup (cs_node_to_visit_index c) v = Some i \<longleftrightarrow>
        i < length (cs_to_visit c) \<and> PHSet_Contains (cs_to_visit c ! i) v)"

text \<open>The indices of the sets that a list of nodes goes through.\<close>

definition visits :: "ConstraintSet \<Rightarrow> GraphNodeIndex list \<Rightarrow> nat list" where
  "visits c vs = List.map_filter (PHMap_lookup (cs_node_to_visit_index c)) vs"

text \<open>All sets are visited, and never one after a later one.\<close>

definition compliant :: "ConstraintSet \<Rightarrow> GraphNodeIndex list \<Rightarrow> bool" where
  "compliant c vs \<longleftrightarrow> sorted (visits c vs) \<and> set (visits c vs) = {..<length (cs_to_visit c)}"

lemma visits_simps [simp]:
  "visits c [] = []"
  "visits c (v # vs) = (case PHMap_lookup (cs_node_to_visit_index c) v of None \<Rightarrow> visits c vs | Some i \<Rightarrow> i # visits c vs)"
  by (simp_all add: visits_def List.map_filter_simps split: option.splits)

lemma set_visits: "i \<in> set (visits c vs) \<longleftrightarrow> (\<exists>v \<in> set vs. PHMap_lookup (cs_node_to_visit_index c) v = Some i)"
  by (induction vs) (auto split: option.splits)

lemma visits_less: "visit_wf c \<Longrightarrow> i \<in> set (visits c vs) \<Longrightarrow> i < length (cs_to_visit c)"
  by (auto simp: set_visits visit_wf_def)

fun climb :: "nat list \<Rightarrow> int \<Rightarrow> nat" where
  "climb [] k = nat (k + 1)"
| "climb (i # is) k =
     (if int i < k then i + 1 else if k \<noteq> int i \<and> k + 1 \<noteq> int i then nat (k + 1) else climb is (int i))"

lemma MinVisit_loop_climb:
  "links_in g ls \<Longrightarrow> MinVisit_loop c g ls k = Ok (climb (visits c (map (gl_dst \<circ> link_at g) ls)) k)"
  by (induction ls arbitrary: k)
     (auto simp: GetLink_in PHMap_HasValue_lookup PHMap_GetValueOrDie_lookup split: option.splits)

lemma MinVisit_climb:
  "links_in g ls \<Longrightarrow> ConstraintSet_MinVisit c ls g = Ok (climb (visits c (nodes_of g ls)) (- 1))"
  by (cases ls)
     (auto simp: ConstraintSet_MinVisit_def nodes_of_def GetLink_in PHMap_HasValue_lookup
        PHMap_GetValueOrDie_lookup MinVisit_loop_climb simp del: MinVisit_loop.simps split: option.splits)

lemma eq_range: "k < n \<Longrightarrow> {k} = {k..<n} \<longleftrightarrow> Suc k = n" for k n :: nat
proof
  assume "k < n" "{k} = {k..<n}"
  moreover from this(2) have "Suc k \<notin> {k..<n}" by (metis n_not_Suc_n singletonD)
  ultimately show "Suc k = n" by simp
qed auto

lemma insert_eq_range: "k \<notin> X \<Longrightarrow> k < n \<Longrightarrow> insert k X = {k..<n} \<longleftrightarrow> X = {Suc k..<n}" for k n :: nat
proof -
  assume "k \<notin> X" "k < n"
  moreover from this(2) have "{k..<n} = insert k {Suc k..<n}" by auto
  ultimately show ?thesis by (simp add: insert_ident)
qed

lemma climb_from:
  assumes "k < n" "\<forall>i \<in> set is. i < n"
  shows "climb is (int k) = n \<longleftrightarrow> sorted (k # is) \<and> set (k # is) = {k..<n}"
  using assms
proof (induction "is" arbitrary: k)
  case Nil
  then show ?case using eq_range [of k n] by (simp add: nat_add_distrib)
next
  case (Cons i "is")
  consider "i < k" | "i = k" | "i = Suc k" | "Suc k < i" by linarith
  then show ?case
  proof cases
    case 1
    then show ?thesis using Cons.prems by auto
  next
    case 2
    then show ?thesis using Cons by simp
  next
    case 3
    have "climb (i # is) (int k) = climb is (int i)" using 3 by simp
    also have "\<dots> = n \<longleftrightarrow> sorted (i # is) \<and> set (i # is) = {i..<n}"
      by (rule Cons.IH) (use Cons.prems in auto)
    also have "\<dots> \<longleftrightarrow> sorted (i # is) \<and> set (k # i # is) = {k..<n}"
    proof (rule conj_cong [OF refl])
      assume "sorted (i # is)"
      then have "k \<notin> set (i # is)" using 3 by auto
      from insert_eq_range [OF this Cons.prems(1)] 3
      show "set (i # is) = {i..<n} \<longleftrightarrow> set (k # i # is) = {k..<n}" by simp
    qed
    also have "sorted (i # is) \<longleftrightarrow> sorted (k # i # is)" using 3 by auto
    finally show ?thesis .
  next
    case 4
    have "set (k # i # is) \<noteq> {k..<n}" if "sorted (k # i # is)"
    proof -
      have "Suc k \<in> {k..<n}" "Suc k \<notin> set (k # i # is)" using that 4 Cons.prems by auto
      then show ?thesis by blast
    qed
    moreover have "climb (i # is) (int k) = Suc k" using 4 by (simp add: nat_add_distrib)
    ultimately show ?thesis using Cons.prems(2) 4 by auto
  qed
qed

lemma climb_iff:
  assumes "\<forall>i \<in> set is. i < n"
  shows "climb is (- 1) = n \<longleftrightarrow> sorted is \<and> set is = {..<n}"
proof (cases "is")
  case Nil
  then show ?thesis by auto
next
  case (Cons i js)
  have n: "0 < n" using assms Cons by auto
  show ?thesis
  proof (cases "i = 0")
    case True
    then show ?thesis using climb_from [of 0 n js] assms Cons n by (simp add: atLeast0LessThan)
  next
    case False
    then have "0 \<in> {..<n} - set is" if "sorted is" using that Cons n by auto
    then show ?thesis using False Cons n by auto
  qed
qed

lemma MinVisit_compliant:
  assumes "visit_wf c" "links_in g ls"
  shows "ConstraintSet_MinVisit c ls g = Ok (length (cs_to_visit c)) \<longleftrightarrow> compliant c (nodes_of g ls)"
  using climb_iff [of "visits c (nodes_of g ls)" "length (cs_to_visit c)"] visits_less [OF assms(1)]
  by (auto simp: MinVisit_climb [OF assms(2)] compliant_def)

lemma visits_all:
  "\<forall>v \<in> set ws. PHMap_lookup (cs_node_to_visit_index c) v \<noteq> None \<Longrightarrow>
   map (PHMap_lookup (cs_node_to_visit_index c)) ws = map Some (visits c ws)"
  by (induction ws) auto

lemma Waypoints_node_lookup:
  "Waypoints_node c v (out, k) =
     (case PHMap_lookup (cs_node_to_visit_index c) v of
        None \<Rightarrow> Ok (out, k)
      | Some i \<Rightarrow> check (k \<le> int i) (Ok (if k \<noteq> int i then (out @ [v], int i) else (out, k))))"
  by (auto simp: Waypoints_node_def PHMap_HasValue_lookup PHMap_GetValueOrDie_lookup split: option.splits)

lemma Waypoints_nodes:
  "links_in g ls \<Longrightarrow> ConstraintSet_Waypoints c ls g =
     rbind (rfold (Waypoints_node c) (nodes_of g ls) ([], - 1)) (\<lambda>(out, last_i). Ok out)"
proof -
  assume inn: "links_in g ls"
  have loop: "rfold (\<lambda>link st. rbind (GraphStorage_GetLink g link) (\<lambda>l. Waypoints_node c (gl_dst l) st)) ks st =
      rfold (Waypoints_node c) (map (gl_dst \<circ> link_at g) ks) st" if "links_in g ks" for ks st
    using that
  proof (induction ks arbitrary: st)
    case (Cons k ks)
    then show ?case by (cases "Waypoints_node c (gl_dst (link_at g k)) st") (simp_all add: GetLink_in)
  qed simp
  show ?thesis
  proof (cases ls)
    case (Cons k ks)
    then show ?thesis using inn loop [OF inn]
      by (cases "Waypoints_node c (gl_src (link_at g k)) ([], - 1)")
         (simp_all add: ConstraintSet_Waypoints_def nodes_of_def GetLink_in)
  qed (simp add: ConstraintSet_Waypoints_def nodes_of_def)
qed

lemma Waypoints_fold_Ok:
  assumes "sorted (visits c vs)" "\<forall>i \<in> set (visits c vs). k \<le> int i"
  shows "\<exists>ws k'. rfold (Waypoints_node c) vs (out, k) = Ok (out @ ws, k') \<and> subseq ws vs \<and>
    (\<forall>v \<in> set ws. PHMap_lookup (cs_node_to_visit_index c) v \<noteq> None) \<and> sorted_wrt (<) (visits c ws) \<and>
    set (visits c ws) = {i \<in> set (visits c vs). k < int i}"
  using assms
proof (induction vs arbitrary: out k)
  case (Cons v vs)
  let ?look = "PHMap_lookup (cs_node_to_visit_index c)"
  have srt: "sorted (visits c vs)" using Cons.prems(1) by (auto split: option.splits)
  show ?case
  proof (cases "?look v = None \<or> map_option int (?look v) = Some k")
    case True
    have "\<forall>i \<in> set (visits c vs). k \<le> int i" using Cons.prems(2) by (auto split: option.splits)
    with Cons.IH [OF srt, of k out] obtain ws k' where
      ws: "rfold (Waypoints_node c) vs (out, k) = Ok (out @ ws, k')" "subseq ws vs" "\<forall>v \<in> set ws. ?look v \<noteq> None"
        "sorted_wrt (<) (visits c ws)" "set (visits c ws) = {i \<in> set (visits c vs). k < int i}" by blast
    have "Waypoints_node c v (out, k) = Ok (out, k)" using True by (auto simp: Waypoints_node_lookup)
    moreover have "{i \<in> set (visits c (v # vs)). k < int i} = {i \<in> set (visits c vs). k < int i}" using True by auto
    moreover have "subseq ws (v # vs)" using ws(2) by (rule list_emb_Cons)
    ultimately show ?thesis using ws by (intro exI [of _ ws] exI [of _ k']) simp
  next
    case False
    then obtain i where i: "?look v = Some i" "k \<noteq> int i" by auto
    have "\<forall>j \<in> set (visits c vs). int i \<le> int j" using Cons.prems(1) i(1) by simp
    with Cons.IH [OF srt, of "int i" "out @ [v]"] obtain ws k' where
      ws: "rfold (Waypoints_node c) vs (out @ [v], int i) = Ok ((out @ [v]) @ ws, k')" "subseq ws vs"
        "\<forall>v \<in> set ws. ?look v \<noteq> None" "sorted_wrt (<) (visits c ws)"
        "set (visits c ws) = {j \<in> set (visits c vs). int i < int j}" by blast
    have "Waypoints_node c v (out, k) = Ok (out @ [v], int i)" using i Cons.prems(2) by (simp add: Waypoints_node_lookup)
    moreover have "set (visits c (v # ws)) = {j \<in> set (visits c (v # vs)). k < int j}"
      using i ws(5) Cons.prems by auto
    moreover have "sorted_wrt (<) (visits c (v # ws))" using i ws(4,5) by simp
    ultimately show ?thesis using ws(1-3) i by (intro exI [of _ "v # ws"] exI [of _ k']) simp
  qed
qed simp

lemma Waypoints_fold_Fail:
  "\<not> (sorted (visits c vs) \<and> (\<forall>i \<in> set (visits c vs). k \<le> int i)) \<Longrightarrow>
   rfold (Waypoints_node c) vs (out, k) = Fail Check_failed"
proof (induction vs arbitrary: out k)
  case (Cons v vs)
  show ?case
  proof (cases "PHMap_lookup (cs_node_to_visit_index c) v")
    case None
    with Cons show ?thesis by (simp add: Waypoints_node_lookup)
  next
    case (Some i)
    show ?thesis
    proof (cases "k \<le> int i")
      case True
      have "\<not> (sorted (visits c vs) \<and> (\<forall>j \<in> set (visits c vs). int i \<le> int j))"
        using Cons.prems Some True by fastforce
      from Cons.IH [OF this] True Some show ?thesis by (auto simp: Waypoints_node_lookup)
    next
      case False
      then show ?thesis using Some by (simp add: Waypoints_node_lookup)
    qed
  qed
qed simp

lemma strict_sorted_upt: "sorted_wrt (<) xs \<Longrightarrow> set xs = {..<n} \<Longrightarrow> xs = [0..<n]"
  by (rule sorted_distinct_set_unique) (auto simp: strict_sorted_iff atLeast0LessThan)

lemma Waypoints_compliant:
  assumes "visit_wf c" "links_in g ls" "compliant c (nodes_of g ls)"
  shows "\<exists>ws. ConstraintSet_Waypoints c ls g = Ok ws \<and> length ws = length (cs_to_visit c) \<and>
    subseq ws (nodes_of g ls) \<and> (\<forall>k < length ws. PHSet_Contains (cs_to_visit c ! k) (ws ! k))"
proof -
  let ?n = "length (cs_to_visit c)"
  obtain ws k where ws: "rfold (Waypoints_node c) (nodes_of g ls) ([], - 1) = Ok (ws, k)" "subseq ws (nodes_of g ls)"
    "\<forall>v \<in> set ws. PHMap_lookup (cs_node_to_visit_index c) v \<noteq> None" "sorted_wrt (<) (visits c ws)"
    "set (visits c ws) = {i \<in> set (visits c (nodes_of g ls)). - 1 < int i}"
    using Waypoints_fold_Ok [of c "nodes_of g ls" "- 1" "[]"] assms(3) by (auto simp: compliant_def)
  have "visits c ws = [0..<?n]"
    using ws(4,5) assms(3) by (intro strict_sorted_upt) (auto simp: compliant_def)
  with visits_all [OF ws(3)] have look: "map (PHMap_lookup (cs_node_to_visit_index c)) ws = map Some [0..<?n]" by simp
  from arg_cong [OF look, of length] have len: "length ws = ?n" by simp
  have "PHMap_lookup (cs_node_to_visit_index c) (ws ! k) = Some k" if "k < length ws" for k
    using arg_cong [OF look, of "\<lambda>xs. xs ! k"] that len by simp
  with assms(1) have "PHSet_Contains (cs_to_visit c ! k) (ws ! k)" if "k < length ws" for k
    using that by (simp add: visit_wf_def)
  with ws(1,2) len show ?thesis by (auto simp: Waypoints_nodes [OF assms(2)])
qed

section \<open>Building constraint sets\<close>

lemma add_nodes:
  assumes "distinct xs"
  shows "rfold (\<lambda>v c. check (\<not> PHMap_HasValue (cs_node_to_visit_index c) v)
           (Ok (c\<lparr>cs_node_to_visit_index := PHMap_Add 0 (cs_node_to_visit_index c) v k\<rparr>))) xs c =
     (if \<forall>v \<in> set xs. PHMap_lookup (cs_node_to_visit_index c) v = None
      then Ok (c\<lparr>cs_node_to_visit_index := fold (\<lambda>v m. PHMap_Add 0 m v k) xs (cs_node_to_visit_index c)\<rparr>)
      else Fail Check_failed)"
  using assms
proof (induction xs arbitrary: c)
  case (Cons x xs)
  then have "x \<notin> set xs" by simp
  then have "(\<forall>v \<in> set xs. PHMap_lookup (PHMap_Add 0 (cs_node_to_visit_index c) x k) v = None) \<longleftrightarrow>
      (\<forall>v \<in> set xs. PHMap_lookup (cs_node_to_visit_index c) v = None)" by auto
  with Cons show ?case by (simp add: PHMap_HasValue_lookup check_def)
qed simp

lemma AddToVisitSet_cases:
  fixes s :: phset
  assumes "visit_wf c" "length s \<le> 2 ^ 16"
  shows "if \<exists>i < length (cs_to_visit c). \<exists>v :: GraphNodeIndex. PHSet_Contains (cs_to_visit c ! i) v \<and> PHSet_Contains s v
    then ConstraintSet_AddToVisitSet c s = Fail Check_failed
    else \<exists>c'. ConstraintSet_AddToVisitSet c s = Ok c' \<and> visit_wf c' \<and> cs_to_visit c' = cs_to_visit c @ [s] \<and>
           cs_exclusion_set c' = cs_exclusion_set c"
proof -
  let ?look = "PHMap_lookup (cs_node_to_visit_index c)" and ?xs = "PHSet_elems s :: GraphNodeIndex list"
  let ?m = "fold (\<lambda>v m. PHMap_Add 0 m v (length (cs_to_visit c))) ?xs (cs_node_to_visit_index c)"
  have xs: "distinct ?xs" "set ?xs = {v. PHSet_Contains s v}"
    using assms(2) by (simp_all add: distinct_PHSet_elems set_PHSet_elems)
  have some: "(\<exists>i < length (cs_to_visit c). PHSet_Contains (cs_to_visit c ! i) v) \<longleftrightarrow> ?look v \<noteq> None" for v :: GraphNodeIndex
    using assms(1) by (auto simp: visit_wf_def)
  have clash: "(\<exists>i < length (cs_to_visit c). \<exists>v :: GraphNodeIndex. PHSet_Contains (cs_to_visit c ! i) v \<and> PHSet_Contains s v) \<longleftrightarrow>
      \<not> (\<forall>v \<in> set ?xs. ?look v = None)"
    using some xs(2) by blast
  have add: "ConstraintSet_AddToVisitSet c s = (if \<forall>v \<in> set ?xs. ?look v = None
      then Ok (c\<lparr>cs_to_visit := cs_to_visit c @ [s], cs_node_to_visit_index := ?m\<rparr>) else Fail Check_failed)"
    using add_nodes [OF xs(1), of "length (cs_to_visit c)" "c\<lparr>cs_to_visit := cs_to_visit c @ [s]\<rparr>"]
    by (simp add: ConstraintSet_AddToVisitSet_def)
  have "visit_wf (c\<lparr>cs_to_visit := cs_to_visit c @ [s], cs_node_to_visit_index := ?m\<rparr>)"
    if free: "\<forall>v \<in> set ?xs. ?look v = None"
  proof -
    have "PHMap_lookup ?m v = Some i \<longleftrightarrow> (if PHSet_Contains s v then i = length (cs_to_visit c)
        else i < length (cs_to_visit c) \<and> PHSet_Contains (cs_to_visit c ! i) v)" for v :: GraphNodeIndex and i
      using assms(1) by (auto simp: phmap.lookup_fold_upd_const xs(2) visit_wf_def)
    moreover have "\<not> PHSet_Contains (cs_to_visit c ! i) v"
      if "i < length (cs_to_visit c)" "PHSet_Contains s v" for v :: GraphNodeIndex and i
      using some [of v] free that xs(2) by auto
    ultimately show ?thesis using assms by (auto simp: visit_wf_def nth_append less_Suc_eq)
  qed
  then show ?thesis unfolding clash add by simp
qed

lemma visit_wf_empty [simp]: "visit_wf (ConstraintSet_empty\<lparr>cs_exclusion_set := e\<rparr>)"
  by (simp add: visit_wf_def ConstraintSet_empty_def)

lemma ConstraintSet_new_wf:
  assumes "ConstraintSet_new e tv = Ok c" and "\<forall>s \<in> set tv. length s \<le> 2 ^ 16"
  shows "visit_wf c"
  using assms(1) unfolding ConstraintSet_new_def
proof (rule rfold_invariant [where P = visit_wf])
  fix s c c'
  assume "s \<in> set tv" "visit_wf c" "ConstraintSet_AddToVisitSet c s = Ok c'"
  then show "visit_wf c'" using AddToVisitSet_cases [of c s] assms(2) by (auto split: if_splits)
qed simp

text \<open>What \<open>SanitizeConstraints\<close> makes of a set, where its CHECK holds.\<close>

definition sanitized :: "ConstraintSet \<Rightarrow> GraphNodeIndex \<Rightarrow> GraphNodeIndex \<Rightarrow> nat \<Rightarrow> phset" where
  "sanitized c src dst i =
     (let s = cs_to_visit c ! i
      in if i = 0 \<and> PHSet_Contains s src \<or> i = length (cs_to_visit c) - 1 \<and> PHSet_Contains s dst then [] else s)"

lemma sanitize_set_Ok:
  assumes "i < length (cs_to_visit c)"
  shows "sanitize_set c src dst i =
    (if PHSet_Contains (sanitized c src dst i) src \<and> PHSet_Contains (sanitized c src dst i) dst
     then Fail Check_failed else Ok (sanitized c src dst i))"
  using assms by (auto simp: sanitize_set_def sanitized_def Let_def PHSet_Clear_def check_def)

lemma visit_wf_disjoint:
  assumes "visit_wf c" "i < length (cs_to_visit c)" "j < length (cs_to_visit c)"
    "PHSet_Contains (cs_to_visit c ! i) v" "PHSet_Contains (cs_to_visit c ! j) (v :: GraphNodeIndex)"
  shows "i = j"
proof -
  have "PHMap_lookup (cs_node_to_visit_index c) v = Some i" "PHMap_lookup (cs_node_to_visit_index c) v = Some j"
    using assms by (auto simp: visit_wf_def)
  then show ?thesis by simp
qed

lemma sanitized_subset:
  "PHSet_Contains (sanitized c src dst i) v \<Longrightarrow> PHSet_Contains (cs_to_visit c ! i) v"
  by (auto simp: sanitized_def Let_def split: if_splits)

lemma sanitize_fold:
  assumes wf: "visit_wf c" and "k \<le> length (cs_to_visit c)"
    and chk: "\<And>i. i < length (cs_to_visit c) \<Longrightarrow>
      \<not> (PHSet_Contains (sanitized c src dst i) src \<and> PHSet_Contains (sanitized c src dst i) dst)"
    and r0: "visit_wf r0" "cs_to_visit r0 = []"
  shows "\<exists>r. rfold (\<lambda>i to_return. rbind (sanitize_set c src dst i) (\<lambda>s.
               if PHSet_Empty s then Ok to_return else ConstraintSet_AddToVisitSet to_return s)) [0..<k] r0 = Ok r \<and>
    visit_wf r \<and> cs_exclusion_set r = cs_exclusion_set r0 \<and>
    cs_to_visit r = filter (\<lambda>s. \<not> PHSet_Empty s) (map (sanitized c src dst) [0..<k])"
  using assms(2)
proof (induction k)
  case 0
  then show ?case using r0 by simp
next
  case (Suc k)
  let ?s = "sanitized c src dst k"
  obtain r where r: "rfold (\<lambda>i to_return. rbind (sanitize_set c src dst i) (\<lambda>s.
               if PHSet_Empty s then Ok to_return else ConstraintSet_AddToVisitSet to_return s)) [0..<k] r0 = Ok r"
    "visit_wf r" "cs_exclusion_set r = cs_exclusion_set r0"
    "cs_to_visit r = filter (\<lambda>s. \<not> PHSet_Empty s) (map (sanitized c src dst) [0..<k])"
    using Suc by auto
  have k: "sanitize_set c src dst k = Ok ?s" using Suc.prems chk [of k] sanitize_set_Ok [of k c src dst] by auto
  show ?case
  proof (cases "PHSet_Empty ?s")
    case True
    then show ?thesis using r k by (simp add: rfold_append)
  next
    case False
    have "\<not> (\<exists>i < length (cs_to_visit r). \<exists>v :: GraphNodeIndex. PHSet_Contains (cs_to_visit r ! i) v \<and> PHSet_Contains ?s v)"
    proof safe
      fix i and v :: GraphNodeIndex
      assume i: "i < length (cs_to_visit r)" "PHSet_Contains (cs_to_visit r ! i) v" "PHSet_Contains ?s v"
      then have "cs_to_visit r ! i \<in> sanitized c src dst ` {0..<k}" using r(4) nth_mem [OF i(1)] by auto
      then obtain j where j: "j < k" "PHSet_Contains (sanitized c src dst j) v" using i(2) by auto
      from visit_wf_disjoint [OF wf _ _ sanitized_subset [OF j(2)] sanitized_subset [OF i(3)]] Suc.prems j(1)
      show False by simp
    qed
    moreover have "length ?s \<le> 2 ^ 16" using wf Suc.prems by (auto simp: sanitized_def Let_def visit_wf_def)
    ultimately obtain r' where "ConstraintSet_AddToVisitSet r ?s = Ok r'" "visit_wf r'"
      "cs_to_visit r' = cs_to_visit r @ [?s]" "cs_exclusion_set r' = cs_exclusion_set r"
      using AddToVisitSet_cases [OF r(2), of ?s] by (auto split: if_splits)
    then show ?thesis using r k False by (simp add: rfold_append)
  qed
qed

lemma SanitizeConstraints_Ok:
  assumes "visit_wf c"
    and "\<And>i. i < length (cs_to_visit c) \<Longrightarrow>
      \<not> (PHSet_Contains (sanitized c src dst i) src \<and> PHSet_Contains (sanitized c src dst i) dst)"
  shows "\<exists>r. ConstraintSet_SanitizeConstraints c src dst = Ok r \<and> visit_wf r \<and>
    cs_to_visit r = filter (\<lambda>s. \<not> PHSet_Empty s) (map (sanitized c src dst) [0..<length (cs_to_visit c)])"
proof (cases "cs_to_visit c = []")
  case True
  then show ?thesis using assms(1) by (simp add: ConstraintSet_SanitizeConstraints_def)
next
  case False
  let ?r0 = "ConstraintSet_empty\<lparr>cs_exclusion_set :=
      ExclusionSet_Nodes (ExclusionSet_Links ExclusionSet_new (ex_links_to_exclude (cs_exclusion_set c)))
        (ex_nodes_to_exclude (cs_exclusion_set c))\<rparr>"
  have "cs_to_visit ?r0 = []" by (simp add: ConstraintSet_empty_def)
  from sanitize_fold [OF assms(1) le_refl assms(2) visit_wf_empty this] False
  show ?thesis by (auto simp: ConstraintSet_SanitizeConstraints_def)
qed

lemma filter_upt_range: "b \<le> n \<Longrightarrow> filter (\<lambda>i. a \<le> i \<and> i < b) [0..<n] = [a..<b]"
  by (rule sorted_distinct_set_unique) (auto simp: sorted_wrt_filter)

lemma visits_shift:
  assumes "\<And>(v :: GraphNodeIndex) j. PHMap_lookup (cs_node_to_visit_index r) v = Some j \<longleftrightarrow>
      PHMap_lookup (cs_node_to_visit_index c) v = Some (a + j) \<and> a + j < b"
  shows "visits r vs = map (\<lambda>i. i - a) (filter (\<lambda>i. a \<le> i \<and> i < b) (visits c vs))"
proof (induction vs)
  case (Cons v vs)
  show ?case
  proof (cases "PHMap_lookup (cs_node_to_visit_index c) v")
    case None
    have "PHMap_lookup (cs_node_to_visit_index r) v \<noteq> Some j" for j
      using assms [of v j] None by simp
    then have "PHMap_lookup (cs_node_to_visit_index r) v = None" by blast
    then show ?thesis using Cons None by simp
  next
    case (Some i)
    show ?thesis
    proof (cases "a \<le> i \<and> i < b")
      case True
      then have "PHMap_lookup (cs_node_to_visit_index r) v = Some (i - a)" using assms [of v "i - a"] Some by simp
      then show ?thesis using Cons Some True by simp
    next
      case False
      have "PHMap_lookup (cs_node_to_visit_index r) v \<noteq> Some j" for j
        using assms [of v j] Some False by auto
      then have "PHMap_lookup (cs_node_to_visit_index r) v = None" by blast
      then show ?thesis using Cons Some False by simp
    qed
  qed
qed simp

text \<open>A constraint set with some of the first and last sets left out is met by every list of nodes that meets all.\<close>

lemma compliant_range:
  assumes c: "visit_wf c" "compliant c vs" and r: "visit_wf r" "cs_to_visit r = map ((!) (cs_to_visit c)) [a..<b]"
    and b: "b \<le> length (cs_to_visit c)"
  shows "compliant r vs"
proof -
  have len: "length (cs_to_visit r) = b - a" using r(2) by simp
  have nth: "cs_to_visit r ! j = cs_to_visit c ! (a + j)" if "j < b - a" for j using that r(2) by simp
  have "PHMap_lookup (cs_node_to_visit_index r) v = Some j \<longleftrightarrow>
      PHMap_lookup (cs_node_to_visit_index c) v = Some (a + j) \<and> a + j < b" for v :: GraphNodeIndex and j
  proof (cases "a + j < b")
    case True
    then have "j < b - a" "a + j < length (cs_to_visit c)" using b by auto
    then show ?thesis using True c(1) r(1) nth [of j] b by (simp add: visit_wf_def len)
  next
    case False
    then have "\<not> j < b - a" by simp
    then show ?thesis using False r(1) by (simp add: visit_wf_def len)
  qed
  from visits_shift [OF this] have v: "visits r vs = map (\<lambda>i. i - a) (filter (\<lambda>i. a \<le> i \<and> i < b) (visits c vs))" .
  have "sorted (visits r vs)" unfolding v sorted_map
    by (rule sorted_wrt_mono_rel [of _ "(\<le>)"]) (use c(2) in \<open>auto simp: compliant_def sorted_wrt_filter\<close>)
  moreover have "set (visits r vs) = (\<lambda>i. i - a) ` {a..<b}"
    unfolding v using c(2) b by (auto simp: compliant_def)
  moreover have "(\<lambda>i. i - a) ` {a..<b} = {..<b - a}"
    by (simp add: image_minus_const_atLeastLessThan_nat lessThan_atLeast0)
  ultimately show ?thesis by (simp add: compliant_def len)
qed

lemma PHSet_Empty_Nil: "PHSet_Empty []"
  by (simp add: PHSet_Empty_def)

lemma sanitized_range:
  assumes "visit_wf c" "compliant c vs"
  shows "\<exists>a b. b \<le> length (cs_to_visit c) \<and>
    filter (\<lambda>s. \<not> PHSet_Empty s) (map (sanitized c src dst) [0..<length (cs_to_visit c)]) = map ((!) (cs_to_visit c)) [a..<b] \<and>
    (a < b \<longrightarrow> \<not> PHSet_Contains (cs_to_visit c ! a) src \<and> \<not> PHSet_Contains (cs_to_visit c ! (b - 1)) dst)"
proof -
  let ?tv = "cs_to_visit c" and ?n = "length (cs_to_visit c)"
  define a where "a = (if PHSet_Contains (?tv ! 0) src then 1 else 0 :: nat)"
  define b where "b = (if PHSet_Contains (?tv ! (?n - 1)) dst then ?n - 1 else ?n)"
  have full: "\<not> PHSet_Empty (?tv ! i)" if i: "i < ?n" for i
  proof -
    have "i \<in> set (visits c vs)" using assms(2) i by (simp add: compliant_def)
    then obtain v :: GraphNodeIndex where "PHSet_Contains (?tv ! i) v" using assms(1) by (auto simp: set_visits visit_wf_def)
    then show ?thesis using assms(1) i PHSet_Empty_iff [where 'v = 16, of "?tv ! i"] by (auto simp: visit_wf_def)
  qed
  have san: "sanitized c src dst i = (if a \<le> i \<and> i < b then ?tv ! i else [])" if "i < ?n" for i
    using that by (cases i) (auto simp: sanitized_def a_def b_def Let_def)
  have "filter (\<lambda>s. \<not> PHSet_Empty s) (map (sanitized c src dst) [0..<?n]) =
      map (sanitized c src dst) (filter (\<lambda>i. a \<le> i \<and> i < b) [0..<?n])"
    unfolding filter_map by (rule arg_cong [where f = "map _"], rule filter_cong) (auto simp: san full PHSet_Empty_Nil)
  also have "\<dots> = map ((!) ?tv) [a..<b]"
    using san by (subst filter_upt_range) (auto simp: b_def)
  finally have eq: "filter (\<lambda>s. \<not> PHSet_Empty s) (map (sanitized c src dst) [0..<?n]) = map ((!) ?tv) [a..<b]" .
  have ends: "\<not> PHSet_Contains (?tv ! a) src \<and> \<not> PHSet_Contains (?tv ! (b - 1)) dst" if "a < b"
  proof
    have "b \<le> ?n" by (simp add: b_def)
    then have n: "a < ?n" "b - 1 < ?n" using that by simp_all
    show "\<not> PHSet_Contains (?tv ! a) src"
    proof
      assume in_a: "PHSet_Contains (?tv ! a) src"
      then have "PHSet_Contains (?tv ! 0) src" by (auto simp: a_def split: if_splits)
      moreover have "0 < ?n" using n(1) by linarith
      ultimately show False using visit_wf_disjoint [OF assms(1) _ n(1) _ in_a, of 0] by (simp add: a_def)
    qed
    show "\<not> PHSet_Contains (?tv ! (b - 1)) dst"
    proof
      assume in_b: "PHSet_Contains (?tv ! (b - 1)) dst"
      then have last: "PHSet_Contains (?tv ! (?n - 1)) dst" by (auto simp: b_def split: if_splits)
      from visit_wf_disjoint [OF assms(1) _ n(2) this in_b] last that n show False by (simp add: b_def)
    qed
  qed
  show ?thesis using eq ends by (intro exI [of _ a] exI [of _ b]) (auto simp: b_def)
qed

section \<open>The search for paths\<close>

text \<open>Two states of the search that only differ in how the sets are stored and in the walks reported.\<close>

definition same_search :: "dfs_state \<Rightarrow> dfs_state \<Rightarrow> bool" where
  "same_search s t \<longleftrightarrow> members (ds_links_seen s) = members (ds_links_seen t) \<and>
     members (ds_nodes_seen s) = members (ds_nodes_seen t) \<and> ds_current s = ds_current t \<and>
     ds_total_distance s = ds_total_distance t"

text \<open>
  The ways to go on from \<open>at\<close> to \<open>dst\<close>: along allowed links, through \<open>dst\<close> only at the end, not
  through a node seen (or, if paths need not be simple, not over a link seen) and not twice through one, within the hops, and within
  the distance when the last link is taken.
\<close>

definition extensions ::
    "DFSConfig \<Rightarrow> (GraphNodeIndex \<Rightarrow> LinkInfo list) \<Rightarrow> (Links \<Rightarrow> bool) \<Rightarrow> GraphNodeIndex \<Rightarrow> dfs_state \<Rightarrow> GraphNodeIndex \<Rightarrow>
     LinkInfo list set" where
  "extensions config nb ok dst s at = {is. awalk nb at is dst \<and> dst \<notin> li_src_index ` set is \<and>
     (if dfs_simple config
      then distinct (map li_src_index is) \<and> li_src_index ` set is \<inter> members (ds_nodes_seen s) = {}
      else distinct (map li_link_index is) \<and> li_link_index ` set is \<inter> members (ds_links_seen s) = {}) \<and>
     length (ds_current s) + length is \<le> dfs_max_hops config \<and>
     (\<forall>k < length is. ds_total_distance s + walk_length (take k is) \<le> dfs_max_distance config) \<and>
     ok (ds_current s @ map li_link_index is)}"

definition walk_of :: "dfs_state \<Rightarrow> LinkInfo list \<Rightarrow> Walk" where
  "walk_of s is = \<lparr>walk_links = ds_current s @ map li_link_index is, walk_delay = ds_total_distance s + walk_length is\<rparr>"

lemma extensions_cong: "same_search s t \<Longrightarrow> extensions config nb ok dst s at = extensions config nb ok dst t at"
  by (simp add: extensions_def same_search_def)

lemma walk_of_cong: "same_search s t \<Longrightarrow> walk_of s = walk_of t"
  by (simp add: walk_of_def same_search_def fun_eq_iff)

lemma same_search_refl: "same_search s s"
  by (simp add: same_search_def)

lemma same_search_trans: "same_search s t \<Longrightarrow> same_search t u \<Longrightarrow> same_search s u"
  by (simp add: same_search_def)

lemma members_Remove [simp]: "members (PHSet_Remove s i) = members s - {i}"
  by (auto simp: members_def)

text \<open>The state in which the loop over the links runs.\<close>

definition dfs_enter :: "DFSConfig \<Rightarrow> GraphNodeIndex \<Rightarrow> dfs_state \<Rightarrow> dfs_state" where
  "dfs_enter config at s = (if dfs_simple config then s\<lparr>ds_nodes_seen := PHSet_Insert (ds_nodes_seen s) at\<rparr> else s)"

definition dfs_open :: "DFSConfig \<Rightarrow> dfs_state \<Rightarrow> LinkInfo \<Rightarrow> bool" where
  "dfs_open config s i \<longleftrightarrow> dfs_simple config \<or> li_link_index i \<notin> members (ds_links_seen s)"

lemma same_search_pop:
  assumes "same_search (dfs_push config i s) t" "dfs_open config s i"
  shows "same_search s (dfs_pop config i t)"
proof -
  have cur: "ds_current t = ds_current s @ [li_link_index i]" "ds_total_distance t = ds_total_distance s + li_delay i"
    using assms(1) by (auto simp: same_search_def dfs_push_def)
  show ?thesis using assms cur by (auto simp: same_search_def dfs_push_def dfs_pop_def dfs_open_def)
qed

lemma same_search_push: "same_search s t \<Longrightarrow> same_search (dfs_push config i s) (dfs_push config i t)"
  by (auto simp: same_search_def dfs_push_def)

lemma extensions_Nil: "[] \<in> extensions config nb ok dst s at \<longleftrightarrow>
    at = dst \<and> length (ds_current s) \<le> dfs_max_hops config \<and> ok (ds_current s)"
  by (auto simp: extensions_def intro: awalk_Nil elim: awalk_NilE)

lemma extensions_Cons:
  assumes src: "\<And>u i. i \<in> set (nb u) \<Longrightarrow> li_src_index i = u" and "at \<noteq> dst"
  shows "i # is \<in> extensions config nb ok dst s at \<longleftrightarrow>
     i \<in> set (nb at) \<and> dfs_open config s i \<and> ds_total_distance s \<le> dfs_max_distance config \<and>
     (dfs_simple config \<longrightarrow> at \<notin> members (ds_nodes_seen s)) \<and>
     is \<in> extensions config nb ok dst (dfs_push config i (dfs_enter config at s)) (li_dst_index i)"
proof (cases "i \<in> set (nb at)")
  case True
  have dist: "(\<forall>k < length (i # is). ds_total_distance s + walk_length (take k (i # is)) \<le> m) \<longleftrightarrow>
      ds_total_distance s \<le> m \<and> (\<forall>k < length is. ds_total_distance s + li_delay i + walk_length (take k is) \<le> m)" for m
    by (simp add: All_less_Suc2 add.assoc)
  show ?thesis
    using True src [OF True] assms(2) dist
    by (auto simp: extensions_def awalk_Cons dfs_push_def dfs_enter_def dfs_open_def simp del: length_Cons)
next
  case False
  then show ?thesis by (simp add: extensions_def awalk_Cons)
qed

lemma extensions_dst:
  assumes "\<And>u i. i \<in> set (nb u) \<Longrightarrow> li_src_index i = u"
  shows "extensions config nb ok dst s dst =
    (if length (ds_current s) \<le> dfs_max_hops config \<and> ok (ds_current s) then {[]} else {})"
proof -
  have "is = []" if "is \<in> extensions config nb ok dst s dst" for "is"
    using that assms by (cases "is") (auto simp: extensions_def awalk_Cons)
  then show ?thesis using extensions_Nil [of config nb ok dst s dst] by auto
qed

lemma extensions_none:
  assumes "\<And>u i. i \<in> set (nb u) \<Longrightarrow> li_src_index i = u"
    and "dfs_max_hops config < length (ds_current s) \<or> at \<noteq> dst \<and> (dfs_max_distance config < ds_total_distance s \<or>
           dfs_simple config \<and> at \<in> members (ds_nodes_seen s))"
  shows "extensions config nb ok dst s at = {}"
proof -
  have "is \<notin> extensions config nb ok dst s at" for "is"
  proof (cases "dfs_max_hops config < length (ds_current s)")
    case True
    then show ?thesis by (simp add: extensions_def)
  next
    case False
    then show ?thesis using assms(2) extensions_Nil extensions_Cons [OF assms(1)] by (cases "is") auto
  qed
  then show ?thesis by blast
qed

lemma extensions_loop:
  assumes src: "\<And>u i. i \<in> set (nb u) \<Longrightarrow> li_src_index i = u" and "at \<noteq> dst"
    and "\<not> ds_total_distance s > dfs_max_distance config" "dfs_simple config \<Longrightarrow> at \<notin> members (ds_nodes_seen s)"
  shows "extensions config nb ok dst s at = (\<Union>i \<in> {i \<in> set (nb at). dfs_open config (dfs_enter config at s) i}.
    (#) i ` extensions config nb ok dst (dfs_push config i (dfs_enter config at s)) (li_dst_index i))" (is "_ = ?U")
proof -
  have "is \<in> extensions config nb ok dst s at \<longleftrightarrow> is \<in> ?U" for "is"
  proof (cases "is")
    case Nil
    then show ?thesis using assms(2) extensions_Nil by auto
  next
    case (Cons i js)
    have "dfs_open config (dfs_enter config at s) i = dfs_open config s i" by (simp add: dfs_open_def dfs_enter_def)
    then show ?thesis unfolding Cons using extensions_Cons [of nb at dst i js config ok s, OF src assms(2)] assms(3,4) by auto
  qed
  then show ?thesis by blast
qed

lemma walk_of_push: "walk_of (dfs_push config i s) is = walk_of s (i # is)"
  by (simp add: walk_of_def dfs_push_def)

text \<open>A call that reports the walks given by \<open>E\<close> and restores the state.\<close>

definition finds :: "dfs_state \<Rightarrow> LinkInfo list set \<Rightarrow> dfs_state \<Rightarrow> bool" where
  "finds s E t \<longleftrightarrow> same_search s t \<and> (\<exists>ws. ds_walks t = ds_walks s @ ws \<and> distinct (map walk_links ws) \<and> set ws = walk_of s ` E)"

lemma finds_none: "finds s {} s"
  by (simp add: finds_def same_search_def)

lemma finds_pop:
  assumes "finds (dfs_push config i s) E t" "dfs_open config s i"
  shows "finds s ((#) i ` E) (dfs_pop config i t)"
proof -
  have "walk_of (dfs_push config i s) ` E = walk_of s ` (#) i ` E" by (auto simp: walk_of_push image_image)
  then show ?thesis
    using assms same_search_pop [of config i s t] by (simp add: finds_def dfs_push_def dfs_pop_def)
qed

lemma finds_append:
  assumes "finds s E t" "finds t F u" and apart: "\<And>is js. is \<in> E \<Longrightarrow> js \<in> F \<Longrightarrow> map li_link_index is \<noteq> map li_link_index js"
  shows "finds s (E \<union> F) u"
proof -
  obtain ws where ws: "ds_walks t = ds_walks s @ ws" "distinct (map walk_links ws)" "set ws = walk_of s ` E"
    using assms(1) by (auto simp: finds_def)
  have same: "same_search s t" using assms(1) by (simp add: finds_def)
  then obtain vs where vs: "ds_walks u = ds_walks t @ vs" "distinct (map walk_links vs)" "set vs = walk_of s ` F"
    using assms(2) by (auto simp: finds_def walk_of_cong)
  have "walk_links ` set ws \<inter> walk_links ` set vs = {}"
    using apart by (auto simp: ws(3) vs(3) walk_of_def)
  then have "distinct (map walk_links (ws @ vs))" using ws(2) vs(2) by simp
  moreover have "set (ws @ vs) = walk_of s ` (E \<union> F)" using ws(3) vs(3) by auto
  moreover have "same_search s u" using same assms(2) by (auto simp: finds_def intro: same_search_trans)
  ultimately show ?thesis using ws(1) vs(1) unfolding finds_def by (intro conjI exI [of _ "ws @ vs"]) simp_all
qed

lemma finds_cong: "same_search s t \<Longrightarrow> finds t E u \<Longrightarrow> ds_walks s = ds_walks t \<Longrightarrow> finds s E u"
  by (auto simp: finds_def walk_of_cong intro: same_search_trans)

text \<open>The loop over the links of a node, given that the calls it makes do what they should.\<close>

lemma orfold_finds:
  assumes call: "\<And>i s. i \<in> set is \<Longrightarrow> allowed i \<Longrightarrow> same_search s0 s \<Longrightarrow> dfs_open config s i \<Longrightarrow>
      \<exists>t. f i (dfs_push config i s) = Some (Ok t) \<and> finds (dfs_push config i s) (E i) t"
    and "distinct (map li_link_index is)" "same_search s0 s"
  shows "\<exists>t. orfold (\<lambda>i s. if allowed i \<and> dfs_open config s i
                then orbind (f i (dfs_push config i s)) (\<lambda>s. Some (Ok (dfs_pop config i s))) else Some (Ok s)) is s = Some (Ok t) \<and>
    finds s (\<Union>i \<in> {i \<in> set is. allowed i \<and> dfs_open config s0 i}. (#) i ` E i) t"
  using assms
proof (induction "is" arbitrary: s)
  case Nil
  then show ?case by (simp add: finds_none)
next
  case (Cons i "is")
  let ?F = "\<lambda>is. \<Union>i \<in> {i \<in> set is. allowed i \<and> dfs_open config s0 i}. (#) i ` E i"
  let ?step = "\<lambda>i s. if allowed i \<and> dfs_open config s i
      then orbind (f i (dfs_push config i s)) (\<lambda>s. Some (Ok (dfs_pop config i s))) else Some (Ok s)"
  have opn: "dfs_open config s i \<longleftrightarrow> dfs_open config s0 i"
    using Cons.prems(3) by (simp add: dfs_open_def same_search_def)
  have "\<exists>t. ?step i s = Some (Ok t) \<and> finds s (?F [i]) t"
  proof (cases "allowed i \<and> dfs_open config s i")
    case True
    then obtain t where t: "f i (dfs_push config i s) = Some (Ok t)" "finds (dfs_push config i s) (E i) t"
      using Cons.prems(1) [of i s] Cons.prems(3) by auto
    from finds_pop [OF t(2)] True have "finds s ((#) i ` E i) (dfs_pop config i t)" by blast
    moreover have "?F [i] = (#) i ` E i" using True opn by auto
    ultimately show ?thesis using t(1) True by simp
  next
    case False
    then have none: "?F [i] = {}" using opn by auto
    have "?step i s = Some (Ok s)" using False by (rule if_not_P)
    then show ?thesis unfolding none using finds_none by blast
  qed
  then obtain t where t: "?step i s = Some (Ok t)" "finds s (?F [i]) t" by blast
  have same: "same_search s0 t" using t(2) Cons.prems(3) by (auto simp: finds_def intro: same_search_trans)
  obtain u where u: "orfold ?step is t = Some (Ok u)" "finds t (?F is) u"
    using Cons.IH [OF _ _ same] Cons.prems(1,2) by auto
  have "finds s (?F [i] \<union> ?F is) u"
    by (rule finds_append [OF t(2) u(2)]) (use Cons.prems(2) in \<open>auto simp: image_iff\<close>)
  moreover have "?F [i] \<union> ?F is = ?F (i # is)" by auto
  ultimately have "finds s (?F (i # is)) u" by simp
  moreover have "orfold ?step (i # is) s = Some (Ok u)" unfolding orfold.simps t(1) orbind.simps u(1) by (rule refl)
  ultimately show ?case by blast
qed

lemma graph_neighbors:
  assumes "graph_wf g"
  defines "nb \<equiv> AdjacencyList_GetNeighbors (gs_adjacency_list g)"
  shows "i \<in> set (nb u) \<Longrightarrow> li_src_index i = u \<and> unat (li_link_index i) < length (gs_link_store g)"
    and "distinct (map li_link_index (nb u))"
proof -
  let ?st = "gs_link_store g"
  have len: "length ?st < 2 ^ 16" using assms(1) by (simp add: graph_wf_def store_wf_def links_wf_def)
  have nb: "nb u = neighbors ?st (length ?st) u" using assms(1) by (simp add: graph_wf_def nb_def)
  show "li_src_index i = u \<and> unat (li_link_index i) < length ?st" if "i \<in> set (nb u)"
    using that neighbors_mem [OF len, of i u] unfolding nb by blast
  have "map li_link_index (nb u) = map of_nat (filter (\<lambda>k. gl_src (?st ! k) = u) [0..<length ?st])"
    unfolding nb neighbors_def by (simp add: link_info_def comp_def)
  moreover have "inj_on (of_nat :: nat \<Rightarrow> 16 word) {0..<length ?st}"
    by (rule inj_on_inverseI [of _ unat]) (use len in \<open>simp add: of_nat_unat_less\<close>)
  then have "inj_on (of_nat :: nat \<Rightarrow> 16 word) (set (filter (\<lambda>k. gl_src (?st ! k) = u) [0..<length ?st]))"
    by (rule inj_on_subset) auto
  ultimately show "distinct (map li_link_index (nb u))" by (simp only: distinct_map) simp
qed

lemma links_in_push:
  "links_in g (ds_current s) \<Longrightarrow> unat (li_link_index i) < length (gs_link_store g) \<Longrightarrow>
   links_in g (ds_current (dfs_push config i s))"
  by (auto simp: links_in_def dfs_push_def)

lemma dfs_report_finds:
  assumes "visit_wf c" "links_in g (ds_current s)"
  shows "\<exists>t. dfs_report g c s = Ok t \<and>
    finds s (if compliant c (nodes_of g (ds_current s)) then {[]} else {}) t"
proof -
  obtain m where m: "ConstraintSet_MinVisit c (ds_current s) g = Ok m" using MinVisit_climb [OF assms(2)] by blast
  have iff: "m = length (cs_to_visit c) \<longleftrightarrow> compliant c (nodes_of g (ds_current s))"
    using MinVisit_compliant [OF assms] m by simp
  show ?thesis
  proof (cases "compliant c (nodes_of g (ds_current s))")
    case True
    then show ?thesis using m iff by (simp add: dfs_report_def finds_def same_search_def walk_of_def)
  next
    case False
    then show ?thesis using m iff finds_none [of s] by (simp add: dfs_report_def)
  qed
qed

definition unseen :: "dfs_state \<Rightarrow> nat" where
  "unseen s = card (- members (ds_nodes_seen s)) + card (- members (ds_links_seen s))"

lemma unseen_push:
  assumes "dfs_simple config \<Longrightarrow> at \<notin> members (ds_nodes_seen s)" "same_search (dfs_enter config at s) t" "dfs_open config t i"
  shows "unseen (dfs_push config i t) < unseen s"
proof -
  have less: "card (- insert x A) < card (- A)" if "x \<notin> A" for x :: "16 word" and A
    using that by (intro psubset_card_mono) auto
  show ?thesis
  proof (cases "dfs_simple config")
    case True
    then have "members (ds_nodes_seen t) = insert at (members (ds_nodes_seen s))" "members (ds_links_seen t) = members (ds_links_seen s)"
      using assms(2) by (auto simp: same_search_def dfs_enter_def)
    then show ?thesis using less [OF assms(1) [OF True]] True by (simp add: unseen_def dfs_push_def)
  next
    case False
    then have "members (ds_nodes_seen t) = members (ds_nodes_seen s)" "members (ds_links_seen t) = members (ds_links_seen s)"
      "li_link_index i \<notin> members (ds_links_seen s)"
      using assms(2,3) by (auto simp: same_search_def dfs_enter_def dfs_open_def)
    then show ?thesis using less [of "li_link_index i"] False by (simp add: unseen_def dfs_push_def)
  qed
qed

definition dfs_leave :: "DFSConfig \<Rightarrow> GraphNodeIndex \<Rightarrow> dfs_state \<Rightarrow> dfs_state" where
  "dfs_leave config at s = (if dfs_simple config then s\<lparr>ds_nodes_seen := PHSet_Remove (ds_nodes_seen s) at\<rparr> else s)"

lemma finds_leave:
  assumes "dfs_simple config \<Longrightarrow> at \<notin> members (ds_nodes_seen s)" "finds (dfs_enter config at s) E t"
  shows "finds s E (dfs_leave config at t)"
proof -
  have "walk_of (dfs_enter config at s) = walk_of s" "ds_walks (dfs_enter config at s) = ds_walks s"
    "ds_walks (dfs_leave config at t) = ds_walks t"
    by (simp_all add: walk_of_def dfs_enter_def dfs_leave_def fun_eq_iff)
  moreover have "same_search s (dfs_leave config at t)"
    using assms by (auto simp: finds_def same_search_def dfs_enter_def dfs_leave_def)
  ultimately show ?thesis using assms(2) by (simp add: finds_def)
qed

text \<open>The body of the search past its early returns, in terms of these steps.\<close>

lemma PathsRecursive_loop:
  assumes "\<not> length (ds_current s) > dfs_max_hops config" "at \<noteq> dst" "\<not> ds_total_distance s > dfs_max_distance config"
    "dfs_simple config \<Longrightarrow> at \<notin> members (ds_nodes_seen s)"
  shows "PathsRecursive config dst g c at s =
    orbind (orfold (\<lambda>i s. if (\<not> ExclusionSet_ShouldExcludeLink (cs_exclusion_set c) (li_link_index i) \<and>
                             \<not> ExclusionSet_ShouldExcludeNode (cs_exclusion_set c) (li_dst_index i)) \<and> dfs_open config s i
               then orbind (PathsRecursive config dst g c (li_dst_index i) (dfs_push config i s))
                      (\<lambda>s. Some (Ok (dfs_pop config i s)))
               else Some (Ok s))
        (AdjacencyList_GetNeighbors (gs_adjacency_list g) at) (dfs_enter config at s))
      (\<lambda>s. Some (Ok (dfs_leave config at s)))"
proof -
  have seen: "\<not> (dfs_simple config \<and> PHSet_Contains (ds_nodes_seen s) at)" using assms(4) by (auto simp: members_def)
  show ?thesis
    unfolding PathsRecursive.simps [of config dst g c at s] if_not_P [OF assms(1)] if_not_P [OF assms(2)]
      if_not_P [OF assms(3)] if_not_P [OF seen] dfs_enter_def [symmetric] dfs_leave_def [symmetric]
    by (rule arg_cong [where f = "\<lambda>f. orbind (orfold f _ _) _"]) (auto simp: fun_eq_iff dfs_open_def members_def)
qed

lemma PathsRecursive_finds:
  fixes c :: ConstraintSet and g :: GraphStorage
  assumes g: "graph_wf g" and c: "visit_wf c"
  defines "nb \<equiv> allowed_neighbors (cs_exclusion_set c) (gs_adjacency_list g) None None"
    and "ok \<equiv> \<lambda>ls. compliant c (nodes_of g ls)"
  assumes "links_in g (ds_current s)"
  shows "\<exists>t. PathsRecursive config dst g c at s = Some (Ok t) \<and> finds s (extensions config nb ok dst s at) t"
  using assms(5)
proof (induction "unseen s" arbitrary: at s rule: less_induct)
  case less
  let ?al = "\<lambda>i. \<not> ExclusionSet_ShouldExcludeLink (cs_exclusion_set c) (li_link_index i) \<and>
      \<not> ExclusionSet_ShouldExcludeNode (cs_exclusion_set c) (li_dst_index i)"
  let ?is = "AdjacencyList_GetNeighbors (gs_adjacency_list g) at" and ?s = "dfs_enter config at s"
  let ?E = "\<lambda>i. extensions config nb ok dst (dfs_push config i ?s) (li_dst_index i)"
  let ?step = "\<lambda>i s. if ?al i \<and> dfs_open config s i
      then orbind (PathsRecursive config dst g c (li_dst_index i) (dfs_push config i s)) (\<lambda>s. Some (Ok (dfs_pop config i s)))
      else Some (Ok s)"
  have nb: "i \<in> set (nb u) \<longleftrightarrow> i \<in> set (AdjacencyList_GetNeighbors (gs_adjacency_list g) u) \<and> ?al i" for i u
    unfolding nb_def allowed_mem by blast
  have src: "li_src_index i = u" if "i \<in> set (nb u)" for i u using that nb graph_neighbors(1) [OF g] by blast
  consider (hops) "length (ds_current s) > dfs_max_hops config"
    | (dst) "\<not> length (ds_current s) > dfs_max_hops config" "at = dst"
    | (far) "\<not> length (ds_current s) > dfs_max_hops config" "at \<noteq> dst" "ds_total_distance s > dfs_max_distance config"
    | (seen) "\<not> length (ds_current s) > dfs_max_hops config" "at \<noteq> dst" "\<not> ds_total_distance s > dfs_max_distance config"
        "dfs_simple config \<and> at \<in> members (ds_nodes_seen s)"
    | (loop) "\<not> length (ds_current s) > dfs_max_hops config" "at \<noteq> dst" "\<not> ds_total_distance s > dfs_max_distance config"
        "dfs_simple config \<Longrightarrow> at \<notin> members (ds_nodes_seen s)" by blast
  then show ?case
  proof cases
    case dst
    then have "PathsRecursive config dst g c at s = Some (dfs_report g c s)"
      by (subst PathsRecursive.simps) simp
    moreover have "extensions config nb ok dst s at = (if ok (ds_current s) then {[]} else {})"
      using extensions_dst [of nb, OF src] dst by simp
    ultimately show ?thesis using dfs_report_finds [OF c less.prems] by (simp add: ok_def)
  next
    case loop
    have "\<exists>t. PathsRecursive config dst g c (li_dst_index i) (dfs_push config i r) = Some (Ok t) \<and>
        finds (dfs_push config i r) (?E i) t"
      if i: "i \<in> set ?is" "same_search ?s r" "dfs_open config r i" for i r
    proof -
      have "unseen (dfs_push config i r) < unseen s" using loop(4) i(2,3) by (rule unseen_push)
      moreover have "links_in g (ds_current r)" using less.prems i(2) by (simp add: same_search_def dfs_enter_def split: if_splits)
      moreover have "?E i = extensions config nb ok dst (dfs_push config i r) (li_dst_index i)"
        by (rule extensions_cong [OF same_search_push [OF i(2)]])
      ultimately show ?thesis using less.hyps links_in_push graph_neighbors(1) [OF g i(1)] by simp
    qed
    then have "\<exists>t. orfold ?step ?is ?s = Some (Ok t) \<and>
        finds ?s (\<Union>i \<in> {i \<in> set ?is. ?al i \<and> dfs_open config ?s i}. (#) i ` ?E i) t"
      by (intro orfold_finds [where s0 = ?s] graph_neighbors(2) [OF g] same_search_refl)
    then obtain t where t: "orfold ?step ?is ?s = Some (Ok t)"
      "finds ?s (\<Union>i \<in> {i \<in> set ?is. ?al i \<and> dfs_open config ?s i}. (#) i ` ?E i) t" by blast
    have ret: "PathsRecursive config dst g c at s = Some (Ok (dfs_leave config at t))"
      by (rule trans [OF PathsRecursive_loop [OF loop]]) (assumption, simp only: t(1) orbind.simps)
    have "extensions config nb ok dst s at = (\<Union>i \<in> {i \<in> set (nb at). dfs_open config ?s i}. (#) i ` ?E i)"
      by (rule extensions_loop [OF src loop(2,3,4)])
    also have "{i \<in> set (nb at). dfs_open config ?s i} = {i \<in> set ?is. ?al i \<and> dfs_open config ?s i}"
      using nb by blast
    finally have "extensions config nb ok dst s at = (\<Union>i \<in> {i \<in> set ?is. ?al i \<and> dfs_open config ?s i}. (#) i ` ?E i)" .
    with finds_leave [OF loop(4) t(2)] ret show ?thesis by simp
  qed (subst PathsRecursive.simps, use extensions_none [of nb config s at dst ok, OF src] finds_none [of s] in \<open>auto simp: members_def\<close>)+
qed

section \<open>Properties\<close>

text \<open>The paths that the configuration and the constraints ask for.\<close>

definition dfs_path ::
    "DFSConfig \<Rightarrow> ConstraintSet \<Rightarrow> GraphStorage \<Rightarrow> GraphNodeIndex \<Rightarrow> GraphNodeIndex \<Rightarrow> LinkInfo list \<Rightarrow> bool" where
  "dfs_path config c g src dst is \<longleftrightarrow>
     awalk (allowed_neighbors (cs_exclusion_set c) (gs_adjacency_list g) None None) src is dst \<and>
     dst \<notin> li_src_index ` set is \<and>
     distinct (map (if dfs_simple config then li_src_index else li_link_index) is) \<and>
     length is \<le> dfs_max_hops config \<and>
     (\<forall>k < length is. walk_length (take k is) \<le> dfs_max_distance config) \<and>
     compliant c (nodes_of g (map li_link_index is))"



text \<open>C29. For links of the graph, \<open>MinVisit\<close> returns the number of sets to visit exactly when the nodes
  on the links go through all the sets in their order, never back to an earlier one; \<open>Waypoints\<close>
  then returns one node of each set, in order, taken from the nodes on the links, and it aborts
  when the links go back to an earlier set.\<close>

theorem MinVisit_Waypoints_correct:
  assumes "visit_wf c" and "links_in g ls"
  shows "(ConstraintSet_MinVisit c ls g = Ok (length (cs_to_visit c)) \<longleftrightarrow> compliant c (nodes_of g ls)) \<and>
    (compliant c (nodes_of g ls) \<longrightarrow>
       (\<exists>ws. ConstraintSet_Waypoints c ls g = Ok ws \<and> length ws = length (cs_to_visit c) \<and>
          subseq ws (nodes_of g ls) \<and> (\<forall>k < length ws. PHSet_Contains (cs_to_visit c ! k) (ws ! k)))) \<and>
    (\<not> sorted (visits c (nodes_of g ls)) \<longrightarrow> ConstraintSet_Waypoints c ls g = Fail Check_failed)"
  using MinVisit_compliant [OF assms] Waypoints_compliant [OF assms]
    Waypoints_fold_Fail [of c "nodes_of g ls" "- 1" "[]"]
  by (simp add: Waypoints_nodes [OF assms(2)])

definition ex_constraints :: ConstraintSet where
  "ex_constraints =
     \<lparr>cs_exclusion_set = ExclusionSet_new, cs_to_visit = [PHSet_of_vector [0, 2 :: GraphNodeIndex], PHSet_of_vector [1 :: GraphNodeIndex]],
      cs_node_to_visit_index = [(True, 0), (True, 1), (True, 0)]\<rparr>"

lemma ex_constraints_new:
  "ConstraintSet_new ExclusionSet_new [PHSet_of_vector [0, 2 :: GraphNodeIndex], PHSet_of_vector [1 :: GraphNodeIndex]] =
   Ok ex_constraints"
  by code_simp

text \<open>\<open>ReachableNodes\<close> always returns, with the set of exactly those nodes that a walk over links and nodes that are not
  excluded leads to from the source, the source itself among them.\<close>

theorem ReachableNodes_correct:
  "\<exists>s. ReachableNodes src graph e = Some s \<and>
     (\<forall>v. PHSet_Contains s v \<longleftrightarrow>
        (\<exists>is. awalk (allowed_neighbors e (gs_adjacency_list graph) None None) src is v))"
proof -
  let ?nb = "allowed_neighbors e (gs_adjacency_list graph) None None"
  obtain s where s: "ReachableNodes src graph e = Some s" "src \<in> members s" "explored ?nb {} (members s)"
    "members s \<subseteq> reach ?nb src"
    using ReachableNodesRecursive_explores [of "gs_adjacency_list graph" e src "[]"]
    by (auto simp: ReachableNodes_def)
  then show ?thesis using explored_closed [of ?nb src _ _ "members s"]
    by (auto simp: members_def reach_def)
qed


lemma ex_constraints_wf: "visit_wf ex_constraints"
  by (rule ConstraintSet_new_wf [OF ex_constraints_new]) (auto simp: PHSet_of_vector_def length_PHSet_Insert)


theorem MinVisit_Waypoints_correct_witness:
  "\<exists>g. links_in g [0, 1] \<and> visit_wf ex_constraints \<and>
     (ConstraintSet_MinVisit ex_constraints [0, 1] g = Ok (length (cs_to_visit ex_constraints)) \<longleftrightarrow>
      compliant ex_constraints (nodes_of g [0, 1]))"
proof -
  obtain g :: GraphStorage where g: "map GraphLinkBase.truncate (gs_link_store g) = gb_links two_way"
    using two_way_storage by blast
  have "length (gs_link_store g) = 2" using arg_cong [OF g, of length] by (simp add: two_way_def)
  then have "links_in g [0, 1]" by (simp add: links_in_def)
  from MinVisit_Waypoints_correct [OF ex_constraints_wf this] this ex_constraints_wf show ?thesis by blast
qed

text \<open>The waypoints of a compliant walk do not make every walk compliant that goes through them in order.\<close>

lemma Waypoints_not_sufficient:
  "compliant ex_constraints [0, 1] \<and> subseq [0, 1] [0, 1, 2 :: GraphNodeIndex] \<and> \<not> compliant ex_constraints [0, 1, 2]"
  by code_simp

end
