(* ===== verification/Net_Trie.thy ===== *)
theory Net_Trie
  imports Net_Types "HOL-Library.Sublist"
begin
text \<open>
  \<open>Trie\<close> and \<open>IPRangeTrie\<close> of \<open>src/src/net/trie.h\<close>. A node keeps the values of all sequences that
  pass through it. The position \<open>from\<close> in a sequence, which the code carries through its
  recursion, is the suffix that starts there. The memory statistics are left out, but for the
  count of nodes.
\<close>

datatype ('t, 'v) TrieNode = TrieNode (tn_values: "'v list") (tn_children: "('t \<times> ('t, 'v) TrieNode) list")

abbreviation TrieNode_empty :: "('t, 'v) TrieNode" where
  "TrieNode_empty \<equiv> TrieNode [] []"

text \<open>
  The search for the child of an element, a new child being added at the end if there is none,
  and the update of that child in place.
\<close>

fun update_child :: "'t \<Rightarrow> (('t, 'v) TrieNode \<Rightarrow> ('t, 'v) TrieNode) \<Rightarrow>
    ('t \<times> ('t, 'v) TrieNode) list \<Rightarrow> ('t \<times> ('t, 'v) TrieNode) list" where
  "update_child element f [] = [(element, f TrieNode_empty)]"
| "update_child element f ((t, node) # children) =
     (if t = element then (t, f node) # children else (t, node) # update_child element f children)"

primrec Trie_AddRecursive :: "'t list \<Rightarrow> 'v \<Rightarrow> ('t, 'v) TrieNode \<Rightarrow> ('t, 'v) TrieNode" where
  "Trie_AddRecursive [] v at = TrieNode (tn_values at @ [v]) (tn_children at)"
| "Trie_AddRecursive (element # rest) v at =
     TrieNode (tn_values at @ [v]) (update_child element (Trie_AddRecursive rest v) (tn_children at))"

definition Trie_Add :: "'t list \<Rightarrow> 'v \<Rightarrow> ('t, 'v) TrieNode \<Rightarrow> ('t, 'v) TrieNode res" where
  "Trie_Add sequence v root = check (sequence \<noteq> []) (Ok (Trie_AddRecursive sequence v root))"

fun Trie_HasPrefixRecursive :: "'t list \<Rightarrow> ('t, 'v) TrieNode \<Rightarrow> 'v list res" where
  "Trie_HasPrefixRecursive [] at = Fail Check_failed"
| "Trie_HasPrefixRecursive (element # rest) at =
     (case map_of (tn_children at) element of
        None \<Rightarrow> Ok []
      | Some in_trie \<Rightarrow> if rest = [] then Ok (tn_values in_trie) else Trie_HasPrefixRecursive rest in_trie)"

definition Trie_SequencesWithPrefix :: "'t list \<Rightarrow> ('t, 'v) TrieNode \<Rightarrow> 'v list res" where
  "Trie_SequencesWithPrefix p root =
     (if p = [] then Ok (tn_values root) else Trie_HasPrefixRecursive p root)"

text \<open>
  The statistics: bytes, number of nodes and the children of every node in preorder; the sizes of a
  child and of a value are arguments.
\<close>

fun Trie_PopulateStatsRecursive :: "nat \<Rightarrow> nat \<Rightarrow> ('t, 'v) TrieNode \<Rightarrow> nat \<times> nat \<times> nat list \<Rightarrow> nat \<times> nat \<times> nat list" where
  "Trie_PopulateStatsRecursive sizeof_child sizeof_V (TrieNode vs children) (size_bytes, num_nodes, counts) =
     fold (\<lambda>child stats. Trie_PopulateStatsRecursive sizeof_child sizeof_V (snd child) stats) children
       (size_bytes + length children * sizeof_child + length vs * sizeof_V,
        num_nodes + length children, counts @ [length children])"

section \<open>Tries of address ranges\<close>

definition IPRangeTrie_ToBoolVector :: "IPRange \<Rightarrow> bool list" where
  "IPRangeTrie_ToBoolVector ip_range =
     (let range_net_order = htonl (rng_base_address ip_range)
      in map (\<lambda>i. bit range_net_order i) [0..<unat (rng_mask_len ip_range)])"

definition IPRangeTrie_Add :: "IPRange \<Rightarrow> 'v \<Rightarrow> (bool, 'v) TrieNode \<Rightarrow> (bool, 'v) TrieNode res" where
  "IPRangeTrie_Add ip_range v root = Trie_Add (IPRangeTrie_ToBoolVector ip_range) v root"

definition IPRangeTrie_ValuesWithPrefix :: "IPRange \<Rightarrow> (bool, 'v) TrieNode \<Rightarrow> 'v list res" where
  "IPRangeTrie_ValuesWithPrefix ip_range root =
     Trie_SequencesWithPrefix (IPRangeTrie_ToBoolVector ip_range) root"

section \<open>The trie as a list of sequences\<close>

definition values_at :: "'t list \<Rightarrow> ('t, 'v) TrieNode \<Rightarrow> 'v list" where
  "values_at p root = (case Trie_SequencesWithPrefix p root of Inl _ \<Rightarrow> [] | Inr vs \<Rightarrow> vs)"

lemma values_at_Nil [simp]: "values_at [] at = tn_values at"
  by (simp add: values_at_def Trie_SequencesWithPrefix_def)

lemma values_at_Cons [simp]:
  "values_at (x # p) at = (case map_of (tn_children at) x of None \<Rightarrow> [] | Some node \<Rightarrow> values_at p node)"
  by (cases p) (simp_all add: values_at_def Trie_SequencesWithPrefix_def split: option.split)

lemma HasPrefixRecursive_Ok: "\<exists>vs. Trie_HasPrefixRecursive (x # q) at = Ok vs"
  by (induction q arbitrary: x at) (auto split: option.split)

lemma SequencesWithPrefix_Ok: "Trie_SequencesWithPrefix p root = Ok (values_at p root)"
  using HasPrefixRecursive_Ok [of "hd p" "tl p" root]
  by (cases p) (auto simp: values_at_def Trie_SequencesWithPrefix_def)

lemma map_of_update_child:
  "map_of (update_child x f children) y =
     (if y = x then Some (f (case map_of children x of None \<Rightarrow> TrieNode_empty | Some node \<Rightarrow> node))
      else map_of children y)"
  by (induction x f children rule: update_child.induct) auto

lemma values_at_empty [simp]: "values_at p TrieNode_empty = []"
  by (cases p) auto

lemma values_at_AddRecursive:
  "values_at p (Trie_AddRecursive s v at) = values_at p at @ (if prefix p s then [v] else [])"
proof (induction s arbitrary: p at)
  case Nil
  then show ?case by (cases p) auto
next
  case (Cons x s)
  then show ?case by (cases p) (auto simp: map_of_update_child split: option.split)
qed

lemma rfold_Trie_Add:
  "(\<forall>(s, v) \<in> set entries. s \<noteq> []) \<Longrightarrow>
   rfold (\<lambda>(s, v). Trie_Add s v) entries root = Ok (fold (\<lambda>(s, v). Trie_AddRecursive s v) entries root)"
  by (induction entries arbitrary: root) (auto simp: Trie_Add_def)

lemma values_at_fold:
  "values_at p (fold (\<lambda>(s, v). Trie_AddRecursive s v) entries root) =
     values_at p root @ map snd (filter (\<lambda>(s, v). prefix p s) entries)"
  by (induction entries arbitrary: root) (auto simp: values_at_AddRecursive)

section \<open>Properties\<close>

text \<open>C34. After adding sequences to an empty trie, none of them empty, \<open>SequencesWithPrefix\<close> gives for
  every prefix, the empty one included, the values of exactly the sequences that start with it, in
  the order they were added.\<close>

theorem Trie_SequencesWithPrefix_correct:
  assumes "\<forall>(s, v) \<in> set entries. s \<noteq> []"
  shows "rbind (rfold (\<lambda>(s, v). Trie_Add s v) entries TrieNode_empty) (Trie_SequencesWithPrefix p) =
         Ok (map snd (filter (\<lambda>(s, v). prefix p s) entries))"
  using assms by (simp add: rfold_Trie_Add SequencesWithPrefix_Ok values_at_fold)

theorem Trie_SequencesWithPrefix_correct_witness:
  "rbind (rfold (\<lambda>(s, v). Trie_Add s v) [(''BLAH'', 0 :: nat), (''BLAME'', 1), (''ZLA'', 2)] TrieNode_empty)
     (Trie_SequencesWithPrefix ''BLA'') = Ok [0, 1]"
  by (subst Trie_SequencesWithPrefix_correct) simp_all

text \<open>A range of at most sixteen bits is turned into a vector that does not depend on its address:
  the bits are taken from the wrong end of the host-order address, where the mask has cleared them.\<close>

lemma ToBoolVector_short:
  assumes "IPRange_Init a m = Ok r" and "m \<le> 16"
  shows "IPRangeTrie_ToBoolVector r = replicate (unat m) False"
proof -
  have m: "unat m \<le> 16" using assms(2) by (simp add: word_le_nat_alt)
  have "m \<le> 32" using assms by (simp add: IPRange_Init_Ok)
  have "\<not> bit (htonl (masked a (unat m))) i" if "i < unat m" for i
    using bit_masked [of "unat m" a i] m that by (auto simp: htonl_def ntohl_def)
  with assms(1) m show ?thesis
    by (auto simp: IPRange_Init_Ok IPRangeTrie_ToBoolVector_def intro!: nth_equalityI)
qed

lemma Init_Add_short:
  assumes "m \<le> 16"
  shows "rbind (IPRange_Init a m) (\<lambda>r. IPRangeTrie_Add r v root) = Trie_Add (replicate (unat m) False) v root"
    and "rbind (IPRange_Init a m) (\<lambda>r. IPRangeTrie_ValuesWithPrefix r root) =
         Trie_SequencesWithPrefix (replicate (unat m) False) root"
proof -
  have "m \<le> 32" using assms by (rule order_trans) simp
  then obtain r where r: "IPRange_Init a m = Ok r" by (simp add: IPRange_Init_Ok)
  with ToBoolVector_short [OF r assms]
  show "rbind (IPRange_Init a m) (\<lambda>r. IPRangeTrie_Add r v root) = Trie_Add (replicate (unat m) False) v root"
    "rbind (IPRange_Init a m) (\<lambda>r. IPRangeTrie_ValuesWithPrefix r root) =
         Trie_SequencesWithPrefix (replicate (unat m) False) root"
    by (simp_all add: IPRangeTrie_Add_def IPRangeTrie_ValuesWithPrefix_def)
qed

lemma rfold_Init_Add_short:
  "(\<forall>(a, m, v) \<in> set entries. 0 < m \<and> m \<le> 16) \<Longrightarrow>
   rfold (\<lambda>(a, m, v) root. rbind (IPRange_Init a m) (\<lambda>r. IPRangeTrie_Add r v root)) entries root =
   Ok (fold (\<lambda>(s, v). Trie_AddRecursive s v) (map (\<lambda>(a, m, v). (replicate (unat m) False, v)) entries) root)"
proof (induction entries arbitrary: root)
  case (Cons e entries)
  obtain a m v where e: "e = (a, m, v)" by (cases e)
  with Cons.prems have "unat m \<noteq> 0" "m \<le> 16" by (auto simp: unat_eq_0)
  with Cons e show ?case by (simp add: Init_Add_short(1) Trie_Add_def)
qed simp

lemma prefix_replicate: "prefix (replicate k x) (replicate m x) \<longleftrightarrow> k \<le> m"
proof
  assume "prefix (replicate k x) (replicate m x)"
  from prefix_length_le [OF this] show "k \<le> m" by simp
next
  assume "k \<le> m"
  then have "replicate m x = replicate k x @ replicate (m - k) x" by (simp flip: replicate_add)
  then show "prefix (replicate k x) (replicate m x)" by (rule prefixI)
qed

text \<open>\<open>IPRangeTrie\<close> confuses ranges: the values it gives for a range with a mask of at most sixteen
  bits are those of all the ranges with a mask of one to sixteen bits that is at least as long,
  whatever their addresses, so it answers for ranges that are disjoint from the one asked for.\<close>

theorem IPRangeTrie_confuses_ranges:
  assumes "\<forall>(a, m, v) \<in> set entries. 0 < m \<and> m \<le> 16" and "k \<le> 16"
  shows "rbind (rfold (\<lambda>(a, m, v) root. rbind (IPRange_Init a m) (\<lambda>r. IPRangeTrie_Add r v root)) entries TrieNode_empty)
           (\<lambda>root. rbind (IPRange_Init b k) (\<lambda>r. IPRangeTrie_ValuesWithPrefix r root)) =
         Ok (map (\<lambda>(a, m, v). v) (filter (\<lambda>(a, m, v). k \<le> m) entries))"
  unfolding rfold_Init_Add_short [OF assms(1)] rbind_simps Init_Add_short(2) [OF assms(2)]
    SequencesWithPrefix_Ok values_at_fold
  by (simp add: filter_map o_def split_def prefix_replicate word_le_nat_alt)

theorem IPRangeTrie_confuses_ranges_witness:
  "rbind (rfold (\<lambda>(a, m, v) root. rbind (IPRange_Init a m) (\<lambda>r. IPRangeTrie_Add r v root)) [(10, 8, 1 :: nat)] TrieNode_empty)
     (\<lambda>root. rbind (IPRange_Init 11 8) (\<lambda>r. IPRangeTrie_ValuesWithPrefix r root)) = Ok [1]"
  by (subst IPRangeTrie_confuses_ranges) simp_all

end
