(* ===== verification/Ksp.thy ===== *)
theory Ksp
  imports Path_Search Net_Trie
begin

text \<open>
  The searches of \<open>src/src/net/algorithm.{h,cc}\<close> that are built on \<open>ShortestPath\<close>: shortest paths through sets of nodes
  (\<open>ShortestPathStatic\<close>), the generators of the K shortest paths (\<open>KSP_*\<close>, \<open>DisjunctKSP_*\<close>), the combination
  of waypoints and the links common to all shortest-path trees. A search that need not return is an option, so the results are of
  type \<open>'a res option\<close>. Walks that the code passes around as pointers into a generator are passed
  by value: a generator never changes or drops a walk.
\<close>

section \<open>Shortest paths through sets of nodes\<close>

text \<open>
  The graph whose links are shortest paths: its adjacency list, the number of link indices handed out, the trees
  and the ends of every link. The index \<open>i\<close> of the set the paths start from is \<open>-1\<close> for the source.
\<close>

record path_graph =
  pg_adj_list :: AdjacencyList
  pg_link_index_gen :: nat
  pg_sp_trees :: "ShortestPath option phmap"
  pg_link_map :: "(GraphNodeIndex \<times> GraphNodeIndex) phmap"

definition path_graph_empty :: path_graph where
  "path_graph_empty = \<lparr>pg_adj_list = AdjacencyList_new, pg_link_index_gen = 0, pg_sp_trees = [], pg_link_map = []\<rparr>"

definition level_to_exclude :: "phset list \<Rightarrow> GraphNodeIndex \<Rightarrow> phset \<Rightarrow> int \<Rightarrow> phset" where
  "level_to_exclude to_visit dst nodes_to_avoid i =
     (let to_exclude = fold (\<lambda>j s. if i \<noteq> int j \<and> i + 1 \<noteq> int j then PHSet_InsertAll s (to_visit ! j) else s)
                         [0..<length to_visit] [];
          to_exclude = (if i \<noteq> int (length to_visit) - 1 then PHSet_Insert to_exclude dst else to_exclude)
      in PHSet_InsertAll to_exclude nodes_to_avoid)"

definition level_destinations :: "phset list \<Rightarrow> GraphNodeIndex \<Rightarrow> int \<Rightarrow> phset" where
  "level_destinations to_visit dst i =
     (if i = int (length to_visit) - 1 then PHSet_Insert [] dst
      else PHSet_InsertAll [] (to_visit ! nat (i + 1)))"

definition level_sources :: "phset list \<Rightarrow> GraphNodeIndex \<Rightarrow> int \<Rightarrow> phset" where
  "level_sources to_visit src i =
     (if i = - 1 then PHSet_Insert [] src else PHSet_InsertAll [] (to_visit ! nat i))"

definition path_graph_add_tree ::
    "ShortestPath \<Rightarrow> GraphNodeIndex \<Rightarrow> phset \<Rightarrow> path_graph \<times> bool \<Rightarrow> (path_graph \<times> bool) res" where
  "path_graph_add_tree tree node_to_visit destinations st =
     rfold (\<lambda>destination (pg, no_path_found).
         let new_link_index = of_nat (pg_link_index_gen pg);
             pg = pg\<lparr>pg_link_index_gen := pg_link_index_gen pg + 1\<rparr>
         in rbind (ShortestPath_GetPathDistance tree destination) (\<lambda>sp_delay.
              if sp_delay = Delay_max then Ok (pg, no_path_found)
              else Ok (pg\<lparr>pg_adj_list := AdjacencyList_AddLink (pg_adj_list pg) new_link_index node_to_visit destination sp_delay,
                          pg_link_map := PHMap_Add (0, 0) (pg_link_map pg) new_link_index (node_to_visit, destination)\<rparr>,
                       False)))
       (PHSet_elems destinations) st"

definition path_graph_level ::
    "GraphNodeIndex \<Rightarrow> GraphNodeIndex \<Rightarrow> phset \<Rightarrow> phset \<Rightarrow> ExclusionSet \<Rightarrow> phset list \<Rightarrow> AdjacencyList \<Rightarrow> int \<Rightarrow>
     path_graph \<Rightarrow> (path_graph \<times> bool) res option" where
  "path_graph_level src dst nodes_to_avoid links_to_avoid e to_visit adj_list i pg =
     (let to_exclude = level_to_exclude to_visit dst nodes_to_avoid i;
          destinations = level_destinations to_visit dst i;
          sources = level_sources to_visit src i
      in if PHSet_Empty sources \<or> PHSet_Empty destinations then Some (Fail Check_failed)
         else orfold (\<lambda>node_to_visit (pg, no_path_found).
                case ShortestPath_new node_to_visit destinations e adj_list (Some to_exclude) (Some links_to_avoid) of
                  None \<Rightarrow> None
                | Some tree \<Rightarrow> Some (path_graph_add_tree tree node_to_visit destinations
                    (pg\<lparr>pg_sp_trees := PHMap_Add None (pg_sp_trees pg) node_to_visit (Some tree)\<rparr>, no_path_found)))
              (PHSet_elems sources) (pg, True))"

text \<open>The loop over the sets: no graph if from one of them no path goes on.\<close>

fun path_graph_levels ::
    "(int \<Rightarrow> path_graph \<Rightarrow> (path_graph \<times> bool) res option) \<Rightarrow> int list \<Rightarrow> path_graph \<Rightarrow> path_graph option res option" where
  "path_graph_levels level [] pg = Some (Ok (Some pg))"
| "path_graph_levels level (i # is) pg =
     orbind (level i pg) (\<lambda>(pg, no_path_found).
       if no_path_found then Some (Ok None) else path_graph_levels level is pg)"

definition stitch_sub_path ::
    "path_graph \<Rightarrow> GraphLinkIndex \<Rightarrow> Links \<times> Delay \<Rightarrow> (Links \<times> Delay) res option" where
  "stitch_sub_path pg path_graph_link = (\<lambda>(final_path, total_delay).
     let (sub_path_from, sub_path_to) = PHMap_value (0, 0) (pg_link_map pg) path_graph_link
     in case PHMap_GetValueOrDie (pg_sp_trees pg) sub_path_from of
          Inl err \<Rightarrow> Some (Fail err)
        | Inr None \<Rightarrow> Some (Fail Undefined_behaviour)
        | Inr (Some sp_tree) \<Rightarrow>
            orbind (ShortestPath_GetPath sp_tree sub_path_to) (\<lambda>sub_path.
              case sub_path of
                None \<Rightarrow> Some (Fail Check_failed)
              | Some w \<Rightarrow> Some (Ok (final_path @ walk_links w, total_delay + walk_delay w))))"

definition ShortestPathStatic ::
    "GraphNodeIndex \<Rightarrow> GraphNodeIndex \<Rightarrow> phset \<Rightarrow> phset \<Rightarrow> ExclusionSet \<Rightarrow> phset list \<Rightarrow> AdjacencyList \<Rightarrow>
     Walk option res option" where
  "ShortestPathStatic src dst nodes_to_avoid links_to_avoid e to_visit adj_list =
     (if length to_visit = 0
      then case ShortestPath_new src (PHSet_Insert [] dst) e adj_list (Some nodes_to_avoid) (Some links_to_avoid) of
             None \<Rightarrow> None
           | Some sp_tree \<Rightarrow> ShortestPath_GetPath sp_tree dst
      else orbind (path_graph_levels (path_graph_level src dst nodes_to_avoid links_to_avoid e to_visit adj_list)
                     [- 1..int (length to_visit) - 1] path_graph_empty) (\<lambda>r.
        case r of
          None \<Rightarrow> Some (Ok None)
        | Some pg \<Rightarrow>
            (case ShortestPath_new src (PHSet_Insert [] dst) ExclusionSet_new (pg_adj_list pg) None None of
               None \<Rightarrow> None
             | Some path_graph_sp \<Rightarrow>
                 orbind (ShortestPath_GetPath path_graph_sp dst) (\<lambda>sp.
                   case sp of
                     None \<Rightarrow> Some (Ok None)
                   | Some w \<Rightarrow>
                       orbind (orfold (stitch_sub_path pg) (walk_links w) ([], 0)) (\<lambda>(final_path, total_delay).
                         Some (Ok (Some \<lparr>walk_links = final_path, walk_delay = total_delay\<rparr>)))))))"

definition ShortestPathWithConstraints ::
    "GraphNodeIndex \<Rightarrow> GraphNodeIndex \<Rightarrow> GraphStorage \<Rightarrow> ConstraintSet \<Rightarrow> Walk option res option" where
  "ShortestPathWithConstraints src dst graph constraints =
     orbind (Some (ConstraintSet_SanitizeConstraints constraints src dst)) (\<lambda>sanitized_constraints.
       ShortestPathStatic src dst [] [] (cs_exclusion_set sanitized_constraints) (cs_to_visit sanitized_constraints)
         (gs_adjacency_list graph))"

section \<open>K shortest paths\<close>

record KShortestPathsGenerator =
  ksp_k_paths :: "(Walk \<times> nat) list"
  ksp_k_paths_trie :: "(GraphLinkIndex, 32 word) TrieNode"
  ksp_candidates :: "(Walk \<times> nat) list"
  ksp_src :: GraphNodeIndex
  ksp_dst :: GraphNodeIndex
  ksp_constraints :: ConstraintSet
  ksp_storage :: GraphStorage

definition KSP_new ::
    "GraphNodeIndex \<Rightarrow> GraphNodeIndex \<Rightarrow> GraphStorage \<Rightarrow> ConstraintSet \<Rightarrow> KShortestPathsGenerator res" where
  "KSP_new src dst graph constraints =
     rbind (ConstraintSet_SanitizeConstraints constraints src dst) (\<lambda>sanitized.
       Ok \<lparr>ksp_k_paths = [], ksp_k_paths_trie = TrieNode_empty, ksp_candidates = [], ksp_src = src, ksp_dst = dst,
           ksp_constraints = sanitized, ksp_storage = graph\<rparr>)"

definition walk_key :: "Walk \<times> nat \<Rightarrow> Delay \<times> Links" where
  "walk_key p = (walk_delay (fst p), walk_links (fst p))"

definition KSP_ShortestPath ::
    "KShortestPathsGenerator \<Rightarrow> GraphNodeIndex \<Rightarrow> GraphNodeIndex \<Rightarrow> phset \<Rightarrow> phset \<Rightarrow> Links \<Rightarrow> Walk option res option" where
  "KSP_ShortestPath gen src dst nodes_to_avoid links_to_avoid links_so_far =
     orbind (Some (ConstraintSet_MinVisit (ksp_constraints gen) links_so_far (ksp_storage gen))) (\<lambda>to_visit_index.
       ShortestPathStatic src dst nodes_to_avoid links_to_avoid (cs_exclusion_set (ksp_constraints gen))
         (drop to_visit_index (cs_to_visit (ksp_constraints gen))) (gs_adjacency_list (ksp_storage gen)))"

definition KSP_ShortestPathThatAvoids :: "KShortestPathsGenerator \<Rightarrow> phset \<Rightarrow> phset \<Rightarrow> Walk option res option" where
  "KSP_ShortestPathThatAvoids gen nodes_to_avoid links_to_avoid =
     KSP_ShortestPath gen (ksp_src gen) (ksp_dst gen) nodes_to_avoid links_to_avoid []"

definition KSP_GetLinkExclusionSet :: "KShortestPathsGenerator \<Rightarrow> Links \<Rightarrow> phset \<Rightarrow> phset res" where
  "KSP_GetLinkExclusionSet gen root_path out =
     (if root_path = []
      then rfold (\<lambda>path out. rbind (vec_at (walk_links (fst path)) 0) (\<lambda>link. Ok (PHSet_Insert out link)))
             (ksp_k_paths gen) out
      else rbind (Trie_SequencesWithPrefix root_path (ksp_k_paths_trie gen)) (\<lambda>paths_with_same_prefix.
             rfold (\<lambda>k out.
                 rbind (vec_at (ksp_k_paths gen) (unat k)) (\<lambda>path.
                 let k_path_links = walk_links (fst path)
                 in check (length k_path_links > length root_path)
                      (rbind (vec_at k_path_links (length root_path)) (\<lambda>link. Ok (PHSet_Insert out link)))))
               paths_with_same_prefix out))"

record spur_state =
  sps_links_to_exclude :: phset
  sps_nodes_to_exclude :: phset
  sps_root_path :: Links
  sps_candidates :: "(Walk \<times> nat) list"

text \<open>One round of the loop over the links of the last path.\<close>

definition KSP_spur :: "KShortestPathsGenerator \<Rightarrow> Links \<Rightarrow> nat \<Rightarrow> nat \<Rightarrow> spur_state \<Rightarrow> spur_state res option" where
  "KSP_spur gen last_path_links start_index i s =
     orbind (Some (vec_at last_path_links i)) (\<lambda>link_index.
     orbind (Some (GraphStorage_GetLink (ksp_storage gen) link_index)) (\<lambda>link.
       let spur_node = gl_src link;
           advance = (\<lambda>s. s\<lparr>sps_nodes_to_exclude := PHSet_Insert (sps_nodes_to_exclude s) spur_node,
                            sps_root_path := sps_root_path s @ [link_index]\<rparr>)
       in if i < start_index then Some (Ok (advance s))
          else orbind (Some (KSP_GetLinkExclusionSet gen (sps_root_path s) (sps_links_to_exclude s))) (\<lambda>links_to_exclude.
            let s = s\<lparr>sps_links_to_exclude := links_to_exclude\<rparr>
            in orbind (KSP_ShortestPath gen spur_node (ksp_dst gen) (sps_nodes_to_exclude s) links_to_exclude
                         (sps_root_path s)) (\<lambda>spur_path.
                 case spur_path of
                   None \<Rightarrow> Some (Ok (advance s))
                 | Some w \<Rightarrow>
                     orbind (Some (Walk_of_storage (sps_root_path s @ walk_links w) (ksp_storage gen))) (\<lambda>candidate_path.
                       Some (Ok (advance (s\<lparr>sps_candidates :=
                          VPQ_emplace walk_key (sps_candidates s) (candidate_path, i)\<rparr>))))))))"

definition KSP_NextPath :: "KShortestPathsGenerator \<Rightarrow> (bool \<times> KShortestPathsGenerator) res option" where
  "KSP_NextPath gen =
     (if ksp_k_paths gen = []
      then orbind (KSP_ShortestPath gen (ksp_src gen) (ksp_dst gen) [] [] []) (\<lambda>path.
             case path of
               None \<Rightarrow> Some (Ok (False, gen))
             | Some w \<Rightarrow>
                 orbind (Some (Trie_Add (walk_links w) 0 (ksp_k_paths_trie gen))) (\<lambda>trie.
                   Some (Ok (True, gen\<lparr>ksp_k_paths_trie := trie, ksp_k_paths := [(w, 0)]\<rparr>))))
      else let last_path_links = walk_links (fst (last (ksp_k_paths gen)));
               start_index = snd (last (ksp_k_paths gen))
           in orbind (orfold (KSP_spur gen last_path_links start_index) [0..<length last_path_links]
                        \<lparr>sps_links_to_exclude = [], sps_nodes_to_exclude = [], sps_root_path = [],
                         sps_candidates = ksp_candidates gen\<rparr>) (\<lambda>s.
                let gen = gen\<lparr>ksp_candidates := sps_candidates s\<rparr>
                in if ksp_candidates gen = [] then Some (Ok (False, gen))
                   else orbind (Some (VPQ_PopTop walk_key (ksp_candidates gen))) (\<lambda>(min_candidate, candidates).
                     orbind (Some (Trie_Add (walk_links (fst min_candidate)) (of_nat (length (ksp_k_paths gen)))
                       (ksp_k_paths_trie gen))) (\<lambda>trie.
                       Some (Ok (True, gen\<lparr>ksp_candidates := candidates, ksp_k_paths_trie := trie,
                                           ksp_k_paths := ksp_k_paths gen @ [min_candidate]\<rparr>))))))"

fun KSP_advance :: "nat \<Rightarrow> KShortestPathsGenerator \<Rightarrow> (bool \<times> KShortestPathsGenerator) res option" where
  "KSP_advance 0 gen = Some (Ok (True, gen))"
| "KSP_advance (Suc delta) gen =
     orbind (KSP_NextPath gen) (\<lambda>(more, gen). if more then KSP_advance delta gen else Some (Ok (False, gen)))"

definition KSP_KthShortestPathOrNull ::
    "nat \<Rightarrow> KShortestPathsGenerator \<Rightarrow> (Walk option \<times> KShortestPathsGenerator) res option" where
  "KSP_KthShortestPathOrNull k gen =
     (if k < length (ksp_k_paths gen) then Some (Ok (Some (fst (ksp_k_paths gen ! k)), gen))
      else orbind (KSP_advance (k + 1 - length (ksp_k_paths gen)) gen) (\<lambda>(found, gen).
             if found then Some (Ok (Some (fst (last (ksp_k_paths gen))), gen)) else Some (Ok (None, gen))))"

text \<open>\<open>KforPath\<close>, with \<open>n\<close> rounds to go; a path that does not exist is a null pointer.\<close>

fun KSP_KforPath_loop :: "nat \<Rightarrow> nat \<Rightarrow> Walk \<Rightarrow> KShortestPathsGenerator \<Rightarrow> (nat \<times> KShortestPathsGenerator) res option" where
  "KSP_KforPath_loop 0 k_limit to_look_for gen = Some (Ok (k_limit, gen))"
| "KSP_KforPath_loop (Suc n) k_limit to_look_for gen =
     (let k = k_limit - Suc n
      in orbind (KSP_KthShortestPathOrNull k gen) (\<lambda>(path, gen).
           case path of
             None \<Rightarrow> Some (Fail Undefined_behaviour)
           | Some w \<Rightarrow>
               if \<not> walk_delay w \<le> walk_delay to_look_for then Some (Fail Check_failed)
               else if Walk_eq to_look_for w then Some (Ok (k, gen))
               else KSP_KforPath_loop n k_limit to_look_for gen))"

definition KSP_KforPath :: "Walk \<Rightarrow> nat \<Rightarrow> KShortestPathsGenerator \<Rightarrow> (nat \<times> KShortestPathsGenerator) res option" where
  "KSP_KforPath to_look_for k_limit gen = KSP_KforPath_loop k_limit k_limit to_look_for gen"

section \<open>K shortest paths under several constraint sets\<close>

text \<open>
  The queue has a generator's index and its next path, ordered by the path's delay only. The optional out-parameter for the index
  of the generator is part of the result.
\<close>

record DisjunctKSP =
  dk_queue :: "(nat \<times> Walk) list"
  dk_ksp_generators :: "KShortestPathsGenerator list"
  dk_k_paths :: "Walk list"
  dk_k_path_generator_indices :: "nat list"

definition candidate_delay :: "nat \<times> Walk \<Rightarrow> Delay" where
  "candidate_delay p = walk_delay (snd p)"

text \<open>The next path of the generator at \<open>i\<close>, if there is one, goes into the queue.\<close>

definition DisjunctKSP_enqueue :: "nat \<Rightarrow> DisjunctKSP \<Rightarrow> DisjunctKSP res option" where
  "DisjunctKSP_enqueue i d =
     orbind (Some (vec_at (dk_ksp_generators d) i)) (\<lambda>gen.
     orbind (KSP_KthShortestPathOrNull (length (ksp_k_paths gen)) gen) (\<lambda>(walk, gen).
       let d = d\<lparr>dk_ksp_generators := (dk_ksp_generators d)[i := gen]\<rparr>
       in Some (Ok (case walk of
            None \<Rightarrow> d
          | Some w \<Rightarrow> d\<lparr>dk_queue := VPQ_emplace candidate_delay (dk_queue d) (i, w)\<rparr>))))"

definition DisjunctKSP_new ::
    "GraphNodeIndex \<Rightarrow> GraphNodeIndex \<Rightarrow> GraphStorage \<Rightarrow> ConstraintSet list \<Rightarrow> DisjunctKSP res option" where
  "DisjunctKSP_new src dst graph constraints =
     orbind (Some (rfold (\<lambda>constraint_set gens.
         rbind (KSP_new src dst graph constraint_set) (\<lambda>gen. Ok (gens @ [gen]))) constraints [])) (\<lambda>gens.
       orfold DisjunctKSP_enqueue [0..<length gens]
         \<lparr>dk_queue = [], dk_ksp_generators = gens, dk_k_paths = [], dk_k_path_generator_indices = []\<rparr>)"

definition DisjunctKSP_PopAndEnqueue :: "DisjunctKSP \<Rightarrow> ((Walk \<times> nat) \<times> DisjunctKSP) res option" where
  "DisjunctKSP_PopAndEnqueue d =
     orbind (Some (VPQ_PopTop candidate_delay (dk_queue d))) (\<lambda>((gen_i, to_return), queue).
     orbind (DisjunctKSP_enqueue gen_i (d\<lparr>dk_queue := queue\<rparr>)) (\<lambda>d.
       Some (Ok ((to_return, gen_i), d))))"

partial_function (option) DisjunctKSP_skip :: "Walk \<Rightarrow> DisjunctKSP \<Rightarrow> DisjunctKSP res option" where
  "DisjunctKSP_skip to_return d =
     (if dk_queue d \<noteq> [] \<and> Walk_eq (snd (hd (dk_queue d))) to_return
      then orbind (DisjunctKSP_PopAndEnqueue d) (\<lambda>(_, d). DisjunctKSP_skip to_return d)
      else Some (Ok d))"

definition DisjunctKSP_Next :: "DisjunctKSP \<Rightarrow> ((Walk \<times> nat) option \<times> DisjunctKSP) res option" where
  "DisjunctKSP_Next d =
     (if dk_queue d = [] then Some (Ok (None, d))
      else orbind (DisjunctKSP_PopAndEnqueue d) (\<lambda>((to_return, gen_i), d).
           orbind (DisjunctKSP_skip to_return d) (\<lambda>d. Some (Ok (Some (to_return, gen_i), d)))))"

fun DisjunctKSP_advance :: "nat \<Rightarrow> DisjunctKSP \<Rightarrow> (bool \<times> DisjunctKSP) res option" where
  "DisjunctKSP_advance 0 d = Some (Ok (True, d))"
| "DisjunctKSP_advance (Suc delta) d =
     orbind (DisjunctKSP_Next d) (\<lambda>(next_path, d).
       case next_path of
         None \<Rightarrow> Some (Ok (False, d))
       | Some (w, gen_index) \<Rightarrow>
           DisjunctKSP_advance delta
             (d\<lparr>dk_k_paths := dk_k_paths d @ [w],
                dk_k_path_generator_indices := dk_k_path_generator_indices d @ [gen_index]\<rparr>))"

definition DisjunctKSP_KthShortestPathOrNull ::
    "nat \<Rightarrow> DisjunctKSP \<Rightarrow> ((Walk \<times> nat) option \<times> DisjunctKSP) res option" where
  "DisjunctKSP_KthShortestPathOrNull k d =
     (if k < length (dk_k_paths d)
      then Some (rbind (vec_at (dk_k_path_generator_indices d) k) (\<lambda>i. Ok (Some (dk_k_paths d ! k, i), d)))
      else orbind (DisjunctKSP_advance (k + 1 - length (dk_k_paths d)) d) (\<lambda>(found, d).
             Some (Ok (if found then Some (last (dk_k_paths d), last (dk_k_path_generator_indices d)) else None, d))))"

definition DisjunctKSP_ShortestPathThatAvoids :: "DisjunctKSP \<Rightarrow> phset \<Rightarrow> phset \<Rightarrow> Walk option res option" where
  "DisjunctKSP_ShortestPathThatAvoids d nodes_to_avoid links_to_avoid =
     orfold (\<lambda>generator current.
         orbind (KSP_ShortestPathThatAvoids generator nodes_to_avoid links_to_avoid) (\<lambda>p.
           Some (Ok (case p of
               None \<Rightarrow> current
             | Some w \<Rightarrow>
                 (case current of
                    Some c \<Rightarrow> if walk_delay w > walk_delay c then current else Some w
                  | None \<Rightarrow> Some w)))))
       (dk_ksp_generators d) None"

section \<open>Combining waypoints\<close>

type_synonym sp_trees = "ShortestPath option phmap"

definition DelayOrDie :: "sp_trees \<Rightarrow> GraphNodeIndex \<Rightarrow> GraphNodeIndex \<Rightarrow> Delay res" where
  "DelayOrDie sp_trees src dst =
     rbind (PHMap_GetValueOrDie sp_trees src) (\<lambda>tree.
       case tree of
         None \<Rightarrow> Fail Undefined_behaviour
       | Some sp \<Rightarrow> rbind (ShortestPath_GetPathDistance sp dst) (\<lambda>to_return.
           check (to_return \<noteq> Delay_max) (Ok to_return)))"

definition ClosestTo :: "sp_trees \<Rightarrow> GraphNodeIndex list \<Rightarrow> GraphNodeIndex \<Rightarrow> nat \<Rightarrow> nat res" where
  "ClosestTo sp_trees waypoint_list new_waypoint start_index =
     check (length waypoint_list > 1) (check (start_index < length waypoint_list - 1)
       (rbind (rfold (\<lambda>i (best_delta, best_i).
            rbind (DelayOrDie sp_trees (waypoint_list ! i) (waypoint_list ! (i + 1))) (\<lambda>direct_delay.
            rbind (DelayOrDie sp_trees (waypoint_list ! i) new_waypoint) (\<lambda>first_leg.
            rbind (DelayOrDie sp_trees new_waypoint (waypoint_list ! (i + 1))) (\<lambda>second_leg.
            let indirect_delay = first_leg + second_leg
            in check (indirect_delay \<ge> direct_delay)
                 (let delta = indirect_delay - direct_delay
                  in Ok (if delta < best_delta then (delta, i) else (best_delta, best_i)))))))
          [start_index..<length waypoint_list - 1] (Delay_max, 0))
        (\<lambda>(best_delta, best_i). Ok best_i)))"

text \<open>The state is \<open>current_waypoints\<close> and \<open>prev_index\<close>; \<open>insert\<close> puts an element before a position.\<close>

definition vec_insert :: "'a list \<Rightarrow> nat \<Rightarrow> 'a \<Rightarrow> 'a list" where
  "vec_insert xs i x = take i xs @ x # drop i xs"

definition Merge_waypoint ::
    "sp_trees \<Rightarrow> GraphNodeIndex \<Rightarrow> GraphNodeIndex list \<times> nat \<Rightarrow> (GraphNodeIndex list \<times> nat) res" where
  "Merge_waypoint sp_trees waypoint_to_merge = (\<lambda>(current_waypoints, prev_index).
     rbind (ClosestTo sp_trees current_waypoints waypoint_to_merge prev_index) (\<lambda>new_index.
       Ok (vec_insert current_waypoints (new_index + 1) waypoint_to_merge, new_index + 1)))"

definition Merge_waypoints :: "GraphNodeIndex list \<Rightarrow> sp_trees \<Rightarrow> GraphNodeIndex list \<Rightarrow> GraphNodeIndex list res" where
  "Merge_waypoints to_merge sp_trees current_waypoints =
     rbind (rfold (Merge_waypoint sp_trees) to_merge (current_waypoints, 0)) (\<lambda>(current_waypoints, _). Ok current_waypoints)"

definition GetSPTrees :: "phset \<Rightarrow> ExclusionSet \<Rightarrow> AdjacencyList \<Rightarrow> sp_trees option" where
  "GetSPTrees nodes e adj_list =
     ofold (\<lambda>node out.
         case ShortestPath_new node nodes e adj_list None None of
           None \<Rightarrow> None
         | Some tree \<Rightarrow> Some (PHMap_Add None out node (Some tree)))
       (PHSet_elems nodes :: GraphNodeIndex list) []"

definition CombineWaypoints ::
    "GraphNodeIndex \<Rightarrow> GraphNodeIndex \<Rightarrow> ExclusionSet \<Rightarrow> AdjacencyList \<Rightarrow> GraphNodeIndex list list \<Rightarrow>
     GraphNodeIndex list res option" where
  "CombineWaypoints src dst e adj_list waypoints =
     (if waypoints = [] then Some (Fail Check_failed)
      else let all_waypoints = fold (fold (\<lambda>waypoint s. PHSet_Insert s waypoint)) waypoints (PHSet_of_vector [src, dst])
           in case GetSPTrees all_waypoints e adj_list of
                None \<Rightarrow> None
              | Some sp_trees \<Rightarrow>
                  Some (rbind (rfold (\<lambda>list current. Merge_waypoints list sp_trees current) (tl waypoints)
                          ([src] @ hd waypoints @ [dst]))
                    (\<lambda>current_waypoints. Ok (butlast (tl current_waypoints)))))"

section \<open>Links common to all shortest-path trees\<close>

definition same_way_link :: "GraphStorage \<Rightarrow> GraphLinkIndex \<Rightarrow> phset \<Rightarrow> phset res" where
  "same_way_link graph link_index s =
     rbind (GraphStorage_GetLink graph link_index) (\<lambda>link.
       if gl_src link < gl_dst link then Ok (PHSet_Insert s link_index)
       else rbind (GraphStorage_FindUniqueInverseOrNull graph link) (\<lambda>inverse_link_index.
              Ok (PHSet_Insert s (case inverse_link_index of None \<Rightarrow> link_index | Some i \<Rightarrow> i))))"

text \<open>The two sets, instead of the first and the quotient of their sizes.\<close>

definition CommonSPLinks_root :: "GraphStorage \<Rightarrow> GraphNodeIndex \<Rightarrow> phset \<times> phset \<Rightarrow> (phset \<times> phset) res option" where
  "CommonSPLinks_root graph root = (\<lambda>(out, all_links).
     let adj_list = gs_adjacency_list graph;
         others = PHSet_Remove (AdjacencyList_AllNodes adj_list) root
     in case ShortestPath_new root others ExclusionSet_new adj_list None None of
          None \<Rightarrow> None
        | Some sp \<Rightarrow>
            Some (rbind (ShortestPath_ElementsInTree sp) (\<lambda>(_, links_in_tree).
              rbind (rfold (same_way_link graph) (PHSet_elems links_in_tree) []) (\<lambda>links_in_tree_same_way.
                Ok (if PHSet_Empty out then links_in_tree_same_way
                    else PHSet_Intersection TYPE(16) out links_in_tree_same_way,
                    PHSet_InsertAll all_links links_in_tree_same_way)))))"

definition CommonSPLinks :: "GraphStorage \<Rightarrow> (phset \<times> phset) res option" where
  "CommonSPLinks graph =
     orfold (CommonSPLinks_root graph) (PHSet_elems (AdjacencyList_AllNodes (gs_adjacency_list graph))) ([], [])"

end
