(* ===== verification/Path_Deviations.thy ===== *)
theory Path_Deviations
  imports Ksp
begin

text \<open>
  The paths that the K-shortest-path generator and the combination of waypoints of \<open>src/src/net/algorithm.cc\<close> look for, and
  what one search finds. The first part is about deviations of any paths, the second about the simple paths of a graph:
  \<open>spur_search\<close> shows that the search from a spur node returns the cheapest path that leaves the
  paths found at that node.
\<close>

section \<open>Deviations from the paths found\<close>

text \<open>
  What the K-shortest-path search relies on, for any set of paths none of which is a prefix of another. A root is where a
  path not found yet leaves the paths that are found; the deviations from a root are the paths that leave
  there.
\<close>

definition roots :: "'a list list \<Rightarrow> 'a list set" where
  "roots ps = {r. \<exists>p \<in> set ps. strict_prefix r p}"

definition deviations :: "'a list set \<Rightarrow> 'a list list \<Rightarrow> 'a list \<Rightarrow> 'a list set" where
  "deviations P ps r = {q \<in> P. strict_prefix r q \<and> (\<forall>p \<in> set ps. \<not> prefix (take (Suc (length r)) q) p)}"

definition prefix_free :: "'a list set \<Rightarrow> bool" where
  "prefix_free P \<longleftrightarrow> (\<forall>p \<in> P. \<forall>q \<in> P. prefix p q \<longrightarrow> p = q) \<and> [] \<notin> P"

lemma prefix_take_Suc:
  assumes "strict_prefix r q" "prefix q' q" "length q' = Suc (length r)"
  shows "q' = take (Suc (length r)) q"
  using assms by (metis append_eq_conv_conj prefix_def)

lemma finite_roots: "finite (roots ps)"
proof -
  have "roots ps \<subseteq> (\<Union>p \<in> set ps. set (prefixes p))" by (auto simp: roots_def strict_prefix_def)
  then show ?thesis by (rule finite_subset) simp
qed

lemma deviation_exists:
  assumes "prefix_free P" "set ps \<subseteq> P" "ps \<noteq> []" "q \<in> P" "q \<notin> set ps"
  shows "\<exists>r \<in> roots ps. q \<in> deviations P ps r"
proof -
  define k where "k = Max {k. k \<le> length q \<and> (\<exists>p \<in> set ps. prefix (take k q) p)}"
  let ?K = "{k. k \<le> length q \<and> (\<exists>p \<in> set ps. prefix (take k q) p)}"
  have fin: "finite ?K" by simp
  have "0 \<in> ?K" using assms(3) by (cases ps) auto
  then have "k \<in> ?K" unfolding k_def using Max_in [OF fin] by blast
  then obtain p where k: "k \<le> length q" and p: "p \<in> set ps" "prefix (take k q) p" by blast
  have pP: "p \<in> P" using p assms(2) by blast
  have "k \<noteq> length q"
  proof
    assume "k = length q"
    then have "q = p" using p(2) assms(1,4) pP by (simp add: prefix_free_def)
    then show False using p(1) assms(5) by simp
  qed
  then have k': "k < length q" using k by simp
  then have sq: "strict_prefix (take k q) q" by (metis take_is_prefix strict_prefix_def length_take min.absorb4 less_irrefl)
  have "take k q \<noteq> p"
  proof
    assume "take k q = p"
    then have "prefix p q" by (metis take_is_prefix)
    then have "p = q" using assms(1,4) pP by (auto simp: prefix_free_def)
    then show False using p(1) assms(5) by simp
  qed
  then have "take k q \<in> roots ps" using p by (auto simp: roots_def strict_prefix_def)
  moreover have "\<not> prefix (take (Suc k) q) p'" if "p' \<in> set ps" for p'
  proof
    assume "prefix (take (Suc k) q) p'"
    then have "Suc k \<in> ?K" using that k' by auto
    then have "Suc k \<le> k" unfolding k_def by (rule Max_ge [OF fin])
    then show False by simp
  qed
  ultimately show ?thesis using sq k' assms(4) by (intro bexI [of _ "take k q"]) (auto simp: deviations_def min_def)
qed

lemma deviations_other:
  assumes p': "p' \<in> deviations P ps r0" "r0 \<in> roots ps" and r: "\<not> (prefix r p' \<and> length r0 \<le> length r)"
  shows "deviations P (ps @ [p']) r = deviations P ps r"
proof -
  have "\<exists>p \<in> set ps. prefix (take (Suc (length r)) q) p"
    if q: "strict_prefix r q" "prefix (take (Suc (length r)) q) p'" for q
  proof -
    have rq: "prefix r q" "length r < length q" using q(1) by (auto simp: strict_prefix_def prefix_length_less)
    have pr: "prefix r p'"
      using rq q(2) by (metis append_eq_conv_conj lessI less_imp_le_nat prefix_def prefix_order.trans take_is_prefix take_take min.absorb1)
    then have "length r < length r0" using r by simp
    moreover have "prefix r0 p'" using p'(1) by (auto simp: deviations_def strict_prefix_def)
    moreover have "length (take (Suc (length r)) q) = Suc (length r)" using rq(2) by simp
    ultimately have "prefix (take (Suc (length r)) q) r0"
      using q(2) by (metis Suc_leI prefix_length_prefix)
    then show ?thesis using p'(2) by (auto simp: roots_def strict_prefix_def intro: prefix_order.trans)
  qed
  then show ?thesis by (auto simp: deviations_def)
qed

text \<open>The roots for which there is a candidate after the path \<open>p\<close>, which left at position \<open>d\<close>, was added.\<close>

definition open_roots :: "'a list set \<Rightarrow> 'a list list \<Rightarrow> 'a list \<Rightarrow> nat \<Rightarrow> 'a list set" where
  "open_roots P ps p d = {r \<in> roots ps. deviations P ps r \<noteq> {} \<and> \<not> (prefix r p \<and> d \<le> length r)}"

lemma open_roots_add:
  assumes p': "p' \<in> deviations P ps r0" "r0 \<in> roots ps"
  shows "open_roots P (ps @ [p']) p' (length r0) = {r \<in> roots ps. deviations P ps r \<noteq> {}} - {r0}"
proof -
  have r0p: "prefix r0 p'" "strict_prefix r0 p'" using p'(1) by (auto simp: deviations_def strict_prefix_def)
  have old: "r \<in> roots ps" if "r \<in> roots (ps @ [p'])" "\<not> (prefix r p' \<and> length r0 \<le> length r)" for r
  proof (cases "strict_prefix r p'")
    case True
    then have "prefix r p'" "length r \<le> length r0" using that(2) by (auto simp: strict_prefix_def)
    then have "prefix r r0" using prefix_length_prefix [OF _ r0p(1)] by blast
    then show ?thesis using p'(2) unfolding roots_def by (auto intro: prefix_order.le_less_trans)
  next
    case False
    then show ?thesis using that(1) by (auto simp: roots_def)
  qed
  have off: "\<not> (prefix r p' \<and> length r0 \<le> length r)" if r: "r \<in> roots ps" "r \<noteq> r0" for r
  proof
    assume a: "prefix r p' \<and> length r0 \<le> length r"
    then have "prefix r0 r" using prefix_length_prefix [OF r0p(1)] by blast
    then have "strict_prefix r0 r" using r(2) by (auto simp: strict_prefix_def)
    then have "length r0 < length r" by (rule prefix_length_less)
    then have "length (take (Suc (length r0)) p') \<le> length r" by simp
    then have "prefix (take (Suc (length r0)) p') r" using prefix_length_prefix [OF take_is_prefix] a by blast
    moreover obtain p where "p \<in> set ps" "prefix r p" using r(1) by (auto simp: roots_def strict_prefix_def)
    ultimately show False using p'(1) by (auto simp: deviations_def intro: prefix_order.trans)
  qed
  show ?thesis
  proof (rule set_eqI, rule iffI)
    fix r
    assume r: "r \<in> open_roots P (ps @ [p']) p' (length r0)"
    then have "r \<noteq> r0" using r0p(1) by (auto simp: open_roots_def)
    then show "r \<in> {r \<in> roots ps. deviations P ps r \<noteq> {}} - {r0}"
      using r old [of r] deviations_other [OF p', of r] by (simp add: open_roots_def)
  next
    fix r
    assume r: "r \<in> {r \<in> roots ps. deviations P ps r \<noteq> {}} - {r0}"
    then have "r \<in> roots (ps @ [p'])" by (auto simp: roots_def)
    then show "r \<in> open_roots P (ps @ [p']) p' (length r0)"
      using r off [of r] deviations_other [OF p', of r] by (simp add: open_roots_def)
  qed
qed

text \<open>A choice of a cheapest deviation for each of some roots.\<close>

definition cheapest :: "'a list set \<Rightarrow> ('a list \<Rightarrow> int) \<Rightarrow> 'a list list \<Rightarrow> 'a list set \<Rightarrow> ('a list \<Rightarrow> 'a list) \<Rightarrow> bool" where
  "cheapest P cost ps R f \<longleftrightarrow> (\<forall>r \<in> R. f r \<in> deviations P ps r \<and> (\<forall>q \<in> deviations P ps r. cost (f r) \<le> cost q))"

lemma cheapest_next:
  assumes "prefix_free P" "set ps \<subseteq> P" "ps \<noteq> []" and f: "cheapest P cost ps {r \<in> roots ps. deviations P ps r \<noteq> {}} f"
    and r0: "r0 \<in> roots ps" "deviations P ps r0 \<noteq> {}" "\<And>r. r \<in> roots ps \<Longrightarrow> deviations P ps r \<noteq> {} \<Longrightarrow> cost (f r0) \<le> cost (f r)"
  shows "f r0 \<in> P - set ps" "\<And>q. q \<in> P - set ps \<Longrightarrow> cost (f r0) \<le> cost q"
    and "cheapest P cost (ps @ [f r0]) (open_roots P (ps @ [f r0]) (f r0) (length r0)) f"
proof -
  have dev: "f r0 \<in> deviations P ps r0" using f r0 by (auto simp: cheapest_def)
  then show "f r0 \<in> P - set ps" using take_is_prefix by (fastforce simp: deviations_def)
  show "cost (f r0) \<le> cost q" if q: "q \<in> P - set ps" for q
  proof -
    obtain r where "r \<in> roots ps" "q \<in> deviations P ps r" using deviation_exists [OF assms(1-3)] q by blast
    then show ?thesis using f r0(3) [of r] unfolding cheapest_def by fastforce
  qed
  have "deviations P (ps @ [f r0]) r = deviations P ps r" if "r \<in> open_roots P (ps @ [f r0]) (f r0) (length r0)" for r
    using that deviations_other [OF dev r0(1)] by (simp add: open_roots_def)
  then show "cheapest P cost (ps @ [f r0]) (open_roots P (ps @ [f r0]) (f r0) (length r0)) f"
    using f open_roots_add [OF dev r0(1)] by (auto simp: cheapest_def)
qed

section \<open>Simple paths\<close>

lemma awalk_append: "awalk nb u (is @ js) v \<longleftrightarrow> (\<exists>w. awalk nb u is w \<and> awalk nb w js v)"
proof (induction "is" arbitrary: u)
  case Nil
  then show ?case by (auto intro: awalk_Nil elim: awalk_NilE)
next
  case (Cons i "is")
  then show ?case by (auto simp: awalk_Cons)
qed

lemma awalk_nth: "awalk nb u is v \<Longrightarrow> k \<le> length is \<Longrightarrow> awalk nb u (take k is) ((u # map li_dst_index is) ! k)"
proof (induction k arbitrary: u "is")
  case 0
  then show ?case by (simp add: awalk_Nil)
next
  case (Suc k)
  then obtain i js where "is": "is = i # js" by (cases "is") auto
  then have "i \<in> set (nb u)" "awalk nb (li_dst_index i) js v" using Suc.prems by (auto simp: awalk_Cons)
  with Suc.IH [of "li_dst_index i" js] Suc.prems(2) show ?case by (simp add: "is" awalk_Cons)
qed

lemma awalk_end: "awalk nb u is v \<Longrightarrow> v = last (u # map li_dst_index is)"
  by (induction rule: awalk.induct) auto

lemma awalk_ends_unique: "awalk nb u is v \<Longrightarrow> awalk nb u is w \<Longrightarrow> v = w"
  using awalk_end by metis

lemma awalk_positive: "positive_neighbors nb \<Longrightarrow> awalk nb u is v \<Longrightarrow> is \<noteq> [] \<Longrightarrow> 0 < walk_length is"
proof (induction "is" arbitrary: u)
  case (Cons i "is")
  then have "0 < li_delay i" "awalk nb (li_dst_index i) is v" by (auto simp: awalk_Cons positive_neighbors_def)
  with Cons show ?case by (cases "is = []") (auto intro: add_pos_pos)
qed simp

text \<open>A shortest walk goes through no node twice.\<close>

lemma shortest_simple:
  assumes pos: "positive_neighbors nb" and w: "awalk nb u is v"
    and least: "\<And>js. awalk nb u js v \<Longrightarrow> walk_length is \<le> walk_length js"
  shows "distinct (u # map li_dst_index is)"
proof (rule ccontr)
  let ?ns = "u # map li_dst_index is"
  assume "\<not> distinct ?ns"
  then obtain i j where ij: "i < j" "j < length ?ns" "?ns ! i = ?ns ! j"
    unfolding distinct_conv_nth by (metis linorder_neqE_nat)
  have le: "i \<le> length is" "j \<le> length is" using ij by auto
  have wi: "awalk nb u (take i is) (?ns ! i)" by (rule awalk_nth [OF w le(1)])
  have wj: "awalk nb u (take j is) (?ns ! j)" by (rule awalk_nth [OF w le(2)])
  obtain m where m: "awalk nb u (take j is) m" "awalk nb m (drop j is) v"
    using w awalk_append [of nb u "take j is" "drop j is" v] by auto
  then have "m = ?ns ! i" using awalk_ends_unique [OF m(1) wj] ij(3) by simp
  then have short: "awalk nb u (take i is @ drop j is) v" using wi m(2) awalk_append by blast
  have "take i is = take i (take j is)" using ij(1) by (simp add: min_def)
  then have split: "take j is = take i is @ drop i (take j is)" by (metis append_take_drop_id)
  have "awalk nb u (take i is @ drop i (take j is)) (?ns ! j)" by (subst split [symmetric]) (rule wj)
  then obtain m' where m': "awalk nb u (take i is) m'" "awalk nb m' (drop i (take j is)) (?ns ! j)"
    unfolding awalk_append by blast
  have mid: "awalk nb (?ns ! i) (drop i (take j is)) (?ns ! j)" using m'(2) awalk_ends_unique [OF m'(1) wi] by simp
  have "drop i (take j is) \<noteq> []" using ij by auto
  from awalk_positive [OF pos mid this] have "walk_length (take i is) < walk_length (take i is @ drop i (take j is))" by simp
  then have "walk_length (take i is) < walk_length (take j is)" by (simp only: split [symmetric])
  then have "walk_length (take i is @ drop j is) < walk_length (take j is @ drop j is)"
    by (simp only: walk_length_simps add_less_cancel_right)
  with least [OF short] show False by simp
qed

lemma allowed_avoid:
  "i \<in> set (allowed_neighbors e a (Some na) (Some la) u) \<longleftrightarrow>
   i \<in> set (allowed_neighbors e a None None u) \<and> li_dst_index i \<notin> members na \<and> li_link_index i \<notin> members la"
  by (auto simp: allowed_neighbors_def CanExcludeLink_def CanExcludeNode_def members_def)

lemma awalk_avoid:
  "awalk (allowed_neighbors e a (Some na) (Some la)) u is v \<longleftrightarrow>
   awalk (allowed_neighbors e a None None) u is v \<and>
   (\<forall>i \<in> set is. li_dst_index i \<notin> members na \<and> li_link_index i \<notin> members la)"
proof (induction "is" arbitrary: u)
  case Nil
  then show ?case by (auto intro: awalk_Nil elim: awalk_NilE)
next
  case (Cons i "is")
  then show ?case by (auto simp: awalk_Cons allowed_avoid)
qed

section \<open>Paths as lists of links\<close>

definition info_at :: "GraphStorage \<Rightarrow> GraphLinkIndex \<Rightarrow> LinkInfo" where
  "info_at g l = link_info (gs_link_store g) (unat l)"

lemma info_at_simps [simp]:
  "li_link_index (info_at g l) = l" "li_src_index (info_at g l) = gl_src (link_at g l)"
  "li_dst_index (info_at g l) = gl_dst (link_at g l)" "li_delay (info_at g l) = lb_delay (link_at g l)"
  by (simp_all add: info_at_def link_info_def link_at_def)

definition path_nodes :: "GraphStorage \<Rightarrow> GraphNodeIndex \<Rightarrow> Links \<Rightarrow> GraphNodeIndex list" where
  "path_nodes g u ls = u # map (gl_dst \<circ> link_at g) ls"

definition allowed :: "GraphStorage \<Rightarrow> ExclusionSet \<Rightarrow> GraphNodeIndex \<Rightarrow> LinkInfo list" where
  "allowed g e = allowed_neighbors e (gs_adjacency_list g) None None"

text \<open>The paths from a node to another that use no excluded link or node and go through no node twice.\<close>

definition simple_paths :: "GraphStorage \<Rightarrow> ExclusionSet \<Rightarrow> GraphNodeIndex \<Rightarrow> GraphNodeIndex \<Rightarrow> Links set" where
  "simple_paths g e u v = {ls. awalk (allowed g e) u (map (info_at g) ls) v \<and> distinct (path_nodes g u ls)}"

definition path_delay :: "GraphStorage \<Rightarrow> Links \<Rightarrow> Delay" where
  "path_delay g ls = sum_list (map (lb_delay \<circ> link_at g) ls)"

lemma walk_length_info: "walk_length (map (info_at g) ls) = path_delay g ls"
  by (simp add: walk_length_def path_delay_def comp_def)

lemma path_delay_append: "path_delay g (ls @ ks) = path_delay g ls + path_delay g ks"
  by (simp add: path_delay_def)

lemma allowed_info:
  assumes "graph_wf g" "i \<in> set (allowed_neighbors e (gs_adjacency_list g) na la u)"
  shows "i = info_at g (li_link_index i)" "li_src_index i = u" "unat (li_link_index i) < length (gs_link_store g)"
proof -
  have len: "length (gs_link_store g) < 2 ^ 16" using assms(1) by (simp add: graph_wf_def store_wf_def links_wf_def)
  have "i \<in> set (neighbors (gs_link_store g) (length (gs_link_store g)) u)"
    using assms by (simp add: graph_wf_def allowed_neighbors_def)
  then show "i = info_at g (li_link_index i)" "li_src_index i = u" "unat (li_link_index i) < length (gs_link_store g)"
    using neighbors_mem [OF len, of i u] by (auto simp: info_at_def)
qed

lemma allowed_src: "graph_wf g \<Longrightarrow> info_at g l \<in> set (allowed g e u) \<Longrightarrow> gl_src (link_at g l) = u"
  using allowed_info(2) [of g "info_at g l" e None None u] by (simp add: allowed_def)

lemma awalk_info:
  assumes "graph_wf g" "awalk (allowed_neighbors e (gs_adjacency_list g) na la) u is v"
  shows "is = map (info_at g) (map li_link_index is)" "links_in g (map li_link_index is)"
  using assms(2)
proof (induction "is" arbitrary: u)
  case (Cons i "is")
  {
    case 1
    then show ?case using Cons(1) allowed_info(1) [OF assms(1)] by (auto simp: awalk_Cons)
  next
    case 2
    then show ?case using Cons(2) allowed_info(3) [OF assms(1)] by (auto simp: awalk_Cons)
  }
qed (simp_all add: links_in_def)

lemma simple_paths_links_in: "graph_wf g \<Longrightarrow> ls \<in> simple_paths g e u v \<Longrightarrow> links_in g ls"
  using awalk_info(2) [of g e None None u "map (info_at g) ls" v]
  by (simp add: simple_paths_def allowed_def comp_def)

lemma prefix_free_simple_paths:
  assumes "u \<noteq> v"
  shows "prefix_free (simple_paths g e u v)"
proof -
  have "p = q" if pq: "p \<in> simple_paths g e u v" "q \<in> simple_paths g e u v" "prefix p q" for p q
  proof -
    from pq(3) obtain z where z: "q = p @ z" by (auto simp: prefix_def)
    have ends: "v = last (path_nodes g u p)" "v = last (path_nodes g u q)"
      using pq awalk_end by (fastforce simp: simple_paths_def path_nodes_def comp_def)+
    have "distinct (path_nodes g u p @ map (gl_dst \<circ> link_at g) z)"
      using pq(2) by (auto simp: simple_paths_def path_nodes_def z)
    moreover have "v \<in> set (path_nodes g u p)"
      unfolding ends(1) by (rule last_in_set) (simp add: path_nodes_def)
    moreover have "z \<noteq> [] \<Longrightarrow> v \<in> set (map (gl_dst \<circ> link_at g) z)"
      using ends(2) by (simp add: path_nodes_def z last_map)
    ultimately have "z = []" by auto
    then show ?thesis using z by simp
  qed
  moreover have "[] \<notin> simple_paths g e u v" using assms by (auto simp: simple_paths_def elim: awalk_NilE)
  ultimately show ?thesis by (auto simp: prefix_free_def)
qed

text \<open>The sources of the links of a walk are its nodes but for the last.\<close>

lemma awalk_sources:
  assumes "graph_wf g" "awalk (allowed g e) u (map (info_at g) ls) v"
  shows "path_nodes g u ls = map (gl_src \<circ> link_at g) ls @ [v]"
  using assms(2)
proof (induction ls arbitrary: u)
  case Nil
  then show ?case by (auto simp: path_nodes_def elim: awalk_NilE)
next
  case (Cons l ls)
  then have l: "info_at g l \<in> set (allowed g e u)" "awalk (allowed g e) (gl_dst (link_at g l)) (map (info_at g) ls) v"
    by (auto simp: awalk_Cons)
  have "gl_src (link_at g l) = u" by (rule allowed_src [OF assms(1) l(1)])
  with Cons.IH [OF l(2)] show ?case by (simp add: path_nodes_def)
qed

text \<open>Where a path can leave at the end of its prefix \<open>r\<close>.\<close>

lemma simple_path_split:
  assumes "graph_wf g" "r @ js \<in> simple_paths g e src dst"
  shows "\<exists>u. awalk (allowed g e) src (map (info_at g) r) u \<and> awalk (allowed g e) u (map (info_at g) js) dst \<and>
     distinct (path_nodes g u js) \<and> distinct (map (gl_src \<circ> link_at g) r) \<and>
     set (map (gl_src \<circ> link_at g) r) \<inter> set (path_nodes g u js) = {}"
proof -
  obtain u where u: "awalk (allowed g e) src (map (info_at g) r) u" "awalk (allowed g e) u (map (info_at g) js) dst"
    using assms(2) by (auto simp: simple_paths_def awalk_append)
  have "path_nodes g src (r @ js) = map (gl_src \<circ> link_at g) r @ path_nodes g u js"
    using awalk_sources [OF assms(1) u(1)] by (simp add: path_nodes_def)
  moreover have "distinct (path_nodes g src (r @ js))" using assms(2) by (simp add: simple_paths_def)
  ultimately have "distinct (map (gl_src \<circ> link_at g) r @ path_nodes g u js)" by (simp only:)
  with u show ?thesis by (simp only: distinct_append) blast
qed

lemma simple_path_join:
  assumes "graph_wf g" "awalk (allowed g e) src (map (info_at g) r) u" "awalk (allowed g e) u (map (info_at g) js) dst"
    "distinct (path_nodes g u js)" "distinct (map (gl_src \<circ> link_at g) r)"
    "set (map (gl_src \<circ> link_at g) r) \<inter> set (path_nodes g u js) = {}"
  shows "r @ js \<in> simple_paths g e src dst"
proof -
  have "path_nodes g src (r @ js) = map (gl_src \<circ> link_at g) r @ path_nodes g u js"
    using awalk_sources [OF assms(1,2)] by (simp add: path_nodes_def)
  then have "distinct (path_nodes g src (r @ js))" using assms(4-6) by (simp only: distinct_append)
  then show ?thesis using assms(2,3) by (auto simp: simple_paths_def awalk_append)
qed

text \<open>
  What the search from the node where \<open>r\<close> ends may not use: the nodes on \<open>r\<close>, the links with which a path found
  goes on from \<open>r\<close>, and possibly links that leave nodes on \<open>r\<close>.
\<close>

definition spur_sets :: "GraphStorage \<Rightarrow> Links list \<Rightarrow> Links \<Rightarrow> phset \<Rightarrow> phset \<Rightarrow> bool" where
  "spur_sets g ps r na la \<longleftrightarrow> members na = set (map (gl_src \<circ> link_at g) r) \<and>
     {p ! length r |p. p \<in> set ps \<and> strict_prefix r p} \<subseteq> members la \<and>
     (\<forall>l \<in> members la. l \<in> {p ! length r |p. p \<in> set ps \<and> strict_prefix r p} \<or> gl_src (link_at g l) \<in> members na)"

lemma deviation_next_link:
  assumes "strict_prefix r q"
  shows "q \<in> deviations P ps r \<longleftrightarrow> q \<in> P \<and> q ! length r \<notin> {p ! length r |p. p \<in> set ps \<and> strict_prefix r p}"
proof -
  from assms obtain x z where q: "q = r @ x # z" by (auto elim: strict_prefixE')
  have "prefix (r @ [x]) p \<longleftrightarrow> strict_prefix r p \<and> p ! length r = x" for p
  proof
    assume "prefix (r @ [x]) p"
    then obtain y where "p = r @ x # y" by (auto simp: prefix_def)
    then show "strict_prefix r p \<and> p ! length r = x" by (auto simp: strict_prefix_def)
  next
    assume "strict_prefix r p \<and> p ! length r = x"
    then obtain y ys where "p = r @ y # ys" "p ! length r = x" by (auto elim: strict_prefixE')
    then show "prefix (r @ [x]) p" by simp
  qed
  then show ?thesis using assms by (auto simp: deviations_def q)
qed

lemma spur_avoids:
  assumes g: "graph_wf g" and ps: "set ps \<subseteq> simple_paths g e src dst"
    and r: "awalk (allowed g e) src (map (info_at g) r) u" "distinct (map (gl_src \<circ> link_at g) r)"
    and sets: "spur_sets g ps r na la"
    and js: "awalk (allowed g e) u (map (info_at g) js) dst" "distinct (path_nodes g u js)" "js \<noteq> []" "u \<notin> members na"
  shows "r @ js \<in> deviations (simple_paths g e src dst) ps r \<longleftrightarrow>
    (\<forall>l \<in> set js. gl_dst (link_at g l) \<notin> members na \<and> l \<notin> members la)" (is "?L \<longleftrightarrow> ?R")
proof -
  let ?next = "{p ! length r |p. p \<in> set ps \<and> strict_prefix r p}"
  have src_next: "gl_src (link_at g l) = u" if l: "l \<in> ?next" for l
  proof -
    from l obtain p where p: "p \<in> set ps" "strict_prefix r p" "l = p ! length r" by blast
    then obtain z where z: "p = r @ l # z" by (auto elim: strict_prefixE')
    from simple_path_split [OF g, of r "l # z"] p(1) ps z obtain w where
      w: "awalk (allowed g e) src (map (info_at g) r) w" "awalk (allowed g e) w (map (info_at g) (l # z)) dst" by blast
    then have "info_at g l \<in> set (allowed g e u)" using awalk_ends_unique [OF r(1) w(1)] by (simp add: awalk_Cons)
    then show ?thesis by (rule allowed_src [OF g])
  qed
  have srcs: "map (gl_src \<circ> link_at g) js @ [dst] = path_nodes g u js" using awalk_sources [OF g js(1)] by simp
  have hd: "gl_src (link_at g (hd js)) = u" using arg_cong [OF srcs, of hd] js(3) by (simp add: path_nodes_def hd_append hd_map)
  have nth: "(r @ js) ! length r = hd js" using js(3) by (simp add: nth_append hd_conv_nth)
  have sp: "strict_prefix r (r @ js)" using js(3) by (auto simp: strict_prefix_def)
  have na: "members na = set (map (gl_src \<circ> link_at g) r)" using sets by (simp add: spur_sets_def)
  have P: "r @ js \<in> simple_paths g e src dst \<longleftrightarrow> (\<forall>l \<in> set js. gl_dst (link_at g l) \<notin> members na)"
  proof
    assume "r @ js \<in> simple_paths g e src dst"
    from simple_path_split [OF g this] obtain w where w: "awalk (allowed g e) src (map (info_at g) r) w"
      "set (map (gl_src \<circ> link_at g) r) \<inter> set (path_nodes g w js) = {}" by blast
    have "w = u" using awalk_ends_unique [OF r(1) w(1)] by simp
    then have "members na \<inter> set (path_nodes g u js) = {}" using w(2) na by simp
    then show "\<forall>l \<in> set js. gl_dst (link_at g l) \<notin> members na" by (auto simp: path_nodes_def)
  next
    assume "\<forall>l \<in> set js. gl_dst (link_at g l) \<notin> members na"
    then have "members na \<inter> set (path_nodes g u js) = {}" using js(4) by (auto simp: path_nodes_def)
    then have "set (map (gl_src \<circ> link_at g) r) \<inter> set (path_nodes g u js) = {}" by (simp only: na)
    then show "r @ js \<in> simple_paths g e src dst" by (rule simple_path_join [OF g r(1) js(1,2) r(2)])
  qed
  have tl: "l \<notin> members la" if "l \<in> set (tl js)" "\<forall>l \<in> set js. gl_dst (link_at g l) \<notin> members na" for l
  proof -
    have "map (gl_src \<circ> link_at g) (tl js) @ [dst] = map (gl_dst \<circ> link_at g) js"
      using arg_cong [OF srcs, of tl] js(3) by (simp add: path_nodes_def map_tl)
    from arg_cong [OF this, of set] have "gl_src (link_at g l) \<in> set (map (gl_dst \<circ> link_at g) js)"
      using that(1) by auto
    then have "gl_src (link_at g l) \<noteq> u" "gl_src (link_at g l) \<notin> members na"
      using js(2) that(2) by (auto simp: path_nodes_def)
    then show ?thesis using sets src_next unfolding spur_sets_def by blast
  qed
  have "hd js \<in> members la \<longleftrightarrow> hd js \<in> ?next" using sets hd js(4) unfolding spur_sets_def by blast
  then show ?thesis
    unfolding deviation_next_link [OF sp] nth P
    using tl js(3) by (cases js) auto
qed

section \<open>The search for a spur path\<close>

text \<open>What is assumed of the graph and the constraints: positive delays, no sets to visit, and paths whose delay
  \<open>Delay\<close> can hold.\<close>

definition ksp_ok :: "GraphStorage \<Rightarrow> ConstraintSet \<Rightarrow> GraphNodeIndex \<Rightarrow> GraphNodeIndex \<Rightarrow> bool" where
  "ksp_ok g c src dst \<longleftrightarrow> graph_wf g \<and> (\<forall>l \<in> set (gs_link_store g). 0 < lb_delay l) \<and> src \<noteq> dst \<and>
     \<not> ExclusionSet_ShouldExcludeNode (cs_exclusion_set c) src \<and> cs_to_visit c = [] \<and>
     (\<forall>ls \<in> simple_paths g (cs_exclusion_set c) src dst. path_delay g ls < Delay_max)"

lemma positive_allowed:
  assumes "graph_wf g" "\<forall>l \<in> set (gs_link_store g). 0 < lb_delay l"
  shows "positive_neighbors (allowed_neighbors e (gs_adjacency_list g) na la)"
  unfolding positive_neighbors_def
proof (intro allI impI conjI)
  fix u i
  assume i: "i \<in> set (allowed_neighbors e (gs_adjacency_list g) na la u)"
  show "li_src_index i = u" by (rule allowed_info(2) [OF assms(1) i])
  have "link_at g (li_link_index i) \<in> set (gs_link_store g)" using allowed_info(3) [OF assms(1) i] by (simp add: link_at_def)
  then show "0 < li_delay i" using assms(2) arg_cong [OF allowed_info(1) [OF assms(1) i], of li_delay] by simp
qed

lemma awalk_end_allowed:
  "awalk (allowed g e) u is v \<Longrightarrow> v = u \<or> \<not> ExclusionSet_ShouldExcludeNode e v"
  by (cases rule: awalk.cases) (auto simp: allowed_def allowed_mem)

lemma awalk_split_info:
  assumes "graph_wf g" "awalk (allowed g e) src (map (info_at g) r) u" "awalk (allowed g e) src (map (info_at g) (r @ js)) v"
  shows "awalk (allowed g e) u (map (info_at g) js) v"
  using assms(3) awalk_ends_unique [OF assms(2)] by (auto simp: awalk_append)

lemma spur_deviations:
  assumes g: "graph_wf g" and ps: "set ps \<subseteq> simple_paths g e src dst"
    and u: "awalk (allowed g e) src (map (info_at g) r) u" "distinct (map (gl_src \<circ> link_at g) r)" "u \<notin> members na"
    and sets: "spur_sets g ps r na la"
  shows "q \<in> deviations (simple_paths g e src dst) ps r \<longleftrightarrow>
    (\<exists>js. q = r @ js \<and> js \<noteq> [] \<and> distinct (path_nodes g u js) \<and>
       awalk (allowed_neighbors e (gs_adjacency_list g) (Some na) (Some la)) u (map (info_at g) js) dst)" (is "?L \<longleftrightarrow> ?R")
proof
  let ?D = "deviations (simple_paths g e src dst) ps r"
  let ?nb = "allowed_neighbors e (gs_adjacency_list g) (Some na) (Some la)"
  have iff: "r @ js \<in> ?D \<longleftrightarrow> awalk ?nb u (map (info_at g) js) dst"
    if "js \<noteq> []" "awalk (allowed g e) u (map (info_at g) js) dst" "distinct (path_nodes g u js)" for js
    using spur_avoids [OF g ps u(1,2) sets that(2,3,1) u(3)] that(2) by (simp add: awalk_avoid allowed_def)
  show ?R if ?L
  proof -
    from that obtain js where js: "q = r @ js" "js \<noteq> []" "r @ js \<in> simple_paths g e src dst"
      by (auto simp: deviations_def strict_prefix_def prefix_def)
    obtain w where w: "awalk (allowed g e) src (map (info_at g) r) w"
      "awalk (allowed g e) w (map (info_at g) js) dst" "distinct (path_nodes g w js)"
      using simple_path_split [OF g js(3)] by blast
    have "w = u" using awalk_ends_unique [OF u(1) w(1)] by simp
    then show ?R using iff [OF js(2)] w(2,3) js(1,2) that by blast
  qed
  show ?L if ?R
  proof -
    from that obtain js where js: "q = r @ js" "js \<noteq> []" "distinct (path_nodes g u js)" "awalk ?nb u (map (info_at g) js) dst" by blast
    then have "awalk (allowed g e) u (map (info_at g) js) dst" by (simp add: awalk_avoid allowed_def)
    with iff [OF js(2) _ js(3)] js(1,4) show ?L by simp
  qed
qed

lemma length_PHSet_Insert_16: "length (PHSet_Insert [] (v :: GraphNodeIndex)) \<le> 2 ^ 16"
proof -
  have "unat v < 2 ^ LENGTH(16)" by (rule unsigned_less)
  then show ?thesis by (simp add: length_PHSet_Insert)
qed

text \<open>The plain search between two nodes, over lists of links.\<close>

lemma ShortestPathStatic_no_visits:
  fixes la :: phset
  assumes g: "graph_wf g" and pos: "\<forall>l \<in> set (gs_link_store g). 0 < lb_delay l"
    and u: "\<not> CanExcludeNode u e (Some na)" "u \<noteq> dst"
  defines "nb \<equiv> allowed_neighbors e (gs_adjacency_list g) (Some na) (Some la)"
  shows "\<exists>w. ShortestPathStatic u dst na la e [] (gs_adjacency_list g) = Some (Ok w) \<and>
    (case w of
       None \<Rightarrow> \<forall>js. awalk nb u (map (info_at g) js) dst \<longrightarrow> Delay_max \<le> path_delay g js
     | Some w \<Rightarrow> walk_links w \<noteq> [] \<and> walk_delay w = path_delay g (walk_links w) \<and>
         awalk nb u (map (info_at g) (walk_links w)) dst \<and> distinct (path_nodes g u (walk_links w)) \<and>
         (\<forall>js. awalk nb u (map (info_at g) js) dst \<longrightarrow> path_delay g (walk_links w) \<le> path_delay g js))"
proof -
  have posn: "positive_neighbors nb" unfolding nb_def by (rule positive_allowed [OF g pos])
  obtain sp where sp: "ShortestPath_new u (PHSet_Insert [] dst) e (gs_adjacency_list g) (Some na) (Some la) = Some sp"
    and paths: "if \<exists>is. awalk nb u is dst \<and> walk_length is < Delay_max
      then \<exists>is. awalk nb u is dst \<and> (\<forall>js. awalk nb u js dst \<longrightarrow> walk_length is \<le> walk_length js) \<and>
             ShortestPath_GetPathDistance sp dst = Ok (walk_length is) \<and>
             ShortestPath_GetPath sp dst = Some (Ok (if dst = u then None
               else Some \<lparr>walk_links = map li_link_index is, walk_delay = walk_length is\<rparr>))
      else ShortestPath_GetPathDistance sp dst = Ok Delay_max \<and> ShortestPath_GetPath sp dst = Some (Ok None)"
    using ShortestPath_new_paths [OF posn [unfolded nb_def] u(1) length_PHSet_Insert_16 [of dst]] unfolding nb_def by auto
  have static: "ShortestPathStatic u dst na la e [] (gs_adjacency_list g) = ShortestPath_GetPath sp dst"
    by (simp add: ShortestPathStatic_def sp)
  show ?thesis
  proof (cases "\<exists>is. awalk nb u is dst \<and> walk_length is < Delay_max")
    case True
    then obtain "is" where "is": "awalk nb u is dst" "\<And>js. awalk nb u js dst \<Longrightarrow> walk_length is \<le> walk_length js"
      and get: "ShortestPath_GetPath sp dst = Some (Ok (Some \<lparr>walk_links = map li_link_index is, walk_delay = walk_length is\<rparr>))"
      using paths u(2) unfolding if_P [OF True] by auto
    define ls where "ls = map li_link_index is"
    have info: "is = map (info_at g) ls" using awalk_info(1) [OF g "is"(1) [unfolded nb_def]] by (simp add: ls_def)
    have "ls \<noteq> []" using "is"(1) u(2) by (auto simp: info elim: awalk_NilE)
    moreover have "distinct (path_nodes g u ls)"
      using shortest_simple [OF posn "is"] by (simp add: info path_nodes_def comp_def)
    moreover have "path_delay g ls \<le> path_delay g js" if "awalk nb u (map (info_at g) js) dst" for js
      using "is"(2) [OF that] by (simp add: info walk_length_info)
    ultimately show ?thesis using static get "is"(1) by (simp add: ls_def [symmetric]) (simp add: info walk_length_info)
  next
    case False
    then have "Delay_max \<le> path_delay g js" if "awalk nb u (map (info_at g) js) dst" for js
      using that walk_length_info [of g js] by (metis not_less)
    then show ?thesis using paths static unfolding if_not_P [OF False] by simp
  qed
qed

lemma spur_search:
  assumes ok: "ksp_ok g c src dst" and ps: "set ps \<subseteq> simple_paths g (cs_exclusion_set c) src dst"
    and p: "r @ l # z \<in> simple_paths g (cs_exclusion_set c) src dst" and sets: "spur_sets g ps r na la"
  defines "D \<equiv> deviations (simple_paths g (cs_exclusion_set c) src dst) ps r"
  shows "\<exists>w. ShortestPathStatic (gl_src (link_at g l)) dst na la (cs_exclusion_set c) [] (gs_adjacency_list g) = Some (Ok w) \<and>
    (case w of
       None \<Rightarrow> D = {}
     | Some w \<Rightarrow> r @ walk_links w \<in> D \<and> (\<forall>q \<in> D. path_delay g (r @ walk_links w) \<le> path_delay g q))"
proof -
  let ?e = "cs_exclusion_set c"
  let ?nb = "allowed_neighbors ?e (gs_adjacency_list g) (Some na) (Some la)"
  have g: "graph_wf g" and pos: "\<forall>l \<in> set (gs_link_store g). 0 < lb_delay l" using ok by (auto simp: ksp_ok_def)
  obtain u where u: "awalk (allowed g ?e) src (map (info_at g) r) u" "awalk (allowed g ?e) u (map (info_at g) (l # z)) dst"
    "distinct (path_nodes g u (l # z))" "distinct (map (gl_src \<circ> link_at g) r)"
    "set (map (gl_src \<circ> link_at g) r) \<inter> set (path_nodes g u (l # z)) = {}"
    using simple_path_split [OF g p] by blast
  have uu: "gl_src (link_at g l) = u" using allowed_src [OF g, of l ?e u] u(2) by (simp add: awalk_Cons)
  have una: "u \<notin> members na" using u(5) sets by (auto simp: spur_sets_def path_nodes_def)
  have "\<not> ExclusionSet_ShouldExcludeNode ?e u" using awalk_end_allowed [OF u(1)] ok by (auto simp: ksp_ok_def)
  then have excl: "\<not> CanExcludeNode u ?e (Some na)" using una by (simp add: CanExcludeNode_def members_def)
  have udst: "u \<noteq> dst" using u(3) awalk_end [OF u(2)] by (auto simp: path_nodes_def last_map split: if_splits)
  have dev: "q \<in> D \<longleftrightarrow> (\<exists>js. q = r @ js \<and> js \<noteq> [] \<and> distinct (path_nodes g u js) \<and> awalk ?nb u (map (info_at g) js) dst)" for q
    unfolding D_def by (rule spur_deviations [OF g ps u(1,4) una sets])
  obtain w where w: "ShortestPathStatic u dst na la ?e [] (gs_adjacency_list g) = Some (Ok w)"
    and cases: "case w of
       None \<Rightarrow> \<forall>js. awalk ?nb u (map (info_at g) js) dst \<longrightarrow> Delay_max \<le> path_delay g js
     | Some w \<Rightarrow> walk_links w \<noteq> [] \<and> walk_delay w = path_delay g (walk_links w) \<and>
         awalk ?nb u (map (info_at g) (walk_links w)) dst \<and> distinct (path_nodes g u (walk_links w)) \<and>
         (\<forall>js. awalk ?nb u (map (info_at g) js) dst \<longrightarrow> path_delay g (walk_links w) \<le> path_delay g js)"
    using ShortestPathStatic_no_visits [OF g pos excl udst, of la] by blast
  show ?thesis
  proof (cases w)
    case None
    have "q \<notin> D" for q
    proof
      assume q: "q \<in> D"
      then obtain js where js: "q = r @ js" "awalk ?nb u (map (info_at g) js) dst" using dev by blast
      have "q \<in> simple_paths g ?e src dst" using q by (simp add: D_def deviations_def)
      then have "path_delay g q < Delay_max" using ok by (simp add: ksp_ok_def)
      moreover have "0 \<le> path_delay g r"
        using awalk_length_nonneg [OF u(1)] positive_allowed [OF g pos, of ?e None None]
        by (simp add: allowed_def walk_length_info)
      ultimately show False using cases None js by (auto simp: path_delay_append)
    qed
    then show ?thesis using w uu None by auto
  next
    case (Some v)
    then have "r @ walk_links v \<in> D" using cases dev by auto
    moreover have "path_delay g (r @ walk_links v) \<le> path_delay g q" if "q \<in> D" for q
      using that dev [of q] cases Some by (auto simp: path_delay_append)
    ultimately show ?thesis using w uu Some by auto
  qed
qed

end
