(* ===== verification/Ksp_Correct.thy ===== *)
theory Ksp_Correct
  imports Path_Deviations
begin

text \<open>
  The generator of the K shortest paths, \<open>KShortestPathsGenerator\<close> in \<open>src/src/net/algorithm.cc\<close>: the invariant of
  its state (\<open>ksp_inv\<close>) holds initially and after each \<open>NextPath\<close>, and gives that the generator
  returns all simple paths, by increasing delay and each once.
\<close>

section \<open>The state of the generator\<close>

definition path_walk :: "GraphStorage \<Rightarrow> Links \<Rightarrow> Walk" where
  "path_walk g ls = \<lparr>walk_links = ls, walk_delay = path_delay g ls\<rparr>"

lemma Walk_of_storage_path: "links_in g ls \<Longrightarrow> Walk_of_storage ls g = Ok (path_walk g ls)"
  by (simp add: Walk_of_storage_def TotalDelayOfLinks_def TotalDelay_from path_walk_def path_delay_def)

text \<open>The trie has every path found, under its position.\<close>

definition trie_of :: "Links list \<Rightarrow> (GraphLinkIndex, 32 word) TrieNode \<Rightarrow> bool" where
  "trie_of ps t \<longleftrightarrow> (\<forall>q. values_at q t = map of_nat (filter (\<lambda>k. prefix q (ps ! k)) [0..<length ps]))"

lemma trie_of_add:
  assumes "trie_of ps t" "ls \<noteq> []"
  shows "\<exists>t'. Trie_Add ls (of_nat (length ps)) t = Ok t' \<and> trie_of (ps @ [ls]) t'"
proof -
  have "filter (\<lambda>k. prefix q ((ps @ [ls]) ! k)) [0..<length ps] = filter (\<lambda>k. prefix q (ps ! k)) [0..<length ps]" for q
    by (rule filter_cong) (simp_all add: nth_append)
  then have "trie_of (ps @ [ls]) (Trie_AddRecursive ls (of_nat (length ps)) t)"
    using assms(1) by (simp add: trie_of_def values_at_AddRecursive)
  then show ?thesis using assms(2) by (simp add: Trie_Add_def)
qed

text \<open>A choice of candidates for some roots, as they are kept in the queue.\<close>

definition candidates_for ::
    "GraphStorage \<Rightarrow> Links set \<Rightarrow> Links list \<Rightarrow> Links set \<Rightarrow> (Walk \<times> nat) list \<Rightarrow> bool" where
  "candidates_for g P ps R q \<longleftrightarrow> heap_ordered walk_key q \<and>
     (\<exists>f. cheapest P (path_delay g) ps R f \<and>
        mset q = image_mset (\<lambda>r. (path_walk g (f r), length r)) (mset_set R))"

lemma candidates_for_add:
  assumes q: "candidates_for g P ps R q" and R: "finite R" "r \<notin> R"
    and p: "p \<in> deviations P ps r" "\<forall>p' \<in> deviations P ps r. path_delay g p \<le> path_delay g p'"
  shows "candidates_for g P ps (insert r R) (VPQ_emplace walk_key q (path_walk g p, length r))"
proof -
  obtain f where f: "cheapest P (path_delay g) ps R f"
    "mset q = image_mset (\<lambda>r. (path_walk g (f r), length r)) (mset_set R)" and heap: "heap_ordered walk_key q"
    using q by (auto simp: candidates_for_def)
  have "cheapest P (path_delay g) ps (insert r R) (f(r := p))" using f(1) p R(2) by (auto simp: cheapest_def)
  moreover have "image_mset (\<lambda>s. (path_walk g ((f(r := p)) s), length s)) (mset_set R) =
      image_mset (\<lambda>s. (path_walk g (f s), length s)) (mset_set R)"
    by (rule image_mset_cong) (use R in auto)
  ultimately show ?thesis
    using f(2) heap R by (auto simp: candidates_for_def mset_VPQ_emplace VPQ_emplace_heap intro!: exI [of _ "f(r := p)"])
qed

text \<open>
  The generator after it found the paths \<open>ps\<close>: the best ones, in order. The last one left the
  others at its start index; no candidates have been looked for yet from there on.
\<close>

definition ksp_inv :: "GraphStorage \<Rightarrow> ConstraintSet \<Rightarrow> GraphNodeIndex \<Rightarrow> GraphNodeIndex \<Rightarrow> Links list \<Rightarrow> KShortestPathsGenerator \<Rightarrow> bool" where
  "ksp_inv g c src dst ps gen \<longleftrightarrow>
     ksp_src gen = src \<and> ksp_dst gen = dst \<and> ksp_constraints gen = c \<and> ksp_storage gen = g \<and>
     map fst (ksp_k_paths gen) = map (path_walk g) ps \<and> trie_of ps (ksp_k_paths_trie gen) \<and>
     set ps \<subseteq> simple_paths g (cs_exclusion_set c) src dst \<and> distinct ps \<and> sorted (map (path_delay g) ps) \<and>
     (\<forall>q \<in> simple_paths g (cs_exclusion_set c) src dst - set ps. \<forall>p \<in> set ps. path_delay g p \<le> path_delay g q) \<and>
     (if ps = [] then ksp_candidates gen = []
      else candidates_for g (simple_paths g (cs_exclusion_set c) src dst) ps
             (open_roots (simple_paths g (cs_exclusion_set c) src dst) ps (last ps) (snd (last (ksp_k_paths gen))))
             (ksp_candidates gen))"

definition next_links :: "Links list \<Rightarrow> Links \<Rightarrow> GraphLinkIndex set" where
  "next_links ps r = {p ! length r |p. p \<in> set ps \<and> strict_prefix r p}"

lemma rfold_insert_links:
  assumes "\<And>x out. x \<in> set xs \<Longrightarrow> f x out = Ok (PHSet_Insert out (h x))"
  shows "\<exists>out'. rfold f xs out = Ok out' \<and> members out' = members out \<union> h ` set xs"
  using assms
proof (induction xs arbitrary: out)
  case (Cons x xs)
  then obtain out' where "rfold f xs (PHSet_Insert out (h x)) = Ok out'"
    "members out' = members (PHSet_Insert out (h x)) \<union> h ` set xs" by (metis list.set_intros(2))
  then show ?case using Cons.prems [of x out] by auto
qed simp

lemma GetLinkExclusionSet_next:
  assumes paths: "map fst (ksp_k_paths gen) = map (path_walk g) ps" and trie: "trie_of ps (ksp_k_paths_trie gen)"
    and len: "length ps \<le> 2 ^ 32" and strict: "\<And>p. p \<in> set ps \<Longrightarrow> prefix r p \<Longrightarrow> strict_prefix r p"
  shows "\<exists>out'. KSP_GetLinkExclusionSet gen r out = Ok out' \<and> members out' = members out \<union> next_links ps r"
proof (cases "r = []")
  case True
  have "vec_at (walk_links (fst x)) 0 = Ok (walk_links (fst x) ! 0)" if "x \<in> set (ksp_k_paths gen)" for x
  proof -
    have "fst x \<in> set (map (path_walk g) ps)" using that paths [symmetric] by simp
    then obtain p where "p \<in> set ps" "fst x = path_walk g p" by auto
    then show ?thesis using strict [of p] True by (simp add: path_walk_def vec_at_def)
  qed
  then obtain out' where out': "KSP_GetLinkExclusionSet gen r out = Ok out'"
    "members out' = members out \<union> (\<lambda>x. walk_links (fst x) ! 0) ` set (ksp_k_paths gen)"
    using rfold_insert_links [of "ksp_k_paths gen" "\<lambda>path out. rbind (vec_at (walk_links (fst path)) 0) (\<lambda>link. Ok (PHSet_Insert out link))"
        "\<lambda>x. walk_links (fst x) ! 0" out] True by (auto simp: KSP_GetLinkExclusionSet_def)
  have "(\<lambda>x. walk_links (fst x) ! 0) ` set (ksp_k_paths gen) = (\<lambda>w. walk_links w ! 0) ` set (map fst (ksp_k_paths gen))"
    by (simp add: image_image)
  also have "\<dots> = next_links ps r"
    using strict True unfolding paths set_map image_image next_links_def by (auto simp: path_walk_def)
  finally show ?thesis using out' by simp
next
  case False
  let ?ks = "filter (\<lambda>k. prefix r (ps ! k)) [0..<length ps]"
  let ?f = "\<lambda>(k :: 32 word) out. rbind (vec_at (ksp_k_paths gen) (unat k)) (\<lambda>path.
      let k_path_links = walk_links (fst path)
      in check (length k_path_links > length r)
           (rbind (vec_at k_path_links (length r)) (\<lambda>link. Ok (PHSet_Insert out link))))"
  have klen: "length (ksp_k_paths gen) = length ps" using arg_cong [OF paths, of length] by simp
  have step: "?f (of_nat k :: 32 word) out = Ok (PHSet_Insert out ((ps ! k) ! length r))" if k: "k \<in> set ?ks" for k out
  proof -
    have k': "k < length ps" "prefix r (ps ! k)" using k by auto
    then have "strict_prefix r (ps ! k)" using strict by simp
    then have "length r < length (ps ! k)" by (rule prefix_length_less)
    moreover have "fst (ksp_k_paths gen ! k) = path_walk g (ps ! k)"
      using arg_cong [OF paths, of "\<lambda>xs. xs ! k"] k'(1) klen by simp
    moreover have "unat (of_nat k :: 32 word) = k" using k'(1) len by (intro of_nat_unat_less) simp
    ultimately show ?thesis using k'(1) klen by (simp add: path_walk_def Let_def check_def)
  qed
  have "KSP_GetLinkExclusionSet gen r out = rfold ?f (map of_nat ?ks) out"
    using trie False by (simp add: KSP_GetLinkExclusionSet_def SequencesWithPrefix_Ok trie_of_def)
  also have "\<dots> = rfold (\<lambda>k. ?f (of_nat k)) ?ks out" by (rule rfold_map)
  finally have "KSP_GetLinkExclusionSet gen r out = rfold (\<lambda>k. ?f (of_nat k)) ?ks out" .
  moreover obtain out' where "rfold (\<lambda>k. ?f (of_nat k)) ?ks out = Ok out'"
    "members out' = members out \<union> (\<lambda>k. (ps ! k) ! length r) ` set ?ks"
    using rfold_insert_links [of ?ks "\<lambda>k. ?f (of_nat k)" "\<lambda>k. (ps ! k) ! length r" out] step by blast
  moreover have "(\<lambda>k. (ps ! k) ! length r) ` set ?ks = next_links ps r"
    using strict by (fastforce simp: next_links_def in_set_conv_nth strict_prefix_def)
  ultimately show ?thesis by auto
qed

section \<open>The next path\<close>

lemma open_roots_Suc:
  assumes "prefix_free P" "set ps \<subseteq> P" "p \<in> set ps" "i < length p"
  shows "open_roots P ps p (Suc i) =
      (if deviations P ps (take i p) = {} then open_roots P ps p i else insert (take i p) (open_roots P ps p i))"
    and "take i p \<notin> open_roots P ps p i"
proof -
  have root: "take i p \<in> roots ps" using assms(3,4) unfolding roots_def strict_prefix_def
    by (auto intro!: bexI [of _ p] take_is_prefix dest: arg_cong [of _ _ length])
  have eq: "r = take i p" if "prefix r p" "length r = i" for r using that by (auto simp: prefix_def)
  show "open_roots P ps p (Suc i) =
      (if deviations P ps (take i p) = {} then open_roots P ps p i else insert (take i p) (open_roots P ps p i))"
  proof (rule set_eqI)
    fix r
    have "prefix r p \<and> Suc i \<le> length r \<longleftrightarrow> prefix r p \<and> i \<le> length r \<and> r \<noteq> take i p"
      using eq [of r] assms(4) by (auto simp: Suc_le_eq less_le)
    then show "r \<in> open_roots P ps p (Suc i) \<longleftrightarrow>
        r \<in> (if deviations P ps (take i p) = {} then open_roots P ps p i else insert (take i p) (open_roots P ps p i))"
      using root assms(4) by (auto simp: open_roots_def take_is_prefix)
  qed
  show "take i p \<notin> open_roots P ps p i" using assms(4) by (simp add: open_roots_def take_is_prefix)
qed

lemma open_roots_all:
  assumes "prefix_free P" "set ps \<subseteq> P" "p \<in> set ps" "length p \<le> i"
  shows "open_roots P ps p i = {r \<in> roots ps. deviations P ps r \<noteq> {}}"
proof -
  have "\<not> (prefix r p \<and> i \<le> length r)" if "r \<in> roots ps" for r
  proof
    assume "prefix r p \<and> i \<le> length r"
    then have r: "prefix r p \<and> length p \<le> length r" using assms(4) by simp
    then have "r = p" by (metis append_eq_append_conv append_self_conv le_antisym prefix_def prefix_length_le)
    with that obtain q where "q \<in> set ps" "strict_prefix p q" by (auto simp: roots_def)
    then show False using assms by (auto simp: prefix_free_def strict_prefix_def)
  qed
  then show ?thesis by (auto simp: open_roots_def)
qed

text \<open>The state of the loop over the links of the last path \<open>p\<close>, before position \<open>i\<close>.\<close>

definition spur_inv ::
    "GraphStorage \<Rightarrow> Links set \<Rightarrow> Links list \<Rightarrow> Links \<Rightarrow> nat \<Rightarrow> nat \<Rightarrow> spur_state \<Rightarrow> bool" where
  "spur_inv g P ps p d i s \<longleftrightarrow> sps_root_path s = take i p \<and>
     members (sps_nodes_to_exclude s) = set (map (gl_src \<circ> link_at g) (take i p)) \<and>
     (\<forall>l \<in> members (sps_links_to_exclude s). gl_src (link_at g l) \<in> members (sps_nodes_to_exclude s)) \<and>
     candidates_for g P ps (open_roots P ps p (max d i)) (sps_candidates s)"

lemma next_links_src:
  assumes g: "graph_wf g" and ps: "set ps \<subseteq> simple_paths g e src dst"
    and p: "r @ l # z \<in> simple_paths g e src dst" and k: "k \<in> next_links ps r"
  shows "gl_src (link_at g k) = gl_src (link_at g l)"
proof -
  from k obtain y where y: "r @ k # y \<in> simple_paths g e src dst"
    using ps by (auto simp: next_links_def elim!: strict_prefixE')
  have "awalk (allowed g e) src (map (info_at g) r) (gl_src (link_at g l))"
    if "r @ l # z \<in> simple_paths g e src dst" for l z
    using simple_path_split [OF g that] allowed_src [OF g, of l e] by (auto simp: awalk_Cons)
  from awalk_ends_unique [OF this [OF y] this [OF p]] show ?thesis .
qed

text \<open>The root path at a position of a path already found, and the link that follows it.\<close>

lemma found_path_at:
  assumes g: "graph_wf g" and ne: "src \<noteq> dst" and ps: "set ps \<subseteq> simple_paths g e src dst" and p: "p \<in> set ps" "i < length p"
  shows "p = take i p @ p ! i # drop (Suc i) p" "take i p @ p ! i # drop (Suc i) p \<in> simple_paths g e src dst"
    "vec_at p i = Ok (p ! i)" "GraphStorage_GetLink g (p ! i) = Ok (link_at g (p ! i))" "links_in g (take i p)"
    "\<And>q. q \<in> set ps \<Longrightarrow> prefix (take i p) q \<Longrightarrow> strict_prefix (take i p) q"
proof -
  show split: "p = take i p @ p ! i # drop (Suc i) p" by (rule id_take_nth_drop [OF p(2)])
  show "take i p @ p ! i # drop (Suc i) p \<in> simple_paths g e src dst" using split ps p(1) by auto
  have inn: "links_in g p" using simple_paths_links_in [OF g] ps p(1) by auto
  show "vec_at p i = Ok (p ! i)" using p(2) by simp
  show "GraphStorage_GetLink g (p ! i) = Ok (link_at g (p ! i))"
    using p(2) inn by (auto simp: links_in_def intro!: GetLink_in)
  show "links_in g (take i p)" using inn by (auto simp: links_in_def dest: in_set_takeD)
  show "strict_prefix (take i p) q" if "q \<in> set ps" "prefix (take i p) q" for q
  proof -
    have "take i p \<noteq> q"
    proof
      assume "take i p = q"
      then have "q \<in> simple_paths g e src dst" "p \<in> simple_paths g e src dst" "prefix q p" "q \<noteq> p"
        using that(1) ps p by (auto simp: take_is_prefix)
      then show False using prefix_free_simple_paths [OF ne, of g e] by (auto simp: prefix_free_def)
    qed
    then show ?thesis using that(2) by (simp add: strict_prefix_def)
  qed
qed

text \<open>Past the deviation point of the last path, the search from the spur node finds the cheapest deviation.\<close>

lemma KSP_spur_search:
  assumes ok: "ksp_ok g c src dst" and len: "length ps \<le> 2 ^ 32"
    and gen: "ksp_inv g c src dst ps gen" and p: "p \<in> set ps" "i < length p"
  defines "P \<equiv> simple_paths g (cs_exclusion_set c) src dst" and "r \<equiv> take i p" and "u \<equiv> gl_src (link_at g (p ! i))"
  assumes s: "spur_inv g P ps p d i s"
  shows "\<exists>la w. KSP_GetLinkExclusionSet gen r (sps_links_to_exclude s) = Ok la \<and>
    KSP_ShortestPath gen u dst (sps_nodes_to_exclude s) la r = Some (Ok w) \<and>
    (\<forall>k \<in> members la. gl_src (link_at g k) \<in> insert u (members (sps_nodes_to_exclude s))) \<and>
    (case w of None \<Rightarrow> deviations P ps r = {}
     | Some w \<Rightarrow> r @ walk_links w \<in> deviations P ps r \<and>
         (\<forall>q \<in> deviations P ps r. path_delay g (r @ walk_links w) \<le> path_delay g q))"
proof -
  have g: "graph_wf g" and ne: "src \<noteq> dst" using ok by (auto simp: ksp_ok_def)
  have ps: "set ps \<subseteq> simple_paths g (cs_exclusion_set c) src dst"
    and gen': "ksp_dst gen = dst" "ksp_constraints gen = c" "ksp_storage gen = g"
      "map fst (ksp_k_paths gen) = map (path_walk g) ps" "trie_of ps (ksp_k_paths_trie gen)"
    using gen by (auto simp: ksp_inv_def)
  note at = found_path_at [OF g ne ps p, folded r_def]
  obtain la where la: "KSP_GetLinkExclusionSet gen r (sps_links_to_exclude s) = Ok la"
    "members la = members (sps_links_to_exclude s) \<union> next_links ps r"
    using GetLinkExclusionSet_next [OF gen'(4,5) len at(6)] by blast
  have sets: "spur_sets g ps r (sps_nodes_to_exclude s) la"
    using s la(2) unfolding spur_sets_def next_links_def [symmetric] by (auto simp: spur_inv_def r_def)
  from spur_search [OF ok ps at(2) sets] obtain w where
    w: "ShortestPathStatic u dst (sps_nodes_to_exclude s) la (cs_exclusion_set c) [] (gs_adjacency_list g) = Some (Ok w)"
      "case w of None \<Rightarrow> deviations P ps r = {}
       | Some w \<Rightarrow> r @ walk_links w \<in> deviations P ps r \<and>
           (\<forall>q \<in> deviations P ps r. path_delay g (r @ walk_links w) \<le> path_delay g q)"
    unfolding P_def u_def by blast
  obtain m where "ConstraintSet_MinVisit c r g = Ok m" using MinVisit_climb at(5) by blast
  then have "KSP_ShortestPath gen u dst (sps_nodes_to_exclude s) la r = Some (Ok w)"
    using w ok by (simp add: KSP_ShortestPath_def gen' ksp_ok_def)
  moreover have "\<forall>k \<in> members la. gl_src (link_at g k) \<in> insert u (members (sps_nodes_to_exclude s))"
    using la(2) s next_links_src [OF g ps at(2)] by (auto simp: spur_inv_def u_def)
  ultimately show ?thesis using la(1) w(2) by blast
qed

lemma spur_inv_advance:
  assumes "spur_inv g P ps p d i s" "i < length p"
    and "\<forall>k \<in> members la. gl_src (link_at g k) \<in> insert (gl_src (link_at g (p ! i))) (members (sps_nodes_to_exclude s))"
    and "candidates_for g P ps (open_roots P ps p (max d (Suc i))) q"
  shows "spur_inv g P ps p d (Suc i) (s\<lparr>sps_links_to_exclude := la, sps_candidates := q,
    sps_nodes_to_exclude := PHSet_Insert (sps_nodes_to_exclude s) (gl_src (link_at g (p ! i))),
    sps_root_path := sps_root_path s @ [p ! i]\<rparr>)"
  using assms by (auto simp: spur_inv_def take_Suc_conv_app_nth)

lemma KSP_spur_step:
  assumes ok: "ksp_ok g c src dst" and len: "length ps \<le> 2 ^ 32"
    and gen: "ksp_inv g c src dst ps gen" and p: "p \<in> set ps" "i < length p"
  defines "P \<equiv> simple_paths g (cs_exclusion_set c) src dst"
  assumes s: "spur_inv g P ps p d i s"
  shows "\<exists>t. KSP_spur gen p d i s = Some (Ok t) \<and> spur_inv g P ps p d (Suc i) t"
proof -
  have g: "graph_wf g" and ne: "src \<noteq> dst" and pf: "prefix_free P" using ok prefix_free_simple_paths by (auto simp: ksp_ok_def P_def)
  have ps: "set ps \<subseteq> P" and gen': "ksp_dst gen = dst" "ksp_constraints gen = c" "ksp_storage gen = g"
    using gen by (auto simp: ksp_inv_def P_def)
  note at = found_path_at [OF g ne ps [unfolded P_def] p] and adv = spur_inv_advance [OF s p(2)]
    and roots_i = open_roots_Suc [OF pf ps p]
  have root: "sps_root_path s = take i p" using s by (simp add: spur_inv_def)
  have old: "candidates_for g P ps (open_roots P ps p (max d i)) (sps_candidates s)" using s by (simp add: spur_inv_def)
  show ?thesis
  proof (cases "i < d")
    case True
    then have "max d (Suc i) = max d i" by simp
    then have "candidates_for g P ps (open_roots P ps p (max d (Suc i))) (sps_candidates s)" using old by simp
    moreover have "\<forall>k \<in> members (sps_links_to_exclude s). gl_src (link_at g k) \<in>
        insert (gl_src (link_at g (p ! i))) (members (sps_nodes_to_exclude s))" using s unfolding spur_inv_def by blast
    ultimately show ?thesis using adv [of "sps_links_to_exclude s" "sps_candidates s"] True
      by (simp add: KSP_spur_def gen' at(3,4) Let_def)
  next
    case False
    then have old': "candidates_for g P ps (open_roots P ps p i) (sps_candidates s)" using old by (simp add: max_def)
    from KSP_spur_search [OF ok len gen p s [unfolded P_def]] obtain la w where
      la: "KSP_GetLinkExclusionSet gen (take i p) (sps_links_to_exclude s) = Ok la"
        "KSP_ShortestPath gen (gl_src (link_at g (p ! i))) dst (sps_nodes_to_exclude s) la (take i p) = Some (Ok w)"
        "\<forall>k \<in> members la. gl_src (link_at g k) \<in> insert (gl_src (link_at g (p ! i))) (members (sps_nodes_to_exclude s))"
      and dev: "case w of None \<Rightarrow> deviations P ps (take i p) = {}
        | Some w \<Rightarrow> take i p @ walk_links w \<in> deviations P ps (take i p) \<and>
            (\<forall>q \<in> deviations P ps (take i p). path_delay g (take i p @ walk_links w) \<le> path_delay g q)"
      unfolding P_def by blast
    have max: "max d (Suc i) = Suc i" using False by simp
    show ?thesis
    proof (cases w)
      case None
      then have "candidates_for g P ps (open_roots P ps p (Suc i)) (sps_candidates s)" using old' dev roots_i(1) by simp
      from adv [OF la(3), unfolded max, OF this] show ?thesis
        using False None by (simp add: KSP_spur_def gen' at(3,4) Let_def root la)
    next
      case (Some v)
      then have best: "take i p @ walk_links v \<in> deviations P ps (take i p)"
        "\<forall>q \<in> deviations P ps (take i p). path_delay g (take i p @ walk_links v) \<le> path_delay g q" using dev by auto
      have "finite (open_roots P ps p i)" by (rule finite_subset [OF _ finite_roots]) (auto simp: open_roots_def)
      from candidates_for_add [OF old' this roots_i(2) best]
      have "candidates_for g P ps (open_roots P ps p (Suc i))
          (VPQ_emplace walk_key (sps_candidates s) (path_walk g (take i p @ walk_links v), i))"
        using roots_i(1) best(1) p(2) by auto
      note adv [OF la(3), unfolded max, OF this]
      moreover have "Walk_of_storage (take i p @ walk_links v) g = Ok (path_walk g (take i p @ walk_links v))"
        using best(1) simple_paths_links_in [OF g] by (intro Walk_of_storage_path) (auto simp: deviations_def P_def)
      ultimately show ?thesis using False Some by (simp add: KSP_spur_def gen' at(3,4) Let_def root la)
    qed
  qed
qed

lemma KSP_spur_loop:
  assumes ok: "ksp_ok g c src dst" "length ps \<le> 2 ^ 32" "ksp_inv g c src dst ps gen" and p: "p \<in> set ps"
  defines "P \<equiv> simple_paths g (cs_exclusion_set c) src dst"
  assumes s: "spur_inv g P ps p d 0 s" and "k \<le> length p"
  shows "\<exists>t. orfold (KSP_spur gen p d) [0..<k] s = Some (Ok t) \<and> spur_inv g P ps p d k t"
  using assms(7)
proof (induction k)
  case 0
  then show ?case using s by simp
next
  case (Suc k)
  then obtain t where t: "orfold (KSP_spur gen p d) [0..<k] s = Some (Ok t)" "spur_inv g P ps p d k t" by auto
  obtain u where "KSP_spur gen p d k t = Some (Ok u)" "spur_inv g P ps p d (Suc k) u"
    using KSP_spur_step [OF ok p, of k d t] Suc.prems t(2) unfolding P_def by auto
  then show ?case using t(1) by (simp add: orfold_append)
qed

lemma ksp_inv_new_path:
  assumes inv: "ksp_inv g c src dst ps gen" and ls: "ls \<in> simple_paths g (cs_exclusion_set c) src dst - set ps"
    and best: "\<And>q. q \<in> simple_paths g (cs_exclusion_set c) src dst - set ps \<Longrightarrow> path_delay g ls \<le> path_delay g q"
    and trie: "trie_of (ps @ [ls]) trie"
    and cands: "candidates_for g (simple_paths g (cs_exclusion_set c) src dst) (ps @ [ls])
      (open_roots (simple_paths g (cs_exclusion_set c) src dst) (ps @ [ls]) ls d) q"
  shows "ksp_inv g c src dst (ps @ [ls])
    (gen\<lparr>ksp_candidates := q, ksp_k_paths_trie := trie, ksp_k_paths := ksp_k_paths gen @ [(path_walk g ls, d)]\<rparr>)"
proof -
  have "sorted (map (path_delay g) (ps @ [ls]))"
    using inv ls by (auto simp: ksp_inv_def sorted_append)
  moreover have "path_delay g p \<le> path_delay g q"
    if "q \<in> simple_paths g (cs_exclusion_set c) src dst - set (ps @ [ls])" "p \<in> set (ps @ [ls])" for p q
    using that inv best by (auto simp: ksp_inv_def)
  ultimately show ?thesis using inv ls trie cands by (auto simp: ksp_inv_def)
qed

lemma candidates_pop:
  assumes pf: "prefix_free P" "set ps \<subseteq> P" "ps \<noteq> []"
    and q: "candidates_for g P ps {r \<in> roots ps. deviations P ps r \<noteq> {}} q" "q \<noteq> []"
  shows "\<exists>ls d. VPQ_PopTop walk_key q = Ok ((path_walk g ls, d), pop_heap_back walk_key q) \<and> ls \<in> P - set ps \<and>
    (\<forall>p \<in> P - set ps. path_delay g ls \<le> path_delay g p) \<and>
    candidates_for g P (ps @ [ls]) (open_roots P (ps @ [ls]) ls d) (pop_heap_back walk_key q)"
proof -
  let ?R = "{r \<in> roots ps. deviations P ps r \<noteq> {}}"
  obtain f where f: "cheapest P (path_delay g) ps ?R f"
    "mset q = image_mset (\<lambda>r. (path_walk g (f r), length r)) (mset_set ?R)" and heap: "heap_ordered walk_key q"
    using q(1) by (auto simp: candidates_for_def)
  have finR: "finite ?R" using finite_roots [of ps] by simp
  have qne: "mset q \<noteq> {#}" using q(2) by simp
  have "hd q \<in># mset q" using vpq.top [OF heap qne] by blast
  then obtain r0 where r0: "r0 \<in> ?R" "hd q = (path_walk g (f r0), length r0)" using f(2) finR by auto
  have least: "path_delay g (f r0) \<le> path_delay g (f r)" if "r \<in> roots ps" "deviations P ps r \<noteq> {}" for r
  proof -
    have "(path_walk g (f r), length r) \<in># mset q" using that f(2) finR by auto
    then have "walk_key (hd q) \<le> walk_key (path_walk g (f r), length r)" using vpq.top [OF heap qne] by blast
    then show ?thesis by (auto simp: r0(2) walk_key_def path_walk_def less_eq_prod_def)
  qed
  note nxt = cheapest_next [OF pf f(1), of r0]
  have r0': "r0 \<in> roots ps" "deviations P ps r0 \<noteq> {}" using r0(1) by auto
  have dev: "f r0 \<in> deviations P ps r0" using f(1) r0(1) by (auto simp: cheapest_def)
  have "mset (pop_heap_back walk_key q) = mset q - {#hd q#}" using vpq.pop [OF heap qne] by blast
  also have "\<dots> = image_mset (\<lambda>r. (path_walk g (f r), length r)) (mset_set ?R - {#r0#})"
    using r0(1) finR by (simp add: f(2) r0(2) image_mset_Diff)
  also have "mset_set ?R - {#r0#} = mset_set (?R - {r0})" using r0(1) finR by (simp add: mset_set_Diff)
  finally have "candidates_for g P (ps @ [f r0]) (open_roots P (ps @ [f r0]) (f r0) (length r0)) (pop_heap_back walk_key q)"
    using nxt(3) [OF r0' least] vpq.pop [OF heap qne] open_roots_add [OF dev r0'(1)]
    by (auto simp: candidates_for_def)
  moreover have "VPQ_PopTop walk_key q = Ok ((path_walk g (f r0), length r0), pop_heap_back walk_key q)"
    using q(2) r0(2) by simp
  ultimately show ?thesis using nxt(1,2) [OF r0' least] by blast
qed

text \<open>The first search.\<close>

lemma KSP_first_search:
  assumes ok: "ksp_ok g c src dst" and gen: "ksp_constraints gen = c" "ksp_storage gen = g"
  defines "P \<equiv> simple_paths g (cs_exclusion_set c) src dst"
  shows "\<exists>w. KSP_ShortestPath gen src dst [] [] [] = Some (Ok w) \<and>
    (case w of None \<Rightarrow> P = {}
     | Some v \<Rightarrow> v = path_walk g (walk_links v) \<and> walk_links v \<in> P \<and> (\<forall>q \<in> P. path_delay g (walk_links v) \<le> path_delay g q))"
proof -
  let ?e = "cs_exclusion_set c"
  let ?nb = "allowed_neighbors ?e (gs_adjacency_list g) (Some []) (Some [])"
  have g: "graph_wf g" and pos: "\<forall>l \<in> set (gs_link_store g). 0 < lb_delay l" and ne: "src \<noteq> dst" and tv: "cs_to_visit c = []"
    and below: "\<forall>ls \<in> P. path_delay g ls < Delay_max"
    using ok by (auto simp: ksp_ok_def P_def)
  have nb: "awalk ?nb u (map (info_at g) js) v \<longleftrightarrow> awalk (allowed g ?e) u (map (info_at g) js) v" for u js v
    by (simp add: awalk_avoid allowed_def)
  have "\<not> CanExcludeNode src ?e (Some [])" using ok by (simp add: ksp_ok_def CanExcludeNode_def)
  from ShortestPathStatic_no_visits [OF g pos this ne, of "[]"] obtain w where
    w: "ShortestPathStatic src dst [] [] ?e [] (gs_adjacency_list g) = Some (Ok w)"
    and cases: "case w of
       None \<Rightarrow> \<forall>js. awalk ?nb src (map (info_at g) js) dst \<longrightarrow> Delay_max \<le> path_delay g js
     | Some w \<Rightarrow> walk_links w \<noteq> [] \<and> walk_delay w = path_delay g (walk_links w) \<and>
         awalk ?nb src (map (info_at g) (walk_links w)) dst \<and> distinct (path_nodes g src (walk_links w)) \<and>
         (\<forall>js. awalk ?nb src (map (info_at g) js) dst \<longrightarrow> path_delay g (walk_links w) \<le> path_delay g js)" by blast
  have "KSP_ShortestPath gen src dst [] [] [] = Some (Ok w)"
    using w tv by (simp add: KSP_ShortestPath_def gen ConstraintSet_MinVisit_def)
  moreover have "case w of None \<Rightarrow> P = {}
     | Some v \<Rightarrow> v = path_walk g (walk_links v) \<and> walk_links v \<in> P \<and> (\<forall>q \<in> P. path_delay g (walk_links v) \<le> path_delay g q)"
  proof (cases w)
    case None
    then show ?thesis using below cases nb unfolding P_def simple_paths_def by fastforce
  next
    case (Some v)
    then show ?thesis using cases nb by (simp add: P_def simple_paths_def path_walk_def)
  qed
  ultimately show ?thesis by blast
qed

lemma KSP_NextPath_first:
  assumes ok: "ksp_ok g c src dst" and inv: "ksp_inv g c src dst [] gen"
  shows "\<exists>b gen'. KSP_NextPath gen = Some (Ok (b, gen')) \<and>
    (if b then \<exists>ls. ksp_inv g c src dst [ls] gen'
     else ksp_inv g c src dst [] gen' \<and> simple_paths g (cs_exclusion_set c) src dst = {})"
proof -
  let ?P = "simple_paths g (cs_exclusion_set c) src dst"
  have gen: "ksp_src gen = src" "ksp_dst gen = dst" "ksp_constraints gen = c" "ksp_storage gen = g" "ksp_k_paths gen = []"
    "trie_of [] (ksp_k_paths_trie gen)" "ksp_candidates gen = []"
    using inv by (auto simp: ksp_inv_def)
  obtain w where sp: "KSP_ShortestPath gen src dst [] [] [] = Some (Ok w)"
    and cases: "case w of None \<Rightarrow> ?P = {}
     | Some v \<Rightarrow> v = path_walk g (walk_links v) \<and> walk_links v \<in> ?P \<and> (\<forall>q \<in> ?P. path_delay g (walk_links v) \<le> path_delay g q)"
    using KSP_first_search [OF ok gen(3,4)] by blast
  show ?thesis
  proof (cases w)
    case None
    then show ?thesis using inv sp cases by (auto simp: KSP_NextPath_def gen)
  next
    case (Some v)
    define ls where "ls = walk_links v"
    have v: "v = path_walk g ls" and ls: "ls \<in> ?P - set []"
      and best: "\<And>q. q \<in> ?P - set [] \<Longrightarrow> path_delay g ls \<le> path_delay g q" using cases Some by (auto simp: ls_def)
    have "prefix_free ?P" using ok prefix_free_simple_paths by (auto simp: ksp_ok_def)
    then have "ls \<noteq> []" using ls by (auto simp: prefix_free_def)
    then obtain trie where trie: "Trie_Add ls 0 (ksp_k_paths_trie gen) = Ok trie" "trie_of ([] @ [ls]) trie"
      using trie_of_add [OF gen(6)] by auto
    let ?gen' = "gen\<lparr>ksp_k_paths_trie := trie, ksp_k_paths := [(path_walk g ls, 0)]\<rparr>"
    have "open_roots ?P [ls] ls 0 = {}" by (auto simp: open_roots_def roots_def strict_prefix_def)
    then have "candidates_for g ?P ([] @ [ls]) (open_roots ?P ([] @ [ls]) ls 0) []"
      by (simp add: candidates_for_def cheapest_def)
    from ksp_inv_new_path [OF inv ls best trie(2) this] have new: "ksp_inv g c src dst [ls] 
      (gen\<lparr>ksp_candidates := [], ksp_k_paths_trie := trie, ksp_k_paths := [(path_walk g ls, 0)]\<rparr>)"
      by (simp add: gen(5))
    have "gen\<lparr>ksp_candidates := [], ksp_k_paths_trie := trie, ksp_k_paths := [(path_walk g ls, 0)]\<rparr> = ?gen'" using gen(7) by (cases gen) simp
    with new have "ksp_inv g c src dst [ls] ?gen'" by simp
    moreover have "KSP_NextPath gen = Some (Ok (True, ?gen'))"
      using sp trie(1) unfolding Some ls_def [symmetric] by (simp add: KSP_NextPath_def gen ls_def [symmetric]) (simp add: v)
    ultimately show ?thesis by (intro exI [of _ True] exI conjI) (simp, auto)
  qed
qed

text \<open>After the loop over the links of the last path every root has its candidate.\<close>

lemma KSP_NextPath_candidates:
  assumes ok: "ksp_ok g c src dst" and len: "length ps \<le> 2 ^ 32" and inv: "ksp_inv g c src dst ps gen" and ne: "ps \<noteq> []"
  defines "P \<equiv> simple_paths g (cs_exclusion_set c) src dst"
  shows "\<exists>q. candidates_for g P ps {r \<in> roots ps. deviations P ps r \<noteq> {}} q \<and>
    KSP_NextPath gen = (let gen = gen\<lparr>ksp_candidates := q\<rparr>
      in if q = [] then Some (Ok (False, gen))
         else orbind (Some (VPQ_PopTop walk_key q)) (\<lambda>(min_candidate, candidates).
           orbind (Some (Trie_Add (walk_links (fst min_candidate)) (of_nat (length ps)) (ksp_k_paths_trie gen))) (\<lambda>trie.
             Some (Ok (True, gen\<lparr>ksp_candidates := candidates, ksp_k_paths_trie := trie,
                                 ksp_k_paths := ksp_k_paths gen @ [min_candidate]\<rparr>)))))"
proof -
  let ?p = "last ps" and ?d = "snd (last (ksp_k_paths gen))"
  have gen: "map fst (ksp_k_paths gen) = map (path_walk g) ps" "set ps \<subseteq> P"
    "candidates_for g P ps (open_roots P ps ?p ?d) (ksp_candidates gen)"
    using inv ne by (auto simp: ksp_inv_def P_def)
  have kne: "ksp_k_paths gen \<noteq> []" using gen(1) ne by auto
  have klen: "length (ksp_k_paths gen) = length ps" using arg_cong [OF gen(1), of length] by simp
  have lastp: "walk_links (fst (last (ksp_k_paths gen))) = ?p"
    using arg_cong [OF gen(1), of last] kne ne by (simp add: last_map path_walk_def)
  have p: "?p \<in> set ps" using ne by simp
  have pf: "prefix_free P" using ok prefix_free_simple_paths by (auto simp: ksp_ok_def P_def)
  let ?s = "\<lparr>sps_links_to_exclude = [], sps_nodes_to_exclude = [], sps_root_path = [], sps_candidates = ksp_candidates gen\<rparr>"
  have "spur_inv g P ps ?p ?d 0 ?s" using gen(3) by (simp add: spur_inv_def)
  from KSP_spur_loop [OF ok len inv p this [unfolded P_def] le_refl] obtain t where
    t: "orfold (KSP_spur gen ?p ?d) [0..<length ?p] ?s = Some (Ok t)" "spur_inv g P ps ?p ?d (length ?p) t"
    unfolding P_def by blast
  have "candidates_for g P ps {r \<in> roots ps. deviations P ps r \<noteq> {}} (sps_candidates t)"
    using t(2) open_roots_all [OF pf gen(2) p, of "max ?d (length ?p)"] by (simp add: spur_inv_def)
  then show ?thesis using kne lastp t(1) by (intro exI [of _ "sps_candidates t"]) (simp add: KSP_NextPath_def Let_def klen)
qed

lemma KSP_NextPath_more:
  assumes ok: "ksp_ok g c src dst" and len: "length ps \<le> 2 ^ 32" and inv: "ksp_inv g c src dst ps gen" and ne: "ps \<noteq> []"
  shows "\<exists>b gen'. KSP_NextPath gen = Some (Ok (b, gen')) \<and>
    (if b then \<exists>ls. ksp_inv g c src dst (ps @ [ls]) gen'
     else ksp_inv g c src dst ps gen' \<and> simple_paths g (cs_exclusion_set c) src dst = set ps)"
proof -
  let ?P = "simple_paths g (cs_exclusion_set c) src dst"
  have gen: "trie_of ps (ksp_k_paths_trie gen)" "set ps \<subseteq> ?P" using inv by (auto simp: ksp_inv_def)
  have pf: "prefix_free ?P" using ok prefix_free_simple_paths by (auto simp: ksp_ok_def)
  from KSP_NextPath_candidates [OF ok len inv ne] obtain q where cands: "candidates_for g ?P ps {r \<in> roots ps. deviations ?P ps r \<noteq> {}} q"
    and next': "KSP_NextPath gen = (let gen = gen\<lparr>ksp_candidates := q\<rparr>
      in if q = [] then Some (Ok (False, gen))
         else orbind (Some (VPQ_PopTop walk_key q)) (\<lambda>(min_candidate, candidates).
           orbind (Some (Trie_Add (walk_links (fst min_candidate)) (of_nat (length ps)) (ksp_k_paths_trie gen))) (\<lambda>trie.
             Some (Ok (True, gen\<lparr>ksp_candidates := candidates, ksp_k_paths_trie := trie,
                                 ksp_k_paths := ksp_k_paths gen @ [min_candidate]\<rparr>)))))" by blast
  show ?thesis
  proof (cases "q = []")
    case True
    then have none: "{r \<in> roots ps. deviations ?P ps r \<noteq> {}} = {}"
      using cands finite_roots [of ps] by (auto simp: candidates_for_def mset_set_empty_iff)
    then have "open_roots ?P ps p d = {}" for p d by (auto simp: open_roots_def)
    then have "ksp_inv g c src dst ps (gen\<lparr>ksp_candidates := []\<rparr>)"
      using inv ne by (auto simp: ksp_inv_def candidates_for_def cheapest_def)
    moreover have "?P = set ps" using deviation_exists [OF pf gen(2) ne] none gen(2) by blast
    ultimately show ?thesis using next' True by (simp add: Let_def) blast
  next
    case False
    obtain ls d where pop: "VPQ_PopTop walk_key q = Ok ((path_walk g ls, d), pop_heap_back walk_key q)"
      "ls \<in> ?P - set ps" "\<forall>p \<in> ?P - set ps. path_delay g ls \<le> path_delay g p"
      "candidates_for g ?P (ps @ [ls]) (open_roots ?P (ps @ [ls]) ls d) (pop_heap_back walk_key q)"
      using candidates_pop [OF pf gen(2) ne cands False] by blast
    have "ls \<noteq> []" using pop(2) pf by (auto simp: prefix_free_def)
    then obtain trie where trie: "Trie_Add ls (of_nat (length ps)) (ksp_k_paths_trie gen) = Ok trie" "trie_of (ps @ [ls]) trie"
      using trie_of_add [OF gen(1)] by blast
    have "ksp_inv g c src dst (ps @ [ls]) (gen\<lparr>ksp_candidates := pop_heap_back walk_key q,
        ksp_k_paths_trie := trie, ksp_k_paths := ksp_k_paths gen @ [(path_walk g ls, d)]\<rparr>)"
      using ksp_inv_new_path [OF inv pop(2) _ trie(2) pop(4)] pop(3) by blast
    then show ?thesis using next' False pop(1) trie(1) by (auto simp: Let_def path_walk_def)
  qed
qed

section \<open>The generator\<close>

lemma KSP_NextPath_inv:
  assumes "ksp_ok g c src dst" "length ps \<le> 2 ^ 32" "ksp_inv g c src dst ps gen"
  shows "\<exists>b gen'. KSP_NextPath gen = Some (Ok (b, gen')) \<and>
    (if b then \<exists>ls. ksp_inv g c src dst (ps @ [ls]) gen'
     else ksp_inv g c src dst ps gen' \<and> simple_paths g (cs_exclusion_set c) src dst = set ps)"
proof (cases "ps = []")
  case True
  then have "ksp_inv g c src dst [] gen" using assms(3) by simp
  from KSP_NextPath_first [OF assms(1) this] show ?thesis unfolding True by (simp only: append_Nil list.set(1))
qed (rule KSP_NextPath_more [OF assms])

lemma KSP_advance_inv:
  assumes "ksp_ok g c src dst" "length ps + n \<le> 2 ^ 32" "ksp_inv g c src dst ps gen"
  shows "\<exists>b gen' qs. KSP_advance n gen = Some (Ok (b, gen')) \<and> ksp_inv g c src dst (ps @ qs) gen' \<and>
    (if b then length qs = n else length qs < n \<and> simple_paths g (cs_exclusion_set c) src dst = set (ps @ qs))"
  using assms(2,3)
proof (induction n arbitrary: ps gen)
  case 0
  then show ?case by auto
next
  case (Suc n)
  obtain b gen' where b: "KSP_NextPath gen = Some (Ok (b, gen'))"
    "if b then \<exists>ls. ksp_inv g c src dst (ps @ [ls]) gen'
     else ksp_inv g c src dst ps gen' \<and> simple_paths g (cs_exclusion_set c) src dst = set ps"
    using KSP_NextPath_inv [OF assms(1) _ Suc.prems(2)] Suc.prems(1) by auto
  show ?case
  proof (cases b)
    case True
    then obtain ls where ls: "ksp_inv g c src dst (ps @ [ls]) gen'" using b(2) by auto
    from Suc.IH [OF _ ls] Suc.prems(1) obtain b2 gen2 qs where
      "KSP_advance n gen' = Some (Ok (b2, gen2))" "ksp_inv g c src dst ((ps @ [ls]) @ qs) gen2"
      "if b2 then length qs = n else length qs < n \<and> simple_paths g (cs_exclusion_set c) src dst = set ((ps @ [ls]) @ qs)" by auto
    then show ?thesis using b(1) True by (intro exI [of _ b2] exI [of _ gen2] exI [of _ "ls # qs"]) auto
  next
    case False
    then show ?thesis using b by (intro exI [of _ False] exI [of _ gen'] exI [of _ "[]"]) auto
  qed
qed

lemma ksp_inv_length: "ksp_inv g c src dst ps gen \<Longrightarrow> length (ksp_k_paths gen) = length ps"
  unfolding ksp_inv_def by (metis length_map)

lemma ksp_inv_nth:
  assumes "ksp_inv g c src dst ps gen" "k < length ps"
  shows "fst (ksp_k_paths gen ! k) = path_walk g (ps ! k)"
proof -
  have "map fst (ksp_k_paths gen) = map (path_walk g) ps" using assms(1) by (simp add: ksp_inv_def)
  from arg_cong [OF this, of "\<lambda>xs. xs ! k"] assms(2) ksp_inv_length [OF assms(1)] show ?thesis by simp
qed

lemma KSP_Kth_inv:
  assumes ok: "ksp_ok g c src dst" and k: "k < 2 ^ 32" and inv: "ksp_inv g c src dst ps gen"
  shows "\<exists>w gen' qs. KSP_KthShortestPathOrNull k gen = Some (Ok (w, gen')) \<and> ksp_inv g c src dst (ps @ qs) gen' \<and>
    (if k < length (ps @ qs) then w = Some (path_walk g ((ps @ qs) ! k))
     else w = None \<and> simple_paths g (cs_exclusion_set c) src dst = set (ps @ qs))"
proof (cases "k < length ps")
  case True
  then show ?thesis using ksp_inv_nth [OF inv True] ksp_inv_length [OF inv] inv
    by (intro exI [of _ "Some (path_walk g (ps ! k))"] exI [of _ gen] exI [of _ "[]"]) (simp add: KSP_KthShortestPathOrNull_def)
next
  case False
  have len: "length (ksp_k_paths gen) = length ps" by (rule ksp_inv_length [OF inv])
  let ?n = "k + 1 - length ps"
  have n: "length ps + ?n = Suc k" using False by simp
  obtain b gen' qs where b: "KSP_advance ?n gen = Some (Ok (b, gen'))" "ksp_inv g c src dst (ps @ qs) gen'"
    "if b then length qs = ?n else length qs < ?n \<and> simple_paths g (cs_exclusion_set c) src dst = set (ps @ qs)"
    using KSP_advance_inv [OF ok _ inv, of ?n] k n by auto
  show ?thesis
  proof (cases b)
    case True
    then have l: "length (ps @ qs) = Suc k" using b(3) n by simp
    have "fst (last (ksp_k_paths gen')) = path_walk g ((ps @ qs) ! k)"
      using ksp_inv_nth [OF b(2), of k] ksp_inv_length [OF b(2)] l
      by (metis diff_Suc_1 last_conv_nth length_0_conv lessI nat.distinct(1))
    then show ?thesis using b(1,2) l True False len by (auto simp: KSP_KthShortestPathOrNull_def)
  next
    case F: False
    then have "\<not> k < length (ps @ qs)" using b(3) n by simp
    then show ?thesis using F b False len
      by (intro exI [of _ None] exI [of _ gen'] exI [of _ qs]) (simp add: KSP_KthShortestPathOrNull_def)
  qed
qed


lemma SanitizeConstraints_no_visits:
  "cs_to_visit c = [] \<Longrightarrow> ConstraintSet_SanitizeConstraints c src dst = Ok c"
  by (simp add: ConstraintSet_SanitizeConstraints_def)

text \<open>A generator after any number of calls.\<close>

inductive ksp_reachable :: "GraphStorage \<Rightarrow> ConstraintSet \<Rightarrow> GraphNodeIndex \<Rightarrow> GraphNodeIndex \<Rightarrow> KShortestPathsGenerator \<Rightarrow> bool"
  for g c src dst where
  ksp_start: "KSP_new src dst g c = Ok gen \<Longrightarrow> ksp_reachable g c src dst gen"
| ksp_call: "ksp_reachable g c src dst gen \<Longrightarrow> k < 2 ^ 32 \<Longrightarrow>
    KSP_KthShortestPathOrNull k gen = Some (Ok (w, gen')) \<Longrightarrow> ksp_reachable g c src dst gen'"

lemma ksp_reachable_inv:
  assumes "ksp_reachable g c src dst gen" and "ksp_ok g c src dst"
  shows "\<exists>ps. ksp_inv g c src dst ps gen"
  using assms
proof (induction rule: ksp_reachable.induct)
  case (ksp_start gen)
  then have "gen = \<lparr>ksp_k_paths = [], ksp_k_paths_trie = TrieNode_empty, ksp_candidates = [], ksp_src = src, ksp_dst = dst,
      ksp_constraints = c, ksp_storage = g\<rparr>"
    by (simp add: KSP_new_def SanitizeConstraints_no_visits ksp_ok_def)
  then have "ksp_inv g c src dst [] gen" by (simp add: ksp_inv_def trie_of_def)
  then show ?case by blast
next
  case (ksp_call gen k w gen')
  then show ?case using KSP_Kth_inv [OF ksp_call.prems ksp_call.hyps(2)] by fastforce
qed

section \<open>Properties\<close>


lemma two_way_path_delay:
  assumes g: "graph_wf g" "map GraphLinkBase.truncate (gs_link_store g) = gb_links two_way"
    and ls: "ls \<in> simple_paths g e u v"
  shows "path_delay g ls < Delay_max"
proof -
  have len: "length (gs_link_store g) = 2" using arg_cong [OF g(2), of length] by (simp add: two_way_def)
  have "links_in g ls" by (rule simple_paths_links_in [OF g(1) ls])
  then have sub: "set ls \<subseteq> unat -` {..<2}" by (auto simp: links_in_def len)
  have "lb_delay (link_at g l) = 5" if "l \<in> set ls" for l
  proof -
    have l: "unat l < 2" using sub that by auto
    then have "GraphLinkBase.truncate (link_at g l) = gb_links two_way ! unat l"
      using arg_cong [OF g(2), of "\<lambda>xs. xs ! unat l"] len by (simp add: link_at_def)
    moreover have "unat l = 0 \<or> unat l = 1" using l by linarith
    ultimately show ?thesis by (auto simp: two_way_def GraphLinkBase.truncate_def)
  qed
  then have "map (lb_delay \<circ> link_at g) ls = map (\<lambda>_. 5) ls" by simp
  then have delay: "path_delay g ls = 5 * int (length ls)" by (simp add: path_delay_def map_replicate_const sum_list_replicate)
  have "distinct ls" using ls by (auto simp: simple_paths_def path_nodes_def distinct_map)
  then have "length ls = card (unat ` set ls)" by (simp add: distinct_card card_image inj_on_def)
  also have "\<dots> \<le> card {..<2 :: nat}" using sub by (intro card_mono) auto
  finally show ?thesis by (simp add: delay Delay_max_def)
qed


end
