(* ===== verification/Ksp_Waypoints.thy ===== *)
theory Ksp_Waypoints
  imports Path_Deviations
begin

text \<open>
  The combination of lists of waypoints, \<open>CombineWaypoints\<close> in \<open>src/src/net/algorithm.cc\<close>: the shortest-path trees
  give distances (\<open>GetSPTrees_good\<close>), and inserting a list of waypoints where they are closest keeps the order of the
  lists merged before.
\<close>

section \<open>Merging lists of waypoints\<close>

text \<open>Distances that the trees give, as far as the merging relies on them.\<close>

definition good_trees :: "sp_trees \<Rightarrow> GraphNodeIndex set \<Rightarrow> bool" where
  "good_trees trees S \<longleftrightarrow> (\<exists>dist. \<forall>a \<in> S. \<forall>b \<in> S. DelayOrDie trees a b = Ok (dist a b) \<and> 0 \<le> dist a b \<and>
     2 * dist a b < Delay_max \<and> (\<forall>c \<in> S. dist a b \<le> dist a c + dist c b))"

lemma ClosestTo_range:
  assumes trees: "good_trees trees S" and S: "set ws \<subseteq> S" "x \<in> S" and k: "k < length ws - 1"
  shows "\<exists>i. ClosestTo trees ws x k = Ok i \<and> k \<le> i \<and> i < length ws - 1"
proof -
  obtain dist where dist: "\<And>a b. a \<in> S \<Longrightarrow> b \<in> S \<Longrightarrow> DelayOrDie trees a b = Ok (dist a b)"
    "\<And>a b. a \<in> S \<Longrightarrow> b \<in> S \<Longrightarrow> 0 \<le> dist a b \<and> 2 * dist a b < Delay_max"
    "\<And>a b c. a \<in> S \<Longrightarrow> b \<in> S \<Longrightarrow> c \<in> S \<Longrightarrow> dist a b \<le> dist a c + dist c b"
    using trees unfolding good_trees_def by blast
  let ?step = "\<lambda>i (best_delta, best_i).
      rbind (DelayOrDie trees (ws ! i) (ws ! (i + 1))) (\<lambda>direct_delay.
      rbind (DelayOrDie trees (ws ! i) x) (\<lambda>first_leg.
      rbind (DelayOrDie trees x (ws ! (i + 1))) (\<lambda>second_leg.
      let indirect_delay = first_leg + second_leg
      in check (indirect_delay \<ge> direct_delay)
           (let delta = indirect_delay - direct_delay
            in Ok (if delta < best_delta then (delta, i) else (best_delta, best_i))))))"
  have step: "\<exists>d j. ?step i (bd, bi) = Ok (d, j) \<and> d < Delay_max \<and> k \<le> j \<and> j \<le> i"
    if i: "k \<le> i" "i < length ws - 1" and b: "bd < Delay_max \<and> k \<le> bi \<and> bi < i \<or> bd = Delay_max" for i bd bi
  proof -
    have m: "ws ! i \<in> S" "ws ! (i + 1) \<in> S" using i S(1) by auto
    let ?delta = "dist (ws ! i) x + dist x (ws ! (i + 1)) - dist (ws ! i) (ws ! (i + 1))"
    have "?delta < Delay_max" using dist(2) [OF m(1) S(2)] dist(2) [OF S(2) m(2)] dist(2) [OF m] by linarith
    moreover have "?step i (bd, bi) = Ok (if ?delta < bd then (?delta, i) else (bd, bi))"
      using dist(3) [OF m S(2)] dist(1) [OF m] dist(1) [OF m(1) S(2)] dist(1) [OF S(2) m(2)]
      by (simp add: Let_def check_def)
    ultimately show ?thesis using b i by auto
  qed
  have loop: "\<exists>d j. rfold ?step [k..<k + n] (Delay_max, 0) = Ok (d, j) \<and>
      (if n = 0 then d = Delay_max else d < Delay_max \<and> k \<le> j \<and> j < k + n)"
    if "k + n \<le> length ws - 1" for n
    using that
  proof (induction n)
    case (Suc n)
    then obtain d j where d: "rfold ?step [k..<k + n] (Delay_max, 0) = Ok (d, j)"
      "if n = 0 then d = Delay_max else d < Delay_max \<and> k \<le> j \<and> j < k + n" by auto
    then have "\<exists>d' j'. ?step (k + n) (d, j) = Ok (d', j') \<and> d' < Delay_max \<and> k \<le> j' \<and> j' \<le> k + n"
      using Suc.prems by (intro step) (auto split: if_splits)
    then obtain d' j' where "?step (k + n) (d, j) = Ok (d', j')" "d' < Delay_max" "k \<le> j'" "j' \<le> k + n" by blast
    then show ?case using d(1) by (simp add: rfold_append)
  qed simp
  obtain n where n: "length ws - 1 = k + n" "n \<noteq> 0" using k by (metis add_diff_inverse_nat less_imp_add_positive less_not_refl)
  have two: "1 < length ws" using k by simp
  show ?thesis using loop [of n] n two k by (auto simp: ClosestTo_def check_def)
qed

text \<open>The waypoints merged so far are in order up to \<open>k\<close>, and nothing that was there is moved past another.\<close>

lemma vec_insert_facts:
  assumes "Suc i < length ws"
  shows "set (vec_insert ws (Suc i) x) = insert x (set ws)" "length (vec_insert ws (Suc i) x) = Suc (length ws)"
    "mset (vec_insert ws (Suc i) x) = add_mset x (mset ws)" "last (vec_insert ws (Suc i) x) = last ws"
    "subseq ws (vec_insert ws (Suc i) x)" "take (Suc i) (vec_insert ws (Suc i) x) = take (Suc i) ws"
    "vec_insert ws (Suc i) x ! Suc i = x"
proof -
  have "mset ws = mset (take (Suc i) ws) + mset (drop (Suc i) ws)" by (metis append_take_drop_id mset_append)
  then show m: "mset (vec_insert ws (Suc i) x) = add_mset x (mset ws)" by (simp add: vec_insert_def)
  show "set (vec_insert ws (Suc i) x) = insert x (set ws)" using arg_cong [OF m, of set_mset] by simp
  show "length (vec_insert ws (Suc i) x) = Suc (length ws)" "last (vec_insert ws (Suc i) x) = last ws"
    "take (Suc i) (vec_insert ws (Suc i) x) = take (Suc i) ws" "vec_insert ws (Suc i) x ! Suc i = x"
    using assms by (simp_all add: vec_insert_def nth_append)
  have "subseq (take (Suc i) ws @ drop (Suc i) ws) (take (Suc i) ws @ x # drop (Suc i) ws)"
    by (intro list_emb_append_mono list_emb_Cons) simp_all
  then show "subseq ws (vec_insert ws (Suc i) x)" by (simp only: append_take_drop_id vec_insert_def)
qed

lemma subseq_Cons_drop:
  assumes "subseq xs (drop (Suc i) zs)" "zs ! i = x" "k \<le> i" "i < length zs"
  shows "subseq (x # xs) (drop k zs)"
proof -
  have "drop i zs = x # drop (Suc i) zs" using Cons_nth_drop_Suc [OF assms(4)] assms(2) by simp
  then have "subseq (x # xs) (drop i zs)" using assms(1) by simp
  moreover have "drop k zs = take (i - k) (drop k zs) @ drop i zs"
    using assms(3) append_take_drop_id [of "i - k" "drop k zs"] by simp
  ultimately show ?thesis by (metis list_emb_append2)
qed

lemma Merge_fold:
  assumes trees: "good_trees trees S" and "set xs \<subseteq> S" "set ws \<subseteq> S" "k < length ws - 1"
  shows "\<exists>vs k'. rfold (Merge_waypoint trees) xs (ws, k) = Ok (vs, k') \<and>
    take (Suc k) vs = take (Suc k) ws \<and> last vs = last ws \<and> length vs = length ws + length xs \<and>
    mset vs = mset ws + mset xs \<and> subseq ws vs \<and> subseq xs (drop (Suc k) (butlast vs))"
  using assms(2-4)
proof (induction xs arbitrary: ws k)
  case Nil
  then show ?case by simp
next
  case (Cons x xs)
  obtain i where i: "ClosestTo trees ws x k = Ok i" "k \<le> i" "i < length ws - 1"
    using ClosestTo_range [OF trees, of ws x k] Cons.prems by auto
  then have i': "Suc i < length ws" by simp
  let ?ws = "vec_insert ws (Suc i) x"
  note ws' = vec_insert_facts [OF i', of x]
  have xs: "set xs \<subseteq> S" and S: "set ?ws \<subseteq> S" and "Suc i < length ?ws - 1" using Cons.prems i' ws' by auto
  from Cons.IH [OF this] obtain vs k' where vs: "rfold (Merge_waypoint trees) xs (?ws, Suc i) = Ok (vs, k')"
    "take (Suc (Suc i)) vs = take (Suc (Suc i)) ?ws" "last vs = last ?ws" "length vs = length ?ws + length xs"
    "mset vs = mset ?ws + mset xs" "subseq ?ws vs" "subseq xs (drop (Suc (Suc i)) (butlast vs))" by blast
  have fold: "rfold (Merge_waypoint trees) (x # xs) (ws, k) = Ok (vs, k')" using vs(1) i(1) by (simp add: Merge_waypoint_def)
  have "vs ! Suc i = ?ws ! Suc i" using vs(2) by (metis lessI nth_take)
  then have "butlast vs ! Suc i = x" using vs(4) ws'(2,7) i' by (simp add: nth_butlast)
  then have sub: "subseq (x # xs) (drop (Suc k) (butlast vs))"
    using vs(4) ws'(2) i' i(2) by (intro subseq_Cons_drop [OF vs(7)]) simp_all
  have "take (Suc k) vs = take (Suc k) (take (Suc (Suc i)) vs)" using i(2) by (simp add: min_def)
  also have "\<dots> = take (Suc k) (take (Suc i) ?ws)" using i(2) vs(2) by (simp add: min_def)
  also have "\<dots> = take (Suc k) ws" using i(2) ws'(6) by (simp add: min_def)
  finally have tk: "take (Suc k) vs = take (Suc k) ws" .
  have "subseq ws vs" using ws'(5) vs(6) by (rule subseq_order.trans)
  with fold sub tk vs(3,4,5) ws' show ?case by (intro exI [of _ vs] exI [of _ k']) simp
qed

lemma Merge_waypoints_Ok:
  assumes "good_trees trees S" "set xs \<subseteq> S" "set ws \<subseteq> S" "1 < length ws"
  shows "\<exists>vs. Merge_waypoints xs trees ws = Ok vs \<and> hd vs = hd ws \<and> last vs = last ws \<and> mset vs = mset ws + mset xs \<and>
    subseq ws vs \<and> subseq xs (butlast (tl vs))"
proof -
  have "0 < length ws - 1" using assms(4) by simp
  from Merge_fold [OF assms(1-3) this] obtain vs k' where vs: "rfold (Merge_waypoint trees) xs (ws, 0) = Ok (vs, k')"
    "take (Suc 0) vs = take (Suc 0) ws" "last vs = last ws" "length vs = length ws + length xs"
    "mset vs = mset ws + mset xs" "subseq ws vs" "subseq xs (drop (Suc 0) (butlast vs))" by blast
  have "vs \<noteq> []" "ws \<noteq> []" using vs(4) assms(4) by auto
  then have "hd vs = hd ws" using vs(2) by (cases vs; cases ws) simp_all
  moreover have "drop (Suc 0) (butlast vs) = butlast (tl vs)" by (simp add: drop_Suc butlast_tl)
  ultimately show ?thesis using vs by (intro exI [of _ vs]) (simp add: Merge_waypoints_def)
qed

lemma subseq_interior:
  assumes "subseq ws vs" "hd vs = hd ws" "last vs = last ws" "1 < length ws"
  shows "subseq (butlast (tl ws)) (butlast (tl vs))"
proof -
  obtain w ws' x where ws: "ws = w # ws' @ [x]"
    using assms(4) by (cases ws; cases "tl ws" rule: rev_cases) auto
  then have "vs \<noteq> []" using assms(1) by auto
  then obtain vs1 where v1: "vs = w # vs1" using assms(2) ws by (cases vs) auto
  have s1: "subseq (ws' @ [x]) vs1" using assms(1) by (simp add: ws v1)
  then have "vs1 \<noteq> []" by auto
  then obtain vs2 where v2: "vs1 = vs2 @ [x]" using assms(3) ws v1 by (cases vs1 rule: rev_cases) auto
  have "subseq ws' vs2" using s1 unfolding v2 by simp
  then show ?thesis by (simp add: ws v1 v2)
qed

lemma Merge_all:
  assumes trees: "good_trees trees S" and "set ws \<subseteq> S" "1 < length ws" "\<forall>l \<in> set ls. set l \<subseteq> S"
  shows "\<exists>vs. rfold (\<lambda>l current. Merge_waypoints l trees current) ls ws = Ok vs \<and> hd vs = hd ws \<and> last vs = last ws \<and>
    mset vs = mset ws + mset (concat ls) \<and> subseq ws vs \<and> (\<forall>l \<in> set ls. subseq l (butlast (tl vs)))"
  using assms(2-4)
proof (induction ls arbitrary: ws)
  case Nil
  then show ?case by simp
next
  case (Cons l ls)
  have "set l \<subseteq> S" using Cons.prems(3) by simp
  from Merge_waypoints_Ok [OF trees this Cons.prems(1,2)] obtain us where
    us: "Merge_waypoints l trees ws = Ok us" "hd us = hd ws" "last us = last ws" "mset us = mset ws + mset l"
      "subseq ws us" "subseq l (butlast (tl us))" by blast
  have S: "set us \<subseteq> S" using arg_cong [OF us(4), of set_mset] Cons.prems by auto
  have len: "1 < length us" using arg_cong [OF us(4), of size] Cons.prems(2) by simp
  from Cons.IH [OF S len] Cons.prems(3) obtain vs where
    vs: "rfold (\<lambda>l current. Merge_waypoints l trees current) ls us = Ok vs" "hd vs = hd us" "last vs = last us"
      "mset vs = mset us + mset (concat ls)" "subseq us vs" "\<forall>l \<in> set ls. subseq l (butlast (tl vs))" by auto
  have "subseq l (butlast (tl vs))"
    using us(6) subseq_interior [OF vs(5,2,3) len] by (rule subseq_order.trans)
  moreover have "subseq ws vs" using us(5) vs(5) by (rule subseq_order.trans)
  ultimately show ?case using us vs by (intro exI [of _ vs]) simp
qed

section \<open>The trees\<close>

lemma GetSPTrees_fold:
  assumes "\<And>n. n \<in> set xs \<Longrightarrow> ShortestPath_new n nodes e a None None = Some (T n)"
  shows "\<exists>trees. ofold (\<lambda>node out. case ShortestPath_new node nodes e a None None of None \<Rightarrow> None
        | Some tree \<Rightarrow> Some (PHMap_Add None out node (Some tree))) xs out = Some trees \<and>
    (\<forall>n. PHMap_lookup trees n = (if n \<in> set xs then Some (Some (T n)) else PHMap_lookup out n))"
  using assms
proof (induction xs arbitrary: out)
  case (Cons x xs)
  from Cons.IH [of "PHMap_Add None out x (Some (T x))"] Cons.prems obtain trees where
    "ofold (\<lambda>node out. case ShortestPath_new node nodes e a None None of None \<Rightarrow> None
        | Some tree \<Rightarrow> Some (PHMap_Add None out node (Some tree))) xs (PHMap_Add None out x (Some (T x))) = Some trees"
    "\<forall>n. PHMap_lookup trees n = (if n \<in> set xs then Some (Some (T n)) else PHMap_lookup (PHMap_Add None out x (Some (T x))) n)"
    by auto
  then show ?case using Cons.prems [of x] by (intro exI [of _ trees]) simp
qed simp

text \<open>Distances that the combination of waypoints can add without exceeding \<open>Delay::max()\<close>.\<close>

definition near :: "(GraphNodeIndex \<Rightarrow> LinkInfo list) \<Rightarrow> GraphNodeIndex set \<Rightarrow> bool" where
  "near nb S \<longleftrightarrow> (\<forall>a \<in> S. \<forall>b \<in> S. \<exists>is. awalk nb a is b \<and> 2 * walk_length is < Delay_max)"

lemma GetSPTrees_good:
  assumes pos: "positive_neighbors (allowed_neighbors e a None None)" and len: "length nodes \<le> 2 ^ 16"
    and excl: "\<And>n. n \<in> members nodes \<Longrightarrow> \<not> ExclusionSet_ShouldExcludeNode e n"
    and near: "near (allowed_neighbors e a None None) (members nodes)"
  shows "\<exists>trees. GetSPTrees nodes e a = Some trees \<and> good_trees trees (members nodes)"
proof -
  let ?nb = "allowed_neighbors e a None None"
  have xs: "set (PHSet_elems nodes :: GraphNodeIndex list) = members nodes"
    using set_PHSet_elems [where 'v = 16, of nodes] len by (simp add: members_def)
  define T where "T n = the (ShortestPath_new n nodes e a None None)" for n
  define dist where "dist n m = (case ShortestPath_GetPathDistance (T n) m of Inr d \<Rightarrow> d | _ \<Rightarrow> 0)" for n m
  have tree: "ShortestPath_new n nodes e a None None = Some (T n) \<and>
      (\<forall>m \<in> members nodes. ShortestPath_GetPathDistance (T n) m = Ok (dist n m) \<and>
         (\<exists>is. awalk ?nb n is m \<and> walk_length is = dist n m) \<and> (\<forall>js. awalk ?nb n js m \<longrightarrow> dist n m \<le> walk_length js))"
    if n: "n \<in> members nodes" for n
  proof -
    have "\<not> CanExcludeNode n e None" using excl [OF n] by (simp add: CanExcludeNode_def)
    from ShortestPath_new_paths [OF pos this len] obtain sp where sp: "ShortestPath_new n nodes e a None None = Some sp"
      and paths: "\<And>m. PHSet_Contains nodes m \<Longrightarrow> \<exists>is. awalk ?nb n is m \<and> walk_length is < Delay_max \<Longrightarrow>
        \<exists>is. awalk ?nb n is m \<and> (\<forall>js. awalk ?nb n js m \<longrightarrow> walk_length is \<le> walk_length js) \<and>
          ShortestPath_GetPathDistance sp m = Ok (walk_length is)" by (metis (no_types, lifting))
    have T: "T n = sp" using sp by (simp add: T_def)
    have "ShortestPath_GetPathDistance sp m = Ok (dist n m) \<and>
         (\<exists>is. awalk ?nb n is m \<and> walk_length is = dist n m) \<and> (\<forall>js. awalk ?nb n js m \<longrightarrow> dist n m \<le> walk_length js)"
      if m: "m \<in> members nodes" for m
    proof -
      obtain "is" where i: "awalk ?nb n is m" "2 * walk_length is < Delay_max" using near n m unfolding near_def by blast
      then have "walk_length is < Delay_max" using awalk_length_nonneg [OF i(1) pos] by linarith
      with i(1) m obtain js where "awalk ?nb n js m" "\<forall>ks. awalk ?nb n ks m \<longrightarrow> walk_length js \<le> walk_length ks"
        "ShortestPath_GetPathDistance sp m = Ok (walk_length js)" using paths [of m] by (auto simp: members_def)
      then show ?thesis by (auto simp: dist_def T)
    qed
    then show ?thesis using sp T by simp
  qed
  from GetSPTrees_fold [of "PHSet_elems nodes" nodes e a T "[]"] tree xs obtain trees where
    trees: "GetSPTrees nodes e a = Some trees" "\<And>n. n \<in> members nodes \<Longrightarrow> PHMap_lookup trees n = Some (Some (T n))"
    by (auto simp: GetSPTrees_def)
  have "DelayOrDie trees n m = Ok (dist n m) \<and> 0 \<le> dist n m \<and> 2 * dist n m < Delay_max \<and>
      (\<forall>k \<in> members nodes. dist n m \<le> dist n k + dist k m)" if nm: "n \<in> members nodes" "m \<in> members nodes" for n m
  proof -
    obtain "is" where i: "awalk ?nb n is m" "walk_length is = dist n m" using tree [OF nm(1)] nm(2) by blast
    obtain js where j: "awalk ?nb n js m" "2 * walk_length js < Delay_max" using near nm unfolding near_def by blast
    have nn: "0 \<le> dist n m" using awalk_length_nonneg [OF i(1) pos] i(2) by simp
    have "dist n m \<le> walk_length js" using tree [OF nm(1)] nm(2) j(1) by blast
    then have lt: "2 * dist n m < Delay_max" using j(2) by linarith
    have "dist n m \<le> dist n k + dist k m" if k: "k \<in> members nodes" for k
    proof -
      obtain xs where x: "awalk ?nb n xs k" "walk_length xs = dist n k" using tree [OF nm(1)] k by blast
      obtain ys where y: "awalk ?nb k ys m" "walk_length ys = dist k m" using tree [OF k] nm(2) by blast
      have "awalk ?nb n (xs @ ys) m" using x(1) y(1) awalk_append by blast
      then have "dist n m \<le> walk_length (xs @ ys)" using tree [OF nm(1)] nm(2) by blast
      then show ?thesis using x(2) y(2) by simp
    qed
    moreover have "DelayOrDie trees n m = Ok (dist n m)"
      using trees(2) [OF nm(1)] tree [OF nm(1)] nm(2) nn lt by (simp add: DelayOrDie_def PHMap_GetValueOrDie_lookup check_def)
    ultimately show ?thesis using nn lt by blast
  qed
  then have "good_trees trees (members nodes)" unfolding good_trees_def by (intro exI [of _ dist]) blast
  then show ?thesis using trees(1) by blast
qed

lemma fold_insert_length:
  "length s \<le> 2 ^ 16 \<Longrightarrow> length (fold (\<lambda>(v :: GraphNodeIndex) s. PHSet_Insert s v) vs s) \<le> 2 ^ 16"
proof (induction vs arbitrary: s)
  case (Cons v vs)
  have "unat v < 2 ^ LENGTH(16)" by (rule unsigned_less)
  then have "length (PHSet_Insert s v) \<le> 2 ^ 16" using Cons.prems by (simp add: length_PHSet_Insert)
  then show ?case using Cons.IH by simp
qed simp

lemma fold_fold_concat: "fold (fold f) xss s = fold f (concat xss) s"
  by (induction xss arbitrary: s) simp_all

lemma all_waypoints:
  defines "all_waypoints \<equiv> \<lambda>src dst wss. fold (fold (\<lambda>waypoint s. PHSet_Insert s waypoint)) wss (PHSet_of_vector [src, dst :: GraphNodeIndex])"
  shows "members (all_waypoints src dst wss) = {src, dst} \<union> set (concat wss)" "length (all_waypoints src dst wss) \<le> 2 ^ 16"
proof -
  have eq: "all_waypoints src dst wss = fold (\<lambda>v s. PHSet_Insert s v) ([src, dst] @ concat wss) []"
    unfolding all_waypoints_def PHSet_of_vector_def fold_append comp_apply fold_fold_concat by simp
  show "members (all_waypoints src dst wss) = {src, dst} \<union> set (concat wss)"
    unfolding eq by (auto simp: members_def phset.mem_fold_ins)
  show "length (all_waypoints src dst wss) \<le> 2 ^ 16" unfolding eq by (rule fold_insert_length) simp
qed


definition there_and_return :: AdjacencyList where
  "there_and_return = AdjacencyList_AddLink (AdjacencyList_AddLink AdjacencyList_new 7 0 1 5) 8 1 0 5"

lemma there_and_return_neighbors:
  "allowed_neighbors ExclusionSet_new there_and_return None None u =
     (if u = 0 then [\<lparr>li_link_index = 7, li_src_index = 0, li_dst_index = 1, li_delay = 5\<rparr>]
      else if u = 1 then [\<lparr>li_link_index = 8, li_src_index = 1, li_dst_index = 0, li_delay = 5\<rparr>] else [])"
  by (simp add: allowed_neighbors_def there_and_return_def GetNeighbors_AddLink adj_clean_AddLink CanExcludeLink_def
      CanExcludeNode_def ExclusionSet_ShouldExcludeLink_def ExclusionSet_ShouldExcludeNode_def
      ExclusionSet_new_def)


end
