(* ===== verification/Event_Queue.thy ===== *)
theory Event_Queue
  imports Priority_Queue "HOL-Library.Multiset_Order"
begin

text \<open>
  \<open>EventQueue\<close>, \<open>EventConsumer\<close> and \<open>SimTimeEventQueue\<close> of \<open>src/src/event_queue.{h,cc}\<close>. Times are
  64-bit words, so that \<open>EnqueueIn\<close> wraps as the code does. A consumer's virtual
  \<open>HandleEvent\<close> is a parameter: from the consumer, the time and the state of the consumers it
  gives their new state and the calls it makes on the queue, in order. The loop of \<open>Run\<close> is a
  partial function; \<open>handled\<close> is the sequence of events it hands out. The queues that run on wall
  clock time, and the floating-point \<open>Progress\<close> and divisions of a time, are left out.
\<close>

type_synonym EventQueueTime = "64 word"

section \<open>Time\<close>

definition EventQueueTime_MaxTime :: EventQueueTime where
  "EventQueueTime_MaxTime = - 1"

definition EventQueueTime_minus :: "EventQueueTime \<Rightarrow> EventQueueTime \<Rightarrow> EventQueueTime res" where
  "EventQueueTime_minus a b = check (b \<le> a) (Ok (a - b))"

text \<open>
  Simulated time counts picoseconds. \<open>duration_cast\<close> computes in the common type, \<open>uint64_t\<close>;
  nanosecond and millisecond counts are signed 64-bit values, here as their bit patterns.
\<close>

definition SimTime_NanosToTime :: "64 word \<Rightarrow> EventQueueTime" where
  "SimTime_NanosToTime nanos = nanos * 1000"

definition SimTime_TimeToNanos :: "EventQueueTime \<Rightarrow> 64 word" where
  "SimTime_TimeToNanos duration = duration div 1000"

definition SimTime_RawMillisToTime :: "64 word \<Rightarrow> EventQueueTime" where
  "SimTime_RawMillisToTime duration_millis = SimTime_NanosToTime (duration_millis * 1000000)"

definition SimTime_TimeToRawMillis :: "EventQueueTime \<Rightarrow> 64 word" where
  "SimTime_TimeToRawMillis duration =
     word_of_int (sint (SimTime_TimeToNanos duration) div 1000000)"

section \<open>The queue\<close>

record ('c, 's) event_sim =
  es_time :: EventQueueTime
  es_stop_time :: EventQueueTime
  es_queue :: "(EventQueueTime \<times> 'c) list"
  es_outstanding :: "'c \<Rightarrow> 64 word"
  es_consumers :: 's

datatype 'c request = EnqueueAt 'c EventQueueTime | EnqueueIn 'c EventQueueTime | Stop

type_synonym ('c, 's) handler = "'c \<Rightarrow> EventQueueTime \<Rightarrow> 's \<Rightarrow> 's \<times> 'c request list"

definition SimTimeEventQueue_new :: "'s \<Rightarrow> ('c, 's) event_sim" where
  "SimTimeEventQueue_new s =
     \<lparr>es_time = 0, es_stop_time = EventQueueTime_MaxTime, es_queue = [], es_outstanding = (\<lambda>_. 0),
      es_consumers = s\<rparr>"

definition EventQueue_Enqueue :: "EventQueueTime \<Rightarrow> 'c \<Rightarrow> ('c, 's) event_sim \<Rightarrow> ('c, 's) event_sim" where
  "EventQueue_Enqueue at consumer e = e\<lparr>es_queue := VPQ_emplace fst (es_queue e) (at, consumer)\<rparr>"

definition EventConsumer_EnqueueAt :: "'c \<Rightarrow> EventQueueTime \<Rightarrow> ('c, 's) event_sim \<Rightarrow> ('c, 's) event_sim" where
  "EventConsumer_EnqueueAt c at e =
     EventQueue_Enqueue at c (e\<lparr>es_outstanding := (es_outstanding e)(c := es_outstanding e c + 1)\<rparr>)"

definition EventConsumer_EnqueueIn :: "'c \<Rightarrow> EventQueueTime \<Rightarrow> ('c, 's) event_sim \<Rightarrow> ('c, 's) event_sim" where
  "EventConsumer_EnqueueIn c t e =
     EventQueue_Enqueue (es_time e + t) c
       (e\<lparr>es_outstanding := (es_outstanding e)(c := es_outstanding e c + 1)\<rparr>)"

definition EventQueue_Stop :: "('c, 's) event_sim \<Rightarrow> ('c, 's) event_sim" where
  "EventQueue_Stop e = e\<lparr>es_stop_time := es_time e\<rparr>"

fun apply_request :: "'c request \<Rightarrow> ('c, 's) event_sim \<Rightarrow> ('c, 's) event_sim" where
  "apply_request (EnqueueAt c at) e = EventConsumer_EnqueueAt c at e"
| "apply_request (EnqueueIn c t) e = EventConsumer_EnqueueIn c t e"
| "apply_request Stop e = EventQueue_Stop e"

definition EventConsumer_HandleEventPublic ::
    "('c, 's) handler \<Rightarrow> 'c \<Rightarrow> ('c, 's) event_sim \<Rightarrow> ('c, 's) event_sim" where
  "EventConsumer_HandleEventPublic h c e =
     (let e = e\<lparr>es_outstanding := (es_outstanding e)(c := es_outstanding e c - 1)\<rparr>;
          (s, requests) = h c (es_time e) (es_consumers e)
      in fold apply_request requests (e\<lparr>es_consumers := s\<rparr>))"

definition EventQueue_StopIn :: "64 word \<Rightarrow> ('c, 's) event_sim \<Rightarrow> ('c, 's) event_sim" where
  "EventQueue_StopIn nanos e =
     (let new_kill_time = es_time e + SimTime_NanosToTime nanos
      in if new_kill_time < es_stop_time e then e\<lparr>es_stop_time := new_kill_time\<rparr> else e)"

text \<open>
  One iteration of \<open>Run\<close>: \<open>Inl\<close> when the loop is left (the time has been advanced if an event was
  looked at), \<open>Inr\<close> with the event handed out otherwise.
\<close>

definition EventQueue_step ::
    "('c, 's) handler \<Rightarrow> ('c, 's) event_sim \<Rightarrow> ('c, 's) event_sim + (EventQueueTime \<times> 'c) \<times> ('c, 's) event_sim" where
  "EventQueue_step h e =
     (if VPQ_empty (es_queue e) then Inl e
      else let (at, consumer) = hd (es_queue e);
               e = e\<lparr>es_time := at\<rparr>
           in if es_time e \<ge> es_stop_time e then Inl e
              else Inr ((at, consumer), EventConsumer_HandleEventPublic h consumer
                          (e\<lparr>es_queue := pop_heap_back fst (es_queue e)\<rparr>)))"

partial_function (option) EventQueue_Run ::
    "('c, 's) handler \<Rightarrow> ('c, 's) event_sim \<Rightarrow> ('c, 's) event_sim option" where
  "EventQueue_Run h e =
     (case EventQueue_step h e of
        Inl e' \<Rightarrow> Some e'
      | Inr (_, e') \<Rightarrow> EventQueue_Run h e')"

definition SimTimeEventQueue_Run :: "('c, 's) handler \<Rightarrow> ('c, 's) event_sim \<Rightarrow> ('c, 's) event_sim option" where
  "SimTimeEventQueue_Run h e =
     (case EventQueue_Run h e of None \<Rightarrow> None | Some e \<Rightarrow> Some (e\<lparr>es_time := es_stop_time e\<rparr>))"

definition EventQueue_RunAndStopIn ::
    "('c, 's) handler \<Rightarrow> 64 word \<Rightarrow> ('c, 's) event_sim \<Rightarrow> ('c, 's) event_sim option" where
  "EventQueue_RunAndStopIn h nanos e =
     SimTimeEventQueue_Run h (EventQueue_StopIn nanos (e\<lparr>es_stop_time := EventQueueTime_MaxTime\<rparr>))"

text \<open>\<open>EvictConsumer\<close> pops every event and pushes back those of the other consumers.\<close>

lemma length_pop_heap_back: "q \<noteq> [] \<Longrightarrow> length (pop_heap_back key q) < length q"
  using arg_cong [OF mset_pop_heap_back [of q key], of size] by (simp add: size_Diff_singleton)

function EvictConsumer_drain :: "(EventQueueTime \<times> 'c) list \<Rightarrow> (EventQueueTime \<times> 'c) list" where
  "EvictConsumer_drain q = (if VPQ_empty q then [] else hd q # EvictConsumer_drain (pop_heap_back fst q))"
  by pat_completeness auto
termination
  by (relation "measure length") (auto simp: VPQ_empty_def length_pop_heap_back)

declare EvictConsumer_drain.simps [simp del]

definition EventQueue_EvictConsumer :: "'c \<Rightarrow> ('c, 's) event_sim \<Rightarrow> ('c, 's) event_sim" where
  "EventQueue_EvictConsumer consumer e =
     e\<lparr>es_queue := fold (\<lambda>(at, c) q. if c \<noteq> consumer then VPQ_emplace fst q (at, c) else q)
                     (EvictConsumer_drain (es_queue e)) []\<rparr>"

definition EventConsumer_destroy :: "'c \<Rightarrow> ('c, 's) event_sim \<Rightarrow> ('c, 's) event_sim" where
  "EventConsumer_destroy c e =
     (if es_outstanding e c > 0 then EventQueue_EvictConsumer c e else e)"

section \<open>Invariants\<close>

text \<open>Every consumer's counter is the number of its events in the queue, modulo \<open>2 ^ 64\<close>.\<close>

definition events_of :: "'c \<Rightarrow> (EventQueueTime \<times> 'c) list \<Rightarrow> nat" where
  "events_of c q = size (filter_mset (\<lambda>ev. snd ev = c) (mset q))"

definition es_wf :: "('c, 's) event_sim \<Rightarrow> bool" where
  "es_wf e \<longleftrightarrow> heap_ordered fst (es_queue e) \<and>
     (\<forall>c. es_outstanding e c = of_nat (events_of c (es_queue e)))"

lemma es_wf_new [simp]: "es_wf (SimTimeEventQueue_new s)"
  by (simp add: es_wf_def SimTimeEventQueue_new_def events_of_def)

lemma events_of_emplace:
  "events_of c (VPQ_emplace fst q (at, c')) = (if c' = c then Suc (events_of c q) else events_of c q)"
  by (simp add: events_of_def mset_VPQ_emplace)

lemma events_of_pop:
  "q \<noteq> [] \<Longrightarrow> events_of c q = (if snd (hd q) = c then 1 else 0) + events_of c (pop_heap_back fst q)"
proof -
  assume "q \<noteq> []"
  then have "mset q = add_mset (hd q) (mset (pop_heap_back fst q))"
    by (simp add: mset_pop_heap_back)
  then show ?thesis by (simp add: events_of_def)
qed

lemma es_wf_EnqueueAt [simp]: "es_wf e \<Longrightarrow> es_wf (EventConsumer_EnqueueAt c at e)"
  by (auto simp: es_wf_def EventConsumer_EnqueueAt_def EventQueue_Enqueue_def VPQ_emplace_heap events_of_emplace)

lemma EnqueueIn_EnqueueAt: "EventConsumer_EnqueueIn c t e = EventConsumer_EnqueueAt c (es_time e + t) e"
  by (simp add: EventConsumer_EnqueueIn_def EventConsumer_EnqueueAt_def)

lemma es_wf_request [simp]: "es_wf e \<Longrightarrow> es_wf (apply_request r e)"
  by (cases r) (auto simp: EnqueueIn_EnqueueAt, simp add: es_wf_def EventQueue_Stop_def)

lemma es_wf_requests: "es_wf e \<Longrightarrow> es_wf (fold apply_request rs e)"
  by (induction rs arbitrary: e) auto

lemma step_InrD:
  assumes "EventQueue_step h e = Inr (ev, e')"
  obtains at c s rs where "es_queue e \<noteq> []" "hd (es_queue e) = (at, c)" "ev = (at, c)"
    "at < es_stop_time e" "h c at (es_consumers e) = (s, rs)"
    "e' = fold apply_request rs (e\<lparr>es_time := at, es_queue := pop_heap_back fst (es_queue e),
        es_outstanding := (es_outstanding e)(c := es_outstanding e c - 1), es_consumers := s\<rparr>)"
proof -
  obtain at c where ac: "hd (es_queue e) = (at, c)" by (cases "hd (es_queue e)")
  obtain s rs where h: "h c at (es_consumers e) = (s, rs)" by (cases "h c at (es_consumers e)")
  show thesis
    using assms ac h
    by (intro that [of at c s rs])
       (auto simp: EventQueue_step_def VPQ_empty_def Let_def EventConsumer_HandleEventPublic_def
          split: if_splits)
qed

lemma step_InlD:
  "EventQueue_step h e = Inl e' \<Longrightarrow>
   es_queue e = [] \<and> e' = e \<or>
   es_queue e \<noteq> [] \<and> es_stop_time e \<le> fst (hd (es_queue e)) \<and> e' = e\<lparr>es_time := fst (hd (es_queue e))\<rparr>"
  by (auto simp: EventQueue_step_def VPQ_empty_def Let_def split: if_splits prod.splits)

lemma es_wf_step:
  assumes "es_wf e" and "EventQueue_step h e = Inr (ev, e')"
  shows "es_wf e'"
  using assms(2)
proof (rule step_InrD)
  fix at c s rs
  let ?q = "es_queue e"
  assume ne: "?q \<noteq> []" and ac: "hd ?q = (at, c)"
    and e': "e' = fold apply_request rs (e\<lparr>es_time := at, es_queue := pop_heap_back fst ?q,
      es_outstanding := (es_outstanding e)(c := es_outstanding e c - 1), es_consumers := s\<rparr>)"
  have "events_of k ?q = (if c = k then 1 else 0) + events_of k (pop_heap_back fst ?q)" for k
    using events_of_pop [OF ne, of k] ac by simp
  then show ?thesis
    unfolding e' using assms(1) by (intro es_wf_requests) (auto simp: es_wf_def pop_heap_back_heap)
qed

section \<open>The events handed out\<close>

inductive handled ::
    "('c, 's) handler \<Rightarrow> ('c, 's) event_sim \<Rightarrow> (EventQueueTime \<times> 'c) list \<Rightarrow> ('c, 's) event_sim \<Rightarrow> bool"
  for h where
  handled_exit: "EventQueue_step h e = Inl e' \<Longrightarrow> handled h e [] e'"
| handled_event: "EventQueue_step h e = Inr (ev, e1) \<Longrightarrow> handled h e1 evs e' \<Longrightarrow> handled h e (ev # evs) e'"

inductive_cases handled_NilE: "handled h e [] e'"
inductive_cases handled_ConsE: "handled h e (ev # evs) e'"

lemma handled_Run: "handled h e evs e' \<Longrightarrow> EventQueue_Run h e = Some e'"
  by (induction rule: handled.induct) (subst EventQueue_Run.simps, simp)+

text \<open>A handler that schedules nothing in the past, and nothing that wraps around.\<close>

fun request_time :: "EventQueueTime \<Rightarrow> 'c request \<Rightarrow> EventQueueTime option" where
  "request_time now (EnqueueAt c at) = Some at"
| "request_time now (EnqueueIn c t) = Some (now + t)"
| "request_time now Stop = None"

definition no_past :: "('c, 's) handler \<Rightarrow> bool" where
  "no_past h \<longleftrightarrow> (\<forall>c now s r t. r \<in> set (snd (h c now s)) \<longrightarrow> request_time now r = Some t \<longrightarrow> now \<le> t)"

definition no_present :: "('c, 's) handler \<Rightarrow> bool" where
  "no_present h \<longleftrightarrow> (\<forall>c now s r t. r \<in> set (snd (h c now s)) \<longrightarrow> request_time now r = Some t \<longrightarrow> now < t)"

lemma apply_request_effect:
  "es_time (apply_request r e) = es_time e \<and>
   mset (es_queue (apply_request r e)) = (case r of
      EnqueueAt c t \<Rightarrow> add_mset (t, c) (mset (es_queue e))
    | EnqueueIn c t \<Rightarrow> add_mset (es_time e + t, c) (mset (es_queue e))
    | Stop \<Rightarrow> mset (es_queue e)) \<and>
   (es_stop_time (apply_request r e) = es_stop_time e \<or> es_stop_time (apply_request r e) = es_time e)"
  by (cases r) (auto simp: EnqueueIn_EnqueueAt EventConsumer_EnqueueAt_def EventQueue_Enqueue_def
      mset_VPQ_emplace EventQueue_Stop_def)

text \<open>The requests of a handler only add events, at the times they ask for.\<close>

lemma requests_effect:
  "es_time (fold apply_request rs e) = es_time e \<and>
   (\<exists>new. mset (es_queue (fold apply_request rs e)) = mset (es_queue e) + new \<and>
      (\<forall>ev \<in># new. \<exists>r \<in> set rs. request_time (es_time e) r = Some (fst ev))) \<and>
   (es_stop_time (fold apply_request rs e) = es_stop_time e \<or>
    es_stop_time (fold apply_request rs e) = es_time e)"
proof (induction rs arbitrary: e)
  case (Cons r rs)
  note one = apply_request_effect [of r e] and IH = Cons.IH [of "apply_request r e"]
  from IH one obtain new where new: "mset (es_queue (fold apply_request rs (apply_request r e))) =
      mset (es_queue (apply_request r e)) + new"
    "\<forall>ev \<in># new. \<exists>r \<in> set rs. request_time (es_time e) r = Some (fst ev)" by auto
  obtain n1 where n1: "mset (es_queue (apply_request r e)) = mset (es_queue e) + n1"
    "\<forall>ev \<in># n1. request_time (es_time e) r = Some (fst ev)"
    using one by (cases r) (auto intro: that [of "{#_#}"] that [of "{#}"])
  have "mset (es_queue (fold apply_request (r # rs) e)) = mset (es_queue e) + (n1 + new)"
    using new(1) n1(1) by (simp add: ac_simps)
  moreover have "\<forall>ev \<in># n1 + new. \<exists>r' \<in> set (r # rs). request_time (es_time e) r' = Some (fst ev)"
    using new(2) n1(2) by auto
  moreover have "es_stop_time (fold apply_request (r # rs) e) = es_stop_time e \<or>
    es_stop_time (fold apply_request (r # rs) e) = es_time e" using IH one by auto
  ultimately show ?case using IH one by auto
qed simp

text \<open>One step of a well-behaved simulation.\<close>

lemma step_forward:
  assumes st: "EventQueue_step h e = Inr (ev, e')" and wf: "es_wf e" and np: "no_past h"
    and lb: "\<And>x. x \<in> set (es_queue e) \<Longrightarrow> es_time e \<le> fst x"
  shows "es_time e \<le> fst ev \<and> fst ev < es_stop_time e \<and> es_time e' = fst ev \<and>
         (\<forall>x \<in> set (es_queue e'). fst ev \<le> fst x) \<and>
         (es_stop_time e' = es_stop_time e \<or> es_stop_time e' = fst ev) \<and>
         (\<exists>new. mset (es_queue e') = mset (es_queue e) - {#ev#} + new \<and>
            (no_present h \<longrightarrow> (\<forall>x \<in># new. fst ev < fst x)))"
  using st
proof (rule step_InrD)
  fix at c s rs
  let ?q = "es_queue e"
  let ?e = "e\<lparr>es_time := at, es_queue := pop_heap_back fst ?q,
      es_outstanding := (es_outstanding e)(c := es_outstanding e c - 1), es_consumers := s\<rparr>"
  assume ne: "?q \<noteq> []" and ac: "hd ?q = (at, c)" and ev: "ev = (at, c)" and lt: "at < es_stop_time e"
    and h: "h c at (es_consumers e) = (s, rs)" and e': "e' = fold apply_request rs ?e"
  have heap: "heap_ordered fst ?q" using wf by (simp add: es_wf_def)
  have min: "at \<le> fst x" if "x \<in> set ?q" for x
    using vpq.top [OF heap] ne ac that by (cases x) auto
  have pop: "mset (pop_heap_back fst ?q) = mset ?q - {#ev#}"
    using mset_pop_heap_back [OF ne, of fst] ac ev by simp
  obtain new where new: "mset (es_queue e') = mset ?q - {#ev#} + new"
    "\<forall>x \<in># new. \<exists>r \<in> set rs. request_time at r = Some (fst x)"
    using requests_effect [of rs ?e] unfolding e' by (auto simp: pop)
  have later: "at \<le> fst x" if "x \<in># new" for x
    using np new(2) that h unfolding no_past_def by (metis snd_conv)
  have "at \<le> fst x" if "x \<in> set (es_queue e')" for x
  proof -
    have "x \<in># mset ?q - {#ev#} + new" using that unfolding new(1) [symmetric] by simp
    then show ?thesis using min later by (cases x) (auto dest: in_diffD)
  qed
  moreover have "no_present h \<longrightarrow> (\<forall>x \<in># new. at < fst x)"
    using new(2) h unfolding no_present_def by (metis snd_conv)
  moreover have "es_time e \<le> at" using lb [OF hd_in_set [OF ne]] ac by simp
  ultimately show ?thesis
    using requests_effect [of rs ?e] new(1) lt ev unfolding e' by auto
qed

lemma handled_ordered:
  assumes "handled h e evs e'" and "no_past h" and "es_wf e"
    and "\<And>x. x \<in> set (es_queue e) \<Longrightarrow> es_time e \<le> fst x"
  shows "sorted_wrt (\<le>) (map fst evs) \<and>
         (\<forall>t \<in> set (map fst evs). es_time e \<le> t \<and> t < es_stop_time e) \<and> es_wf e' \<and>
         (\<forall>x \<in> set (es_queue e'). es_stop_time e' \<le> fst x)"
  using assms
proof (induction rule: handled.induct)
  case (handled_exit e e')
  from step_InlD [OF handled_exit(1)] show ?case
  proof
    assume r: "es_queue e \<noteq> [] \<and> es_stop_time e \<le> fst (hd (es_queue e)) \<and>
      e' = e\<lparr>es_time := fst (hd (es_queue e))\<rparr>"
    have "heap_ordered fst (es_queue e)" using handled_exit.prems(2) by (simp add: es_wf_def)
    then have "fst (hd (es_queue e)) \<le> fst x" if "x \<in> set (es_queue e)" for x
      using vpq.top [of fst "es_queue e"] r that by (cases x) auto
    with r handled_exit.prems(2) show ?thesis by (auto simp: es_wf_def intro: order_trans)
  qed (use handled_exit.prems(2) in simp)
next
  case (handled_event e ev e1 evs e')
  note f = step_forward [OF handled_event(1) handled_event.prems(2,1,3)]
  have "es_wf e1" using handled_event.prems(2) handled_event(1) by (rule es_wf_step)
  moreover have "es_time e1 \<le> fst x" if "x \<in> set (es_queue e1)" for x using f that by simp
  ultimately have IH: "sorted_wrt (\<le>) (map fst evs) \<and>
         (\<forall>t \<in> set (map fst evs). es_time e1 \<le> t \<and> t < es_stop_time e1) \<and> es_wf e' \<and>
         (\<forall>x \<in> set (es_queue e'). es_stop_time e' \<le> fst x)"
    using handled_event.prems(1) by (intro handled_event.IH)
  then show ?case using f by (auto intro: order_trans less_trans)
qed

text \<open>If events are only scheduled strictly later, the loop ends: times are bounded.\<close>

definition time_left :: "(EventQueueTime \<times> 'c) list \<Rightarrow> nat multiset" where
  "time_left q = image_mset (\<lambda>ev. 2 ^ 64 - unat (fst ev)) (mset q)"

lemma handled_ends:
  assumes "no_present h" and "es_wf e" and "\<And>x. x \<in> set (es_queue e) \<Longrightarrow> es_time e \<le> fst x"
  shows "\<exists>evs e'. handled h e evs e'"
  using assms(2,3)
proof (induction "time_left (es_queue e)" arbitrary: e rule: less_induct)
  case less
  have np: "no_past h" using assms(1) unfolding no_past_def no_present_def by (meson less_imp_le)
  show ?case
  proof (cases "EventQueue_step h e")
    case (Inl e')
    then show ?thesis by (blast intro: handled_exit)
  next
    case (Inr r)
    then obtain ev e1 where st: "EventQueue_step h e = Inr (ev, e1)" by (cases r) auto
    note f = step_forward [OF st less.prems(1) np less.prems(2)]
    then obtain new where new: "mset (es_queue e1) = mset (es_queue e) - {#ev#} + new"
      "\<forall>x \<in># new. fst ev < fst x" using assms(1) by auto
    have mem: "ev \<in># mset (es_queue e)" using st by (rule step_InrD) (metis hd_in_set set_mset_mset)
    let ?w = "\<lambda>x :: EventQueueTime \<times> 'a. 2 ^ 64 - unat (fst x) :: nat"
    obtain M where M: "mset (es_queue e) = add_mset ev M" using mem by (rule mset_add)
    have t1: "time_left (es_queue e1) = image_mset ?w M + image_mset ?w new"
      by (simp add: time_left_def new(1) M)
    have t0: "time_left (es_queue e) = image_mset ?w M + {#?w ev#}"
      by (simp add: time_left_def M)
    have less: "k < ?w ev" if "k \<in># image_mset ?w new" for k
    proof -
      from that obtain x where x: "x \<in># new" "k = ?w x" by auto
      with new(2) have "unat (fst ev) < unat (fst x)" by (simp add: word_less_nat_alt)
      moreover have "unat (fst x) < 2 ^ 64" using unat_bound [of "fst x"] by simp
      ultimately show ?thesis using x(2) by linarith
    qed
    have "time_left (es_queue e1) < time_left (es_queue e)"
      unfolding less_multiset_def t0 t1 by (rule one_step_implies_multp) (use less in auto)
    moreover have "es_wf e1" using less.prems(1) st by (rule es_wf_step)
    moreover have "es_time e1 \<le> fst x" if "x \<in> set (es_queue e1)" for x using f that by simp
    ultimately obtain evs e' where "handled h e1 evs e'" using less.hyps by blast
    with st show ?thesis by (blast intro: handled_event)
  qed
qed

section \<open>Evicting a consumer\<close>

lemma mset_drain: "mset (EvictConsumer_drain q) = mset q"
proof (induction q rule: EvictConsumer_drain.induct)
  case (1 q)
  show ?case
  proof (cases "q = []")
    case False
    then have "mset q = add_mset (hd q) (mset (pop_heap_back fst q))" by (simp add: mset_pop_heap_back)
    with False 1 show ?thesis by (subst EvictConsumer_drain.simps) (simp add: VPQ_empty_def)
  qed (subst EvictConsumer_drain.simps, simp add: VPQ_empty_def)
qed

lemma evict_fold:
  "heap_ordered fst q \<Longrightarrow>
   heap_ordered fst (fold (\<lambda>(at, c) q. if c \<noteq> k then VPQ_emplace fst q (at, c) else q) evs q) \<and>
   mset (fold (\<lambda>(at, c) q. if c \<noteq> k then VPQ_emplace fst q (at, c) else q) evs q) =
     mset q + filter_mset (\<lambda>ev. snd ev \<noteq> k) (mset evs)"
proof (induction evs arbitrary: q)
  case (Cons ev evs)
  obtain at c where ev: "ev = (at, c)" by (cases ev)
  show ?case
  proof (cases "c = k")
    case False
    from Cons.prems have "heap_ordered fst (VPQ_emplace fst q (at, c))" by (rule VPQ_emplace_heap)
    from Cons.IH [OF this] False show ?thesis by (simp add: ev mset_VPQ_emplace)
  qed (use Cons in \<open>simp add: ev\<close>)
qed simp

lemma EvictConsumer_queue:
  "heap_ordered fst (es_queue (EventQueue_EvictConsumer c e))"
  "mset (es_queue (EventQueue_EvictConsumer c e)) = filter_mset (\<lambda>ev. snd ev \<noteq> c) (mset (es_queue e))"
  using evict_fold [of "[]" c "EvictConsumer_drain (es_queue e)"]
  by (simp_all add: EventQueue_EvictConsumer_def mset_drain)

section \<open>Properties\<close>

text \<open>C8. If no consumer schedules an event in the past or by a sum that wraps around, the events \<open>Run\<close>
  hands out come in non-decreasing time order, none before the current time and none at or after
  the stop time; when the loop ends, every event left is at or after the stop time, and the queue
  and the event counters are still consistent.\<close>

theorem EventQueue_Run_ordered:
  assumes "handled h e evs e'" and "no_past h" and "es_wf e"
    and "\<And>x. x \<in> set (es_queue e) \<Longrightarrow> es_time e \<le> fst x"
  shows "EventQueue_Run h e = Some e' \<and> sorted_wrt (\<le>) (map fst evs) \<and>
         (\<forall>t \<in> set (map fst evs). es_time e \<le> t \<and> t < es_stop_time e) \<and> es_wf e' \<and>
         (\<forall>x \<in> set (es_queue e'). es_stop_time e' \<le> fst x)"
  using handled_Run [OF assms(1)] handled_ordered [OF assms] by blast

text \<open>A simulation with one event queued, for the concrete instances.\<close>

definition one_event :: "(unit, nat) event_sim" where
  "one_event = EventConsumer_EnqueueAt () 5 (SimTimeEventQueue_new 1\<lparr>es_stop_time := 100\<rparr>)"

lemma one_event_wf: "es_wf one_event"
  unfolding one_event_def by (intro es_wf_EnqueueAt) (simp add: es_wf_def SimTimeEventQueue_new_def events_of_def)

lemma one_event_queue: "es_queue one_event = [(5, ())]" "es_time one_event = 0"
  by (simp_all add: one_event_def EventConsumer_EnqueueAt_def EventQueue_Enqueue_def
      SimTimeEventQueue_new_def VPQ_emplace_def sift_up.simps)

theorem EventQueue_Run_ordered_witness:
  "\<exists>evs e'. handled (\<lambda>_ _ s. (s, [])) one_event evs e' \<and>
     EventQueue_Run (\<lambda>_ _ s. (s, [])) one_event = Some e' \<and> sorted_wrt (\<le>) (map fst evs)"
proof -
  let ?h = "\<lambda>_ _ s. (s, []) :: nat \<times> unit request list"
  have ahead: "\<And>x. x \<in> set (es_queue one_event) \<Longrightarrow> es_time one_event \<le> fst x"
    by (simp add: one_event_queue)
  have "no_present ?h" "no_past ?h" by (simp_all add: no_present_def no_past_def)
  then obtain evs e' where "handled ?h one_event evs e'"
    using handled_ends [of ?h one_event] ahead one_event_wf by blast
  with EventQueue_Run_ordered [OF this \<open>no_past ?h\<close> one_event_wf ahead] show ?thesis by blast
qed

text \<open>C9. If every event is scheduled strictly later than the event that schedules it, without
  wrapping around, \<open>Run\<close> returns.\<close>

theorem EventQueue_Run_terminates:
  assumes "no_present h" and "es_wf e" and "\<And>x. x \<in> set (es_queue e) \<Longrightarrow> es_time e \<le> fst x"
  shows "\<exists>e'. SimTimeEventQueue_Run h e = Some e' \<and> es_time e' = es_stop_time e'"
proof -
  from handled_ends [OF assms] obtain evs e' where "handled h e evs e'" by blast
  from handled_Run [OF this] show ?thesis by (simp add: SimTimeEventQueue_Run_def)
qed

theorem EventQueue_Run_terminates_witness:
  "\<exists>e'. SimTimeEventQueue_Run (\<lambda>_ _ s. (s, [])) one_event = Some e' \<and> es_time e' = es_stop_time e'"
  using EventQueue_Run_terminates [of "\<lambda>_ _ s. (s, [])" one_event]
  by (simp add: no_present_def one_event_queue one_event_wf)

text \<open>Whatever the consumers do, one iteration of \<open>Run\<close> and every call on the queue keep the
  queue in heap order and each consumer's \<open>outstanding_event_count\<close> equal (modulo \<open>2 ^ 64\<close>) to the
  number of its events that are queued.\<close>

theorem EventQueue_outstanding_count:
  assumes "es_wf e"
  shows "es_wf (EventConsumer_EnqueueAt c t e) \<and> es_wf (EventConsumer_EnqueueIn c t e) \<and>
         es_wf (EventQueue_Stop e) \<and> es_wf (EventQueue_StopIn n e) \<and>
         (\<forall>ev e'. EventQueue_step h e = Inr (ev, e') \<longrightarrow> es_wf e')"
  using assms es_wf_request [OF assms, of Stop] es_wf_step [OF assms]
  by (auto simp: EnqueueIn_EnqueueAt) (simp add: EventQueue_StopIn_def Let_def es_wf_def)

theorem EventQueue_outstanding_count_witness:
  "es_wf one_event \<and> es_wf (EventConsumer_EnqueueIn () 3 one_event)"
  using EventQueue_outstanding_count [OF one_event_wf, of "()" 3] one_event_wf by blast

text \<open>C33. Destroying a consumer leaves no event of it in the queue, so \<open>Run\<close> never calls a freed
  consumer: if the queue is consistent and fewer than \<open>2 ^ 64\<close> events are queued, afterwards the queue
  is in heap order and holds exactly the events of the other consumers.\<close>

theorem EventConsumer_destroy_safe:
  assumes "es_wf e" and "length (es_queue e) < 2 ^ 64"
  shows "heap_ordered fst (es_queue (EventConsumer_destroy c e)) \<and>
         mset (es_queue (EventConsumer_destroy c e)) = filter_mset (\<lambda>ev. snd ev \<noteq> c) (mset (es_queue e))"
proof (cases "es_outstanding e c > 0")
  case False
  have "events_of c (es_queue e) < 2 ^ 64"
    using assms(2) size_filter_mset_lesseq [of "\<lambda>ev. snd ev = c" "mset (es_queue e)"]
    by (simp add: events_of_def)
  moreover have "unat (of_nat (events_of c (es_queue e)) :: 64 word) = 0"
    using False assms(1) by (auto simp: es_wf_def word_gt_0)
  ultimately have none: "filter_mset (\<lambda>ev. snd ev = c) (mset (es_queue e)) = {#}"
    by (simp add: unat_of_nat events_of_def)
  have "mset (es_queue e) = {#} + filter_mset (\<lambda>ev. snd ev \<noteq> c) (mset (es_queue e))"
    by (subst none [symmetric]) (rule multiset_partition)
  then have "filter_mset (\<lambda>ev. snd ev \<noteq> c) (mset (es_queue e)) = mset (es_queue e)" by simp
  with False assms(1) show ?thesis by (simp add: EventConsumer_destroy_def es_wf_def)
qed (simp add: EventConsumer_destroy_def EvictConsumer_queue)

theorem EventConsumer_destroy_safe_witness:
  "es_wf one_event \<and> mset (es_queue (EventConsumer_destroy () one_event)) = {#}"
  using EventConsumer_destroy_safe [OF one_event_wf, of "()"] one_event_wf
  by (simp add: one_event_queue)

text \<open>Simulated time counts whole picoseconds: converting nanoseconds, or milliseconds, to a time
  and back is the identity as long as the picosecond count fits in 64 bits.\<close>

theorem SimTime_roundtrip:
  assumes "unat m * 10 ^ 9 < 2 ^ 64" and "unat n * 1000 < 2 ^ 64"
  shows "SimTime_TimeToNanos (SimTime_NanosToTime n) = n \<and>
         SimTime_TimeToRawMillis (SimTime_RawMillisToTime m) = m"
proof -
  have nanos: "SimTime_TimeToNanos (SimTime_NanosToTime k) = k" if "unat k * 1000 < 2 ^ 64" for k
  proof -
    have "unat (k * 1000) = unat k * 1000" using that by (simp add: unat_word_ariths)
    then show ?thesis
      by (simp add: SimTime_TimeToNanos_def SimTime_NanosToTime_def word_unat_eq_iff unat_div)
  qed
  have um: "unat (m * 1000000) = unat m * 1000000" using assms(1) by (simp add: unat_word_ariths)
  have "SimTime_TimeToNanos (SimTime_RawMillisToTime m) = m * 1000000"
    unfolding SimTime_RawMillisToTime_def using assms(1) by (intro nanos) (simp add: um)
  moreover have ui: "uint (m * 1000000) = uint m * 1000000"
    using arg_cong [OF um, of int] by simp
  moreover have "sint (m * 1000000) = uint (m * 1000000)"
  proof -
    have "int (unat m * 10 ^ 9) < int (2 ^ 64)" using assms(1) by (simp only: of_nat_less_iff)
    then have "uint m * 10 ^ 9 < 2 ^ 64" by simp
    then have "uint (m * 1000000) < 2 ^ 63" unfolding ui by simp
    moreover have "- (2 ^ 63) \<le> uint (m * 1000000)"
      by (rule order_trans [OF _ unsigned_greater_eq]) simp
    ultimately show ?thesis unfolding sint_uint by (intro signed_take_bit_int_eq_self) simp_all
  qed
  ultimately have "SimTime_TimeToRawMillis (SimTime_RawMillisToTime m) = m"
    by (simp add: SimTime_TimeToRawMillis_def)
  with nanos [OF assms(2)] show ?thesis by blast
qed

theorem SimTime_roundtrip_witness:
  "SimTime_TimeToNanos (SimTime_NanosToTime 1500) = 1500 \<and>
   SimTime_TimeToRawMillis (SimTime_RawMillisToTime 20) = 20"
  using SimTime_roundtrip [of 20 1500] by simp

end
