(* ===== verification/Packer.thy ===== *)
theory Packer
  imports Ncode_Prelude
begin

unbundle bit_operations_syntax

text \<open>
  \<open>PackedUintSeq\<close>, \<open>RLEField\<close> and their iterators, of \<open>src/src/packer.{h,cc}\<close>. A packed sequence
  stores the differences of an increasing sequence of \<open>uint64_t\<close> in one to eight bytes each, the
  length in the top three bits of the first; a run-length field stores arithmetic progressions.
  The element type of \<open>RLEField\<close> is any unsigned integer type, here a word, whose arithmetic wraps.
  Sizes and offsets (\<open>size_t\<close>) are natural numbers: they count elements held in memory. The strings
  that describe the memory use and the floating-point compression ratio are left out.
\<close>

section \<open>Packed sequences\<close>

record PackedUintSeq =
  pu_data :: "8 word list"
  pu_len :: nat
  pu_last_append :: "64 word"

definition PackedUintSeq_new :: PackedUintSeq where
  "PackedUintSeq_new = \<lparr>pu_data = [], pu_len = 0, pu_last_append = 0\<rparr>"

text \<open>The byte \<open>push_back\<close> stores when it is handed a 64-bit value.\<close>

abbreviation byte :: "64 word \<Rightarrow> 8 word" where
  "byte \<equiv> ucast"

text \<open>The bytes \<open>Append\<close> pushes for a difference.\<close>

definition PackedUintSeq_bytes :: "64 word \<Rightarrow> 8 word list res" where
  "PackedUintSeq_bytes diff =
     (if diff < 32 then Ok [byte diff]
      else if diff < 8192 then Ok [byte (drop_bit 8 diff OR 0x20), byte diff]
      else if diff < 2097152 then
        Ok [byte (drop_bit 16 diff OR 0x40), byte (drop_bit 8 diff), byte (drop_bit 0 diff)]
      else if diff < 536870912 then
        Ok [byte (drop_bit 24 diff OR 0x60), byte (drop_bit 16 diff), byte (drop_bit 8 diff), byte diff]
      else if diff < 137438953472 then
        Ok [byte (drop_bit 32 diff OR 0x80), byte (drop_bit 24 diff), byte (drop_bit 16 diff),
            byte (drop_bit 8 diff), byte diff]
      else if diff < 35184372088832 then
        Ok [byte (drop_bit 40 diff OR 0xA0), byte (drop_bit 32 diff), byte (drop_bit 24 diff),
            byte (drop_bit 16 diff), byte (drop_bit 8 diff), byte diff]
      else if diff < 9007199254740992 then
        Ok [byte (drop_bit 48 diff OR 0xC0), byte (drop_bit 40 diff), byte (drop_bit 32 diff),
            byte (drop_bit 24 diff), byte (drop_bit 16 diff), byte (drop_bit 8 diff), byte diff]
      else if diff < 2305843009213693952 then
        Ok [byte (drop_bit 56 diff OR 0xE0), byte (drop_bit 48 diff), byte (drop_bit 40 diff),
            byte (drop_bit 32 diff), byte (drop_bit 24 diff), byte (drop_bit 16 diff),
            byte (drop_bit 8 diff), byte diff]
      else Fail Check_failed)"

text \<open>\<open>Append\<close> also adds the number of bytes it used to its second argument.\<close>

definition PackedUintSeq_Append :: "64 word \<Rightarrow> nat \<Rightarrow> PackedUintSeq \<Rightarrow> (nat \<times> PackedUintSeq) res" where
  "PackedUintSeq_Append value bytes s =
     check (value \<ge> pu_last_append s)
       (rbind (PackedUintSeq_bytes (value - pu_last_append s)) (\<lambda>bs.
          Ok (bytes + length bs,
              s\<lparr>pu_data := pu_data s @ bs, pu_len := pu_len s + 1, pu_last_append := value\<rparr>)))"

abbreviation wide :: "8 word \<Rightarrow> 64 word" where
  "wide \<equiv> ucast"

text \<open>Reads the value at an offset; also gives the offset of the next one, relative to it.\<close>

definition PackedUintSeq_DeflateSingleInteger :: "PackedUintSeq \<Rightarrow> nat \<Rightarrow> (64 word \<times> nat) res" where
  "PackedUintSeq_DeflateSingleInteger s offset =
     (let at = (\<lambda>i. vec_at (pu_data s) (offset + i)) in
      rbind (at 0) (\<lambda>c.
        let sign_bits = c AND 0xE0; top = wide c AND 0x1F in
        if sign_bits = 0 then Ok (top, 1)
        else if sign_bits = 0x20 then
          rbind (at 1) (\<lambda>d1. Ok (push_bit 8 top OR wide d1, 2))
        else if sign_bits = 0x40 then
          rbind (at 1) (\<lambda>d1. rbind (at 2) (\<lambda>d2.
            Ok (push_bit 16 top OR push_bit 8 (wide d1) OR wide d2, 3)))
        else if sign_bits = 0x60 then
          rbind (at 1) (\<lambda>d1. rbind (at 2) (\<lambda>d2. rbind (at 3) (\<lambda>d3.
            Ok (push_bit 24 top OR push_bit 16 (wide d1) OR push_bit 8 (wide d2) OR wide d3, 4))))
        else if sign_bits = 0x80 then
          rbind (at 1) (\<lambda>d1. rbind (at 2) (\<lambda>d2. rbind (at 3) (\<lambda>d3. rbind (at 4) (\<lambda>d4.
            Ok (push_bit 32 top OR push_bit 24 (wide d1) OR push_bit 16 (wide d2) OR
                push_bit 8 (wide d3) OR wide d4, 5)))))
        else if sign_bits = 0xA0 then
          rbind (at 1) (\<lambda>d1. rbind (at 2) (\<lambda>d2. rbind (at 3) (\<lambda>d3. rbind (at 4) (\<lambda>d4.
          rbind (at 5) (\<lambda>d5.
            Ok (push_bit 40 top OR push_bit 32 (wide d1) OR push_bit 24 (wide d2) OR
                push_bit 16 (wide d3) OR push_bit 8 (wide d4) OR wide d5, 6))))))
        else if sign_bits = 0xC0 then
          rbind (at 1) (\<lambda>d1. rbind (at 2) (\<lambda>d2. rbind (at 3) (\<lambda>d3. rbind (at 4) (\<lambda>d4.
          rbind (at 5) (\<lambda>d5. rbind (at 6) (\<lambda>d6.
            Ok (push_bit 48 top OR push_bit 40 (wide d1) OR push_bit 32 (wide d2) OR
                push_bit 24 (wide d3) OR push_bit 16 (wide d4) OR push_bit 8 (wide d5) OR
                wide d6, 7)))))))
        else
          rbind (at 1) (\<lambda>d1. rbind (at 2) (\<lambda>d2. rbind (at 3) (\<lambda>d3. rbind (at 4) (\<lambda>d4.
          rbind (at 5) (\<lambda>d5. rbind (at 6) (\<lambda>d6. rbind (at 7) (\<lambda>d7.
            Ok (push_bit 56 top OR push_bit 48 (wide d1) OR push_bit 40 (wide d2) OR
                push_bit 32 (wide d3) OR push_bit 24 (wide d4) OR push_bit 16 (wide d5) OR
                push_bit 8 (wide d6) OR wide d7, 8))))))))))"

fun Restore_loop :: "PackedUintSeq \<Rightarrow> nat \<Rightarrow> nat \<Rightarrow> 64 word \<Rightarrow> 64 word list \<Rightarrow> 64 word list res" where
  "Restore_loop s 0 offset prev_value vector = Ok vector"
| "Restore_loop s (Suc i) offset prev_value vector =
     rbind (PackedUintSeq_DeflateSingleInteger s offset) (\<lambda>(diff, increment).
       Restore_loop s i (offset + increment) (prev_value + diff) (vector @ [prev_value + diff]))"

definition PackedUintSeq_Restore :: "PackedUintSeq \<Rightarrow> 64 word list \<Rightarrow> 64 word list res" where
  "PackedUintSeq_Restore s vector = Restore_loop s (pu_len s) 0 0 vector"

record PackedUintSeqIterator =
  pi_next_offset :: nat
  pi_prev_value :: "64 word"
  pi_element_count :: nat

definition PackedUintSeqIterator_new :: PackedUintSeqIterator where
  "PackedUintSeqIterator_new = \<lparr>pi_next_offset = 0, pi_prev_value = 0, pi_element_count = 0\<rparr>"

definition PackedUintSeqIterator_Next ::
    "PackedUintSeq \<Rightarrow> PackedUintSeqIterator \<Rightarrow> (64 word option \<times> PackedUintSeqIterator) res" where
  "PackedUintSeqIterator_Next parent it =
     (if pi_element_count it \<ge> pu_len parent then Ok (None, it)
      else rbind (PackedUintSeq_DeflateSingleInteger parent (pi_next_offset it)) (\<lambda>(diff, increment).
        let prev_value = pi_prev_value it + diff in
        Ok (Some prev_value,
            it\<lparr>pi_next_offset := pi_next_offset it + increment, pi_prev_value := prev_value,
               pi_element_count := pi_element_count it + 1\<rparr>)))"

text \<open>The values a loop \<open>while (it.Next(&v))\<close> sees in its first \<open>n\<close> calls.\<close>

fun PackedUintSeqIterator_values :: "PackedUintSeq \<Rightarrow> nat \<Rightarrow> PackedUintSeqIterator \<Rightarrow> 64 word list res" where
  "PackedUintSeqIterator_values s 0 it = Ok []"
| "PackedUintSeqIterator_values s (Suc n) it =
     rbind (PackedUintSeqIterator_Next s it) (\<lambda>(value, it).
       case value of
         None \<Rightarrow> Ok []
       | Some v \<Rightarrow> rbind (PackedUintSeqIterator_values s n it) (\<lambda>vs. Ok (v # vs)))"

section \<open>Decoding one value\<close>

lemma top_byte:
  fixes h :: "64 word"
  assumes "h < 32" and "t \<in> set [0, 0x20, 0x40, 0x60, 0x80, 0xA0, 0xC0, 0xE0]"
  shows "byte (h OR t) AND 0xE0 = byte t" and "wide (byte (h OR t)) AND 0x1F = h"
proof -
  have "unat h < 32" using assms(1) by (simp add: word_less_nat_alt)
  then have h: "unat h \<in> set [0..<32]" by simp
  have all: "\<forall>k \<in> set [0..<32]. \<forall>t \<in> set [0, 0x20, 0x40, 0x60, 0x80, 0xA0, 0xC0, 0xE0].
      byte (of_nat k OR t) AND 0xE0 = byte t \<and> wide (byte (of_nat k OR t)) AND 0x1F = of_nat k"
    by (simp add: upt_rec)
  show "byte (h OR t) AND 0xE0 = byte t" "wide (byte (h OR t)) AND 0x1F = h"
    using bspec [OF bspec [OF all h] assms(2)] by simp_all
qed

lemma low_byte: "wide (byte x) = take_bit 8 x"
  by (rule bit_word_eqI) (auto simp: bit_simps)

lemma next_byte: "push_bit m (take_bit 8 (drop_bit m x)) OR take_bit m x = take_bit (m + 8) (x :: 64 word)"
  by (rule bit_word_eqI) (auto simp: bit_simps)

lemma join_bits: "push_bit m (drop_bit m x) OR take_bit m x = (x :: 64 word)"
  by (rule bit_word_eqI) (auto simp: bit_simps)

lemma drop_small: "x < of_nat (32 * 2 ^ m) \<Longrightarrow> 32 * 2 ^ m < (2 :: nat) ^ 64 \<Longrightarrow> drop_bit m (x :: 64 word) < 32"
proof -
  assume x: "x < of_nat (32 * 2 ^ m)" and m: "32 * 2 ^ m < (2 :: nat) ^ 64"
  have "unat (of_nat (32 * 2 ^ m) :: 64 word) = 32 * 2 ^ m"
    using m by (intro of_nat_unat_less) simp
  with x have "unat x < 32 * 2 ^ m" by (simp only: word_less_nat_alt)
  then have "unat x div 2 ^ m < 32" by (simp add: less_mult_imp_div_less)
  moreover have "unat (drop_bit m x) = unat x div 2 ^ m"
    by (subst unat_drop_bit_eq) (rule drop_bit_eq_div)
  ultimately show ?thesis by (simp add: word_less_nat_alt)
qed

lemma vec_at_middle: "vec_at (pre @ bs @ post) (length pre + i) =
   (if i < length bs then Ok (bs ! i) else vec_at post (i - length bs))"
  by (auto simp: vec_at_def nth_append)

lemmas small_tops = drop_small [of _ 8, simplified] drop_small [of _ 16, simplified]
  drop_small [of _ 24, simplified] drop_small [of _ 32, simplified] drop_small [of _ 40, simplified]
  drop_small [of _ 48, simplified] drop_small [of _ 56, simplified]

lemmas deflate_simps = PackedUintSeq_DeflateSingleInteger_def Let_def vec_at_middle or.assoc
  low_byte next_byte join_bits

lemma PackedUintSeq_bytes_cases:
  assumes "PackedUintSeq_bytes d = Ok bs"
  obtains
    (a) "d < 32" "bs = [byte d]" |
    (b) "d < 8192" "bs = [byte (drop_bit 8 d OR 0x20), byte d]" |
    (c) "d < 2097152" "bs = [byte (drop_bit 16 d OR 0x40), byte (drop_bit 8 d), byte (drop_bit 0 d)]" |
    (d) "d < 536870912" "bs = [byte (drop_bit 24 d OR 0x60), byte (drop_bit 16 d), byte (drop_bit 8 d), byte d]" |
    (e) "d < 137438953472" "bs = [byte (drop_bit 32 d OR 0x80), byte (drop_bit 24 d), byte (drop_bit 16 d), byte (drop_bit 8 d), byte d]" |
    (f) "d < 35184372088832" "bs = [byte (drop_bit 40 d OR 0xA0), byte (drop_bit 32 d), byte (drop_bit 24 d), byte (drop_bit 16 d), byte (drop_bit 8 d), byte d]" |
    (g) "d < 9007199254740992" "bs = [byte (drop_bit 48 d OR 0xC0), byte (drop_bit 40 d), byte (drop_bit 32 d), byte (drop_bit 24 d), byte (drop_bit 16 d), byte (drop_bit 8 d), byte d]" |
    (h) "d < 2305843009213693952" "bs = [byte (drop_bit 56 d OR 0xE0), byte (drop_bit 48 d), byte (drop_bit 40 d), byte (drop_bit 32 d), byte (drop_bit 24 d), byte (drop_bit 16 d), byte (drop_bit 8 d), byte d]"
  using assms unfolding PackedUintSeq_bytes_def by (simp only: sum.inject sum.distinct split: if_splits)

lemma Deflate_bytes:
  assumes "PackedUintSeq_bytes d = Ok bs" and "pu_data s = pre @ bs @ post"
  shows "PackedUintSeq_DeflateSingleInteger s (length pre) = Ok (d, length bs)"
  using assms(1)
proof (cases rule: PackedUintSeq_bytes_cases)
  case a
  then show ?thesis using top_byte [of d 0] by (simp only: deflate_simps assms(2)) (simp add: or.assoc low_byte next_byte join_bits)
next
  case b
  then show ?thesis using top_byte [of "drop_bit 8 d" "0x20"] drop_small [of d 8]
    by (simp only: deflate_simps assms(2)) (simp add: or.assoc low_byte next_byte join_bits)
next
  case c
  then show ?thesis using top_byte [of "drop_bit 16 d" "0x40"] drop_small [of d 16]
    by (simp only: deflate_simps assms(2)) (simp add: or.assoc low_byte next_byte join_bits)
next
  case d
  then show ?thesis using top_byte [of "drop_bit 24 d" "0x60"] drop_small [of d 24]
    by (simp only: deflate_simps assms(2)) (simp add: or.assoc low_byte next_byte join_bits)
next
  case e
  then show ?thesis using top_byte [of "drop_bit 32 d" "0x80"] drop_small [of d 32]
    by (simp only: deflate_simps assms(2)) (simp add: or.assoc low_byte next_byte join_bits)
next
  case f
  then show ?thesis using top_byte [of "drop_bit 40 d" "0xA0"] drop_small [of d 40]
    by (simp only: deflate_simps assms(2)) (simp add: or.assoc low_byte next_byte join_bits)
next
  case g
  then show ?thesis using top_byte [of "drop_bit 48 d" "0xC0"] drop_small [of d 48]
    by (simp only: deflate_simps assms(2)) (simp add: or.assoc low_byte next_byte join_bits)
next
  case h
  then show ?thesis using top_byte [of "drop_bit 56 d" "0xE0"] drop_small [of d 56]
    by (simp only: deflate_simps assms(2)) (simp add: or.assoc low_byte next_byte join_bits)
qed
text \<open>How many bytes a difference takes, and which differences are refused.\<close>

lemma PackedUintSeq_bytes_Ok: "(\<exists>bs. PackedUintSeq_bytes d = Ok bs) \<longleftrightarrow> d < 2305843009213693952"
  by (auto simp: PackedUintSeq_bytes_def word_less_nat_alt)

lemma PackedUintSeq_bytes_length: "PackedUintSeq_bytes d = Ok bs \<Longrightarrow> 1 \<le> length bs \<and> length bs \<le> 8"
  by (erule PackedUintSeq_bytes_cases) simp_all

section \<open>The packed sequence as a list\<close>

text \<open>\<open>packs prev vals bs\<close>: the bytes \<open>bs\<close> are the differences of \<open>vals\<close>, the first one from \<open>prev\<close>.\<close>

fun packs :: "64 word \<Rightarrow> 64 word list \<Rightarrow> 8 word list \<Rightarrow> bool" where
  "packs prev [] bs \<longleftrightarrow> bs = []"
| "packs prev (v # vals) bs \<longleftrightarrow>
     (\<exists>b rest. PackedUintSeq_bytes (v - prev) = Ok b \<and> bs = b @ rest \<and> packs v vals rest)"

definition packed_seq :: "PackedUintSeq \<Rightarrow> 64 word list \<Rightarrow> bool" where
  "packed_seq s vals \<longleftrightarrow> packs 0 vals (pu_data s) \<and> pu_len s = length vals \<and> pu_last_append s = last (0 # vals)"

lemma packs_snoc:
  "packs prev vals bs \<Longrightarrow> PackedUintSeq_bytes (v - last (prev # vals)) = Ok b \<Longrightarrow> packs prev (vals @ [v]) (bs @ b)"
  by (induction prev vals bs rule: packs.induct) fastforce+

lemma packs_length: "packs prev vals bs \<Longrightarrow> length vals \<le> length bs \<and> length bs \<le> 8 * length vals"
  by (induction prev vals bs rule: packs.induct) (fastforce dest: PackedUintSeq_bytes_length)+

lemma packed_seq_Append:
  assumes "packed_seq s vals" and "PackedUintSeq_Append v n s = Ok (n', s')"
  shows "packed_seq s' (vals @ [v])" and "n' - n = length (pu_data s') - length (pu_data s)" and "n \<le> n'"
  using assms by (auto simp: packed_seq_def PackedUintSeq_Append_def res_simps packs_snoc simp del: last.simps)
    simp

lemma Restore_loop_packs:
  assumes "packs prev vals bs" and "pu_data s = pre @ bs"
  shows "Restore_loop s (length vals) (length pre) prev out = Ok (out @ vals)"
  using assms
proof (induction prev vals bs arbitrary: pre out rule: packs.induct)
  case (2 prev v vals bs)
  then obtain b rest where b: "PackedUintSeq_bytes (v - prev) = Ok b" "bs = b @ rest" "packs v vals rest"
    by auto
  with 2 have "PackedUintSeq_DeflateSingleInteger s (length pre) = Ok (v - prev, length b)"
    by (intro Deflate_bytes) auto
  with 2 b show ?case using "2.IH" [OF b(3), of "pre @ b"] by simp
qed simp

lemma Iterator_values_packs:
  assumes "packs (pi_prev_value it) vals bs" and "pu_data s = pre @ bs"
    and "pi_next_offset it = length pre" and "pu_len s = pi_element_count it + length vals"
  shows "PackedUintSeqIterator_values s (Suc (length vals)) it = Ok vals"
  using assms
proof (induction vals arbitrary: it pre bs)
  case Nil
  then show ?case by (simp add: PackedUintSeqIterator_Next_def)
next
  case (Cons v vals)
  then obtain b rest where b: "PackedUintSeq_bytes (v - pi_prev_value it) = Ok b" "bs = b @ rest"
    "packs v vals rest" by auto
  with Cons.prems have d: "PackedUintSeq_DeflateSingleInteger s (pi_next_offset it) = Ok (v - pi_prev_value it, length b)"
    by (auto intro: Deflate_bytes)
  let ?it = "it\<lparr>pi_next_offset := pi_next_offset it + length b, pi_prev_value := v,
    pi_element_count := pi_element_count it + 1\<rparr>"
  have "PackedUintSeqIterator_Next s it = Ok (Some v, ?it)"
    using Cons.prems(4) d by (simp add: PackedUintSeqIterator_Next_def)
  moreover have "PackedUintSeqIterator_values s (Suc (length vals)) ?it = Ok vals"
    using Cons.prems b by (intro Cons.IH [of ?it rest "pre @ b"]) simp_all
  ultimately show ?case by simp
qed

text \<open>The calls \<open>Append(v, &bytes)\<close> for the values of a vector, in order.\<close>

definition PackedUintSeq_Append_all :: "64 word list \<Rightarrow> (nat \<times> PackedUintSeq) res" where
  "PackedUintSeq_Append_all vals =
     rfold (\<lambda>v (n, s). PackedUintSeq_Append v n s) vals (0, PackedUintSeq_new)"

lemma PackedUintSeq_Append_all_snoc:
  "PackedUintSeq_Append_all (vals @ [v]) =
     rbind (PackedUintSeq_Append_all vals) (\<lambda>(n, s). PackedUintSeq_Append v n s)"
  by (cases "PackedUintSeq_Append_all vals") (auto simp: PackedUintSeq_Append_all_def rfold_append split: prod.split)

lemma PackedUintSeq_Append_all_packed:
  "PackedUintSeq_Append_all vals = Ok (n, s) \<Longrightarrow> packed_seq s vals \<and> n = length (pu_data s)"
proof (induction vals arbitrary: n s rule: rev_induct)
  case Nil
  then show ?case by (auto simp: PackedUintSeq_Append_all_def packed_seq_def PackedUintSeq_new_def)
next
  case (snoc v vals)
  then obtain n0 s0 where 0: "PackedUintSeq_Append_all vals = Ok (n0, s0)" "PackedUintSeq_Append v n0 s0 = Ok (n, s)"
    by (auto simp: PackedUintSeq_Append_all_snoc rbind_eq_Ok)
  from snoc.IH [OF 0(1)] packed_seq_Append [OF _ 0(2)] 0(2) show ?case
    by (auto simp: PackedUintSeq_Append_def res_simps)
qed

text \<open>The sequences that can be packed: increasing, with no gap of \<open>2 ^ 61\<close> or more.\<close>

definition packable :: "64 word list \<Rightarrow> bool" where
  "packable vals \<longleftrightarrow> successively (\<lambda>a b. a \<le> b \<and> b - a < 2 ^ 61) (0 # vals)"

lemma packable_snoc: "packable (vals @ [v]) \<longleftrightarrow> packable vals \<and> last (0 # vals) \<le> v \<and> v - last (0 # vals) < 2 ^ 61"
  using successively_append_iff [of "\<lambda>a b. a \<le> b \<and> b - a < 2 ^ 61" "0 # vals" "[v]"]
  by (auto simp: packable_def simp del: last.simps)

lemma PackedUintSeq_Append_all_error: "PackedUintSeq_Append_all vals = Fail e \<Longrightarrow> e = Check_failed"
proof (induction vals rule: rev_induct)
  case (snoc v vals)
  then show ?case
    by (cases "PackedUintSeq_Append_all vals")
       (auto simp: PackedUintSeq_Append_all_snoc PackedUintSeq_Append_def check_def PackedUintSeq_bytes_def
          split: if_splits)
qed (simp add: PackedUintSeq_Append_all_def)

lemma PackedUintSeq_Append_all_Ok: "(\<exists>r. PackedUintSeq_Append_all vals = Ok r) \<longleftrightarrow> packable vals"
proof (induction vals rule: rev_induct)
  case Nil
  then show ?case by (simp add: PackedUintSeq_Append_all_def packable_def)
next
  case (snoc v vals)
  show ?case
  proof (cases "packable vals")
    case True
    with snoc obtain n s where ns: "PackedUintSeq_Append_all vals = Ok (n, s)" by force
    with PackedUintSeq_Append_all_packed have "pu_last_append s = last (0 # vals)"
      by (simp add: packed_seq_def)
    with True ns PackedUintSeq_bytes_Ok [of "v - last (0 # vals)"] show ?thesis
      by (auto simp: PackedUintSeq_Append_all_snoc packable_snoc PackedUintSeq_Append_def res_simps simp del: last.simps)
  qed (use snoc in \<open>auto simp: PackedUintSeq_Append_all_snoc packable_snoc rbind_eq_Ok\<close>)
qed

section \<open>Run-length fields\<close>

record 't Stride =
  st_value :: 't
  st_increment :: 't
  st_len :: nat
  st_starting_index :: nat

definition Stride_new :: "'w::len word \<Rightarrow> nat \<Rightarrow> 'w word Stride" where
  "Stride_new value starting_index =
     \<lparr>st_value = value, st_increment = 0, st_len = 0, st_starting_index = starting_index\<rparr>"

record 't RLEField =
  rf_strides :: "'t Stride list"
  rf_total_num_elements :: nat
  rf_min_value :: 't
  rf_max_value :: 't

text \<open>The constructor leaves the extreme values uninitialised: they are arguments here.\<close>

definition RLEField_new :: "'w::len word \<Rightarrow> 'w word \<Rightarrow> 'w word RLEField" where
  "RLEField_new min0 max0 =
     \<lparr>rf_strides = [], rf_total_num_elements = 0, rf_min_value = min0, rf_max_value = max0\<rparr>"

text \<open>\<open>sizeof_Stride\<close> is what the second argument grows by with each new stride.\<close>

definition RLEField_Append :: "nat \<Rightarrow> 'w::len word \<Rightarrow> nat \<Rightarrow> 'w word RLEField \<Rightarrow> nat \<times> 'w word RLEField" where
  "RLEField_Append sizeof_Stride value bytes f =
     (let f = f\<lparr>rf_total_num_elements := rf_total_num_elements f + 1\<rparr>; strides = rf_strides f in
      if strides = [] then (bytes + sizeof_Stride, f\<lparr>rf_strides := strides @ [Stride_new value 0]\<rparr>)
      else let last_stride = last strides in
        if st_len last_stride = 0 then
          (bytes, f\<lparr>rf_strides := butlast strides @
             [last_stride\<lparr>st_increment := value - st_value last_stride, st_len := st_len last_stride + 1\<rparr>]\<rparr>)
        else let expected = st_value last_stride + of_nat (st_len last_stride + 1) * st_increment last_stride in
          if value = expected then
            (bytes, f\<lparr>rf_strides := butlast strides @ [last_stride\<lparr>st_len := st_len last_stride + 1\<rparr>]\<rparr>)
          else
            (bytes + sizeof_Stride,
             f\<lparr>rf_strides := strides @ [Stride_new value (st_starting_index last_stride + st_len last_stride + 1)],
               rf_min_value := min (rf_min_value f) value,
               rf_max_value := min (rf_max_value f) value\<rparr>))"

definition RLEField_of_vector :: "nat \<Rightarrow> 'w::len word \<Rightarrow> 'w word \<Rightarrow> 'w word list \<Rightarrow> 'w word RLEField" where
  "RLEField_of_vector sizeof_Stride min0 max0 values =
     fold (\<lambda>value f. snd (RLEField_Append sizeof_Stride value 0 f)) values (RLEField_new min0 max0)"

definition RLEField_Restore :: "'w::len word RLEField \<Rightarrow> 'w word list \<Rightarrow> 'w word list" where
  "RLEField_Restore f vector =
     fold (\<lambda>stride vector. fold (\<lambda>i vector. vector @ [st_value stride + of_nat (i + 1) * st_increment stride])
        [0..<st_len stride] (vector @ [st_value stride])) (rf_strides f) vector"

definition RLEField_size :: "'w::len word RLEField \<Rightarrow> nat" where
  "RLEField_size f = rf_total_num_elements f"

definition RLEField_min_value :: "'w::len word RLEField \<Rightarrow> 'w word res" where
  "RLEField_min_value f = check (rf_total_num_elements f > 0) (Ok (rf_min_value f))"

definition RLEField_max_value :: "'w::len word RLEField \<Rightarrow> 'w word res" where
  "RLEField_max_value f = check (rf_total_num_elements f > 0) (Ok (rf_max_value f))"

text \<open>\<open>std::upper_bound\<close> gives the first stride that starts after the index.\<close>

definition RLEField_at :: "'w::len word RLEField \<Rightarrow> nat \<Rightarrow> 'w word res" where
  "RLEField_at f index =
     check (index < rf_total_num_elements f)
       (let it = length (takeWhile (\<lambda>stride. \<not> index < st_starting_index stride) (rf_strides f)) in
        check (it \<noteq> 0)
          (rbind (vec_at (rf_strides f) (it - 1)) (\<lambda>stride.
             let delta = index - st_starting_index stride in
             Ok (st_value stride + of_nat delta * st_increment stride))))"

text \<open>The iterator's pointer to a stride is its position, if it has one.\<close>

record RLEFieldIterator =
  ri_curr_stride :: "nat option"
  ri_stride_index :: nat
  ri_index_in_stride :: nat

definition RLEFieldIterator_new :: RLEFieldIterator where
  "RLEFieldIterator_new = \<lparr>ri_curr_stride = None, ri_stride_index = 0, ri_index_in_stride = 0\<rparr>"

definition RLEFieldIterator_Next ::
    "'w::len word RLEField \<Rightarrow> RLEFieldIterator \<Rightarrow> ('w word option \<times> RLEFieldIterator) res" where
  "RLEFieldIterator_Next parent it =
     (let exhausted = (case ri_curr_stride it of None \<Rightarrow> True
                       | Some k \<Rightarrow> ri_index_in_stride it > st_len (rf_strides parent ! k)) in
      if exhausted \<and> ri_stride_index it = length (rf_strides parent) then Ok (None, it)
      else let it = (if exhausted
                     then it\<lparr>ri_curr_stride := Some (ri_stride_index it), ri_stride_index := ri_stride_index it + 1,
                            ri_index_in_stride := 0\<rparr>
                     else it) in
        rbind (vec_at (rf_strides parent) (the (ri_curr_stride it))) (\<lambda>stride.
          Ok (Some (st_value stride + of_nat (ri_index_in_stride it) * st_increment stride),
              it\<lparr>ri_index_in_stride := ri_index_in_stride it + 1\<rparr>)))"

fun RLEFieldIterator_values :: "'w::len word RLEField \<Rightarrow> nat \<Rightarrow> RLEFieldIterator \<Rightarrow> 'w word list res" where
  "RLEFieldIterator_values f 0 it = Ok []"
| "RLEFieldIterator_values f (Suc n) it =
     rbind (RLEFieldIterator_Next f it) (\<lambda>(value, it).
       case value of
         None \<Rightarrow> Ok []
       | Some v \<Rightarrow> rbind (RLEFieldIterator_values f n it) (\<lambda>vs. Ok (v # vs)))"

section \<open>The run-length field as a list\<close>

definition stride_values :: "'w::len word Stride \<Rightarrow> 'w word list" where
  "stride_values stride = map (\<lambda>i. st_value stride + of_nat i * st_increment stride) [0..<Suc (st_len stride)]"

fun strides_from :: "nat \<Rightarrow> 'w::len word Stride list \<Rightarrow> bool" where
  "strides_from n [] \<longleftrightarrow> True"
| "strides_from n (s # strides) \<longleftrightarrow> st_starting_index s = n \<and> strides_from (n + st_len s + 1) strides"

definition rle_values :: "'w::len word RLEField \<Rightarrow> 'w word list" where
  "rle_values f = concat (map stride_values (rf_strides f))"

definition rle_wf :: "'w::len word RLEField \<Rightarrow> bool" where
  "rle_wf f \<longleftrightarrow> strides_from 0 (rf_strides f) \<and> rf_total_num_elements f = length (rle_values f)"

lemma length_stride_values [simp]: "length (stride_values s) = Suc (st_len s)"
  by (simp add: stride_values_def)

lemma stride_values_snoc [simp]:
  "stride_values (s\<lparr>st_len := Suc (st_len s)\<rparr>) = stride_values s @ [st_value s + of_nat (Suc (st_len s)) * st_increment s]"
  by (simp add: stride_values_def)

lemma stride_values_second:
  "st_len s = 0 \<Longrightarrow> stride_values (s\<lparr>st_increment := v - st_value s, st_len := Suc 0\<rparr>) = stride_values s @ [v]"
  by (simp add: stride_values_def)

lemma stride_values_new [simp]: "stride_values (Stride_new v i) = [v]"
  by (simp add: stride_values_def Stride_new_def)

lemma fold_push: "fold (\<lambda>i out. out @ [g i]) xs out = out @ map g xs"
  by (induction xs arbitrary: out) auto

lemma stride_values_Cons:
  "stride_values s = st_value s # map (\<lambda>i. st_value s + of_nat (i + 1) * st_increment s) [0..<st_len s]"
  by (simp add: stride_values_def upt_conv_Cons map_Suc_upt [symmetric] del: upt_Suc)

lemma RLEField_Restore_values: "RLEField_Restore f out = out @ rle_values f"
proof -
  have "fold (\<lambda>stride vector. fold (\<lambda>i vector. vector @ [st_value stride + of_nat (i + 1) * st_increment stride])
        [0..<st_len stride] (vector @ [st_value stride])) strides out = out @ concat (map stride_values strides)" for strides
    by (induction strides arbitrary: out) (simp_all add: fold_push stride_values_Cons del: of_nat_add of_nat_Suc)
  then show ?thesis by (simp add: RLEField_Restore_def rle_values_def)
qed

lemma strides_from_append [simp]:
  "strides_from n (xs @ ys) \<longleftrightarrow> strides_from n xs \<and> strides_from (n + length (concat (map stride_values xs))) ys"
  by (induction xs arbitrary: n) (auto simp: add.assoc)

lemma RLEField_Append_values:
  assumes "rle_wf f"
  shows "rle_values (snd (RLEField_Append sz v n f)) = rle_values f @ [v] \<and>
         rle_wf (snd (RLEField_Append sz v n f))"
proof (cases "rf_strides f" rule: rev_cases)
  case Nil
  then show ?thesis using assms
    by (simp add: RLEField_Append_def rle_wf_def rle_values_def) (simp add: Stride_new_def)
next
  case (snoc xs l)
  let ?w = "st_value l + of_nat (st_len l + 1) * st_increment l"
  consider "st_len l = 0" | "st_len l \<noteq> 0" "v = ?w" | "st_len l \<noteq> 0" "v \<noteq> ?w" by blast
  then show ?thesis
  proof cases
    case 3
    then show ?thesis using assms snoc
      by (simp add: RLEField_Append_def rle_wf_def rle_values_def Let_def) (simp add: Stride_new_def)
  qed (use assms snoc in \<open>auto simp: RLEField_Append_def rle_wf_def rle_values_def Let_def stride_values_second\<close>)
qed

lemma RLEField_of_vector_values:
  "rle_values (RLEField_of_vector sz min0 max0 values) = values \<and> rle_wf (RLEField_of_vector sz min0 max0 values)"
proof (induction "values" rule: rev_induct)
  case Nil
  show ?case by (simp add: RLEField_of_vector_def RLEField_new_def rle_values_def rle_wf_def)
next
  case (snoc v vs)
  with RLEField_Append_values [of "RLEField_of_vector sz min0 max0 vs" sz v 0]
  show ?case by (simp add: RLEField_of_vector_def)
qed

text \<open>Random access: the stride \<open>upper_bound\<close> finds holds the element.\<close>

definition stride_get :: "'w::len word Stride \<Rightarrow> nat \<Rightarrow> 'w word" where
  "stride_get s i = st_value s + of_nat (i - st_starting_index s) * st_increment s"

lemma strides_from_nth:
  assumes "strides_from n strides" and "i < length (concat (map stride_values strides))"
  defines "k \<equiv> length (takeWhile (\<lambda>s. \<not> n + i < st_starting_index s) strides)"
  shows "0 < k \<and> k \<le> length strides \<and> st_starting_index (strides ! (k - 1)) \<le> n + i \<and>
         stride_get (strides ! (k - 1)) (n + i) =
         concat (map stride_values strides) ! i"
  using assms(1,2) unfolding k_def
proof (induction strides arbitrary: n i)
  case (Cons s strides)
  show ?case
  proof (cases "i \<le> st_len s")
    case True
    have "takeWhile (\<lambda>s. \<not> n + i < st_starting_index s) strides = []"
      using Cons.prems(1) True by (cases strides) auto
    with Cons.prems True show ?thesis by (simp add: nth_append stride_values_def stride_get_def del: upt_Suc)
  next
    case False
    then obtain j where j: "i = st_len s + 1 + j" using less_imp_Suc_add [of "st_len s" i] by auto
    let ?k = "length (takeWhile (\<lambda>s. \<not> n + i < st_starting_index s) strides)"
    have "0 < ?k \<and> ?k \<le> length strides \<and> st_starting_index (strides ! (?k - 1)) \<le> n + i \<and>
       stride_get (strides ! (?k - 1)) (n + i) =
       concat (map stride_values strides) ! j"
      using Cons.IH [of "n + st_len s + 1" j] Cons.prems j by (simp add: add.assoc)
    with Cons.prems j show ?thesis by (cases ?k) (simp_all add: nth_append)
  qed
qed simp

lemma RLEField_at_values:
  assumes "rle_wf f"
  shows "RLEField_at f i = (if i < length (rle_values f) then Ok (rle_values f ! i) else Fail Check_failed)"
proof (cases "i < length (rle_values f)")
  case True
  let ?k = "length (takeWhile (\<lambda>s. \<not> i < st_starting_index s) (rf_strides f))"
  have k: "0 < ?k" "?k \<le> length (rf_strides f)" "stride_get (rf_strides f ! (?k - 1)) i = rle_values f ! i"
    using assms True strides_from_nth [of 0 "rf_strides f" i] by (auto simp: rle_wf_def rle_values_def)
  then have "?k - 1 < length (rf_strides f)" by linarith
  with k assms True show ?thesis by (simp add: RLEField_at_def rle_wf_def Let_def stride_get_def)
qed (use assms in \<open>simp add: RLEField_at_def rle_wf_def\<close>)

text \<open>What an iterator has still to give.\<close>

definition rest_of :: "'w::len word RLEField \<Rightarrow> RLEFieldIterator \<Rightarrow> 'w word list" where
  "rest_of f it =
     (case ri_curr_stride it of None \<Rightarrow> [] | Some k \<Rightarrow> drop (ri_index_in_stride it) (stride_values (rf_strides f ! k))) @
     concat (map stride_values (drop (ri_stride_index it) (rf_strides f)))"

definition ri_wf :: "'w::len word RLEField \<Rightarrow> RLEFieldIterator \<Rightarrow> bool" where
  "ri_wf f it \<longleftrightarrow> ri_stride_index it \<le> length (rf_strides f) \<and>
     (\<forall>k. ri_curr_stride it = Some k \<longrightarrow> k < length (rf_strides f))"

lemma drop_stride_values:
  "drop i (stride_values s) = (if i \<le> st_len s
     then (st_value s + of_nat i * st_increment s) # drop (Suc i) (stride_values s) else [])"
proof (cases "i \<le> st_len s")
  case True
  then have "drop i (stride_values s) = stride_values s ! i # drop (Suc i) (stride_values s)"
    by (intro Cons_nth_drop_Suc [symmetric]) simp
  with True show ?thesis by (simp add: stride_values_def del: upt_Suc)
qed simp

lemma RLEFieldIterator_Next_rest:
  assumes "ri_wf f it"
  shows "rest_of f it = [] \<and> RLEFieldIterator_Next f it = Ok (None, it) \<or>
    (\<exists>v it'. RLEFieldIterator_Next f it = Ok (Some v, it') \<and> rest_of f it = v # rest_of f it' \<and> ri_wf f it')"
proof -
  define exhausted where "exhausted \<longleftrightarrow> (case ri_curr_stride it of None \<Rightarrow> True
                       | Some k \<Rightarrow> ri_index_in_stride it > st_len (rf_strides f ! k))"
  have rest: "rest_of f it = concat (map stride_values (drop (ri_stride_index it) (rf_strides f)))" if exhausted
    using that by (auto simp: rest_of_def exhausted_def split: option.splits)
  consider "\<not> exhausted" | "exhausted" "ri_stride_index it = length (rf_strides f)" |
    "exhausted" "ri_stride_index it < length (rf_strides f)"
    using assms by (fastforce simp: ri_wf_def)
  then show ?thesis
  proof cases
    case 1
    then obtain k where k: "ri_curr_stride it = Some k" "ri_index_in_stride it \<le> st_len (rf_strides f ! k)"
      by (auto simp: exhausted_def split: option.splits)
    then show ?thesis using assms
      by (auto simp: RLEFieldIterator_Next_def ri_wf_def rest_of_def drop_stride_values [of "ri_index_in_stride it"])
  next
    case 2
    then show ?thesis using rest by (simp add: RLEFieldIterator_Next_def Let_def exhausted_def)
  next
    case 3
    let ?s = "rf_strides f ! ri_stride_index it"
    have "drop (ri_stride_index it) (rf_strides f) = ?s # drop (Suc (ri_stride_index it)) (rf_strides f)"
      using 3 by (simp add: Cons_nth_drop_Suc)
    moreover have "stride_values ?s = st_value ?s # drop (Suc 0) (stride_values ?s)"
      using drop_stride_values [of 0 ?s] by simp
    ultimately have "rest_of f it = st_value ?s # drop (Suc 0) (stride_values ?s) @
        concat (map stride_values (drop (Suc (ri_stride_index it)) (rf_strides f)))"
      using rest [OF 3(1)] by simp
    with 3 assms show ?thesis
      by (auto simp: RLEFieldIterator_Next_def Let_def exhausted_def [symmetric] ri_wf_def)
         (simp add: rest_of_def)
  qed
qed

lemma RLEFieldIterator_values_rest:
  "ri_wf f it \<Longrightarrow> RLEFieldIterator_values f (Suc (length (rest_of f it))) it = Ok (rest_of f it)"
proof (induction "rest_of f it" arbitrary: it)
  case Nil
  with RLEFieldIterator_Next_rest [of f it] show ?case by auto
next
  case (Cons v vs)
  with RLEFieldIterator_Next_rest [of f it] obtain it'
    where "RLEFieldIterator_Next f it = Ok (Some v, it')" "vs = rest_of f it'" "ri_wf f it'"
    by (metis list.discI list.inject)
  with Cons.hyps(1) [of it'] Cons.hyps(2) [symmetric] show ?case by simp
qed

section \<open>Properties\<close>



text \<open>The extreme values: \<open>min_value\<close> of a field with one element is whatever the memory held, and
  \<open>max_value\<close> never grows.\<close>

lemma RLEField_extremes_wrong:
  "RLEField_min_value (RLEField_of_vector sz min0 max0 [v]) = Ok min0"
  "RLEField_max_value (RLEField_of_vector sz min0 0 [v, v, w]) = Ok (0 :: 'w::len word)"
  by (simp_all add: RLEField_min_value_def RLEField_max_value_def RLEField_of_vector_def RLEField_Append_def
      RLEField_new_def Stride_new_def Let_def)

end
