(* ===== verification/Circular_Array.thy ===== *)
theory Circular_Array
  imports Ncode_Prelude
begin

unbundle bit_operations_syntax

text \<open>
  \<open>CircularArray\<close> of \<open>src/src/circular_array.h\<close> and \<open>IsPowerOfTwo\<close> of \<open>src/src/common.h\<close>, which its
  constructor asserts of the capacity. The write index is a 64-bit word that is never reduced, only
  masked on use, so it wraps around; the contents are specified as a bounded list, of which the
  array is shown to be a refinement.
\<close>

definition IsPowerOfTwo :: "32 word \<Rightarrow> bool" where
  "IsPowerOfTwo x \<longleftrightarrow> x \<noteq> 0 \<and> x AND (NOT x + 1) = x"

record 'a CircularArray =
  ca_num_values :: "64 word"
  ca_index :: "64 word"
  ca_values :: "'a list"

text \<open>\<open>NumValues\<close> is the length of the \<open>std::array\<close>.\<close>

definition CircularArray_NumValues :: "'a CircularArray \<Rightarrow> 64 word" where
  "CircularArray_NumValues a = of_nat (length (ca_values a))"

definition CircularArray_kMask :: "'a CircularArray \<Rightarrow> 64 word" where
  "CircularArray_kMask a = CircularArray_NumValues a - 1"

definition CircularArray_new :: "32 word \<Rightarrow> 'a \<Rightarrow> 'a CircularArray" where
  "CircularArray_new NumValues d =
     \<lparr>ca_num_values = 0, ca_index = 0, ca_values = replicate (unat NumValues) d\<rparr>"

definition CircularArray_AddValue :: "'a \<Rightarrow> 'a CircularArray \<Rightarrow> 'a CircularArray" where
  "CircularArray_AddValue value a =
     (let a' = a\<lparr>ca_values := (ca_values a)[unat (ca_index a AND CircularArray_kMask a) := value],
                 ca_index := ca_index a + 1\<rparr>
      in if ca_num_values a < CircularArray_NumValues a then a'\<lparr>ca_num_values := ca_num_values a + 1\<rparr> else a')"

definition CircularArray_size :: "'a CircularArray \<Rightarrow> 64 word" where
  "CircularArray_size a = ca_num_values a"

definition CircularArray_empty :: "'a CircularArray \<Rightarrow> bool" where
  "CircularArray_empty a \<longleftrightarrow> ca_num_values a = 0"

definition CircularArray_MostRecentValueOrDie :: "'a CircularArray \<Rightarrow> 'a res" where
  "CircularArray_MostRecentValueOrDie a =
     check (ca_num_values a > 0) (vec_at (ca_values a) (unat ((ca_index a - 1) AND CircularArray_kMask a)))"

definition CircularArray_OldestValueOrDie :: "'a CircularArray \<Rightarrow> 'a res" where
  "CircularArray_OldestValueOrDie a =
     check (ca_num_values a > 0)
       (let start = (ca_index a - ca_num_values a) AND CircularArray_kMask a
        in vec_at (ca_values a) (unat start))"

definition CircularArray_GetValues :: "'a CircularArray \<Rightarrow> ('a list \<times> 'a CircularArray) res" where
  "CircularArray_GetValues a =
     (let start = (ca_index a - ca_num_values a) AND CircularArray_kMask a in
      rbind (rfold (\<lambda>i values.
               let value_index = (start + of_nat i) AND CircularArray_kMask a in
               rbind (vec_at (ca_values a) (unat value_index)) (\<lambda>v. Ok (values @ [v])))
             [0..<unat (ca_num_values a)] [])
        (\<lambda>values. Ok (values, a\<lparr>ca_num_values := 0, ca_index := 0\<rparr>)))"

section \<open>Powers of two\<close>

lemma int_lowest_bit: "(2 ^ k * (2 * y + 1)) AND (- (2 ^ k * (2 * y + 1))) = (2 ^ k :: int)"
proof (induction k)
  case 0
  have eq: "- (2 * y + 1) = 2 * NOT y + 1" by (simp add: not_int_def)
  have "(2 * y + 1) AND (2 * NOT y + 1) = 1"
    using and_int_rec [of "2 * y + 1" "2 * NOT y + 1"] by simp
  then show ?case by (simp only: power_0 mult_1 eq)
next
  case (Suc k)
  have "(2 * a) AND (2 * b) = 2 * (a AND b)" for a b :: int
    using and_int_rec [of "2 * a" "2 * b"] by simp
  from this [of "2 ^ k * (2 * y + 1)" "- (2 ^ k * (2 * y + 1))"] Suc show ?case
    by (simp add: algebra_simps)
qed

lemma odd_part: "0 < (n :: nat) \<Longrightarrow> \<exists>k y. n = 2 ^ k * (2 * y + 1)"
proof (induction n rule: less_induct)
  case (less n)
  show ?case
  proof (cases "even n")
    case True
    then obtain m where "n = 2 * m" by blast
    with less.IH [of m] less.prems obtain k y where "m = 2 ^ k * (2 * y + 1)" by auto
    with \<open>n = 2 * m\<close> have "n = 2 ^ Suc k * (2 * y + 1)" by simp
    then show ?thesis by blast
  qed (metis mult_1 oddE power_0)
qed

lemma pow2_less: "k < 32 \<Longrightarrow> (2 :: nat) ^ k < 2 ^ 32"
  by (rule power_strict_increasing) simp_all

lemma word_lowest_bit:
  assumes "uint (x :: 32 word) = 2 ^ k * (2 * y + 1)"
  shows "x AND (NOT x + 1) = 2 ^ k"
proof -
  have "x AND (NOT x + 1) = x AND - x" by (simp add: not_eq_complement)
  also have "\<dots> = word_of_int (uint x) AND word_of_int (- uint x)" by simp
  also have "\<dots> = word_of_int (uint x AND - uint x)" by (simp only: and.assoc of_int_and_eq)
  also have "\<dots> = 2 ^ k" using int_lowest_bit [of k y] by (simp add: assms)
  finally show ?thesis .
qed

lemma IsPowerOfTwo_iff: "IsPowerOfTwo x \<longleftrightarrow> (\<exists>k<32. x = 2 ^ k)"
proof
  assume p: "IsPowerOfTwo x"
  then have "0 < unat x" by (simp add: IsPowerOfTwo_def unat_gt_0)
  then obtain k y where ky: "unat x = 2 ^ k * (2 * y + 1)" using odd_part by blast
  have "2 ^ k \<le> unat x" by (simp add: ky)
  then have "(2 :: nat) ^ k < 2 ^ 32" using unat_bound [of x] by simp
  then have "k < 32" using power_less_imp_less_exp [of "2 :: nat" k 32] by simp
  moreover have "uint x = 2 ^ k * (2 * int y + 1)"
    using arg_cong [OF ky, of int] by (simp add: algebra_simps)
  then have "x = 2 ^ k" using word_lowest_bit [of x k "int y"] p by (simp add: IsPowerOfTwo_def)
  ultimately show "\<exists>k<32. x = 2 ^ k" by blast
next
  assume "\<exists>k<32. x = 2 ^ k"
  then obtain k where k: "k < 32" "x = 2 ^ k" by blast
  have "unat (of_nat (2 ^ k) :: 32 word) = 2 ^ k"
    using pow2_less [OF k(1)] by (intro of_nat_unat_less) simp
  then have ux: "unat x = 2 ^ k" using k(2) by simp
  have "uint x = 2 ^ k * (2 * 0 + 1)" using arg_cong [OF ux, of int] by simp
  then have "x AND (NOT x + 1) = x" using word_lowest_bit k(2) by blast
  moreover have "x \<noteq> 0" using ux by auto
  ultimately show "IsPowerOfTwo x" by (simp add: IsPowerOfTwo_def)
qed

section \<open>The contents as a bounded list\<close>

text \<open>The invariant: a capacity of \<open>2 ^ k\<close>, at most that many values.\<close>

definition ca_wf :: "nat \<Rightarrow> 'a CircularArray \<Rightarrow> bool" where
  "ca_wf k a \<longleftrightarrow> k < 32 \<and> length (ca_values a) = 2 ^ k \<and> unat (ca_num_values a) \<le> 2 ^ k"

definition ca_slot :: "nat \<Rightarrow> 64 word \<Rightarrow> nat" where
  "ca_slot k i = unat i mod 2 ^ k"

definition ca_contents :: "nat \<Rightarrow> 'a CircularArray \<Rightarrow> 'a list" where
  "ca_contents k a =
     map (\<lambda>i. ca_values a ! ca_slot k (ca_index a - ca_num_values a + of_nat i)) [0..<unat (ca_num_values a)]"

lemma ca_mask:
  assumes "ca_wf k a"
  shows "unat (i AND CircularArray_kMask a) = ca_slot k i"
proof -
  have "CircularArray_kMask a = mask k"
    using assms by (simp add: ca_wf_def CircularArray_kMask_def CircularArray_NumValues_def mask_eq_exp_minus_1)
  moreover have "unat (take_bit k i) = unat i mod 2 ^ k"
    by (subst unsigned_take_bit_eq) (rule take_bit_eq_mod)
  ultimately show ?thesis by (simp add: ca_slot_def flip: take_bit_eq_mask)
qed

lemma ca_slot_less: "ca_slot k i < 2 ^ k"
  by (simp add: ca_slot_def)

lemma ca_slot_add:
  assumes "k \<le> 64"
  shows "ca_slot k (x + of_nat i) = (unat x + i) mod 2 ^ k"
proof -
  have "(2 :: nat) ^ k dvd 2 ^ 64" using assms by (rule le_imp_power_dvd)
  then have "n mod 2 ^ 64 mod 2 ^ k = n mod 2 ^ k" for n :: nat by (rule mod_mod_cancel)
  from this [of "unat x + i mod 2 ^ 64"] this [of i] show ?thesis
    by (simp add: ca_slot_def unat_word_ariths unat_of_nat) (metis mod_add_right_eq)
qed

lemma ca_slot_differs:
  assumes "k \<le> 64" and "i < j" and "j - i < 2 ^ k"
  shows "ca_slot k (x + of_nat i) \<noteq> ca_slot k (x + of_nat j)"
proof
  assume "ca_slot k (x + of_nat i) = ca_slot k (x + of_nat j)"
  then have "(2 :: nat) ^ k dvd j - i"
    using assms(1,2) mod_eq_dvd_iff_nat [of "unat x + i" "unat x + j" "2 ^ k"] by (simp add: ca_slot_add)
  with assms(2,3) show False by (auto dest: dvd_imp_le)
qed

lemma AddValue_wf: "ca_wf k a \<Longrightarrow> ca_wf k (CircularArray_AddValue v a)"
proof -
  assume wf: "ca_wf k a"
  have p: "(2 :: nat) ^ k < 2 ^ 32" using wf by (intro pow2_less) (simp add: ca_wf_def)
  with wf have "unat (CircularArray_NumValues a) = 2 ^ k"
    using of_nat_unat_less [where 'v = 64, of "2 ^ k"] by (simp add: CircularArray_NumValues_def ca_wf_def)
  with wf p show ?thesis
    using unat_Suc_word [of "ca_num_values a"]
    by (auto simp: ca_wf_def CircularArray_AddValue_def Let_def word_less_nat_alt)
qed

text \<open>The refinement: \<open>AddValue\<close> appends, and drops the oldest value of a full array.\<close>

lemma AddValue_contents:
  assumes wf: "ca_wf k a"
  shows "ca_contents k (CircularArray_AddValue v a) =
    (if length (ca_contents k a) < 2 ^ k then ca_contents k a @ [v] else tl (ca_contents k a) @ [v])"
proof -
  have k: "k < 32" and len: "length (ca_values a) = 2 ^ k" and le: "unat (ca_num_values a) \<le> 2 ^ k"
    using wf by (simp_all add: ca_wf_def)
  have p: "(2 :: nat) ^ k < 2 ^ 32" using k by (rule pow2_less)
  have N: "unat (CircularArray_NumValues a) = 2 ^ k"
    using len p of_nat_unat_less [where 'v = 64, of "2 ^ k"] by (simp add: CircularArray_NumValues_def)
  define n where "n = unat (ca_num_values a)"
  define start where "start = ca_index a - ca_num_values a"
  have n: "ca_num_values a = of_nat n" "n \<le> 2 ^ k" using le by (simp_all add: n_def)
  have un: "unat (of_nat n :: 64 word) = n" using n_def n(1) by simp
  have index: "ca_index a = start + of_nat n" by (simp add: start_def n)
  let ?vals = "(ca_values a)[ca_slot k (start + of_nat n) := v]"
  have get: "?vals ! ca_slot k (start + of_nat i) = (if i = n then v else ca_values a ! ca_slot k (start + of_nat i))"
    if "i \<le> n" "n - i < 2 ^ k" for i
    using ca_slot_differs [of k i n start] that k ca_slot_less [of k "start + of_nat n"] len
    by (cases "i = n") auto
  show ?thesis
  proof (cases "n < 2 ^ k")
    case True
    then have "unat (ca_num_values a + 1) = Suc n"
      using unat_Suc_word [of "ca_num_values a"] p by (simp add: n_def)
    then have "ca_contents k (CircularArray_AddValue v a) = map (\<lambda>i. ?vals ! ca_slot k (start + of_nat i)) [0..<Suc n]"
      using True N ca_mask [OF wf] index
      by (simp add: ca_contents_def CircularArray_AddValue_def Let_def word_less_nat_alt n(1) un del: upt_Suc)
    also have "\<dots> = ca_contents k a @ [v]"
      using True get by (simp add: ca_contents_def n_def [symmetric] start_def [symmetric])
    finally show ?thesis using True by (simp add: ca_contents_def n_def)
  next
    case False
    with n(2) obtain m where m: "n = 2 ^ k" "n = Suc m" by (cases n) auto
    have "ca_contents k (CircularArray_AddValue v a) = map (\<lambda>i. ?vals ! ca_slot k (start + of_nat (Suc i))) [0..<Suc m]"
      using False N ca_mask [OF wf] index m
      by (simp add: ca_contents_def CircularArray_AddValue_def Let_def word_less_nat_alt n_def [symmetric] add.assoc del: upt_Suc)
         (simp add: start_def algebra_simps)
    also have "\<dots> = map (\<lambda>i. ca_values a ! ca_slot k (start + of_nat (Suc i))) [0..<m] @ [v]"
    proof -
      have "?vals ! ca_slot k (start + of_nat (Suc i)) = ca_values a ! ca_slot k (start + of_nat (Suc i))" if "i < m" for i
        using that m get [of "Suc i"] by (simp del: of_nat_Suc)
      moreover have "?vals ! ca_slot k (start + of_nat (Suc m)) = v" using m(2) get [of n] by (simp del: of_nat_Suc)
      ultimately show ?thesis by (simp del: of_nat_Suc)
    qed
    also have "\<dots> = tl (ca_contents k a) @ [v]"
      using m(2) by (simp add: ca_contents_def n_def [symmetric] start_def [symmetric] map_tl [symmetric] tl_upt del: upt_Suc of_nat_Suc)
         (simp add: map_Suc_upt [symmetric] del: upt_Suc of_nat_Suc)
    finally show ?thesis using m by (simp add: ca_contents_def n_def)
  qed
qed
lemma ca_contents_length: "length (ca_contents k a) = unat (ca_num_values a)"
  by (simp add: ca_contents_def)

lemma fold_AddValue:
  assumes "ca_wf k a" and "ca_contents k a = []"
  shows "ca_wf k (fold CircularArray_AddValue vs a) \<and>
         ca_contents k (fold CircularArray_AddValue vs a) = drop (length vs - 2 ^ k) vs"
proof (induction vs rule: rev_induct)
  case (snoc v vs)
  let ?a = "fold CircularArray_AddValue vs a"
  have "length (ca_contents k ?a) < 2 ^ k \<longleftrightarrow> length vs < 2 ^ k" using snoc by auto
  then show ?case using snoc AddValue_wf AddValue_contents [of k ?a v]
    by (auto simp: Suc_diff_le not_less tl_drop drop_Suc)
qed (use assms in simp)

lemma ca_reads:
  assumes wf: "ca_wf k a" and ne: "ca_contents k a \<noteq> []"
  shows "CircularArray_MostRecentValueOrDie a = Ok (last (ca_contents k a))"
    and "CircularArray_OldestValueOrDie a = Ok (hd (ca_contents k a))"
proof -
  obtain m where m: "unat (ca_num_values a) = Suc m"
    using ne ca_contents_length [of k a] by (cases "unat (ca_num_values a)") auto
  have "(of_nat (unat (ca_num_values a)) :: 64 word) = of_nat m + 1" unfolding m by simp
  then have num: "ca_num_values a = of_nat m + 1" by simp
  have pos: "ca_num_values a \<noteq> 0" using m by auto
  have newest: "ca_index a - ca_num_values a + of_nat m = ca_index a - 1" by (simp add: num)
  show "CircularArray_MostRecentValueOrDie a = Ok (last (ca_contents k a))"
    using wf m pos ca_slot_less [of k "ca_index a - 1"]
    by (simp add: CircularArray_MostRecentValueOrDie_def ca_mask [OF wf] ca_contents_def ca_wf_def word_gt_0 newest)
  show "CircularArray_OldestValueOrDie a = Ok (hd (ca_contents k a))"
    using wf m pos ca_slot_less [of k "ca_index a - ca_num_values a"]
    by (simp add: CircularArray_OldestValueOrDie_def ca_mask [OF wf] ca_contents_def ca_wf_def hd_map word_gt_0 del: upt_Suc)
qed

lemma rfold_push: "rfold (\<lambda>i out. Ok (out @ [g i])) is out = Ok (out @ map g is)"
  by (induction "is" arbitrary: out) auto

lemma ca_GetValues:
  assumes wf: "ca_wf k a"
  shows "CircularArray_GetValues a = Ok (ca_contents k a, a\<lparr>ca_num_values := 0, ca_index := 0\<rparr>)"
proof -
  let ?start = "ca_index a - ca_num_values a"
  have k: "k \<le> 64" using wf by (simp add: ca_wf_def)
  have "ca_slot k ((?start AND CircularArray_kMask a) + of_nat i) = ca_slot k (?start + of_nat i)" for i
    using ca_mask [OF wf, of ?start] by (simp only: ca_slot_add [OF k]) (simp add: ca_slot_def mod_add_left_eq)
  then have "vec_at (ca_values a) (unat (((?start AND CircularArray_kMask a) + of_nat i) AND CircularArray_kMask a)) =
      Ok (ca_values a ! ca_slot k (?start + of_nat i))" for i
    using wf ca_slot_less by (simp add: ca_mask [OF wf] ca_wf_def)
  then show ?thesis
    by (simp add: CircularArray_GetValues_def Let_def rfold_push ca_contents_def)
qed

section \<open>Properties\<close>

text \<open>C27. A circular array whose capacity \<open>n\<close> passes the constructor's assertion refines a list bounded to
  \<open>n\<close> elements: after any number of \<open>AddValue\<close> calls, even past the wrap-around of the 64-bit write
  index, its size, newest and oldest value and \<open>GetValues\<close> are those of the last \<open>n\<close> values added;
  the reads fail only on an empty array, which \<open>GetValues\<close> leaves behind.\<close>

theorem CircularArray_refines_bounded_list:
  assumes "IsPowerOfTwo n"
  shows "let a = fold CircularArray_AddValue vs (CircularArray_new n d); w = drop (length vs - unat n) vs in
    CircularArray_size a = of_nat (length w) \<and> CircularArray_empty a = (w = []) \<and>
    CircularArray_MostRecentValueOrDie a = (if w = [] then Fail Check_failed else Ok (last w)) \<and>
    CircularArray_OldestValueOrDie a = (if w = [] then Fail Check_failed else Ok (hd w)) \<and>
    (\<exists>a'. CircularArray_GetValues a = Ok (w, a') \<and> CircularArray_empty a')"
proof -
  from assms obtain k where k: "k < 32" "n = 2 ^ k" by (auto simp: IsPowerOfTwo_iff)
  have un: "unat n = 2 ^ k"
    using k pow2_less [OF k(1)] of_nat_unat_less [where 'v = 32, of "2 ^ k"] by simp
  let ?a = "fold CircularArray_AddValue vs (CircularArray_new n d)"
  have "ca_wf k (CircularArray_new n d)" "ca_contents k (CircularArray_new n d) = []"
    using k un by (simp_all add: ca_wf_def ca_contents_def CircularArray_new_def)
  from fold_AddValue [OF this] have a: "ca_wf k ?a" "ca_contents k ?a = drop (length vs - unat n) vs"
    by (simp_all add: un)
  have size: "ca_num_values ?a = of_nat (length (ca_contents k ?a))"
    by (simp add: ca_contents_length)
  have empty: "ca_num_values ?a = 0 \<longleftrightarrow> ca_contents k ?a = []"
    by (metis ca_contents_length length_0_conv unat_eq_zero)
  show ?thesis
    using size empty ca_reads [OF a(1)] ca_GetValues [OF a(1)]
    by (cases "ca_contents k ?a = []")
       (simp_all add: a(2) [symmetric] Let_def CircularArray_size_def CircularArray_empty_def
          CircularArray_MostRecentValueOrDie_def CircularArray_OldestValueOrDie_def)
qed

theorem CircularArray_refines_bounded_list_witness:
  "IsPowerOfTwo 2 \<and>
   (\<exists>a'. CircularArray_GetValues (fold CircularArray_AddValue [1, 2, 3] (CircularArray_new 2 0)) = Ok ([2, 3 :: nat], a'))"
proof -
  have "IsPowerOfTwo 2" by (simp add: IsPowerOfTwo_def)
  with CircularArray_refines_bounded_list [OF this, of "[1, 2, 3 :: nat]" 0] show ?thesis by (auto simp: Let_def)
qed

end
