(* ===== verification/Lru_Cache.thy ===== *)
theory Lru_Cache
  imports Ncode_Prelude "HOL-Library.AList"
begin
text \<open>
  \<open>LRUCache\<close> of \<open>src/src/lru_cache.h\<close>. The hash map is an association list with distinct keys; an
  entry holds the \<open>unique_ptr\<close> to the value (none while it is being inserted) and the iterator into
  the list of keys, which is the key of the node it points to. The calls of the virtual
  \<open>ItemEvicted\<close> are recorded in order. The cache is shown to refine a list of key-value pairs,
  most recently used first.
\<close>

type_synonym ('k, 'v) ObjectAndListIterator = "'v option \<times> 'k option"

record ('k, 'v) LRUCache =
  lru_max_cache_size :: nat
  lru_keys :: "'k list"
  lru_cache_map :: "('k \<times> ('k, 'v) ObjectAndListIterator) list"
  lru_evicted :: "('k \<times> 'v option) list"

definition LRUCache_new :: "nat \<Rightarrow> ('k, 'v) LRUCache" where
  "LRUCache_new max_cache_size =
     \<lparr>lru_max_cache_size = max_cache_size, lru_keys = [], lru_cache_map = [], lru_evicted = []\<rparr>"

text \<open>\<open>cache_map_[key]\<close>: an empty entry is inserted if there is none.\<close>

definition cache_map_entry :: "'k \<Rightarrow> ('k, 'v) LRUCache \<Rightarrow> ('k, 'v) ObjectAndListIterator \<times> ('k, 'v) LRUCache" where
  "cache_map_entry key c =
     (case map_of (lru_cache_map c) key of
        Some entry \<Rightarrow> (entry, c)
      | None \<Rightarrow> ((None, None), c\<lparr>lru_cache_map := AList.update key (None, None) (lru_cache_map c)\<rparr>))"

text \<open>\<open>keys_.splice(keys_.begin(), keys_, it)\<close>: the node is moved to the front.\<close>

definition splice_front :: "'k option \<Rightarrow> ('k, 'v) LRUCache \<Rightarrow> ('k, 'v) LRUCache res" where
  "splice_front it c =
     (case it of
        None \<Rightarrow> Fail Undefined_behaviour
      | Some k \<Rightarrow> if k \<in> set (lru_keys c) then Ok (c\<lparr>lru_keys := k # remove1 k (lru_keys c)\<rparr>)
                 else Fail Undefined_behaviour)"

definition LRUCache_EvictOldest :: "('k, 'v) LRUCache \<Rightarrow> ('k, 'v) LRUCache res" where
  "LRUCache_EvictOldest c =
     (if lru_keys c = [] then Fail Undefined_behaviour
      else let to_evict = last (lru_keys c) in
        case map_of (lru_cache_map c) to_evict of
          None \<Rightarrow> Fail Check_failed
        | Some (object, _) \<Rightarrow>
            Ok (c\<lparr>lru_evicted := lru_evicted c @ [(to_evict, object)],
                  lru_cache_map := AList.delete to_evict (lru_cache_map c),
                  lru_keys := butlast (lru_keys c)\<rparr>))"

definition LRUCache_Emplace :: "'k \<Rightarrow> 'v \<Rightarrow> ('k, 'v) LRUCache \<Rightarrow> ('v \<times> ('k, 'v) LRUCache) res" where
  "LRUCache_Emplace key value c =
     (let (entry, c) = cache_map_entry key c in
      case fst entry of
        Some object \<Rightarrow> rbind (splice_front (snd entry) c) (\<lambda>c. Ok (object, c))
      | None \<Rightarrow>
          rbind (if length (lru_cache_map c) > lru_max_cache_size c then LRUCache_EvictOldest c else Ok c) (\<lambda>c.
            Ok (value, c\<lparr>lru_keys := key # lru_keys c,
                         lru_cache_map := AList.update key (Some value, Some key) (lru_cache_map c)\<rparr>)))"

definition LRUCache_InsertNew :: "'k \<Rightarrow> 'v \<Rightarrow> ('k, 'v) LRUCache \<Rightarrow> ('v \<times> ('k, 'v) LRUCache) res" where
  "LRUCache_InsertNew key value c =
     (let (entry, c) = cache_map_entry key c in
      rbind (case fst entry of
               Some object \<Rightarrow> rbind (splice_front (snd entry) (c\<lparr>lru_evicted := lru_evicted c @ [(key, Some object)]\<rparr>))
                                (\<lambda>c. Ok (snd entry, c))
             | None \<Rightarrow>
                 rbind (if length (lru_cache_map c) > lru_max_cache_size c then LRUCache_EvictOldest c else Ok c)
                   (\<lambda>c. Ok (Some key, c\<lparr>lru_keys := key # lru_keys c\<rparr>)))
        (\<lambda>(it, c). Ok (value, c\<lparr>lru_cache_map := AList.update key (Some value, it) (lru_cache_map c)\<rparr>)))"

definition LRUCache_FindOrNull :: "'k \<Rightarrow> ('k, 'v) LRUCache \<Rightarrow> ('v option \<times> ('k, 'v) LRUCache) res" where
  "LRUCache_FindOrNull key c =
     (case map_of (lru_cache_map c) key of
        None \<Rightarrow> Ok (None, c)
      | Some (object, it) \<Rightarrow>
          check (object \<noteq> None) (rbind (splice_front it c) (\<lambda>c. Ok (object, c))))"

lemma EvictOldest_shrinks:
  "LRUCache_EvictOldest c = Ok c' \<Longrightarrow> length (lru_cache_map c') < length (lru_cache_map c)"
  by (auto simp: LRUCache_EvictOldest_def Let_def AList.delete_eq length_filter_less map_of_SomeD
      split: if_splits option.splits intro!: length_filter_less dest!: map_of_SomeD)

function LRUCache_EvictAll :: "('k, 'v) LRUCache \<Rightarrow> ('k, 'v) LRUCache res" where
  "LRUCache_EvictAll c =
     (if length (lru_cache_map c) > 0 then rbind (LRUCache_EvictOldest c) LRUCache_EvictAll else Ok c)"
  by pat_completeness auto
termination
  by (relation "measure (\<lambda>c. length (lru_cache_map c))") (auto simp: EvictOldest_shrinks)

declare LRUCache_EvictAll.simps [simp del]

definition LRUCache_Values :: "('k, 'v) LRUCache \<Rightarrow> ('k \<times> 'v option) list" where
  "LRUCache_Values c = map (\<lambda>(key, object, _). (key, object)) (lru_cache_map c)"

section \<open>Specification\<close>

text \<open>The abstract cache: pairs, most recently used first.\<close>

definition touch :: "'k \<Rightarrow> ('k \<times> 'v) list \<Rightarrow> ('k \<times> 'v) list" where
  "touch key xs = (case map_of xs key of None \<Rightarrow> xs | Some v \<Rightarrow> (key, v) # AList.delete key xs)"

text \<open>The invariant, with the list it represents.\<close>

definition lru_abs :: "('k, 'v) LRUCache \<Rightarrow> ('k \<times> 'v) list \<Rightarrow> bool" where
  "lru_abs c xs \<longleftrightarrow> distinct (map fst xs) \<and> lru_keys c = map fst xs \<and>
     distinct (map fst (lru_cache_map c)) \<and>
     map_of (lru_cache_map c) = (\<lambda>k. map_option (\<lambda>v. (Some v, Some k)) (map_of xs k)) \<and>
     length xs \<le> lru_max_cache_size c"

lemma lru_abs_length: "lru_abs c xs \<Longrightarrow> length (lru_cache_map c) = length xs"
proof -
  assume a: "lru_abs c xs"
  then have "dom (map_of (lru_cache_map c)) = dom (map_of xs)" by (auto simp: lru_abs_def dom_def)
  then have "set (map fst (lru_cache_map c)) = set (map fst xs)" by (simp add: dom_map_of_conv_image_fst)
  with a show ?thesis by (metis distinct_card length_map lru_abs_def)
qed

lemma lru_abs_new: "lru_abs (LRUCache_new n) []"
  by (simp add: lru_abs_def LRUCache_new_def)

lemma map_fst_delete: "distinct (map fst xs) \<Longrightarrow> map fst (AList.delete k xs) = remove1 k (map fst xs)"
  by (simp add: AList.delete_eq distinct_remove1_removeAll removeAll_filter_not_eq filter_map o_def split_def)

lemma map_of_delete': "map_of (AList.delete k xs) = (map_of xs)(k := None)"
  by (simp add: AList.delete_conv')

lemma touch_None: "map_of xs key = None \<Longrightarrow> touch key xs = xs"
  by (simp add: touch_def)

lemma length_touch: "distinct (map fst xs) \<Longrightarrow> length (touch key xs) = length xs"
proof (cases "map_of xs key")
  case (Some v)
  assume d: "distinct (map fst xs)"
  then have "length (AList.delete key xs) = length (remove1 key (map fst xs))"
    by (simp flip: map_fst_delete)
  moreover have "key \<in> set (map fst xs)" using Some by (force dest: map_of_SomeD)
  moreover from this have "length xs > 0" by (cases xs) auto
  ultimately show ?thesis using Some by (simp add: touch_def length_remove1)
qed (simp add: touch_None)

lemma splice_front_abs:
  assumes "lru_abs c xs" and "map_of xs key = Some v"
  shows "\<exists>c'. splice_front (Some key) c = Ok c' \<and> lru_abs c' (touch key xs) \<and>
    c' = c\<lparr>lru_keys := key # remove1 key (lru_keys c)\<rparr>"
proof -
  have "key \<in> set (map fst xs)" using assms(2) by (force dest: map_of_SomeD)
  moreover have "map_of (touch key xs) = map_of xs"
    using assms(2) by (auto simp: touch_def map_of_delete')
  moreover have "map fst (touch key xs) = key # remove1 key (map fst xs)"
    using assms by (simp add: touch_def map_fst_delete lru_abs_def)
  moreover have "distinct (map fst (touch key xs))"
    using assms by (simp add: touch_def lru_abs_def AList.distinct_delete map_of_delete' flip: map_of_eq_None_iff)
  ultimately show ?thesis using assms length_touch [of xs key]
    by (auto simp: splice_front_def lru_abs_def)
qed

lemma update_absent: "k \<notin> set (map fst al) \<Longrightarrow> AList.update k v al = al @ [(k, v)]"
  by (induction al) auto

text \<open>Inserting a key that is not cached drops the oldest pair of a full cache.\<close>

definition dropped :: "nat \<Rightarrow> ('k \<times> 'v) list \<Rightarrow> ('k \<times> 'v option) list" where
  "dropped n xs = map (\<lambda>(k, v). (k, Some v)) (drop (n - 1) xs)"

definition make_room :: "('k, 'v) LRUCache \<Rightarrow> ('k, 'v) LRUCache res" where
  "make_room c = (if length (lru_cache_map c) > lru_max_cache_size c then LRUCache_EvictOldest c else Ok c)"

lemma make_room_abs:
  assumes abs: "lru_abs c xs" and key: "map_of xs key = None" and pos: "lru_max_cache_size c > 0"
  defines "n \<equiv> lru_max_cache_size c"
  shows "\<exists>c'. make_room (c\<lparr>lru_cache_map := AList.update key (None, None) (lru_cache_map c)\<rparr>) = Ok c' \<and>
     lru_evicted c' = lru_evicted c @ dropped n xs \<and>
     lru_abs (c'\<lparr>lru_keys := key # lru_keys c',
        lru_cache_map := AList.update key (Some value, Some key) (lru_cache_map c')\<rparr>) (take n ((key, value) # xs))"
proof -
  let ?c = "c\<lparr>lru_cache_map := AList.update key (None, None) (lru_cache_map c)\<rparr>"
  have mkey: "map_of (lru_cache_map c) key = None" using abs key by (simp add: lru_abs_def)
  then have len: "length (lru_cache_map ?c) = Suc (length xs)"
    using lru_abs_length [OF abs] by (simp add: update_absent map_of_eq_None_iff)
  have distinct: "distinct (map fst (lru_cache_map ?c))"
    using abs by (simp add: lru_abs_def AList.distinct_update)
  have fresh: "key \<notin> set (map fst xs)" using key by (simp add: map_of_eq_None_iff)
  show ?thesis
  proof (cases "length xs < n")
    case True
    then have "make_room ?c = Ok ?c" using len by (simp add: make_room_def n_def)
    moreover have "lru_abs (?c\<lparr>lru_keys := key # lru_keys ?c,
        lru_cache_map := AList.update key (Some value, Some key) (lru_cache_map ?c)\<rparr>) ((key, value) # xs)"
      using abs distinct fresh True
      by (auto simp: lru_abs_def AList.distinct_update AList.update_conv' n_def)
    ultimately show ?thesis using True by (auto simp: dropped_def)
  next
    case False
    with abs have n: "length xs = n" by (simp add: lru_abs_def n_def)
    with pos obtain ys k v where ys: "xs = ys @ [(k, v)]" by (cases xs rule: rev_cases) (auto simp: n_def)
    with fresh abs have kk: "k \<noteq> key" "map_of ys k = None" by (auto simp: lru_abs_def map_of_eq_None_iff)
    let ?d = "?c\<lparr>lru_evicted := lru_evicted c @ [(k, Some v)],
                lru_cache_map := AList.delete k (lru_cache_map ?c), lru_keys := map fst ys\<rparr>"
    have "map_of (lru_cache_map ?c) k = Some (Some v, Some k)"
      using abs ys kk by (simp add: lru_abs_def AList.update_conv' map_add_def)
    then have "make_room ?c = Ok ?d" using len n ys abs
      by (simp add: make_room_def n_def LRUCache_EvictOldest_def lru_abs_def)
    moreover have "lru_abs (?d\<lparr>lru_keys := key # lru_keys ?d,
        lru_cache_map := AList.update key (Some value, Some key) (lru_cache_map ?d)\<rparr>) ((key, value) # ys)"
      using abs distinct fresh n ys kk
      by (auto simp: lru_abs_def AList.distinct_update AList.distinct_delete AList.update_conv' map_of_delete'
          n_def map_add_def fun_eq_iff split: option.splits)
    moreover have "take n ((key, value) # xs) = (key, value) # ys" "dropped n xs = [(k, Some v)]"
      using n ys by (simp_all add: dropped_def flip: n)
    ultimately show ?thesis by auto
  qed
qed
lemmas lru_defs = cache_map_entry_def make_room_def [symmetric]

lemma map_of_abs: "lru_abs c xs \<Longrightarrow> map_of (lru_cache_map c) k = map_option (\<lambda>v. (Some v, Some k)) (map_of xs k)"
  by (simp add: lru_abs_def)

lemma Emplace_abs:
  assumes abs: "lru_abs c xs" and pos: "lru_max_cache_size c > 0"
  shows "\<exists>c'. LRUCache_Emplace key value c = Ok (case map_of xs key of Some v \<Rightarrow> v | None \<Rightarrow> value, c') \<and>
     (case map_of xs key of
        Some v \<Rightarrow> lru_abs c' (touch key xs) \<and> lru_evicted c' = lru_evicted c
      | None \<Rightarrow> lru_abs c' (take (lru_max_cache_size c) ((key, value) # xs)) \<and>
                lru_evicted c' = lru_evicted c @ dropped (lru_max_cache_size c) xs)"
proof (cases "map_of xs key")
  case None
  with make_room_abs [OF abs None pos, of "value"] map_of_abs [OF abs, of key] show ?thesis
    by (auto simp: LRUCache_Emplace_def lru_defs)
next
  case (Some v)
  with splice_front_abs [OF abs Some] map_of_abs [OF abs, of key] show ?thesis
    by (auto simp: LRUCache_Emplace_def lru_defs)
qed

lemma take_delete:
  assumes "lru_abs c xs" and "map_of xs key = Some v"
  shows "length ((key, w) # AList.delete key xs) \<le> lru_max_cache_size c"
  using assms length_touch [of xs key] by (simp add: lru_abs_def touch_def)

lemma InsertNew_abs:
  assumes abs: "lru_abs c xs" and pos: "lru_max_cache_size c > 0"
  shows "\<exists>c'. LRUCache_InsertNew key value c = Ok (value, c') \<and>
     lru_abs c' (take (lru_max_cache_size c) ((key, value) # AList.delete key xs)) \<and>
     lru_evicted c' = lru_evicted c @ (case map_of xs key of
        Some v \<Rightarrow> [(key, Some v)] | None \<Rightarrow> dropped (lru_max_cache_size c) xs)"
proof (cases "map_of xs key")
  case None
  then have "AList.delete key xs = xs" by (simp add: map_of_eq_None_iff AList.delete_id)
  with None make_room_abs [OF abs None pos, of "value"] map_of_abs [OF abs, of key] show ?thesis
    by (auto simp: LRUCache_InsertNew_def lru_defs rbind_eq_Ok)
next
  case (Some v)
  let ?c = "c\<lparr>lru_evicted := lru_evicted c @ [(key, Some v)]\<rparr>"
  from abs have "lru_abs ?c xs" by (simp add: lru_abs_def)
  from splice_front_abs [OF this Some]
  obtain d where d: "splice_front (Some key) ?c = Ok d" "lru_abs d (touch key xs)"
      "lru_evicted d = lru_evicted c @ [(key, Some v)]" by auto
  let ?d = "d\<lparr>lru_cache_map := AList.update key (Some value, Some key) (lru_cache_map d)\<rparr>"
  have "lru_abs ?d ((key, value) # AList.delete key xs)"
    using d(2) Some
    by (auto simp: lru_abs_def touch_def AList.distinct_update AList.update_conv' map_of_delete')
  moreover have "LRUCache_InsertNew key value c = Ok (value, ?d)"
    using d(1) Some map_of_abs [OF abs, of key] by (simp add: LRUCache_InsertNew_def cache_map_entry_def)
  ultimately show ?thesis using take_delete [OF abs Some, of "value"] d(3) Some by simp
qed

lemma FindOrNull_abs:
  assumes "lru_abs c xs"
  shows "\<exists>c'. LRUCache_FindOrNull key c = Ok (map_of xs key, c') \<and> lru_abs c' (touch key xs) \<and>
     lru_evicted c' = lru_evicted c"
  using assms splice_front_abs [OF assms, of key] map_of_abs [OF assms, of key]
  by (cases "map_of xs key") (auto simp: LRUCache_FindOrNull_def touch_None)

lemma EvictAll_abs:
  "lru_abs c xs \<Longrightarrow> \<exists>c'. LRUCache_EvictAll c = Ok c' \<and> lru_abs c' [] \<and>
     lru_evicted c' = lru_evicted c @ map (\<lambda>(k, v). (k, Some v)) (rev xs)"
proof (induction xs arbitrary: c rule: rev_induct)
  case Nil
  with lru_abs_length [OF Nil] show ?case by (simp add: LRUCache_EvictAll.simps)
next
  case (snoc x xs)
  obtain k v where x: "x = (k, v)" by (cases x)
  let ?c = "c\<lparr>lru_evicted := lru_evicted c @ [(k, Some v)],
     lru_cache_map := AList.delete k (lru_cache_map c), lru_keys := butlast (lru_keys c)\<rparr>"
  have "map_of xs k = None" using snoc.prems x by (auto simp: lru_abs_def map_of_eq_None_iff)
  then have "LRUCache_EvictOldest c = Ok ?c" "lru_abs ?c xs"
    using snoc.prems x
    by (auto simp: LRUCache_EvictOldest_def lru_abs_def map_of_delete' AList.distinct_delete map_add_def fun_eq_iff
        split: option.splits)
  with snoc.IH [of ?c] lru_abs_length [OF snoc.prems] x show ?case
    by (simp add: LRUCache_EvictAll.simps [of c])
qed

section \<open>Properties\<close>

text \<open>C26. A cache with room for at least one entry refines a list of pairs, most recently used first:
  \<open>Emplace\<close> and \<open>FindOrNull\<close> move a cached key to the front and give its value, inserting puts the
  pair in front and evicts (and reports to \<open>ItemEvicted\<close>) the last pair of a full cache or the old
  value of the same key, and \<open>EvictAll\<close> evicts everything from the oldest on; no call fails.\<close>

theorem LRUCache_refines_recency_list:
  assumes "lru_abs c xs" and "lru_max_cache_size c > 0"
  shows "(\<exists>c'. LRUCache_Emplace key value c = Ok (case map_of xs key of Some v \<Rightarrow> v | None \<Rightarrow> value, c') \<and>
     (case map_of xs key of
        Some v \<Rightarrow> lru_abs c' (touch key xs) \<and> lru_evicted c' = lru_evicted c
      | None \<Rightarrow> lru_abs c' (take (lru_max_cache_size c) ((key, value) # xs)) \<and>
                lru_evicted c' = lru_evicted c @ dropped (lru_max_cache_size c) xs)) \<and>
   (\<exists>c'. LRUCache_InsertNew key value c = Ok (value, c') \<and>
     lru_abs c' (take (lru_max_cache_size c) ((key, value) # AList.delete key xs)) \<and>
     lru_evicted c' = lru_evicted c @ (case map_of xs key of
        Some v \<Rightarrow> [(key, Some v)] | None \<Rightarrow> dropped (lru_max_cache_size c) xs)) \<and>
   (\<exists>c'. LRUCache_FindOrNull key c = Ok (map_of xs key, c') \<and> lru_abs c' (touch key xs) \<and>
     lru_evicted c' = lru_evicted c) \<and>
   (\<exists>c'. LRUCache_EvictAll c = Ok c' \<and> lru_abs c' [] \<and>
     lru_evicted c' = lru_evicted c @ map (\<lambda>(k, v). (k, Some v)) (rev xs))"
  using Emplace_abs [OF assms] InsertNew_abs [OF assms] FindOrNull_abs [OF assms(1)] EvictAll_abs [OF assms(1)]
  by (intro conjI)

theorem LRUCache_refines_recency_list_witness:
  "\<exists>c'. LRUCache_InsertNew (1 :: nat) (2 :: nat) (LRUCache_new 3) = Ok (2, c') \<and> lru_abs c' [(1, 2)]"
  using LRUCache_refines_recency_list [OF lru_abs_new [of 3], of "1 :: nat" "2 :: nat"]
  by (auto simp: LRUCache_new_def)

text \<open>A cache of size zero: the first insertion reads the back of the empty list of keys.\<close>

lemma LRUCache_size_zero:
  "LRUCache_Emplace key value (LRUCache_new 0) = Fail Undefined_behaviour"
  "LRUCache_InsertNew key value (LRUCache_new 0) = Fail Undefined_behaviour"
  by (simp_all add: LRUCache_Emplace_def LRUCache_InsertNew_def LRUCache_new_def cache_map_entry_def LRUCache_EvictOldest_def)

end
