(* ===== verification/Interval_Tree.thy ===== *)
theory Interval_Tree
  imports Ncode_Prelude "HOL-Library.Multiset"
begin
text \<open>
  The centred interval tree of \<open>src/src/interval_tree.h\<close>, for an unsigned 64-bit point type. The
  splitting point is first looked for on a grid of a hundred points computed in floating point:
  that computation is a parameter, of which nothing is assumed. A consumer of a lookup is a
  function from an interval and its own state to its new state and whether to go on.
  \<open>std::sort\<close> is a stable sort here, which is one of the orders it may give.
\<close>

type_synonym point = "64 word"

record 'v Interval =
  iv_low :: point
  iv_high :: point
  iv_value :: 'v

type_synonym 'v IndexedInterval = "'v Interval \<times> 32 word"

abbreviation lo :: "'v IndexedInterval \<Rightarrow> point" where
  "lo x \<equiv> iv_low (fst x)"

abbreviation hi :: "'v IndexedInterval \<Rightarrow> point" where
  "hi x \<equiv> iv_high (fst x)"

section \<open>Splitting\<close>

definition ContainingIntervalCount :: "'v IndexedInterval list \<Rightarrow> point \<Rightarrow> nat" where
  "ContainingIntervalCount intervals p =
     fold (\<lambda>interval count. if p \<ge> lo interval \<and> p \<le> hi interval then count + 1 else count) intervals 0"

text \<open>Keeps the better of the best point so far and a test point.\<close>

definition try_point :: "'v IndexedInterval list \<Rightarrow> point \<Rightarrow> nat \<times> point \<Rightarrow> nat \<times> point" where
  "try_point intervals test_point best =
     (let count = ContainingIntervalCount intervals test_point
      in if count > fst best then (count, test_point) else best)"

definition PickPointForSplitting ::
    "(point \<Rightarrow> point \<Rightarrow> nat \<Rightarrow> point) \<Rightarrow> 'v IndexedInterval list \<Rightarrow> point res" where
  "PickPointForSplitting grid_point intervals =
     rbind (rfold (\<lambda>interval (min_all, max_all).
              check (lo interval \<le> hi interval) (Ok (min min_all (lo interval), max max_all (hi interval))))
            intervals (- 1, 0)) (\<lambda>(min_all, max_all).
       let best = fold (\<lambda>i. try_point intervals (grid_point min_all (max_all - min_all) i)) [0..<100] (0, 0);
           best = (if fst best = 0
                   then fold (\<lambda>interval. try_point intervals (lo interval + (hi interval - lo interval) div 2))
                          intervals best
                   else best)
       in check (fst best \<noteq> 0) (Ok (snd best)))"

definition Split :: "(point \<Rightarrow> point \<Rightarrow> nat \<Rightarrow> point) \<Rightarrow> 'v IndexedInterval list \<Rightarrow>
    ('v IndexedInterval list \<times> 'v IndexedInterval list \<times> 'v IndexedInterval list \<times> point) res" where
  "Split grid_point intervals =
     rbind (PickPointForSplitting grid_point intervals) (\<lambda>p.
       let (lowers, uppers, intersecting) =
         fold (\<lambda>interval (lowers, uppers, intersecting).
                 if hi interval < p then (lowers @ [interval], uppers, intersecting)
                 else if lo interval > p then (lowers, uppers @ [interval], intersecting)
                 else (lowers, uppers, intersecting @ [interval])) intervals ([], [], [])
       in Ok (lowers, uppers, intersecting, p))"

section \<open>Nodes\<close>

datatype 'v Node = Node (mid_value: point) (min_sorted: "'v IndexedInterval list")
  (max_sorted: "'v IndexedInterval list") (less_node: "'v Node option") (more_node: "'v Node option")

definition Node_new :: "'v IndexedInterval list \<Rightarrow> point \<Rightarrow> 'v Node option \<Rightarrow> 'v Node option \<Rightarrow> 'v Node res" where
  "Node_new intervals mid lowers uppers =
     check (intervals \<noteq> [])
       (let mins = sort_key lo intervals; maxs = rev (sort_key hi mins) in Ok (Node mid mins maxs lowers uppers))"

type_synonym ('v, 's) consumer = "'v IndexedInterval \<Rightarrow> 's \<Rightarrow> 's \<times> bool"

text \<open>A loop over intervals that leaves when \<open>stop\<close> holds and returns when the consumer says so;
  the flag tells whether the consumer wants more.\<close>

fun consume :: "('v IndexedInterval \<Rightarrow> bool) \<Rightarrow> ('v, 's) consumer \<Rightarrow> 'v IndexedInterval list \<Rightarrow> 's \<Rightarrow> 's \<times> bool" where
  "consume stop consumer [] s = (s, True)"
| "consume stop consumer (x # xs) s =
     (if stop x then (s, True)
      else let (s, go) = consumer x s in if go then consume stop consumer xs s else (s, False))"

fun Node_Lookup :: "point \<Rightarrow> ('v, 's) consumer \<Rightarrow> 'v Node \<Rightarrow> 's \<Rightarrow> 's \<times> bool" where
  "Node_Lookup p consumer (Node mid mins maxs lowers uppers) s =
     (if p < mid then
        (let (s, go) = consume (\<lambda>x. lo x > p) consumer mins s in
         if \<not> go then (s, False)
         else case lowers of None \<Rightarrow> (s, True) | Some n \<Rightarrow> Node_Lookup p consumer n s)
      else if p > mid then
        (let (s, go) = consume (\<lambda>x. hi x < p) consumer maxs s in
         if \<not> go then (s, False)
         else case uppers of None \<Rightarrow> (s, True) | Some n \<Rightarrow> Node_Lookup p consumer n s)
      else consume (\<lambda>_. False) consumer mins s)"

fun Node_Walk :: "'v Node \<Rightarrow> 'v IndexedInterval list" where
  "Node_Walk (Node mid mins maxs lowers uppers) =
     mins @ (case lowers of None \<Rightarrow> [] | Some n \<Rightarrow> Node_Walk n) @ (case uppers of None \<Rightarrow> [] | Some n \<Rightarrow> Node_Walk n)"

section \<open>The tree\<close>

record 'v TreeRoot =
  tr_root :: "'v Node option"
  tr_intervals_sorted :: "(point \<times> 'v IndexedInterval) list"

definition TreeRoot_AssignIndices :: "'v Interval list \<Rightarrow> 'v IndexedInterval list" where
  "TreeRoot_AssignIndices intervals = map (\<lambda>i. (intervals ! i, of_nat i)) [0..<length intervals]"

text \<open>A point that some interval contains leaves fewer intervals on either side.\<close>

lemma count_eq: "ContainingIntervalCount xs p = length (filter (\<lambda>x. lo x \<le> p \<and> p \<le> hi x) xs)"
proof -
  have "fold (\<lambda>interval count. if p \<ge> lo interval \<and> p \<le> hi interval then count + 1 else count) xs n =
      n + length (filter (\<lambda>x. lo x \<le> p \<and> p \<le> hi x) xs)" for n
    by (induction xs arbitrary: n) auto
  then show ?thesis by (simp add: ContainingIntervalCount_def)
qed

definition best_ok :: "'v IndexedInterval list \<Rightarrow> nat \<times> point \<Rightarrow> bool" where
  "best_ok xs best \<longleftrightarrow> fst best \<noteq> 0 \<longrightarrow> fst best = ContainingIntervalCount xs (snd best)"

lemma best_ok_try: "best_ok xs best \<Longrightarrow> best_ok xs (try_point xs p best)"
  by (simp add: best_ok_def try_point_def Let_def)

lemma best_ok_fold: "best_ok xs best \<Longrightarrow> best_ok xs (fold (\<lambda>i. try_point xs (g i)) is best)"
  by (induction "is" arbitrary: best) (auto simp: best_ok_try)

lemma PickPoint_hit:
  assumes "PickPointForSplitting grid_point xs = Ok p"
  shows "\<exists>x \<in> set xs. lo x \<le> p \<and> p \<le> hi x"
proof -
  from assms obtain mn mx where mm: "rfold (\<lambda>interval (min_all, max_all).
       check (lo interval \<le> hi interval) (Ok (min min_all (lo interval), max max_all (hi interval)))) xs (- 1, 0) = Ok (mn, mx)"
    by (auto simp: PickPointForSplitting_def rbind_eq_Ok)
  define b1 where "b1 = fold (\<lambda>i. try_point xs (grid_point mn (mx - mn) i)) [0..<100] (0, 0)"
  define b2 where "b2 = (if fst b1 = 0
     then fold (\<lambda>x. try_point xs (lo x + (hi x - lo x) div 2)) xs b1 else b1)"
  have "check (fst b2 \<noteq> 0) (Ok (snd b2)) = Ok p"
    using assms unfolding b2_def b1_def PickPointForSplitting_def mm by (simp only: rbind_simps prod.case Let_def)
  then have b: "fst b2 \<noteq> 0" "p = snd b2" by (simp_all add: check_eq_Ok)
  have "best_ok xs b1" unfolding b1_def by (rule best_ok_fold) (simp add: best_ok_def)
  then have "best_ok xs b2" unfolding b2_def by (simp add: best_ok_fold)
  with b have "ContainingIntervalCount xs p \<noteq> 0" by (simp add: best_ok_def)
  then show ?thesis by (auto simp: count_eq filter_empty_conv)
qed

lemma Split_fold:
  "fold (\<lambda>interval (lowers, uppers, intersecting).
           if hi interval < p then (lowers @ [interval], uppers, intersecting)
           else if lo interval > p then (lowers, uppers @ [interval], intersecting)
           else (lowers, uppers, intersecting @ [interval])) xs (as, bs, cs) =
   (as @ filter (\<lambda>x. hi x < p) xs, bs @ filter (\<lambda>x. \<not> hi x < p \<and> lo x > p) xs,
    cs @ filter (\<lambda>x. \<not> hi x < p \<and> \<not> lo x > p) xs)"
  by (induction xs arbitrary: as bs cs) auto

lemma Split_eq:
  "Split grid_point xs = rbind (PickPointForSplitting grid_point xs) (\<lambda>p.
     Ok (filter (\<lambda>x. hi x < p) xs, filter (\<lambda>x. \<not> hi x < p \<and> lo x > p) xs,
         filter (\<lambda>x. \<not> hi x < p \<and> \<not> lo x > p) xs, p))"
  by (simp add: Split_def Split_fold)

lemma Split_shrinks:
  assumes "Split grid_point xs = Ok (lowers, uppers, intersecting, p)"
  shows "length lowers < length xs \<and> length uppers < length xs \<and> intersecting \<noteq> []"
proof -
  from assms have pick: "PickPointForSplitting grid_point xs = Ok p"
    and parts: "lowers = filter (\<lambda>x. hi x < p) xs" "uppers = filter (\<lambda>x. \<not> hi x < p \<and> lo x > p) xs"
      "intersecting = filter (\<lambda>x. \<not> hi x < p \<and> \<not> lo x > p) xs"
    by (auto simp: Split_eq rbind_eq_Ok)
  from PickPoint_hit [OF pick] obtain x where "x \<in> set xs" "lo x \<le> p" "p \<le> hi x" by blast
  then show ?thesis
    unfolding parts by (auto intro!: length_filter_less simp: filter_empty_conv not_less)
qed

function TreeRoot_BuildTree ::
    "(point \<Rightarrow> point \<Rightarrow> nat \<Rightarrow> point) \<Rightarrow> 'v IndexedInterval list \<Rightarrow> 'v Node option res" where
  "TreeRoot_BuildTree grid_point intervals =
     (if intervals = [] then Ok None
      else rbind (Split grid_point intervals) (\<lambda>(lowers, uppers, intersecting, p).
        rbind (TreeRoot_BuildTree grid_point lowers) (\<lambda>l.
          rbind (TreeRoot_BuildTree grid_point uppers) (\<lambda>m.
            rbind (Node_new intersecting p l m) (\<lambda>n. Ok (Some n))))))"
  by pat_completeness auto
termination
  by (relation "measure (\<lambda>(_, xs). length xs)") (auto dest: Split_shrinks)

declare TreeRoot_BuildTree.simps [simp del]

definition TreeRoot_new :: "(point \<Rightarrow> point \<Rightarrow> nat \<Rightarrow> point) \<Rightarrow> 'v Interval list \<Rightarrow> 'v TreeRoot res" where
  "TreeRoot_new grid_point intervals =
     rbind (TreeRoot_BuildTree grid_point (TreeRoot_AssignIndices intervals)) (\<lambda>root.
       Ok \<lparr>tr_root = root,
           tr_intervals_sorted = (case root of None \<Rightarrow> [] | Some n \<Rightarrow>
             sort_key fst (concat (map (\<lambda>x. [(lo x, x), (hi x, x)]) (Node_Walk n))))\<rparr>)"

definition TreeRoot_Lookup :: "point \<Rightarrow> ('v, 's) consumer \<Rightarrow> 'v TreeRoot \<Rightarrow> 's \<Rightarrow> 's" where
  "TreeRoot_Lookup p consumer t s =
     (case tr_root t of None \<Rightarrow> s | Some n \<Rightarrow> fst (Node_Lookup p consumer n s))"

text \<open>The bodies of both loops of a range lookup: an interval already consumed is skipped.\<close>

definition consume_once :: "('v, 's) consumer \<Rightarrow> ('v, 's \<times> bool list) consumer" where
  "consume_once consumer x state =
     (let (s, already_consumed) = state in
      if already_consumed ! unat (snd x) then ((s, already_consumed), True)
      else let (s, go) = consumer x s in
        if go then ((s, already_consumed[unat (snd x) := True]), True) else ((s, already_consumed), False))"

definition TreeRoot_Lookup_range ::
    "point \<Rightarrow> point \<Rightarrow> ('v, 's) consumer \<Rightarrow> 'v TreeRoot \<Rightarrow> 's \<Rightarrow> 's res" where
  "TreeRoot_Lookup_range min_point max_point consumer t s =
     (case tr_root t of
        None \<Rightarrow> Ok s
      | Some n \<Rightarrow>
          let num_intervals = length (tr_intervals_sorted t) div 2;
              already_consumed = replicate num_intervals False;
              tail = dropWhile (\<lambda>e. fst e < min_point) (tr_intervals_sorted t);
              ((s, already_consumed), go) =
                consume (\<lambda>_. False) (consume_once consumer)
                  (map snd (takeWhile (\<lambda>e. \<not> fst e > max_point) tail)) (s, already_consumed)
          in if \<not> go then Ok s
             else let p = min_point + (max_point - min_point) div 2 in
               check (p \<ge> min_point)
                 (Ok (fst (TreeRoot_Lookup p (consume_once consumer) t (s, already_consumed)))))"

section \<open>Construction\<close>

lemma midpoint_between:
  fixes a b :: point
  assumes "a \<le> b"
  shows "a \<le> a + (b - a) div 2" and "a + (b - a) div 2 \<le> b"
proof -
  have d: "unat ((b - a) div 2) = (unat b - unat a) div 2"
    using assms by (simp add: unat_div unat_sub)
  have ab: "unat a \<le> unat b" using assms by (simp add: word_le_nat_alt)
  then have "unat (a + (b - a) div 2) = unat a + (unat b - unat a) div 2"
    using unat_bound [of b] by (simp only: unat_word_ariths(1) d) (rule mod_less, simp)
  with ab show "a \<le> a + (b - a) div 2" "a + (b - a) div 2 \<le> b" by (simp_all add: word_le_nat_alt)
qed

lemma try_point_ge: "fst best \<le> fst (try_point xs p best)" "ContainingIntervalCount xs p \<le> fst (try_point xs p best)"
  by (simp_all add: try_point_def Let_def)

lemma fold_try_point_ge: "fst best \<le> fst (fold (\<lambda>i. try_point xs (g i)) is best)"
proof (induction "is" arbitrary: best)
  case (Cons i "is")
  from order_trans [OF try_point_ge(1) Cons.IH] show ?case by simp
qed simp

lemma PickPoint_Ok:
  assumes "xs \<noteq> []" and "\<And>x. x \<in> set xs \<Longrightarrow> lo x \<le> hi x"
  shows "\<exists>p. PickPointForSplitting grid_point xs = Ok p"
proof -
  have "\<exists>mm. rfold (\<lambda>interval (min_all, max_all).
       check (lo interval \<le> hi interval) (Ok (min min_all (lo interval), max max_all (hi interval)))) xs m0 = Ok mm" for m0
    using assms(2) by (induction xs arbitrary: m0) (auto split: prod.split)
  then obtain mn mx where mm: "rfold (\<lambda>interval (min_all, max_all).
       check (lo interval \<le> hi interval) (Ok (min min_all (lo interval), max max_all (hi interval)))) xs (- 1, 0) = Ok (mn, mx)"
    by fast
  obtain x ys where xs: "xs = x # ys" using assms(1) by (cases xs) auto
  have hit: "ContainingIntervalCount xs (lo x + (hi x - lo x) div 2) \<noteq> 0"
    using midpoint_between [of "lo x" "hi x"] assms(2) [of x] by (simp add: count_eq xs)
  have "fst (fold (\<lambda>x. try_point xs (lo x + (hi x - lo x) div 2)) xs b) \<noteq> 0" for b
  proof -
    have "ContainingIntervalCount xs (lo x + (hi x - lo x) div 2) \<le>
        fst (fold (\<lambda>x. try_point xs (lo x + (hi x - lo x) div 2)) (x # ys) b)"
      unfolding fold.simps o_def by (rule order_trans [OF try_point_ge(2) fold_try_point_ge])
    with hit show ?thesis using xs by auto
  qed
  then show ?thesis by (simp add: PickPointForSplitting_def mm Let_def)
qed

text \<open>The invariant of a node, and what it stores.\<close>

fun tree_ok :: "'v Node \<Rightarrow> bool" where
  "tree_ok (Node mid mins maxs l u) \<longleftrightarrow>
     mset maxs = mset mins \<and> sorted_wrt (\<lambda>x y. lo x \<le> lo y) mins \<and> sorted_wrt (\<lambda>x y. hi y \<le> hi x) maxs \<and>
     (\<forall>x \<in> set mins. lo x \<le> mid \<and> mid \<le> hi x) \<and>
     (case l of None \<Rightarrow> True | Some n \<Rightarrow> tree_ok n \<and> (\<forall>x \<in> set (Node_Walk n). hi x < mid)) \<and>
     (case u of None \<Rightarrow> True | Some n \<Rightarrow> tree_ok n \<and> (\<forall>x \<in> set (Node_Walk n). mid < lo x))"

definition stored :: "'v Node option \<Rightarrow> 'v IndexedInterval multiset" where
  "stored r = (case r of None \<Rightarrow> {#} | Some n \<Rightarrow> mset (Node_Walk n))"

definition subtree_ok :: "'v Node option \<Rightarrow> bool" where
  "subtree_ok r = (case r of None \<Rightarrow> True | Some n \<Rightarrow> tree_ok n)"

lemma sorted_wrt_sort_key: "sorted_wrt (\<lambda>x y. f x \<le> (f y :: 'k::linorder)) (sort_key f xs)"
  using sorted_sort_key [of f xs] by (simp add: sorted_wrt_map)

lemma Node_new_ok:
  assumes "xs \<noteq> []" and "\<forall>x \<in> set xs. lo x \<le> p \<and> p \<le> hi x"
    and "subtree_ok l" "\<forall>x \<in># stored l. hi x < p" and "subtree_ok u" "\<forall>x \<in># stored u. p < lo x"
  shows "\<exists>n. Node_new xs p l u = Ok n \<and> tree_ok n \<and> mset (Node_Walk n) = mset xs + stored l + stored u"
  using assms
  by (auto simp: Node_new_def Let_def sorted_wrt_rev sorted_wrt_sort_key stored_def subtree_ok_def split: option.splits)

lemma BuildTree_ok:
  "(\<And>x. x \<in> set xs \<Longrightarrow> lo x \<le> hi x) \<Longrightarrow>
   \<exists>r. TreeRoot_BuildTree grid_point xs = Ok r \<and> subtree_ok r \<and> stored r = mset xs"
proof (induction xs rule: length_induct)
  case (1 xs)
  show ?case
  proof (cases "xs = []")
    case True
    then show ?thesis by (simp add: TreeRoot_BuildTree.simps subtree_ok_def stored_def)
  next
    case False
    with 1 obtain p where p: "PickPointForSplitting grid_point xs = Ok p" using PickPoint_Ok by blast
    define lows where "lows = filter (\<lambda>x. hi x < p) xs"
    define ups where "ups = filter (\<lambda>x. \<not> hi x < p \<and> lo x > p) xs"
    define mids where "mids = filter (\<lambda>x. \<not> hi x < p \<and> \<not> lo x > p) xs"
    have split: "Split grid_point xs = Ok (lows, ups, mids, p)"
      by (simp add: Split_eq p lows_def ups_def mids_def)
    from Split_shrinks [OF split] have short: "length lows < length xs" "length ups < length xs" "mids \<noteq> []" by auto
    have IH: "\<exists>r. TreeRoot_BuildTree grid_point ys = Ok r \<and> subtree_ok r \<and> stored r = mset ys"
      if "length ys < length xs" "set ys \<subseteq> set xs" for ys
      using 1 that by blast
    from IH [OF short(1)] obtain l where l: "TreeRoot_BuildTree grid_point lows = Ok l" "subtree_ok l" "stored l = mset lows"
      by (auto simp: lows_def)
    from IH [OF short(2)] obtain u where u: "TreeRoot_BuildTree grid_point ups = Ok u" "subtree_ok u" "stored u = mset ups"
      by (auto simp: ups_def)
    have parts: "\<forall>x \<in> set mids. lo x \<le> p \<and> p \<le> hi x" "\<forall>x \<in># stored l. hi x < p" "\<forall>x \<in># stored u. p < lo x"
      by (simp_all add: mids_def not_less l(3) u(3) lows_def ups_def)
    from Node_new_ok [OF short(3) parts(1) l(2) parts(2) u(2) parts(3)]
    obtain n where n: "Node_new mids p l u = Ok n" "tree_ok n" "mset (Node_Walk n) = mset mids + mset lows + mset ups"
      unfolding l(3) u(3) by blast
    have "mset xs = mset mids + mset lows + mset ups"
      unfolding mids_def lows_def ups_def by (induction xs) auto
    with n l u split False show ?thesis
      by (simp add: TreeRoot_BuildTree.simps [of grid_point xs] subtree_ok_def stored_def)
  qed
qed

section \<open>Lookup\<close>

text \<open>Handing a list of intervals to a consumer until it has had enough.\<close>

abbreviation feed :: "('v, 's) consumer \<Rightarrow> 'v IndexedInterval list \<Rightarrow> 's \<Rightarrow> 's \<times> bool" where
  "feed \<equiv> consume (\<lambda>_. False)"

lemma consume_feed: "consume stop c xs s = feed c (takeWhile (\<lambda>x. \<not> stop x) xs) s"
  by (induction xs arbitrary: s) (auto split: prod.split)

lemma feed_append:
  "feed c (xs @ ys) s = (case feed c xs s of (s, go) \<Rightarrow> if go then feed c ys s else (s, False))"
  by (induction xs arbitrary: s) (auto split: prod.splits)

fun hits :: "point \<Rightarrow> 'v Node \<Rightarrow> 'v IndexedInterval list" where
  "hits p (Node mid mins maxs l u) =
     (if p < mid then takeWhile (\<lambda>x. \<not> p < lo x) mins @ (case l of None \<Rightarrow> [] | Some n \<Rightarrow> hits p n)
      else if mid < p then takeWhile (\<lambda>x. \<not> hi x < p) maxs @ (case u of None \<Rightarrow> [] | Some n \<Rightarrow> hits p n)
      else mins)"

lemma Node_Lookup_hits: "Node_Lookup p c n s = feed c (hits p n) s"
proof (induction p c n s rule: Node_Lookup.induct)
  case (1 p c mid mins maxs l u s)
  show ?case
  proof (cases "p < mid")
    case True
    with 1 show ?thesis
      by (cases l) (auto simp: consume_feed [of "\<lambda>x. p < lo x"] feed_append split: prod.split)
  next
    case False
    with 1 show ?thesis
      by (cases u) (auto simp: consume_feed [of "\<lambda>x. hi x < p"] feed_append split: prod.split)
  qed
qed

lemma takeWhile_ascending:
  fixes f :: "'x \<Rightarrow> 'k::linorder"
  shows "sorted_wrt (\<lambda>x y. f x \<le> f y) xs \<Longrightarrow> takeWhile (\<lambda>x. \<not> p < f x) xs = filter (\<lambda>x. f x \<le> p) xs"
proof (induction xs)
  case (Cons a xs)
  then show ?case by (cases "f a \<le> p") (auto simp: not_less filter_empty_conv intro!: filter_False [symmetric] dest: order_trans)
qed simp

lemma takeWhile_descending:
  fixes f :: "'x \<Rightarrow> 'k::linorder"
  shows "sorted_wrt (\<lambda>x y. f y \<le> f x) xs \<Longrightarrow> takeWhile (\<lambda>x. \<not> f x < p) xs = filter (\<lambda>x. p \<le> f x) xs"
proof (induction xs)
  case (Cons a xs)
  then show ?case by (cases "p \<le> f a") (auto simp: not_less filter_empty_conv intro!: filter_False [symmetric] dest: order_trans)
qed simp

lemma dropWhile_ascending:
  fixes f :: "'x \<Rightarrow> 'k::linorder"
  shows "sorted_wrt (\<lambda>x y. f x \<le> f y) xs \<Longrightarrow> dropWhile (\<lambda>x. f x < p) xs = filter (\<lambda>x. p \<le> f x) xs"
  by (induction xs) (auto simp: not_less intro!: filter_True [symmetric])

abbreviation covers :: "point \<Rightarrow> 'v IndexedInterval \<Rightarrow> bool" where
  "covers p x \<equiv> lo x \<le> p \<and> p \<le> hi x"

lemma mset_hits: "tree_ok n \<Longrightarrow> mset (hits p n) = mset (filter (covers p) (Node_Walk n))"
proof (induction p n rule: hits.induct)
  case (1 p mid mins maxs l u)
  note ok = 1(3) and IH = 1(1,2)
  have all: "\<forall>x \<in> set mins. lo x \<le> mid \<and> mid \<le> hi x" using ok by simp
  have none: "filter (covers p) (Node_Walk n) = []" if "l = Some n \<and> mid \<le> p \<or> u = Some n \<and> p \<le> mid" for n
    using ok that by (fastforce simp: filter_empty_conv)
  consider (lt) "p < mid" | (gt) "mid < p" | (eq) "p = mid" by fastforce
  then show ?case
  proof cases
    case lt
    then have "takeWhile (\<lambda>x. \<not> p < lo x) mins = filter (covers p) mins"
      using all ok by (auto simp: takeWhile_ascending intro!: filter_cong)
    with lt none IH(1) ok show ?thesis by (auto simp del: filter_mset_eq_conv split: option.splits)
  next
    case gt
    have "mset (filter (\<lambda>x. p \<le> hi x) maxs) = mset (filter (\<lambda>x. p \<le> hi x) mins)" using ok by simp
    moreover have "filter (\<lambda>x. p \<le> hi x) mins = filter (covers p) mins"
      using all gt by (auto intro!: filter_cong)
    ultimately have "mset (takeWhile (\<lambda>x. \<not> hi x < p) maxs) = mset (filter (covers p) mins)"
      using ok by (simp add: takeWhile_descending)
    with gt none IH(2) ok show ?thesis by (auto split: option.splits)
  next
    case eq
    then have "filter (covers p) mins = mins" using all by simp
    with eq none show ?thesis by (cases l; cases u) simp_all
  qed
qed

text \<open>An interval is consumed once: \<open>dedup\<close> is what is left of a list under the marks.\<close>

fun dedup :: "bool list \<Rightarrow> 'v IndexedInterval list \<Rightarrow> 'v IndexedInterval list" where
  "dedup used [] = []"
| "dedup used (x # xs) =
     (if used ! unat (snd x) then dedup used xs else x # dedup (used[unat (snd x) := True]) xs)"

lemma feed_consume_once:
  "\<exists>used'. feed (consume_once c) xs (s, used) =
     (case feed c (dedup used xs) s of (s', go) \<Rightarrow> ((s', used'), go))"
proof (induction xs arbitrary: s used)
  case (Cons x xs)
  obtain s1 go where c: "c x s = (s1, go)" by (cases "c x s")
  show ?case
  proof (cases "used ! unat (snd x)")
    case True
    with Cons.IH show ?thesis by (simp add: consume_once_def)
  next
    case False
    with Cons.IH [of s1 "used[unat (snd x) := True]"] c show ?thesis
      by (cases go) (auto simp: consume_once_def)
  qed
qed simp

lemma dedup_set:
  "(\<And>x. x \<in> set xs \<Longrightarrow> unat (snd x) < length used) \<Longrightarrow> inj_on snd (set xs) \<Longrightarrow>
   set (dedup used xs) = {x \<in> set xs. \<not> used ! unat (snd x)} \<and> distinct (dedup used xs)"
proof (induction xs arbitrary: used)
  case (Cons x xs)
  have inj: "inj_on snd (set xs)" using Cons.prems(2) by (rule inj_on_subset) auto
  have ne: "snd y \<noteq> snd x" if "y \<in> set xs" "y \<noteq> x" for y
    using inj_onD [OF Cons.prems(2), of y x] that by auto
  show ?case
  proof (cases "used ! unat (snd x)")
    case True
    with Cons.IH [of used, OF _ inj] Cons.prems(1) show ?thesis by auto
  next
    case False
    let ?used = "used[unat (snd x) := True]"
    have eq: "{y \<in> set xs. \<not> ?used ! unat (snd y)} = {y \<in> set xs. \<not> used ! unat (snd y)} - {x}"
      using Cons.prems(1) [of x] by (auto simp: nth_list_update dest: ne)
    with False Cons.IH [of ?used, OF _ inj] Cons.prems(1) show ?thesis by auto
  qed
qed simp

lemma AssignIndices_simps:
  assumes "length intervals \<le> 2 ^ 32"
  shows "distinct (TreeRoot_AssignIndices intervals)" and "inj_on snd (set (TreeRoot_AssignIndices intervals))"
    and "x \<in> set (TreeRoot_AssignIndices intervals) \<Longrightarrow> unat (snd x) < length intervals \<and> fst x \<in> set intervals"
    and "length (TreeRoot_AssignIndices intervals) = length intervals"
proof -
  have u: "unat (of_nat i :: 32 word) = i" if "i < length intervals" for i
    using that assms by (intro of_nat_unat_less) simp
  have "inj_on (of_nat :: nat \<Rightarrow> 32 word) {..<length intervals}"
    using assms by (intro inj_on_of_nat) simp
  then have "distinct (map snd (TreeRoot_AssignIndices intervals))"
    by (simp add: TreeRoot_AssignIndices_def o_def distinct_map lessThan_atLeast0)
  then show "distinct (TreeRoot_AssignIndices intervals)" "inj_on snd (set (TreeRoot_AssignIndices intervals))"
    by (simp_all only: distinct_map)
  show "x \<in> set (TreeRoot_AssignIndices intervals) \<Longrightarrow> unat (snd x) < length intervals \<and> fst x \<in> set intervals"
    by (auto simp: TreeRoot_AssignIndices_def u)
qed (simp add: TreeRoot_AssignIndices_def)

text \<open>The intervals a range lookup considers, and that they are those that meet the range.\<close>

definition candidates :: "point \<Rightarrow> point \<Rightarrow> (point \<times> 'v IndexedInterval) list \<Rightarrow> 'v IndexedInterval list" where
  "candidates a b es = map snd (takeWhile (\<lambda>e. \<not> fst e > b) (dropWhile (\<lambda>e. fst e < a) es))"

definition endpoints :: "'v IndexedInterval list \<Rightarrow> (point \<times> 'v IndexedInterval) list" where
  "endpoints xs = sort_key fst (concat (map (\<lambda>x. [(lo x, x), (hi x, x)]) xs))"

lemma set_candidates:
  "set (candidates a b (endpoints xs)) = {x \<in> set xs. a \<le> lo x \<and> lo x \<le> b \<or> a \<le> hi x \<and> hi x \<le> b}"
proof -
  have "sorted_wrt (\<lambda>x y. fst x \<le> fst y) (endpoints xs)" by (simp add: endpoints_def sorted_wrt_sort_key)
  then have "candidates a b (endpoints xs) = map snd (filter (\<lambda>e. fst e \<le> b) (filter (\<lambda>e. a \<le> fst e) (endpoints xs)))"
    by (simp add: candidates_def dropWhile_ascending takeWhile_ascending sorted_wrt_filter del: filter_filter)
  then have "x \<in> set (candidates a b (endpoints xs)) \<longleftrightarrow> (\<exists>q. (q, x) \<in> set (endpoints xs) \<and> a \<le> q \<and> q \<le> b)" for x
    by force
  moreover have "(q, x) \<in> set (endpoints xs) \<longleftrightarrow> x \<in> set xs \<and> (q = lo x \<or> q = hi x)" for q x
    by (auto simp: endpoints_def)
  ultimately show ?thesis by (intro set_eqI) (simp, blast)
qed

lemma meets_range:
  assumes "a \<le> b" and "lo x \<le> hi x"
  shows "(a \<le> lo x \<and> lo x \<le> b \<or> a \<le> hi x \<and> hi x \<le> b) \<or> covers (a + (b - a) div 2) x \<longleftrightarrow> lo x \<le> b \<and> a \<le> hi x"
proof -
  have "((a \<le> l \<and> l \<le> b \<or> a \<le> h \<and> h \<le> b) \<or> l \<le> m \<and> m \<le> h) \<longleftrightarrow> l \<le> b \<and> a \<le> h"
    if "a \<le> m" "m \<le> b" "l \<le> h" for a b l h m :: nat
    using that by auto
  from this [of "unat a" "unat (a + (b - a) div 2)" "unat b" "unat (lo x)" "unat (hi x)"] show ?thesis
    using midpoint_between [OF assms(1)] assms(2) unfolding word_le_nat_alt by blast
qed

lemma length_endpoints: "length (endpoints xs) = 2 * length xs"
  by (induction xs) (simp_all add: endpoints_def)

lemma Lookup_range_feed:
  assumes "tr_root t = Some n" and "a \<le> b"
  shows "TreeRoot_Lookup_range a b c t s = Ok (fst (feed c
    (dedup (replicate (length (tr_intervals_sorted t) div 2) False)
      (candidates a b (tr_intervals_sorted t) @ hits (a + (b - a) div 2) n)) s))"
proof -
  let ?E = "candidates a b (tr_intervals_sorted t)" and ?H = "hits (a + (b - a) div 2) n"
  let ?u = "replicate (length (tr_intervals_sorted t) div 2) False"
  have "TreeRoot_Lookup_range a b c t s = Ok (fst (fst (feed (consume_once c) (?E @ ?H) (s, ?u))))"
    using assms midpoint_between(1) [OF assms(2)]
    by (auto simp: TreeRoot_Lookup_range_def TreeRoot_Lookup_def candidates_def Let_def feed_append
        Node_Lookup_hits split: prod.split)
  moreover obtain used' where "feed (consume_once c) (?E @ ?H) (s, ?u) =
     (case feed c (dedup ?u (?E @ ?H)) s of (s', go) \<Rightarrow> ((s', used'), go))"
    using feed_consume_once [of c "?E @ ?H" s ?u] by (elim exE) (rule that)
  ultimately show ?thesis by (simp split: prod.split)
qed

section \<open>Properties\<close>

text \<open>C22. If every interval has its ends in order and there are at most \<open>2 ^ 32\<close> of them, the tree is
  built, whatever the floating-point grid gives, and its lookups are exact: a point lookup hands the
  consumer each interval that contains the point, and a range lookup each interval that meets the
  range, exactly once, until the consumer stops it.\<close>

theorem IntervalTree_lookups:
  fixes intervals :: "'a Interval list"
  assumes "\<And>i. i \<in> set intervals \<Longrightarrow> iv_low i \<le> iv_high i" and "length intervals \<le> 2 ^ 32" and "a \<le> b"
  shows "\<exists>t found overlapping. TreeRoot_new grid_point intervals = Ok t \<and>
     distinct found \<and> set found = {x \<in> set (TreeRoot_AssignIndices intervals). lo x \<le> p \<and> p \<le> hi x} \<and>
     distinct overlapping \<and>
     set overlapping = {x \<in> set (TreeRoot_AssignIndices intervals). lo x \<le> b \<and> a \<le> hi x} \<and>
     (\<forall>(c :: ('a, 'b) consumer) s. TreeRoot_Lookup p c t s = fst (consume (\<lambda>_. False) c found s) \<and>
            TreeRoot_Lookup_range a b c t s = Ok (fst (consume (\<lambda>_. False) c overlapping s)))"
proof -
  let ?xs = "TreeRoot_AssignIndices intervals"
  note ai = AssignIndices_simps [OF assms(2)]
  have valid: "x \<in> set ?xs \<Longrightarrow> lo x \<le> hi x" for x using ai(3) assms(1) by blast
  then obtain r where r: "TreeRoot_BuildTree grid_point ?xs = Ok r" "subtree_ok r" "stored r = mset ?xs"
    using BuildTree_ok [of ?xs grid_point] by blast
  show ?thesis
  proof (cases r)
    case None
    then have "?xs = []" using r(3) by (simp add: stored_def)
    with None r show ?thesis
      by (auto simp: TreeRoot_new_def TreeRoot_Lookup_def TreeRoot_Lookup_range_def intro!: exI [of _ "[]"])
  next
    case (Some n)
    define t where "t = \<lparr>tr_root = Some n, tr_intervals_sorted = endpoints (Node_Walk n)\<rparr>"
    have n: "tree_ok n" "mset (Node_Walk n) = mset ?xs" using r Some by (simp_all add: subtree_ok_def stored_def)
    have new: "TreeRoot_new grid_point intervals = Ok t"
      using r(1) Some by (simp add: TreeRoot_new_def t_def endpoints_def)
    have walk: "set (Node_Walk n) = set ?xs" "length (Node_Walk n) = length intervals"
      using mset_eq_setD [OF n(2)] mset_eq_length [OF n(2)] ai(4) by simp_all
    have hit: "set (hits q n) = {x \<in> set ?xs. covers q x}" "distinct (hits q n)" for q
    proof -
      have "distinct (Node_Walk n)" using mset_eq_imp_distinct_iff [OF n(2)] ai(1) by simp
      then show "set (hits q n) = {x \<in> set ?xs. covers q x}" "distinct (hits q n)"
        using mset_eq_setD [OF mset_hits [OF n(1), of q]] mset_eq_imp_distinct_iff [OF mset_hits [OF n(1), of q]]
        by (simp_all add: walk(1))
    qed
    let ?over = "candidates a b (endpoints (Node_Walk n)) @ hits (a + (b - a) div 2) n"
    define over where "over = dedup (replicate (length intervals) False) ?over"
    have so: "set ?over = {x \<in> set ?xs. lo x \<le> b \<and> a \<le> hi x}"
      using meets_range [OF assms(3)] valid by (auto simp: set_candidates hit walk)
    have "set over = {x \<in> set ?xs. lo x \<le> b \<and> a \<le> hi x} \<and> distinct over"
    proof -
      have "\<And>x. x \<in> set ?over \<Longrightarrow> unat (snd x) < length (replicate (length intervals) False)"
        unfolding so using ai(3) by simp
      moreover have "inj_on snd (set ?over)" unfolding so by (rule inj_on_subset [OF ai(2)]) auto
      ultimately have "set over = {x \<in> set ?over. \<not> replicate (length intervals) False ! unat (snd x)} \<and> distinct over"
        unfolding over_def by (rule dedup_set)
      then show ?thesis unfolding so using ai(3) by auto
    qed
    moreover have "TreeRoot_Lookup p c t s = fst (feed c (hits p n) s)" for c :: "('a, 'b) consumer" and s
      by (simp add: TreeRoot_Lookup_def t_def Node_Lookup_hits)
    moreover have "TreeRoot_Lookup_range a b c t s = Ok (fst (feed c over s))" for c :: "('a, 'b) consumer" and s
      using Lookup_range_feed [of t n a b c s] assms(3) by (simp add: t_def over_def length_endpoints walk)
    ultimately show ?thesis
      using new hit [of p] by (intro exI [of _ t] exI [of _ "hits p n"] exI [of _ over]) simp
  qed
qed

definition one_interval :: "unit Interval" where
  "one_interval = \<lparr>iv_low = 1, iv_high = 5, iv_value = ()\<rparr>"

lemma distinct_singleton:
  assumes "distinct xs" and "set xs = {x}"
  shows "xs = [x]"
proof -
  have "length xs = 1" using distinct_card [OF assms(1)] assms(2) by simp
  then obtain y where "xs = [y]" by (cases xs) auto
  with assms(2) show ?thesis by simp
qed

theorem IntervalTree_lookups_witness:
  "\<exists>t. TreeRoot_new (\<lambda>low delta i. low) [one_interval] = Ok t \<and>
       TreeRoot_Lookup 4 (\<lambda>x s. (x # s, True)) t [] = [(one_interval, 0)] \<and>
       TreeRoot_Lookup_range 0 2 (\<lambda>x s. (x # s, True)) t [] = Ok [(one_interval, 0)]"
proof -
  have "TreeRoot_AssignIndices [one_interval] = [(one_interval, 0)]" by (simp add: TreeRoot_AssignIndices_def)
  then have "{x \<in> set (TreeRoot_AssignIndices [one_interval]). lo x \<le> 4 \<and> 4 \<le> hi x} = {(one_interval, 0)}"
    "{x \<in> set (TreeRoot_AssignIndices [one_interval]). lo x \<le> 2 \<and> 0 \<le> hi x} = {(one_interval, 0)}"
    by (auto simp: one_interval_def)
  note sets = this
  have valid: "\<And>i. i \<in> set [one_interval] \<Longrightarrow> iv_low i \<le> iv_high i" by (simp add: one_interval_def)
  have "\<exists>t found overlapping. TreeRoot_new (\<lambda>low delta i. low) [one_interval] = Ok t \<and>
      distinct found \<and> set found = {(one_interval, 0)} \<and> distinct overlapping \<and> set overlapping = {(one_interval, 0)} \<and>
      (\<forall>(c :: (unit, unit IndexedInterval list) consumer) s. TreeRoot_Lookup 4 c t s = fst (consume (\<lambda>_. False) c found s) \<and>
            TreeRoot_Lookup_range 0 2 c t s = Ok (fst (consume (\<lambda>_. False) c overlapping s)))"
    by (rule IntervalTree_lookups [where intervals = "[one_interval]" and p = 4 and a = 0 and b = 2, OF valid, unfolded sets]) simp_all
  then obtain t found over where t: "TreeRoot_new (\<lambda>low delta i. low) [one_interval] = Ok t"
      "distinct found" "set found = {(one_interval, 0)}" "distinct over" "set over = {(one_interval, 0)}"
      "\<forall>(c :: (unit, unit IndexedInterval list) consumer) s. TreeRoot_Lookup 4 c t s = fst (consume (\<lambda>_. False) c found s) \<and>
            TreeRoot_Lookup_range 0 2 c t s = Ok (fst (consume (\<lambda>_. False) c over s))"
    by blast
  from distinct_singleton [OF t(2,3)] distinct_singleton [OF t(4,5)] t(1,6) show ?thesis by simp
qed

end
