(* ===== verification/Alphanum.thy ===== *)
theory Alphanum
  imports Ncode_Prelude
begin
text \<open>
  The alphanumeric comparison of \<open>src/src/alphanum.h\<close>. A C string is the list of its characters up
  to the terminating zero; \<open>char\<close> is signed, numbers are collected in an \<open>unsigned long\<close> of 64 bits
  and their difference is returned through an \<open>int\<close>. The comparison is related to the
  lexicographic order on the strings cut into numbers and single characters.
\<close>

section \<open>The comparison\<close>

text \<open>\<open>c_str\<close>: the characters before the first zero.\<close>

definition c_str :: "string \<Rightarrow> string" where
  "c_str s = takeWhile (\<lambda>c. c \<noteq> CHR 0x00) s"

definition char_value :: "char \<Rightarrow> int" where
  "char_value c = sint (of_char c :: 8 word)"

definition alphanum_isdigit :: "char \<Rightarrow> bool" where
  "alphanum_isdigit c \<longleftrightarrow> char_value c \<ge> char_value CHR ''0'' \<and> char_value c \<le> char_value CHR ''9''"

datatype alphanum_mode = STRING | NUMBER

text \<open>The loop in mode \<open>STRING\<close>: a result, or the mode and the strings it leaves with.\<close>

fun string_loop :: "string \<Rightarrow> string \<Rightarrow> int + alphanum_mode \<times> string \<times> string" where
  "string_loop (l_char # l) (r_char # r) =
     (let l_digit = alphanum_isdigit l_char; r_digit = alphanum_isdigit r_char in
      if l_digit \<and> r_digit then Inr (NUMBER, l_char # l, r_char # r)
      else if l_digit then Inl (- 1)
      else if r_digit then Inl 1
      else let diff = char_value l_char - char_value r_char in
        if diff \<noteq> 0 then Inl diff else string_loop l r)"
| "string_loop l r = Inr (STRING, l, r)"

text \<open>The loops that read a number.\<close>

fun number_loop :: "64 word \<Rightarrow> string \<Rightarrow> 64 word \<times> string" where
  "number_loop n (c # s) =
     (if alphanum_isdigit c
      then number_loop (n * 10 + word_of_int (char_value c) - word_of_int (char_value CHR ''0'')) s
      else (n, c # s))"
| "number_loop n [] = (n, [])"

text \<open>One iteration of the outer loop.\<close>

definition alphanum_step :: "alphanum_mode \<Rightarrow> string \<Rightarrow> string \<Rightarrow> int + alphanum_mode \<times> string \<times> string" where
  "alphanum_step mode l r =
     (case mode of
        STRING \<Rightarrow> string_loop l r
      | NUMBER \<Rightarrow>
          let (l_int, l) = number_loop 0 l; (r_int, r) = number_loop 0 r; diff = l_int - r_int in
          if diff \<noteq> 0 then Inl (sint (ucast diff :: 32 word)) else Inr (STRING, l, r))"

lemma number_loop_length: "length (snd (number_loop n s)) \<le> length s"
  by (induction n s rule: number_loop.induct) auto

text \<open>The measure of the outer loop: a mode that cannot read anything is followed by one that can.\<close>

definition idle :: "alphanum_mode \<Rightarrow> string \<Rightarrow> string \<Rightarrow> bool" where
  "idle mode l r \<longleftrightarrow> (case mode of STRING \<Rightarrow> alphanum_isdigit (hd l) \<and> alphanum_isdigit (hd r)
     | NUMBER \<Rightarrow> \<not> (alphanum_isdigit (hd l) \<and> alphanum_isdigit (hd r)))"

lemma string_loop_Inr:
  assumes "string_loop l r = Inr (mode, l', r')"
  shows "length l' + length r' < length l + length r \<or> l' = l \<and> r' = r \<and>
         (l \<noteq> [] \<and> r \<noteq> [] \<longrightarrow> mode = NUMBER \<and> alphanum_isdigit (hd l) \<and> alphanum_isdigit (hd r))"
  using assms
proof (induction l arbitrary: r)
  case (Cons a l)
  then show ?case by (cases r) (fastforce simp: Let_def split: if_splits)+
qed simp

lemma number_loop_consumes: "alphanum_isdigit c \<Longrightarrow> length (snd (number_loop n (c # s))) \<le> length s"
  by (simp add: number_loop_length)

lemma alphanum_step_decreases:
  assumes "alphanum_step mode l r = Inr (mode', l', r')" and "l \<noteq> []" and "r \<noteq> []"
  shows "2 * (length l' + length r') + of_bool (idle mode' l' r') < 2 * (length l + length r) + of_bool (idle mode l r)"
proof (cases mode)
  case STRING
  with assms string_loop_Inr [of l r mode' l' r'] show ?thesis
    by (auto simp: alphanum_step_def idle_def)
next
  case NUMBER
  obtain a ls b rs where lr: "l = a # ls" "r = b # rs" using assms(2,3) by (cases l; cases r) auto
  have m: "mode' = STRING" "l' = snd (number_loop 0 l)" "r' = snd (number_loop 0 r)"
    using assms(1) NUMBER by (auto simp: alphanum_step_def Let_def split: prod.splits if_splits)
  have le: "length l' \<le> length l" "length r' \<le> length r" by (simp_all add: m number_loop_length)
  show ?thesis
  proof (cases "alphanum_isdigit a \<or> alphanum_isdigit b")
    case True
    then have "length l' + length r' < length l + length r"
      using le number_loop_consumes [of a 0 ls] number_loop_consumes [of b 0 rs] by (auto simp: m lr)
    moreover have "idle mode l r \<or> length l' + length r' + 1 < length l + length r"
      using True NUMBER number_loop_consumes [of a 0 ls] number_loop_consumes [of b 0 rs] by (auto simp: m lr idle_def)
    ultimately show ?thesis by (cases "idle mode' l' r'") auto
  next
    case False
    with NUMBER m lr show ?thesis by (simp add: idle_def)
  qed
qed

function alphanum_loop :: "alphanum_mode \<Rightarrow> string \<Rightarrow> string \<Rightarrow> int" where
  "alphanum_loop mode l r =
     (if l \<noteq> [] \<and> r \<noteq> [] then
        (case alphanum_step mode l r of Inl result \<Rightarrow> result | Inr (mode, l, r) \<Rightarrow> alphanum_loop mode l r)
      else if r \<noteq> [] then - 1
      else if l \<noteq> [] then 1
      else 0)"
  by pat_completeness auto
termination
  by (relation "measure (\<lambda>(mode, l, r). 2 * (length l + length r) + of_bool (idle mode l r))")
     (auto dest!: alphanum_step_decreases)

declare alphanum_loop.simps [simp del]

definition alphanum_impl :: "string \<Rightarrow> string \<Rightarrow> int" where
  "alphanum_impl l r = alphanum_loop STRING l r"

definition alphanum_comp :: "string \<Rightarrow> string \<Rightarrow> int" where
  "alphanum_comp l r = alphanum_impl (c_str l) (c_str r)"

definition alphanum_less :: "string \<Rightarrow> string \<Rightarrow> bool" where
  "alphanum_less left right \<longleftrightarrow> alphanum_comp left right < 0"

section \<open>The order on tokens\<close>

datatype token = Num nat | Chr char

definition digit_value :: "char \<Rightarrow> nat" where
  "digit_value c = of_char c - 48"

definition number_value :: "string \<Rightarrow> nat" where
  "number_value ds = foldl (\<lambda>n c. n * 10 + digit_value c) 0 ds"

function tokens :: "string \<Rightarrow> token list" where
  "tokens [] = []"
| "tokens (c # s) =
     (if alphanum_isdigit c
      then Num (number_value (c # takeWhile alphanum_isdigit s)) # tokens (dropWhile alphanum_isdigit s)
      else Chr c # tokens s)"
  by pat_completeness auto
termination
  by (relation "measure length") (auto simp: less_Suc_eq_le length_dropWhile_le)

fun token_cmp :: "token \<Rightarrow> token \<Rightarrow> int" where
  "token_cmp (Num m) (Num n) = sgn (int m - int n)"
| "token_cmp (Num m) (Chr c) = - 1"
| "token_cmp (Chr c) (Num n) = 1"
| "token_cmp (Chr c) (Chr d) = sgn (char_value c - char_value d)"

fun tokens_cmp :: "token list \<Rightarrow> token list \<Rightarrow> int" where
  "tokens_cmp [] [] = 0"
| "tokens_cmp [] (_ # _) = - 1"
| "tokens_cmp (_ # _) [] = 1"
| "tokens_cmp (x # xs) (y # ys) = (if token_cmp x y \<noteq> 0 then token_cmp x y else tokens_cmp xs ys)"

definition small_numbers :: "string \<Rightarrow> bool" where
  "small_numbers s \<longleftrightarrow> (\<forall>n. Num n \<in> set (tokens s) \<longrightarrow> n < 2 ^ 31)"

lemma char_value_eq: "char_value c = (if (of_char c :: nat) < 128 then int (of_char c) else int (of_char c) - 256)"
proof -
  define n where "n = (of_char c :: nat)"
  have n: "n < 256" unfolding n_def by (rule nat_of_char_less_256)
  have "(of_char c :: 8 word) = of_nat n" by (simp add: n_def of_nat_of_char)
  moreover have "uint (of_nat n :: 8 word) = int n"
    using n arg_cong [OF of_nat_unat_less [where 'v = 8, of n], of int] by simp
  ultimately have "char_value c = signed_take_bit 7 (int n)" by (simp add: char_value_def sint_uint)
  also have "\<dots> = (if n < 128 then int n else int n - 256)"
  proof (cases "n < 128")
    case False
    have "take_bit 8 (int n - 256) = take_bit 8 (int n)" by (simp add: take_bit_eq_mod)
    then have "signed_take_bit 7 (int n) = signed_take_bit 7 (int n - 256)"
      by (simp add: signed_take_bit_eq_iff_take_bit_eq)
    also have "\<dots> = int n - 256" using False n by (intro signed_take_bit_int_eq_self) simp_all
    finally show ?thesis using False by simp
  qed (simp add: signed_take_bit_int_eq_self)
  finally show ?thesis by (simp add: n_def)
qed

lemma isdigit_char: "alphanum_isdigit c \<longleftrightarrow> 48 \<le> (of_char c :: nat) \<and> (of_char c :: nat) \<le> 57"
  using nat_of_char_less_256 [of c] unfolding alphanum_isdigit_def char_value_eq
  by (auto simp del: nat_of_char_less_256)

lemma digit_step:
  assumes "alphanum_isdigit c"
  shows "(of_nat n :: 64 word) * 10 + word_of_int (char_value c) - word_of_int (char_value CHR ''0'') =
         of_nat (n * 10 + digit_value c)"
proof -
  have "char_value c - char_value CHR ''0'' = int (digit_value c)"
    using assms by (simp add: isdigit_char char_value_eq digit_value_def of_nat_diff)
  then have "(word_of_int (char_value c) - word_of_int (char_value CHR ''0'') :: 64 word) = of_nat (digit_value c)"
    by (metis of_int_diff of_int_of_nat_eq)
  then show ?thesis by (simp add: algebra_simps)
qed

lemma number_loop_eq:
  "number_loop (of_nat n) s =
     (of_nat (foldl (\<lambda>n c. n * 10 + digit_value c) n (takeWhile alphanum_isdigit s)), dropWhile alphanum_isdigit s)"
  by (induction s arbitrary: n) (simp_all add: digit_step del: of_nat_add of_nat_mult)

lemma number_loop_token:
  assumes "s \<noteq> []" and "alphanum_isdigit (hd s)"
  obtains n where "number_loop 0 s = (of_nat n, dropWhile alphanum_isdigit s)"
    "tokens s = Num n # tokens (dropWhile alphanum_isdigit s)"
    "length (dropWhile alphanum_isdigit s) < length s"
proof -
  obtain c t where "s = c # t" using assms(1) by (cases s) auto
  then show thesis using assms(2) number_loop_eq [of 0 s] length_dropWhile_le [of alphanum_isdigit t]
    by (intro that [of "number_value (takeWhile alphanum_isdigit s)"]) (simp_all add: number_value_def)
qed

lemma int_diff:
  assumes "m < 2 ^ 31" and "n < 2 ^ 31"
  shows "(of_nat m - of_nat n :: 64 word) = 0 \<longleftrightarrow> m = n"
    and "sint (ucast (of_nat m - of_nat n :: 64 word) :: 32 word) = int m - int n"
proof -
  have "unat (of_nat m :: 64 word) = m" "unat (of_nat n :: 64 word) = n"
    using assms by (simp_all add: of_nat_unat_less)
  then show "(of_nat m - of_nat n :: 64 word) = 0 \<longleftrightarrow> m = n" by (metis eq_iff_diff_eq_0)
  define k where "k = int m - int n"
  have k: "- (2 ^ 31) \<le> k" "k < 2 ^ 31" using assms by (simp_all add: k_def)
  have "(of_nat m - of_nat n :: 64 word) = word_of_int k" by (simp add: k_def)
  moreover have "(ucast (word_of_int k :: 64 word) :: 32 word) = word_of_int k"
    by (simp add: unsigned_word_eqI ucast_eq uint_word_of_int_eq word_of_int_eq_iff)
  moreover have "sint (word_of_int k :: 32 word) = k"
    using k by (simp add: sint_sbintrunc' signed_take_bit_int_eq_self)
  ultimately show "sint (ucast (of_nat m - of_nat n :: 64 word) :: 32 word) = int m - int n"
    by (simp add: k_def)
qed

lemma string_loop_tokens:
  "case string_loop l r of
     Inl d \<Rightarrow> sgn d = tokens_cmp (tokens l) (tokens r)
   | Inr (mode, l', r') \<Rightarrow> tokens_cmp (tokens l) (tokens r) = tokens_cmp (tokens l') (tokens r') \<and>
       set (tokens l') \<subseteq> set (tokens l) \<and> set (tokens r') \<subseteq> set (tokens r) \<and> length l' \<le> length l \<and>
       (mode = STRING \<and> (l' = [] \<or> r' = []) \<or>
        mode = NUMBER \<and> l' \<noteq> [] \<and> r' \<noteq> [] \<and> alphanum_isdigit (hd l') \<and> alphanum_isdigit (hd r'))"
proof (induction l arbitrary: r)
  case (Cons a l)
  show ?case
  proof (cases r)
    case (Cons b r')
    with Cons.IH [of r'] show ?thesis
      by (auto simp: Let_def sgn_0_0 split: sum.splits)
  qed simp
qed (cases r; simp)

lemma alphanum_loop_empty:
  "l = [] \<or> r = [] \<Longrightarrow> sgn (alphanum_loop mode l r) = tokens_cmp (tokens l) (tokens r)"
  by (cases l; cases r) (simp_all add: alphanum_loop.simps)

lemma alphanum_loop_tokens:
  assumes "small_numbers l" and "small_numbers r"
  shows "sgn (alphanum_loop STRING l r) = tokens_cmp (tokens l) (tokens r)"
  using assms
proof (induction l arbitrary: r rule: length_induct)
  case (1 l)
  note IH = "1.IH" and small = "1.prems"
  show ?case
  proof (cases "l = [] \<or> r = []")
    case False
    show ?thesis
    proof (cases "string_loop l r")
      case (Inl d)
      with False string_loop_tokens [of l r] show ?thesis
        by (simp add: alphanum_loop.simps [of STRING] alphanum_step_def)
    next
      case (Inr res)
      obtain mode l' r' where res: "res = (mode, l', r')" by (cases res)
      have loop: "alphanum_loop STRING l r = alphanum_loop mode l' r'"
        using False Inr res by (simp add: alphanum_loop.simps [of STRING l r] alphanum_step_def)
      from string_loop_tokens [of l r] Inr res
      have st: "tokens_cmp (tokens l) (tokens r) = tokens_cmp (tokens l') (tokens r')"
        "set (tokens l') \<subseteq> set (tokens l)" "set (tokens r') \<subseteq> set (tokens r)" "length l' \<le> length l"
        "mode = STRING \<and> (l' = [] \<or> r' = []) \<or>
         mode = NUMBER \<and> l' \<noteq> [] \<and> r' \<noteq> [] \<and> alphanum_isdigit (hd l') \<and> alphanum_isdigit (hd r')"
        by simp_all
      from st(5) show ?thesis
      proof
        assume "mode = STRING \<and> (l' = [] \<or> r' = [])"
        with alphanum_loop_empty loop st(1) show ?thesis by simp
      next
        assume n: "mode = NUMBER \<and> l' \<noteq> [] \<and> r' \<noteq> [] \<and> alphanum_isdigit (hd l') \<and> alphanum_isdigit (hd r')"
        let ?dl = "dropWhile alphanum_isdigit l'" and ?dr = "dropWhile alphanum_isdigit r'"
        from n obtain i where i: "number_loop 0 l' = (of_nat i, ?dl)" "tokens l' = Num i # tokens ?dl" "length ?dl < length l'"
          using number_loop_token by blast
        from n obtain j where j: "number_loop 0 r' = (of_nat j, ?dr)" "tokens r' = Num j # tokens ?dr"
          using number_loop_token by blast
        have ij: "i < 2 ^ 31" "j < 2 ^ 31" using small st(2,3) i(2) j(2) by (auto simp: small_numbers_def)
        have "alphanum_loop mode l' r' = (if i \<noteq> j then int i - int j else alphanum_loop STRING ?dl ?dr)"
          using n i(1) j(1) int_diff [OF ij] by (simp add: alphanum_loop.simps [of NUMBER] alphanum_step_def Let_def)
        moreover have "sgn (alphanum_loop STRING ?dl ?dr) = tokens_cmp (tokens ?dl) (tokens ?dr)"
        proof -
          have "small_numbers ?dl" "small_numbers ?dr"
            using small st(2,3) i(2) j(2) by (auto simp: small_numbers_def)
          moreover have "length ?dl < length l" using st(4) i(3) by simp
          ultimately show ?thesis using IH by blast
        qed
        ultimately show ?thesis using loop st(1) i(2) j(2) by (cases "i = j") (simp_all add: sgn_0_0)
      qed
    qed
  qed (rule alphanum_loop_empty)
qed

section \<open>Properties\<close>

text \<open>C38. As long as every run of digits in both strings stands for a number below \<open>2 ^ 31\<close>, the
  single-pass comparison has the sign of the lexicographic comparison of the strings cut into numbers
  and other characters, numbers being compared by value and coming before characters; so
  \<open>alphanum_less\<close> is that order.\<close>

theorem alphanum_comp_tokens:
  assumes "small_numbers (c_str l)" and "small_numbers (c_str r)"
  shows "sgn (alphanum_comp l r) = tokens_cmp (tokens (c_str l)) (tokens (c_str r)) \<and>
         alphanum_less l r = (tokens_cmp (tokens (c_str l)) (tokens (c_str r)) = - 1)"
proof -
  have sg: "sgn (alphanum_comp l r) = tokens_cmp (tokens (c_str l)) (tokens (c_str r))"
    using alphanum_loop_tokens [OF assms] by (simp add: alphanum_comp_def alphanum_impl_def)
  have "alphanum_less l r \<longleftrightarrow> sgn (alphanum_comp l r) = - 1"
    by (simp add: alphanum_less_def sgn_1_neg)
  with sg show ?thesis by simp
qed

theorem alphanum_comp_tokens_witness:
  "small_numbers (c_str ''a10'') \<and> alphanum_less ''a9'' ''a10''"
proof -
  have t: "tokens (c_str ''a10'') = [Chr CHR ''a'', Num 10]" "tokens (c_str ''a9'') = [Chr CHR ''a'', Num 9]"
    by (simp_all add: c_str_def isdigit_char number_value_def digit_value_def)
  then have "small_numbers (c_str ''a10'')" "small_numbers (c_str ''a9'')" by (auto simp: small_numbers_def)
  with alphanum_comp_tokens [of "''a9''" "''a10''"] t show ?thesis by simp
qed

text \<open>Larger numbers: the difference is cut to 32 bits, so numbers can compare as equal or in the wrong
  order.\<close>

lemma alphanum_comp_truncates:
  "alphanum_comp ''4294967296'' ''0'' = 0" "alphanum_comp ''2147483648'' ''0'' < 0"
  by (simp_all add: alphanum_comp_def c_str_def alphanum_impl_def alphanum_loop.simps alphanum_step_def
      isdigit_char char_value_eq Let_def)

end
