(* ===== verification/Bloom.thy ===== *)
theory Bloom
  imports Ncode_Prelude
begin

unbundle bit_operations_syntax

text \<open>
  \<open>MurmurHash3_x64_128\<close> and \<open>BloomFilter\<close> of \<open>src/src/bloom.{h,cc}\<close>. A key is the bytes the
  \<open>ValueExtractor\<close> points to, fewer than \<open>2 ^ 31\<close> of them (the code passes their number as an \<open>int\<close>);
  the blocks of the key are read in little-endian order. The constructor computes the
  number of hashes and of bits in floating point; here they are its arguments.
\<close>

section \<open>MurmurHash3\<close>

definition bytes_le :: "8 word list \<Rightarrow> 64 word" where
  "bytes_le bs = foldr (\<lambda>b k. push_bit 8 k OR ucast b) bs 0"

definition GetBlock64 :: "8 word list \<Rightarrow> nat \<Rightarrow> 64 word" where
  "GetBlock64 data i = bytes_le (take 8 (drop (8 * i) data))"

definition RotL64 :: "64 word \<Rightarrow> nat \<Rightarrow> 64 word" where
  "RotL64 x r = push_bit r x OR drop_bit (64 - r) x"

definition FMix64 :: "64 word \<Rightarrow> 64 word" where
  "FMix64 k =
     (let k = k XOR drop_bit 33 k; k = k * 0xff51afd7ed558ccd;
          k = k XOR drop_bit 33 k; k = k * 0xc4ceb9fe1a85ec53
      in k XOR drop_bit 33 k)"

abbreviation c1 :: "64 word" where "c1 \<equiv> 0x87c37b91114253d5"
abbreviation c2 :: "64 word" where "c2 \<equiv> 0x4cf5ad432745937f"

text \<open>The mixing of one block of sixteen bytes.\<close>

definition murmur_block :: "8 word list \<Rightarrow> nat \<Rightarrow> 64 word \<times> 64 word \<Rightarrow> 64 word \<times> 64 word" where
  "murmur_block data i = (\<lambda>(h1, h2).
     let k1 = GetBlock64 data (i * 2 + 0);
         k2 = GetBlock64 data (i * 2 + 1);
         k1 = k1 * c1; k1 = RotL64 k1 31; k1 = k1 * c2; h1 = h1 XOR k1;
         h1 = RotL64 h1 27; h1 = h1 + h2; h1 = h1 * 5 + 0x52dce729;
         k2 = k2 * c2; k2 = RotL64 k2 33; k2 = k2 * c1; h2 = h2 XOR k2;
         h2 = RotL64 h2 31; h2 = h2 + h1; h2 = h2 * 5 + 0x38495ab5
     in (h1, h2))"

text \<open>
  The cases of the switch fall through: from the last byte of the tail down to byte \<open>base\<close>, each
  is added at its place.
\<close>

definition murmur_tail_bytes :: "8 word list \<Rightarrow> nat \<Rightarrow> nat \<Rightarrow> 64 word" where
  "murmur_tail_bytes tail base n =
     fold (\<lambda>j k. k XOR push_bit (8 * (j - base)) (ucast (tail ! j))) (rev [base..<n]) 0"

definition murmur_tail :: "8 word list \<Rightarrow> 64 word \<times> 64 word \<Rightarrow> 64 word \<times> 64 word" where
  "murmur_tail tail = (\<lambda>(h1, h2).
     let n = length tail;
         h2 = (if n \<ge> 9
               then let k2 = murmur_tail_bytes tail 8 n; k2 = k2 * c2; k2 = RotL64 k2 33; k2 = k2 * c1 in h2 XOR k2
               else h2);
         h1 = (if n \<ge> 1
               then let k1 = murmur_tail_bytes tail 0 (min n 8); k1 = k1 * c1; k1 = RotL64 k1 31; k1 = k1 * c2 in h1 XOR k1
               else h1)
     in (h1, h2))"

definition MurmurHash3_x64_128 :: "8 word list \<Rightarrow> 32 word \<Rightarrow> 32 word \<times> 32 word" where
  "MurmurHash3_x64_128 data seed =
     (let len = length data; nblocks = len div 16;
          (h1, h2) = fold (murmur_block data) [0..<nblocks] (ucast seed, ucast seed);
          (h1, h2) = murmur_tail (drop (nblocks * 16) data) (h1, h2);
          h1 = h1 XOR of_nat len; h2 = h2 XOR of_nat len;
          h1 = h1 + h2; h2 = h2 + h1;
          h1 = FMix64 h1; h2 = FMix64 h2;
          h1 = h1 + h2; h2 = h2 + h1
      in (ucast h1, ucast h2))"

section \<open>The filter\<close>

record BloomFilter =
  bf_num_hashes :: nat
  bf_bits :: "bool list"

definition BloomFilter_new :: "nat \<Rightarrow> nat \<Rightarrow> BloomFilter res" where
  "BloomFilter_new num_hashes num_bits =
     check (num_hashes > 0) (check (num_bits > 0)
       (Ok \<lparr>bf_num_hashes = num_hashes, bf_bits = vec_resize num_bits False []\<rparr>))"

definition BloomFilter_ComputeNthHash :: "32 word \<Rightarrow> 32 word \<Rightarrow> nat \<Rightarrow> 64 word" where
  "BloomFilter_ComputeNthHash hash_one hash_two n = ucast hash_one + of_nat n * ucast hash_two"

definition BloomFilter_HashValue :: "8 word list \<Rightarrow> 32 word \<times> 32 word" where
  "BloomFilter_HashValue key = MurmurHash3_x64_128 key 42"

definition BloomFilter_Add :: "8 word list \<Rightarrow> BloomFilter \<Rightarrow> BloomFilter" where
  "BloomFilter_Add key f =
     (let (hash_one, hash_two) = BloomFilter_HashValue key in
      fold (\<lambda>i f. let bit_to_set = BloomFilter_ComputeNthHash hash_one hash_two i in
              f\<lparr>bf_bits := (bf_bits f)[unat bit_to_set mod length (bf_bits f) := True]\<rparr>)
        [0..<bf_num_hashes f] f)"

text \<open>The loop returns false at the first bit that is not set.\<close>

fun all_set :: "(nat \<Rightarrow> nat) \<Rightarrow> nat list \<Rightarrow> bool list \<Rightarrow> bool res" where
  "all_set position [] bits = Ok True"
| "all_set position (i # is) bits =
     rbind (vec_at bits (position i)) (\<lambda>b. if \<not> b then Ok False else all_set position is bits)"

definition BloomFilter_PossiblyContains :: "8 word list \<Rightarrow> BloomFilter \<Rightarrow> bool res" where
  "BloomFilter_PossiblyContains key f =
     (let (hash_one, hash_two) = BloomFilter_HashValue key in
      all_set (\<lambda>i. unat (BloomFilter_ComputeNthHash hash_one hash_two i) mod length (bf_bits f))
        [0..<bf_num_hashes f] (bf_bits f))"

text \<open>A test vector of the algorithm, for the bytes of ``hello'' and seed 0.\<close>

lemma MurmurHash3_hello: "MurmurHash3_x64_128 [0x68, 0x65, 0x6c, 0x6c, 0x6f] 0 = (0x41bd9b02, 0x48ae1d19)"
  by (simp add: MurmurHash3_x64_128_def murmur_tail_def murmur_tail_bytes_def RotL64_def FMix64_def Let_def upt_rec)

section \<open>Lemmas\<close>

definition positions :: "BloomFilter \<Rightarrow> 8 word list \<Rightarrow> nat set" where
  "positions f key = (\<lambda>i. unat (BloomFilter_ComputeNthHash (fst (BloomFilter_HashValue key))
     (snd (BloomFilter_HashValue key)) i) mod length (bf_bits f)) ` {..<bf_num_hashes f}"

definition set_bits :: "BloomFilter \<Rightarrow> nat set" where
  "set_bits f = {i. i < length (bf_bits f) \<and> bf_bits f ! i}"

lemma Add_fold:
  "let f' = fold (\<lambda>i f. f\<lparr>bf_bits := (bf_bits f)[unat (g i) mod length (bf_bits f) := True]\<rparr>) is f in
   bf_num_hashes f' = bf_num_hashes f \<and> length (bf_bits f') = length (bf_bits f) \<and>
   (length (bf_bits f) > 0 \<longrightarrow> set_bits f' = set_bits f \<union> (\<lambda>i. unat (g i) mod length (bf_bits f)) ` set is)"
proof (induction "is" arbitrary: f)
  case (Cons i "is")
  let ?f = "f\<lparr>bf_bits := (bf_bits f)[unat (g i) mod length (bf_bits f) := True]\<rparr>"
  have "length (bf_bits f) > 0 \<Longrightarrow> set_bits ?f = insert (unat (g i) mod length (bf_bits f)) (set_bits f)"
    by (auto simp: set_bits_def nth_list_update)
  with Cons [of ?f] show ?case by (auto simp: Let_def)
qed simp

lemma Add_bits:
  "bf_num_hashes (BloomFilter_Add key f) = bf_num_hashes f"
  "length (bf_bits (BloomFilter_Add key f)) = length (bf_bits f)"
  "length (bf_bits f) > 0 \<Longrightarrow> set_bits (BloomFilter_Add key f) = set_bits f \<union> positions f key"
  using Add_fold [of "\<lambda>i. BloomFilter_ComputeNthHash (fst (BloomFilter_HashValue key)) (snd (BloomFilter_HashValue key)) i"
      "[0..<bf_num_hashes f]" f]
  by (simp_all add: BloomFilter_Add_def Let_def split_def positions_def atLeast0LessThan)

lemma all_set_iff:
  "(\<And>i. i \<in> set is \<Longrightarrow> p i < length bits) \<Longrightarrow> all_set p is bits = Ok (\<forall>i \<in> set is. bits ! p i)"
  by (induction "is") auto

lemma PossiblyContains_iff:
  assumes "length (bf_bits f) > 0"
  shows "BloomFilter_PossiblyContains key f = Ok (positions f key \<subseteq> set_bits f)"
  using assms
  by (auto simp: BloomFilter_PossiblyContains_def split_def Let_def all_set_iff positions_def set_bits_def image_subset_iff)

lemma positions_cong:
  "bf_num_hashes f = bf_num_hashes g \<Longrightarrow> length (bf_bits f) = length (bf_bits g) \<Longrightarrow> positions f = positions g"
  by (simp add: positions_def fun_eq_iff)

lemma fold_Add:
  assumes "length (bf_bits f) > 0"
  shows "bf_num_hashes (fold BloomFilter_Add keys f) = bf_num_hashes f \<and>
         length (bf_bits (fold BloomFilter_Add keys f)) = length (bf_bits f) \<and>
         set_bits (fold BloomFilter_Add keys f) = set_bits f \<union> (\<Union>key \<in> set keys. positions f key)"
  using assms
proof (induction keys arbitrary: f)
  case (Cons key keys)
  have "positions (BloomFilter_Add key f) = positions f" by (rule positions_cong) (simp_all add: Add_bits)
  with Cons.IH [of "BloomFilter_Add key f"] Cons.prems show ?case by (simp add: Add_bits Un_assoc)
qed simp

section \<open>Properties\<close>

text \<open>C35. A Bloom filter has no false negatives and an exact description of its answers: a new filter
  contains nothing, and after adding keys \<open>PossiblyContains\<close> holds exactly of the keys all of whose
  bit positions are among those of the keys added, hence of every key added.\<close>

theorem BloomFilter_no_false_negatives:
  assumes "BloomFilter_new num_hashes num_bits = Ok f"
  shows "BloomFilter_PossiblyContains key f = Ok False \<and>
         BloomFilter_PossiblyContains key (fold BloomFilter_Add keys f) =
           Ok (positions f key \<subseteq> (\<Union>k \<in> set keys. positions f k)) \<and>
         BloomFilter_PossiblyContains key (fold BloomFilter_Add (key # keys) f) = Ok True"
proof -
  have f: "length (bf_bits f) > 0" "set_bits f = {}" "bf_num_hashes f > 0"
    using assms by (auto simp: BloomFilter_new_def res_simps set_bits_def vec_resize_def)
  have pos: "positions (fold BloomFilter_Add ks f) = positions f" for ks
    using fold_Add [OF f(1)] by (intro positions_cong) simp_all
  have "positions f key \<noteq> {}" using f(3) by (auto simp: positions_def lessThan_empty_iff)
  then show ?thesis
    using f fold_Add [OF f(1)] pos [of keys] pos [of "key # keys"]
    by (auto simp: PossiblyContains_iff simp del: fold.simps)
qed

theorem BloomFilter_no_false_negatives_witness:
  "\<exists>f. BloomFilter_new 3 8 = Ok f \<and> BloomFilter_PossiblyContains [1] f = Ok False \<and>
       BloomFilter_PossiblyContains [1] (fold BloomFilter_Add [[1], [2]] f) = Ok True"
proof -
  obtain f where f: "BloomFilter_new 3 8 = Ok f" by (simp add: BloomFilter_new_def)
  from BloomFilter_no_false_negatives [OF f, of "[1]" "[[2]]"] f show ?thesis by blast
qed

end
