(* ===== verification/Sim_Packet.thy ===== *)
theory Sim_Packet
  imports Net_Types Event_Queue
begin

text \<open>
  The packets of \<open>src/src/htsim/packet.{h,cc}\<close>: the fields of \<open>Packet\<close> are a record whose last field
  says which subclass it is, with the fields of that subclass; the two statistics messages of
  \<open>match.{h,cc}\<close> are among them. The types of a match rule and of the statistics are parameters,
  as is the cloning of a rule. \<open>Connection\<close> is modelled by its counters and what it hands on. The
  free lists the packets are allocated from and the conversions to strings are left out.
\<close>

type_synonym PacketTag = "32 word"
type_synonym SeqNum = "64 word"

definition kDefaultTag :: PacketTag where
  "kDefaultTag = 0"

definition kDefaultTTL :: "8 word" where
  "kDefaultTTL = 100"

definition kNoTxId :: "64 word" where
  "kNoTxId = 0"

datatype ('r, 'st) packet_kind =
    TCPPacket (tcp_sequence: SeqNum) (tcp_flags: "8 word")
  | UDPPacket
  | SSCPAddOrUpdate (sscp_rule: "'r option") (tx_id: "64 word")
  | SSCPAck (tx_id: "64 word")
  | SSCPStatsRequest (include_flow_counts: bool) (tx_id: "64 word")
  | SSCPStatsReply (stats_reply: 'st) (tx_id: "64 word")

record ('r, 'st) Packet =
  pkt_five_tuple :: FiveTuple
  pkt_size_bytes :: "32 word"
  pkt_ip_id :: "16 word"
  pkt_tag :: PacketTag
  pkt_ttl :: "8 word"
  pkt_time_sent :: EventQueueTime
  pkt_preferential_drop :: bool
  pkt_payload_bytes :: "32 word"
  pkt_queueing_time :: EventQueueTime
  pkt_propagation_time :: EventQueueTime
  pkt_kind :: "('r, 'st) packet_kind"

definition Packet_new :: "FiveTuple \<Rightarrow> 32 word \<Rightarrow> EventQueueTime \<Rightarrow> ('r, 'st) packet_kind \<Rightarrow> ('r, 'st) Packet" where
  "Packet_new five_tuple size_bytes time_sent kind =
     \<lparr>pkt_five_tuple = five_tuple, pkt_size_bytes = size_bytes, pkt_ip_id = 0, pkt_tag = kDefaultTag,
      pkt_ttl = kDefaultTTL, pkt_time_sent = time_sent, pkt_preferential_drop = False,
      pkt_payload_bytes = size_bytes, pkt_queueing_time = 0, pkt_propagation_time = 0, pkt_kind = kind\<rparr>"

definition Packet_DecrementTTL :: "('r, 'st) Packet \<Rightarrow> bool \<times> ('r, 'st) Packet" where
  "Packet_DecrementTTL p = (if pkt_ttl p = 0 then (False, p) else (True, p\<lparr>pkt_ttl := pkt_ttl p - 1\<rparr>))"

definition Packet_AddToQueueingTime :: "EventQueueTime \<Rightarrow> ('r, 'st) Packet \<Rightarrow> ('r, 'st) Packet" where
  "Packet_AddToQueueingTime t p = p\<lparr>pkt_queueing_time := pkt_queueing_time p + t\<rparr>"

definition Packet_AddToPropagationTime :: "EventQueueTime \<Rightarrow> ('r, 'st) Packet \<Rightarrow> ('r, 'st) Packet" where
  "Packet_AddToPropagationTime t p = p\<lparr>pkt_propagation_time := pkt_propagation_time p + t\<rparr>"

section \<open>The subclasses\<close>

definition TCPPacket_new :: "FiveTuple \<Rightarrow> 32 word \<Rightarrow> EventQueueTime \<Rightarrow> SeqNum \<Rightarrow> ('r, 'st) Packet res" where
  "TCPPacket_new five_tuple size_bytes time_sent sequence =
     check (size_bytes > 0) (Ok (Packet_new five_tuple size_bytes time_sent (TCPPacket sequence 0)))"

definition UDPPacket_new :: "FiveTuple \<Rightarrow> 32 word \<Rightarrow> EventQueueTime \<Rightarrow> ('r, 'st) Packet res" where
  "UDPPacket_new five_tuple size_bytes time_sent =
     check (size_bytes > 0) (Ok (Packet_new five_tuple size_bytes time_sent UDPPacket))"

definition Message_new ::
    "IPAddress \<Rightarrow> IPAddress \<Rightarrow> IPProto \<Rightarrow> EventQueueTime \<Rightarrow> ('r, 'st) packet_kind \<Rightarrow> ('r, 'st) Packet" where
  "Message_new ip_src ip_dst message_type time_sent kind =
     Packet_new (FiveTuple_new ip_src ip_dst message_type 0 0) 0 time_sent kind"

text \<open>The rule is a pointer, null (\<open>None\<close>) once it has been taken.\<close>

definition SSCPAddOrUpdate_new ::
    "IPAddress \<Rightarrow> IPAddress \<Rightarrow> EventQueueTime \<Rightarrow> 'r option \<Rightarrow> ('r, 'st) Packet res" where
  "SSCPAddOrUpdate_new ip_src ip_dst time_sent rule =
     check (rule \<noteq> None) (Ok (Message_new ip_src ip_dst 180 time_sent (SSCPAddOrUpdate rule kNoTxId)))"

definition SSCPAddOrUpdate_TakeRule :: "('r, 'st) Packet \<Rightarrow> 'r option \<times> ('r, 'st) Packet" where
  "SSCPAddOrUpdate_TakeRule p =
     (case pkt_kind p of
        SSCPAddOrUpdate rule tx \<Rightarrow> (rule, p\<lparr>pkt_kind := SSCPAddOrUpdate None tx\<rparr>)
      | _ \<Rightarrow> (None, p))"

definition SSCPAck_new :: "IPAddress \<Rightarrow> IPAddress \<Rightarrow> EventQueueTime \<Rightarrow> 64 word \<Rightarrow> ('r, 'st) Packet" where
  "SSCPAck_new ip_src ip_dst time_sent tx = Message_new ip_src ip_dst 254 time_sent (SSCPAck tx)"

definition SSCPStatsRequest_new :: "IPAddress \<Rightarrow> IPAddress \<Rightarrow> EventQueueTime \<Rightarrow> bool \<Rightarrow> ('r, 'st) Packet" where
  "SSCPStatsRequest_new ip_src ip_dst time_sent include =
     Message_new ip_src ip_dst 253 time_sent (SSCPStatsRequest include kNoTxId)"

definition SSCPStatsReply_new :: "'st \<Rightarrow> IPAddress \<Rightarrow> IPAddress \<Rightarrow> EventQueueTime \<Rightarrow> ('r, 'st) Packet" where
  "SSCPStatsReply_new no_stats ip_src ip_dst time_sent =
     Message_new ip_src ip_dst 252 time_sent (SSCPStatsReply no_stats kNoTxId)"

text \<open>The assignments \<open>Duplicate\<close> of a TCP or UDP packet makes after constructing the copy.\<close>

definition copy_fields :: "('r, 'st) Packet \<Rightarrow> ('r, 'st) Packet \<Rightarrow> ('r, 'st) Packet" where
  "copy_fields p new_pkt =
     new_pkt\<lparr>pkt_ip_id := pkt_ip_id p, pkt_tag := pkt_tag p, pkt_ttl := pkt_ttl p,
       pkt_preferential_drop := pkt_preferential_drop p, pkt_payload_bytes := pkt_payload_bytes p,
       pkt_queueing_time := pkt_queueing_time p, pkt_propagation_time := pkt_propagation_time p\<rparr>"

definition TCPPacket_Duplicate :: "('r, 'st) Packet \<Rightarrow> SeqNum \<Rightarrow> 8 word \<Rightarrow> ('r, 'st) Packet res" where
  "TCPPacket_Duplicate p sequence flags =
     rbind (TCPPacket_new (pkt_five_tuple p) (pkt_size_bytes p) (pkt_time_sent p) sequence) (\<lambda>new_pkt.
       Ok ((copy_fields p new_pkt)\<lparr>pkt_kind := TCPPacket sequence flags\<rparr>))"

definition UDPPacket_Duplicate :: "('r, 'st) Packet \<Rightarrow> ('r, 'st) Packet res" where
  "UDPPacket_Duplicate p =
     rbind (UDPPacket_new (pkt_five_tuple p) (pkt_size_bytes p) (pkt_time_sent p)) (\<lambda>new_pkt.
       Ok (copy_fields p new_pkt))"

definition SSCPAddOrUpdate_Duplicate ::
    "('r \<Rightarrow> 'r) \<Rightarrow> ('r, 'st) Packet \<Rightarrow> 'r option \<Rightarrow> 64 word \<Rightarrow> ('r, 'st) Packet res" where
  "SSCPAddOrUpdate_Duplicate clone p rule tx =
     (case rule of
        None \<Rightarrow> Fail Undefined_behaviour
      | Some r \<Rightarrow>
          rbind (SSCPAddOrUpdate_new (ft_ip_src (pkt_five_tuple p)) (ft_ip_dst (pkt_five_tuple p)) (pkt_time_sent p)
            (Some (clone r))) (\<lambda>new_msg.
          Ok (new_msg\<lparr>pkt_kind := SSCPAddOrUpdate (Some (clone r)) tx\<rparr>)))"

definition SSCPAck_Duplicate :: "('r, 'st) Packet \<Rightarrow> 64 word \<Rightarrow> ('r, 'st) Packet" where
  "SSCPAck_Duplicate p tx =
     SSCPAck_new (ft_ip_src (pkt_five_tuple p)) (ft_ip_dst (pkt_five_tuple p)) (pkt_time_sent p) tx"

definition SSCPStatsRequest_Duplicate :: "('r, 'st) Packet \<Rightarrow> bool \<Rightarrow> ('r, 'st) Packet" where
  "SSCPStatsRequest_Duplicate p include =
     SSCPStatsRequest_new (ft_ip_src (pkt_five_tuple p)) (ft_ip_dst (pkt_five_tuple p)) (pkt_time_sent p) include"

definition SSCPStatsReply_Duplicate :: "('r, 'st) Packet \<Rightarrow> 'st \<Rightarrow> ('r, 'st) Packet" where
  "SSCPStatsReply_Duplicate p stats =
     SSCPStatsReply_new stats (ft_ip_src (pkt_five_tuple p)) (ft_ip_dst (pkt_five_tuple p)) (pkt_time_sent p)"

text \<open>The virtual \<open>Duplicate\<close>.\<close>

definition Packet_Duplicate :: "('r \<Rightarrow> 'r) \<Rightarrow> ('r, 'st) Packet \<Rightarrow> ('r, 'st) Packet res" where
  "Packet_Duplicate clone p =
     (case pkt_kind p of
        TCPPacket sequence flags \<Rightarrow> TCPPacket_Duplicate p sequence flags
      | UDPPacket \<Rightarrow> UDPPacket_Duplicate p
      | SSCPAddOrUpdate rule tx \<Rightarrow> SSCPAddOrUpdate_Duplicate clone p rule tx
      | SSCPAck tx \<Rightarrow> Ok (SSCPAck_Duplicate p tx)
      | SSCPStatsRequest include tx \<Rightarrow> Ok (SSCPStatsRequest_Duplicate p include)
      | SSCPStatsReply stats tx \<Rightarrow> Ok (SSCPStatsReply_Duplicate p stats))"

definition Packet_DuplicateWithDifferentSize ::
    "('r \<Rightarrow> 'r) \<Rightarrow> 32 word \<Rightarrow> 32 word \<Rightarrow> ('r, 'st) Packet \<Rightarrow> ('r, 'st) Packet res" where
  "Packet_DuplicateWithDifferentSize clone new_size new_payload p =
     rbind (Packet_Duplicate clone p) (\<lambda>new_ptr.
       Ok (new_ptr\<lparr>pkt_size_bytes := new_size, pkt_payload_bytes := new_payload\<rparr>))"

section \<open>Connections\<close>

record ConnectionStats =
  cs_pkts_tx :: "64 word"
  cs_pkts_rx :: "64 word"
  cs_bytes_tx :: "64 word"
  cs_bytes_rx :: "64 word"

text \<open>\<open>HandlePacket\<close> and \<open>SendPacket\<close> count and pass the packet to \<open>ReceivePacket\<close> and to the output.\<close>

definition Connection_HandlePacket ::
    "('r, 'st) Packet \<Rightarrow> ConnectionStats \<Rightarrow> ConnectionStats \<times> ('r, 'st) Packet" where
  "Connection_HandlePacket pkt s =
     (s\<lparr>cs_bytes_rx := cs_bytes_rx s + ucast (pkt_size_bytes pkt), cs_pkts_rx := cs_pkts_rx s + 1\<rparr>, pkt)"

definition Connection_SendPacket ::
    "('r, 'st) Packet \<Rightarrow> ConnectionStats \<Rightarrow> ConnectionStats \<times> ('r, 'st) Packet" where
  "Connection_SendPacket pkt s =
     (s\<lparr>cs_bytes_tx := cs_bytes_tx s + ucast (pkt_size_bytes pkt), cs_pkts_tx := cs_pkts_tx s + 1\<rparr>, pkt)"

section \<open>Properties\<close>

lemma unat_ucast_32_64 [simp]: "unat (ucast (w :: 32 word) :: 64 word) = unat w"
proof -
  have "unat w < 2 ^ 64" using unat_bound [of w] by simp
  then show ?thesis by (simp add: unsigned_ucast_eq take_bit_nat_eq_self)
qed

text \<open>A packet's time to live: \<open>DecrementTTL\<close> says yes also when the value it leaves is zero.\<close>

lemma DecrementTTL_reaches_zero:
  "pkt_ttl p = 1 \<Longrightarrow> fst (Packet_DecrementTTL p) \<and> pkt_ttl (snd (Packet_DecrementTTL p)) = 0"
  by (simp add: Packet_DecrementTTL_def)

text \<open>A duplicated statistics request has lost its transaction id, time to live and tag.\<close>

lemma SSCPStatsRequest_Duplicate_resets:
  "pkt_kind p = SSCPStatsRequest include tx \<Longrightarrow>
   \<exists>p'. Packet_Duplicate clone p = Ok p' \<and> pkt_kind p' = SSCPStatsRequest include kNoTxId \<and>
        pkt_ttl p' = kDefaultTTL \<and> pkt_tag p' = kDefaultTag"
  by (simp add: Packet_Duplicate_def SSCPStatsRequest_Duplicate_def SSCPStatsRequest_new_def Message_new_def Packet_new_def)

text \<open>\<open>Duplicate\<close> of a TCP or UDP packet is an exact copy, every field included, and
  \<open>DuplicateWithDifferentSize\<close> differs from it in the size and payload only; both fail, like the
  constructors, on a packet of size zero.\<close>

theorem Packet_Duplicate_copies:
  assumes "pkt_kind p = UDPPacket \<or> (\<exists>sequence flags. pkt_kind p = TCPPacket sequence flags)"
  shows "Packet_Duplicate clone p = (if pkt_size_bytes p = 0 then Fail Check_failed else Ok p) \<and>
         Packet_DuplicateWithDifferentSize clone n m p =
           (if pkt_size_bytes p = 0 then Fail Check_failed
            else Ok (p\<lparr>pkt_size_bytes := n, pkt_payload_bytes := m\<rparr>))"
  using assms
  by (auto simp: Packet_DuplicateWithDifferentSize_def Packet_Duplicate_def TCPPacket_Duplicate_def UDPPacket_Duplicate_def
      TCPPacket_new_def UDPPacket_new_def Packet_new_def copy_fields_def check_def word_gt_0)

theorem Packet_Duplicate_copies_witness:
  "let p = Packet_new FiveTuple_default 100 7 UDPPacket :: (unit, unit) Packet in
   pkt_kind p = UDPPacket \<and> Packet_Duplicate id p = Ok p"
  using Packet_Duplicate_copies [of "Packet_new FiveTuple_default 100 7 UDPPacket :: (unit, unit) Packet" id 0 0]
  by (simp add: Packet_new_def Let_def)

end
