(* ===== verification/Sim_Queue.thy ===== *)
theory Sim_Queue
  imports Sim_Packet Std_Map
begin

text \<open>
  The pipes and queues of \<open>src/src/htsim/queue.{h,cc}\<close>. A handler gives the new state, the calls it
  makes on the event queue and, for \<open>HandleEvent\<close>, the packet it passes to the other end, which is
  the last thing it does. Whether the other end is connected is part of the state; \<open>ShouldDrop\<close> is
  virtual, so it is a parameter of \<open>HandlePacket\<close>, and the draw of the random queue is one of its
  own. The locale \<open>packet_server\<close> is what pipes and queues share: one event outstanding while packets
  are pending, each served by its event. The summary of waiting times and the ids are left out.
\<close>

section \<open>Pipes\<close>

record PipeStats =
  ps_pkts_tx :: "64 word"
  ps_bytes_tx :: "64 word"
  ps_pkts_in_flight :: "64 word"
  ps_bytes_in_flight :: "64 word"

record ('r, 'st) Pipe =
  pipe_delay :: EventQueueTime
  pipe_connected :: bool
  pipe_queue :: "(EventQueueTime \<times> ('r, 'st) Packet) list"
  pipe_stats :: PipeStats

definition Pipe_new :: "EventQueueTime \<Rightarrow> ('r, 'st) Pipe" where
  "Pipe_new delay = \<lparr>pipe_delay = delay, pipe_connected = False, pipe_queue = [],
     pipe_stats = \<lparr>ps_pkts_tx = 0, ps_bytes_tx = 0, ps_pkts_in_flight = 0, ps_bytes_in_flight = 0\<rparr>\<rparr>"

definition Pipe_Connect :: "('r, 'st) Pipe \<Rightarrow> ('r, 'st) Pipe" where
  "Pipe_Connect p = p\<lparr>pipe_connected := True\<rparr>"

definition Pipe_HandleEvent :: "'c \<Rightarrow> ('r, 'st) Pipe \<Rightarrow> (('r, 'st) Pipe \<times> 'c request list \<times> ('r, 'st) Packet) res" where
  "Pipe_HandleEvent c p =
     (case pipe_queue p of
        [] \<Rightarrow> Fail Undefined_behaviour
      | (_, pkt) # queue \<Rightarrow>
          let stats = pipe_stats p;
              stats = stats\<lparr>ps_bytes_in_flight := ps_bytes_in_flight stats - ucast (pkt_size_bytes pkt),
                ps_pkts_in_flight := ps_pkts_in_flight stats - 1,
                ps_bytes_tx := ps_bytes_tx stats + ucast (pkt_size_bytes pkt),
                ps_pkts_tx := ps_pkts_tx stats + 1\<rparr>;
              requests = (case queue of [] \<Rightarrow> [] | (next_event_time, _) # _ \<Rightarrow> [EnqueueAt c next_event_time])
          in if pipe_connected p then Ok (p\<lparr>pipe_queue := queue, pipe_stats := stats\<rparr>, requests, pkt)
             else Fail Undefined_behaviour)"

definition Pipe_HandlePacket ::
    "'c \<Rightarrow> EventQueueTime \<Rightarrow> ('r, 'st) Packet \<Rightarrow> ('r, 'st) Pipe \<Rightarrow> ('r, 'st) Pipe \<times> 'c request list" where
  "Pipe_HandlePacket c now pkt p =
     (let requests = (if pipe_queue p = [] then [EnqueueIn c (pipe_delay p)] else []);
          size_bytes = pkt_size_bytes pkt;
          pkt = Packet_AddToPropagationTime (pipe_delay p) pkt;
          stats = pipe_stats p
      in (p\<lparr>pipe_queue := pipe_queue p @ [(now + pipe_delay p, pkt)],
            pipe_stats := stats\<lparr>ps_bytes_in_flight := ps_bytes_in_flight stats + ucast size_bytes,
              ps_pkts_in_flight := ps_pkts_in_flight stats + 1\<rparr>\<rparr>, requests))"

section \<open>Queues\<close>

record QueueStats =
  qs_queue_size_bytes :: "64 word"
  qs_queue_size_pkts :: "64 word"
  qs_pkts_seen :: "64 word"
  qs_pkts_dropped :: "64 word"
  qs_bytes_seen :: "64 word"
  qs_bytes_dropped :: "64 word"
  qs_tag_to_bytes_seen :: "(PacketTag, 64 word) smap"
  qs_tag_to_pkts_seen :: "(PacketTag, 64 word) smap"

record ('r, 'st) FIFOQueue =
  fq_connected :: bool
  fq_stats :: QueueStats
  fq_bits_seen_in_last_period :: "64 word"
  fq_tags_in_stats :: bool
  fq_max_size_bytes :: "64 word"
  fq_rate :: Bandwidth
  fq_time_per_bit :: EventQueueTime
  fq_queue :: "('r, 'st) Packet list"

text \<open>
  The time per bit is a floating-point quotient cut off to a whole number of picoseconds. Up to
  \<open>10 ^ 12\<close> both operands are exact and the quotient is further from the next integer than its
  rounding error; above, it is below one. So it is the integer quotient.
\<close>

definition FIFOQueue_SetRate :: "Bandwidth \<Rightarrow> ('r, 'st) FIFOQueue \<Rightarrow> ('r, 'st) FIFOQueue res" where
  "FIFOQueue_SetRate new_rate q =
     check (new_rate > Bandwidth_FromBitsPerSecond 0)
       (Ok (q\<lparr>fq_rate := new_rate, fq_time_per_bit := 10 ^ 12 div new_rate\<rparr>))"

definition FIFOQueue_new :: "Bandwidth \<Rightarrow> 64 word \<Rightarrow> ('r, 'st) FIFOQueue res" where
  "FIFOQueue_new rate max_size_bytes =
     FIFOQueue_SetRate rate
       \<lparr>fq_connected = False,
        fq_stats = \<lparr>qs_queue_size_bytes = 0, qs_queue_size_pkts = 0, qs_pkts_seen = 0, qs_pkts_dropped = 0,
          qs_bytes_seen = 0, qs_bytes_dropped = 0, qs_tag_to_bytes_seen = [], qs_tag_to_pkts_seen = []\<rparr>,
        fq_bits_seen_in_last_period = 0, fq_tags_in_stats = False, fq_max_size_bytes = max_size_bytes,
        fq_rate = Bandwidth_FromBitsPerSecond 0, fq_time_per_bit = 0, fq_queue = []\<rparr>"

definition Queue_Connect :: "('r, 'st) FIFOQueue \<Rightarrow> ('r, 'st) FIFOQueue" where
  "Queue_Connect q = q\<lparr>fq_connected := True\<rparr>"

definition Queue_set_tags_in_stats :: "bool \<Rightarrow> ('r, 'st) FIFOQueue \<Rightarrow> ('r, 'st) FIFOQueue" where
  "Queue_set_tags_in_stats v q = q\<lparr>fq_tags_in_stats := v\<rparr>"

text \<open>\<open>ApplyValue\<close>, from the value as a whole number.\<close>

definition Queue_ApplyValue :: "64 word \<Rightarrow> ('r, 'st) FIFOQueue \<Rightarrow> ('r, 'st) FIFOQueue res" where
  "Queue_ApplyValue v q =
     (let new_rate = Bandwidth_FromBitsPerSecond v
      in if new_rate \<noteq> fq_rate q then FIFOQueue_SetRate new_rate q else Ok q)"

definition PacketDrainTime :: "('r, 'st) FIFOQueue \<Rightarrow> ('r, 'st) Packet \<Rightarrow> EventQueueTime" where
  "PacketDrainTime q pkt = fq_time_per_bit q * ucast (pkt_size_bytes pkt) * 8"

definition FIFOQueue_ShouldDrop :: "('r, 'st) FIFOQueue \<Rightarrow> 64 word \<Rightarrow> bool" where
  "FIFOQueue_ShouldDrop q bytes \<longleftrightarrow>
     qs_queue_size_bytes (fq_stats q) + bytes > fq_max_size_bytes q"

definition FIFOQueue_HandlePacket ::
    "(('r, 'st) FIFOQueue \<Rightarrow> 64 word \<Rightarrow> bool) \<Rightarrow> 'c \<Rightarrow> ('r, 'st) Packet \<Rightarrow> ('r, 'st) FIFOQueue \<Rightarrow>
     ('r, 'st) FIFOQueue \<times> 'c request list" where
  "FIFOQueue_HandlePacket ShouldDrop c pkt q =
     (let size_bytes = ucast (pkt_size_bytes pkt);
          stats = fq_stats q
      in if ShouldDrop q size_bytes
         then (q\<lparr>fq_stats := stats\<lparr>qs_bytes_dropped := qs_bytes_dropped stats + size_bytes,
                  qs_pkts_dropped := qs_pkts_dropped stats + 1\<rparr>\<rparr>, [])
         else
           let to_wait = fq_time_per_bit q * qs_queue_size_bytes stats * 8;
               pkt = Packet_AddToQueueingTime to_wait pkt;
               stats = (if fq_tags_in_stats q
                        then stats\<lparr>qs_tag_to_bytes_seen :=
                                 smap_upd 0 (pkt_tag pkt) (\<lambda>v. v + size_bytes) (qs_tag_to_bytes_seen stats),
                               qs_tag_to_pkts_seen :=
                                 smap_upd 0 (pkt_tag pkt) (\<lambda>v. v + 1) (qs_tag_to_pkts_seen stats)\<rparr>
                        else stats);
               queue = fq_queue q @ [pkt];
               stats = stats\<lparr>qs_queue_size_bytes := qs_queue_size_bytes stats + size_bytes,
                 qs_queue_size_pkts := qs_queue_size_pkts stats + 1,
                 qs_bytes_seen := qs_bytes_seen stats + size_bytes,
                 qs_pkts_seen := qs_pkts_seen stats + 1\<rparr>
           in (q\<lparr>fq_stats := stats, fq_queue := queue,
                 fq_bits_seen_in_last_period := fq_bits_seen_in_last_period q + size_bytes * 8\<rparr>,
               if fq_queue q = [] then [EnqueueIn c (PacketDrainTime q (hd queue))] else []))"

definition FIFOQueue_HandleEvent ::
    "'c \<Rightarrow> ('r, 'st) FIFOQueue \<Rightarrow> (('r, 'st) FIFOQueue \<times> 'c request list \<times> ('r, 'st) Packet) res" where
  "FIFOQueue_HandleEvent c q =
     (case fq_queue q of
        [] \<Rightarrow> Fail Undefined_behaviour
      | pkt # queue \<Rightarrow>
          let stats = fq_stats q;
              stats = stats\<lparr>qs_queue_size_bytes := qs_queue_size_bytes stats - ucast (pkt_size_bytes pkt),
                qs_queue_size_pkts := qs_queue_size_pkts stats - 1\<rparr>;
              requests = (case queue of [] \<Rightarrow> [] | front # _ \<Rightarrow> [EnqueueIn c (PacketDrainTime q front)])
          in if fq_connected q then Ok (q\<lparr>fq_queue := queue, fq_stats := stats\<rparr>, requests, pkt)
             else Fail Undefined_behaviour)"

text \<open>
  The random queue: \<open>below n d\<close> is the outcome of comparing the next draw with the quotient of \<open>n\<close>
  and \<open>d\<close>.
\<close>

definition RandomQueue_new :: "Bandwidth \<Rightarrow> 64 word \<Rightarrow> 64 word \<Rightarrow> ('r, 'st) FIFOQueue res" where
  "RandomQueue_new rate max_size_bytes drop_threshold_bytes =
     rbind (FIFOQueue_new rate max_size_bytes) (\<lambda>q.
       check (max_size_bytes > drop_threshold_bytes) (Ok q))"

definition RandomQueue_ShouldDrop ::
    "64 word \<Rightarrow> (64 word \<Rightarrow> 64 word \<Rightarrow> bool) \<Rightarrow> ('r, 'st) FIFOQueue \<Rightarrow> 64 word \<Rightarrow> bool" where
  "RandomQueue_ShouldDrop drop_threshold_bytes below q bytes =
     (let crt = qs_queue_size_bytes (fq_stats q) + bytes
      in if crt > fq_max_size_bytes q then True
         else if crt > drop_threshold_bytes \<and>
                 below (crt - drop_threshold_bytes) (fq_max_size_bytes q - drop_threshold_bytes) then True
         else False)"

section \<open>Everything a queue can go through\<close>

text \<open>
  The states a queue reaches, with the number of its events outstanding, the packets it took in and
  the packets it passed on: packets arrive, its events fire, its rate and options change.
\<close>

inductive queue_reaches ::
    "(('r, 'st) FIFOQueue \<Rightarrow> 64 word \<Rightarrow> bool) set \<Rightarrow> 64 word \<Rightarrow> ('r, 'st) FIFOQueue \<Rightarrow> nat \<Rightarrow>
     ('r, 'st) Packet list \<Rightarrow> ('r, 'st) Packet list \<Rightarrow> bool"
  for policies :: "(('r, 'st) FIFOQueue \<Rightarrow> 64 word \<Rightarrow> bool) set" and max_size :: "64 word" where
  created: "FIFOQueue_new rate max_size = Ok q \<Longrightarrow> queue_reaches policies max_size (Queue_Connect q) 0 [] []"
| rate: "queue_reaches policies max_size q n taken passed \<Longrightarrow> Queue_ApplyValue v q = Ok q' \<Longrightarrow>
    queue_reaches policies max_size q' n taken passed"
| tags: "queue_reaches policies max_size q n taken passed \<Longrightarrow>
    queue_reaches policies max_size (Queue_set_tags_in_stats v q) n taken passed"
| dropped: "queue_reaches policies max_size q n taken passed \<Longrightarrow> sd \<in> policies \<Longrightarrow>
    sd q (ucast (pkt_size_bytes pkt)) \<Longrightarrow> FIFOQueue_HandlePacket sd () pkt q = (q', rs) \<Longrightarrow>
    queue_reaches policies max_size q' (n + length rs) taken passed"
| arrived: "queue_reaches policies max_size q n taken passed \<Longrightarrow> sd \<in> policies \<Longrightarrow>
    \<not> sd q (ucast (pkt_size_bytes pkt)) \<Longrightarrow> FIFOQueue_HandlePacket sd () pkt q = (q', rs) \<Longrightarrow>
    queue_reaches policies max_size q' (n + length rs) (taken @ [pkt]) passed"
| served: "queue_reaches policies max_size q (Suc n) taken passed \<Longrightarrow>
    FIFOQueue_HandleEvent () q = Ok (q', rs, pkt) \<Longrightarrow>
    queue_reaches policies max_size q' (n + length rs) taken (passed @ [pkt])"

definition bytes_of :: "('r, 'st) Packet list \<Rightarrow> nat" where
  "bytes_of pkts = (\<Sum>p\<leftarrow>pkts. unat (pkt_size_bytes p))"

definition sans_wait :: "('r, 'st) Packet \<Rightarrow> ('r, 'st) Packet" where
  "sans_wait p = p\<lparr>pkt_queueing_time := 0\<rparr>"

definition queue_inv ::
    "64 word \<Rightarrow> ('r, 'st) FIFOQueue \<Rightarrow> nat \<Rightarrow> ('r, 'st) Packet list \<Rightarrow> ('r, 'st) Packet list \<Rightarrow> bool" where
  "queue_inv max_size q n taken passed \<longleftrightarrow>
     fq_connected q \<and> fq_max_size_bytes q = max_size \<and>
     n = (if fq_queue q = [] then 0 else 1) \<and>
     map sans_wait taken = map sans_wait (passed @ fq_queue q) \<and>
     unat (qs_queue_size_bytes (fq_stats q)) = bytes_of (fq_queue q) \<and>
     bytes_of (fq_queue q) \<le> unat max_size \<and>
     qs_queue_size_pkts (fq_stats q) = of_nat (length (fq_queue q))"

lemma bytes_of_simps [simp]:
  "bytes_of [] = 0" "bytes_of (p # ps) = unat (pkt_size_bytes p) + bytes_of ps"
  "bytes_of (ps @ qs) = bytes_of ps + bytes_of qs"
  by (simp_all add: bytes_of_def)

lemma sans_wait_AddToQueueingTime [simp]: "sans_wait (Packet_AddToQueueingTime t p) = sans_wait p"
  by (simp add: sans_wait_def Packet_AddToQueueingTime_def)

lemma size_AddToQueueingTime [simp]: "pkt_size_bytes (Packet_AddToQueueingTime t p) = pkt_size_bytes p"
  by (simp add: Packet_AddToQueueingTime_def)

text \<open>A policy that never lets a queue grow beyond its capacity.\<close>

locale drop_policies =
  fixes policies :: "(('r, 'st) FIFOQueue \<Rightarrow> 64 word \<Rightarrow> bool) set"
  assumes drops_over: "sd \<in> policies \<Longrightarrow> \<not> sd q bytes \<Longrightarrow> qs_queue_size_bytes (fq_stats q) + bytes \<le> fq_max_size_bytes q"
begin

lemma inv_arrived:
  assumes "queue_inv max_size q n taken passed" "sd \<in> policies"
    "\<not> sd q (ucast (pkt_size_bytes pkt))" "FIFOQueue_HandlePacket sd () pkt q = (q', rs)"
    "unat max_size + 2 ^ 32 \<le> 2 ^ 64"
  shows "queue_inv max_size q' (n + length rs) (taken @ [pkt]) passed"
proof -
  let ?b = "qs_queue_size_bytes (fq_stats q)" and ?s = "ucast (pkt_size_bytes pkt) :: 64 word"
  have le: "?b + ?s \<le> max_size"
    using drops_over [OF assms(2,3)] assms(1) by (simp add: queue_inv_def)
  have b: "unat ?b = bytes_of (fq_queue q)" "unat ?b \<le> unat max_size"
    using assms(1) by (simp_all add: queue_inv_def)
  have s: "unat (pkt_size_bytes pkt) < 2 ^ 32" using unat_bound [of "pkt_size_bytes pkt"] by simp
  have sum: "unat (?b + ?s) = unat ?b + unat (pkt_size_bytes pkt)"
    using b(2) s assms(5) by (simp add: unat_word_ariths(1))
  then have fits: "unat ?b + unat (pkt_size_bytes pkt) \<le> unat max_size"
    using le by (simp add: word_le_nat_alt)
  have q': "fq_connected q' = fq_connected q" "fq_max_size_bytes q' = fq_max_size_bytes q"
    "qs_queue_size_bytes (fq_stats q') = ?b + ?s"
    "qs_queue_size_pkts (fq_stats q') = qs_queue_size_pkts (fq_stats q) + 1"
    "fq_queue q' = fq_queue q @ [Packet_AddToQueueingTime (fq_time_per_bit q * ?b * 8) pkt]"
    "length rs = (if fq_queue q = [] then 1 else 0)"
    using assms(3,4) by (auto simp: FIFOQueue_HandlePacket_def Let_def)
  show ?thesis using assms(1) sum fits b(1)
    unfolding queue_inv_def q' by simp
qed

lemma inv_served:
  assumes "queue_inv max_size q (Suc n) taken passed" "FIFOQueue_HandleEvent () q = Ok (q', rs, pkt)"
  shows "queue_inv max_size q' (n + length rs) taken (passed @ [pkt])"
proof -
  obtain p ps where q: "fq_queue q = p # ps" using assms(1) by (cases "fq_queue q") (auto simp: queue_inv_def)
  have c: "fq_connected q" using assms(1) by (simp add: queue_inv_def)
  have q': "fq_connected q' = fq_connected q" "fq_max_size_bytes q' = fq_max_size_bytes q"
    "qs_queue_size_bytes (fq_stats q') = qs_queue_size_bytes (fq_stats q) - ucast (pkt_size_bytes p)"
    "qs_queue_size_pkts (fq_stats q') = qs_queue_size_pkts (fq_stats q) - 1"
    "fq_queue q' = ps" "length rs = (if ps = [] then 0 else 1)" "pkt = p"
    using assms(2) q c by (auto simp: FIFOQueue_HandleEvent_def Let_def split: list.splits)
  have "unat (qs_queue_size_bytes (fq_stats q)) = unat (pkt_size_bytes p) + bytes_of ps"
    using assms(1) q by (simp add: queue_inv_def)
  then have "unat (qs_queue_size_bytes (fq_stats q) - ucast (pkt_size_bytes p)) = bytes_of ps"
    by (subst unat_sub) (simp_all add: word_le_nat_alt)
  then show ?thesis using assms(1) q unfolding queue_inv_def q' by simp
qed

lemma reaches_inv:
  "queue_reaches policies max_size q n taken passed \<Longrightarrow> unat max_size + 2 ^ 32 \<le> 2 ^ 64 \<Longrightarrow>
   queue_inv max_size q n taken passed"
proof (induction rule: queue_reaches.induct)
  case (created rate q)
  then show ?case by (auto simp: FIFOQueue_new_def FIFOQueue_SetRate_def res_simps queue_inv_def Queue_Connect_def)
next
  case (rate q n taken passed v q')
  then show ?case
    by (auto simp: Queue_ApplyValue_def FIFOQueue_SetRate_def res_simps queue_inv_def Let_def split: if_splits)
next
  case (tags q n taken passed v)
  then show ?case by (simp add: queue_inv_def Queue_set_tags_in_stats_def)
next
  case (dropped q n taken passed sd pkt q' rs)
  then show ?case by (auto simp: queue_inv_def FIFOQueue_HandlePacket_def Let_def)
next
  case (arrived q n taken passed sd pkt q' rs)
  then show ?case by (intro inv_arrived) simp_all
next
  case (served q n taken passed q' rs pkt)
  then show ?case by (intro inv_served) simp_all
qed

lemma event_finds_packet:
  assumes "queue_reaches policies max_size q (Suc n) taken passed" "unat max_size + 2 ^ 32 \<le> 2 ^ 64"
  shows "\<exists>q' rs pkt. FIFOQueue_HandleEvent () q = Ok (q', rs, pkt)"
  using reaches_inv [OF assms]
  by (cases "fq_queue q") (auto simp: queue_inv_def FIFOQueue_HandleEvent_def Let_def split: list.splits)

end

definition random_policies :: "64 word \<Rightarrow> (('r, 'st) FIFOQueue \<Rightarrow> 64 word \<Rightarrow> bool) set" where
  "random_policies threshold = range (RandomQueue_ShouldDrop threshold)"

interpretation fifo: drop_policies "{FIFOQueue_ShouldDrop}"
  by unfold_locales (auto simp: FIFOQueue_ShouldDrop_def not_less)

interpretation random: drop_policies "random_policies threshold"
  by unfold_locales (auto simp: random_policies_def RandomQueue_ShouldDrop_def not_less Let_def split: if_splits)

section \<open>Serving what is pending\<close>

text \<open>
  A pipe or a queue on its own in the event loop: what it passes on is recorded with the time.
\<close>

definition server_handler ::
    "('c \<Rightarrow> 's \<Rightarrow> ('s \<times> 'c request list \<times> 'p) res) \<Rightarrow> ('c, 's \<times> (EventQueueTime \<times> 'p) list) handler" where
  "server_handler HandleEvent c now s =
     (case HandleEvent c (fst s) of
        Inr (s', requests, pkt) \<Rightarrow> ((s', snd s @ [(now, pkt)]), requests)
      | Inl _ \<Rightarrow> (s, [Stop]))"

text \<open>The times at which the pending items leave, from the time of the first.\<close>

fun leaving :: "(EventQueueTime \<Rightarrow> 'x \<Rightarrow> EventQueueTime) \<Rightarrow> EventQueueTime \<Rightarrow> 'x list \<Rightarrow> (EventQueueTime \<times> 'x) list" where
  "leaving due t [] = []"
| "leaving due t [x] = [(t, x)]"
| "leaving due t (x # y # xs) = (t, x) # leaving due (due t y) (y # xs)"

fun due_time :: "EventQueueTime \<Rightarrow> 'c request \<Rightarrow> EventQueueTime" where
  "due_time now (EnqueueAt c at) = at"
| "due_time now (EnqueueIn c t) = now + t"
| "due_time now Stop = now"

lemma apply_request_due:
  "r = EnqueueAt c t \<or> r = EnqueueIn c t \<Longrightarrow>
   apply_request r e = EventConsumer_EnqueueAt c (due_time (es_time e) r) e"
  by (auto simp: EnqueueIn_EnqueueAt)

lemma pop_singleton: "pop_heap_back key [x] = []"
  using mset_pop_heap_back [of "[x]" key] by simp

lemma emplace_Nil: "VPQ_emplace key [] x = [x]"
  using mset_VPQ_emplace [of key "[]" x] by simp

text \<open>
  The contract: an event takes the first pending item, and asks for an event for the next one.
\<close>

locale packet_server =
  fixes HandleEvent :: "'c \<Rightarrow> 's \<Rightarrow> ('s \<times> 'c request list \<times> 'p) res"
    and ready :: "'s \<Rightarrow> bool"
    and pending :: "'s \<Rightarrow> 'x list"
    and packet_of :: "'x \<Rightarrow> 'p"
    and req :: "'c \<Rightarrow> 's \<Rightarrow> 'x \<Rightarrow> 'c request"
  assumes serves: "ready s \<Longrightarrow> pending s = x # xs \<Longrightarrow>
      \<exists>s'. HandleEvent c s = Ok (s', (case xs of [] \<Rightarrow> [] | y # _ \<Rightarrow> [req c s y]), packet_of x) \<and>
           ready s' \<and> pending s' = xs \<and> req c s' = req c s"
    and req_form: "\<exists>t. req c s y = EnqueueAt c t \<or> req c s y = EnqueueIn c t"
begin

lemma step:
  assumes "ready s" "pending s = x # xs" "es_queue e = [(t, c)]" "es_consumers e = (s, out)" "t < es_stop_time e"
  shows "\<exists>s' e'. EventQueue_step (server_handler HandleEvent) e = Inr ((t, c), e') \<and>
    ready s' \<and> pending s' = xs \<and> req c s' = req c s \<and> es_stop_time e' = es_stop_time e \<and>
    es_queue e' = (case xs of [] \<Rightarrow> [] | y # _ \<Rightarrow> [(due_time t (req c s y), c)]) \<and>
    es_consumers e' = (s', out @ [(t, packet_of x)])"
proof -
  obtain s' where s': "HandleEvent c s = Ok (s', (case xs of [] \<Rightarrow> [] | y # _ \<Rightarrow> [req c s y]), packet_of x)"
    "ready s'" "pending s' = xs" "req c s' = req c s"
    using serves [OF assms(1,2), of c] by blast
  have *: "apply_request (req c s y) e1 = EventConsumer_EnqueueAt c (due_time (es_time e1) (req c s y)) e1" for y e1
  proof -
    obtain t' where "req c s y = EnqueueAt c t' \<or> req c s y = EnqueueIn c t'" using req_form [of c s y] ..
    then show ?thesis by (rule apply_request_due)
  qed
  show ?thesis
    using assms(3-) s'
    by (cases xs) (simp_all add: EventQueue_step_def VPQ_empty_def EventConsumer_HandleEventPublic_def Let_def
        server_handler_def * EventConsumer_EnqueueAt_def EventQueue_Enqueue_def pop_singleton emplace_Nil)
qed

lemma drains:
  assumes "ready s" "pending s = x # xs" "es_queue e = [(t, c)]" "es_consumers e = (s, out)"
    and "\<forall>d \<in> set (leaving (\<lambda>now y. due_time now (req c s y)) t (x # xs)). fst d < es_stop_time e"
  shows "\<exists>e' s'. EventQueue_Run (server_handler HandleEvent) e = Some e' \<and> es_queue e' = [] \<and> pending s' = [] \<and>
    es_consumers e' =
      (s', out @ map (\<lambda>d. (fst d, packet_of (snd d))) (leaving (\<lambda>now y. due_time now (req c s y)) t (x # xs)))"
  using assms
proof (induction xs arbitrary: s x t e out)
  case Nil
  then obtain s' e' where 1: "EventQueue_step (server_handler HandleEvent) e = Inr ((t, c), e')"
    "pending s' = []" "es_queue e' = []" "es_consumers e' = (s', out @ [(t, packet_of x)])"
    using step [of s x "[]" e t c out] by auto
  have "EventQueue_Run (server_handler HandleEvent) e' = Some e'"
    using 1(3) by (subst EventQueue_Run.simps) (simp add: EventQueue_step_def VPQ_empty_def)
  then have "EventQueue_Run (server_handler HandleEvent) e = Some e'"
    using 1(1) by (subst EventQueue_Run.simps) simp
  then show ?case using 1 by simp
next
  case (Cons y ys)
  then obtain s' e' where 1: "EventQueue_step (server_handler HandleEvent) e = Inr ((t, c), e')"
    "ready s'" "pending s' = y # ys" "req c s' = req c s" "es_stop_time e' = es_stop_time e"
    "es_queue e' = [(due_time t (req c s y), c)]" "es_consumers e' = (s', out @ [(t, packet_of x)])"
    using step [of s x "y # ys" e t c out] by auto
  from Cons.IH [OF 1(2,3,6,7)] Cons.prems(5) 1(4,5)
  obtain e2 s2 where 2: "EventQueue_Run (server_handler HandleEvent) e' = Some e2" "es_queue e2 = []" "pending s2 = []"
    "es_consumers e2 = (s2, (out @ [(t, packet_of x)]) @ map (\<lambda>d. (fst d, packet_of (snd d)))
       (leaving (\<lambda>now y. due_time now (req c s y)) (due_time t (req c s y)) (y # ys)))"
    by auto
  have "EventQueue_Run (server_handler HandleEvent) e = Some e2"
    using 1(1) 2(1) by (subst EventQueue_Run.simps) simp
  then show ?case using 2 by simp
qed

end

lemma FIFOQueue_serves:
  assumes "fq_connected q" "fq_queue q = x # xs"
  shows "\<exists>q'. FIFOQueue_HandleEvent c q =
      Ok (q', (case xs of [] \<Rightarrow> [] | y # _ \<Rightarrow> [EnqueueIn c (PacketDrainTime q y)]), id x) \<and>
    fq_connected q' \<and> fq_queue q' = xs \<and> (\<lambda>y. EnqueueIn c (PacketDrainTime q' y)) = (\<lambda>y. EnqueueIn c (PacketDrainTime q y))"
proof -
  obtain q' where "FIFOQueue_HandleEvent c q =
      Ok (q', (case xs of [] \<Rightarrow> [] | y # _ \<Rightarrow> [EnqueueIn c (PacketDrainTime q y)]), id x)"
    and q': "fq_connected q' = fq_connected q" "fq_queue q' = xs" "fq_time_per_bit q' = fq_time_per_bit q"
    using assms by (simp add: FIFOQueue_HandleEvent_def Let_def)
  with assms(1) show ?thesis unfolding PacketDrainTime_def by simp
qed

lemma Pipe_serves:
  assumes "pipe_connected p" "pipe_queue p = x # xs"
  shows "\<exists>p'. Pipe_HandleEvent c p = Ok (p', (case xs of [] \<Rightarrow> [] | y # _ \<Rightarrow> [EnqueueAt c (fst y)]), snd x) \<and>
    pipe_connected p' \<and> pipe_queue p' = xs"
  using assms by (simp add: Pipe_HandleEvent_def Let_def case_prod_unfold split: list.splits)

interpretation fifo_server:
  packet_server FIFOQueue_HandleEvent fq_connected fq_queue id "\<lambda>c q y. EnqueueIn c (PacketDrainTime q y)"
  by unfold_locales (rule FIFOQueue_serves, assumption+, rule exI, rule disjI2, rule refl)

interpretation pipe_server:
  packet_server Pipe_HandleEvent pipe_connected pipe_queue snd "\<lambda>c p y. EnqueueAt c (fst y)"
  by unfold_locales (simp add: Pipe_serves, rule exI, rule disjI1, rule refl)

lemma leaving_fst: "leaving (\<lambda>_. fst) (fst x) (x # xs) = map (\<lambda>y. (fst y, y)) (x # xs)"
  by (induction xs arbitrary: x) auto

lemma Pipe_feed:
  "pipe_queue (fold (\<lambda>a p. fst (Pipe_HandlePacket c (fst a) (snd a) p)) arrivals p) =
     pipe_queue p @ map (\<lambda>a. (fst a + pipe_delay p, Packet_AddToPropagationTime (pipe_delay p) (snd a))) arrivals \<and>
   pipe_connected (fold (\<lambda>a p. fst (Pipe_HandlePacket c (fst a) (snd a) p)) arrivals p) = pipe_connected p"
proof (induction arrivals arbitrary: p)
  case (Cons a arrivals)
  let ?p = "fst (Pipe_HandlePacket c (fst a) (snd a) p)"
  have "pipe_delay ?p = pipe_delay p" "pipe_connected ?p = pipe_connected p"
    "pipe_queue ?p = pipe_queue p @ [(fst a + pipe_delay p, Packet_AddToPropagationTime (pipe_delay p) (snd a))]"
    by (simp_all add: Pipe_HandlePacket_def Let_def)
  with Cons [of ?p] show ?case by simp
qed simp

section \<open>Properties\<close>

text \<open>C7. A FIFO or random queue in any state it can reach holds at most \<open>max_size_bytes\<close> bytes; its
  counter is the exact number of bytes it holds. It has passed on what it took in, in order, but for
  the packets it still holds (the time spent waiting apart), and has one event outstanding exactly
  when it holds a packet, so that the event finds one.\<close>

theorem Queue_bounded_fifo:
  assumes "queue_reaches policies max_size q n taken passed"
    and "policies = {FIFOQueue_ShouldDrop} \<or> policies = random_policies threshold"
    and "unat max_size + 2 ^ 32 \<le> 2 ^ 64"
  shows "unat (qs_queue_size_bytes (fq_stats q)) = bytes_of (fq_queue q) \<and>
         bytes_of (fq_queue q) \<le> unat max_size \<and>
         map sans_wait taken = map sans_wait (passed @ fq_queue q) \<and>
         n = (if fq_queue q = [] then 0 else 1) \<and>
         (n > 0 \<longrightarrow> (\<exists>q' rs pkt. FIFOQueue_HandleEvent () q = Ok (q', rs, pkt)))"
proof -
  have "queue_inv max_size q n taken passed"
    using assms fifo.reaches_inv random.reaches_inv by blast
  moreover have "n > 0 \<longrightarrow> (\<exists>q' rs pkt. FIFOQueue_HandleEvent () q = Ok (q', rs, pkt))"
    using assms fifo.event_finds_packet random.event_finds_packet by (cases n) blast+
  ultimately show ?thesis by (simp add: queue_inv_def)
qed

definition sample_packet :: "(unit, unit) Packet" where
  "sample_packet = Packet_new FiveTuple_default 100 0 UDPPacket"

definition sample_queue :: "(unit, unit) FIFOQueue" where
  "sample_queue = (case FIFOQueue_new 1000000000 1500 of Inr q \<Rightarrow> Queue_Connect q)"

lemma sample_queue_new: "\<exists>q. FIFOQueue_new 1000000000 1500 = Ok q \<and> sample_queue = Queue_Connect q"
  by (simp add: sample_queue_def FIFOQueue_new_def FIFOQueue_SetRate_def Bandwidth_FromBitsPerSecond_def)

lemma sample_queue_takes:
  "\<not> FIFOQueue_ShouldDrop sample_queue (ucast (pkt_size_bytes sample_packet))"
  by (simp add: sample_queue_def FIFOQueue_new_def FIFOQueue_SetRate_def Bandwidth_FromBitsPerSecond_def
      FIFOQueue_ShouldDrop_def sample_packet_def Packet_new_def Queue_Connect_def)

lemma sample_queue_reaches:
  "queue_reaches {FIFOQueue_ShouldDrop} 1500
     (fst (FIFOQueue_HandlePacket FIFOQueue_ShouldDrop () sample_packet sample_queue)) 1 [sample_packet] []"
proof -
  obtain q rs where h: "FIFOQueue_HandlePacket FIFOQueue_ShouldDrop () sample_packet sample_queue = (q, rs)"
    by (cases "FIFOQueue_HandlePacket FIFOQueue_ShouldDrop () sample_packet sample_queue")
  have "queue_reaches {FIFOQueue_ShouldDrop} 1500 sample_queue 0 [] []"
    using sample_queue_new queue_reaches.created by metis
  from queue_reaches.arrived [OF this singletonI sample_queue_takes h]
  have "queue_reaches {FIFOQueue_ShouldDrop} 1500 q (length rs) [sample_packet] []" by simp
  moreover have "length rs = 1"
    using h sample_queue_takes
    by (auto simp: FIFOQueue_HandlePacket_def Let_def sample_queue_def FIFOQueue_new_def FIFOQueue_SetRate_def
        Bandwidth_FromBitsPerSecond_def Queue_Connect_def)
  ultimately show ?thesis using h by simp
qed

theorem Queue_bounded_fifo_witness:
  "bytes_of (fq_queue (fst (FIFOQueue_HandlePacket FIFOQueue_ShouldDrop () sample_packet sample_queue))) \<le> 1500"
  using Queue_bounded_fifo [OF sample_queue_reaches, of 0] by simp

text \<open>C10. Once its first event is due at \<open>t\<close>, a connected queue passes on every packet it holds, in
  order, each a drain time after the one before it, and the run ends with the queue empty, if those
  times are before the stop time.\<close>

theorem FIFOQueue_drains:
  assumes "fq_connected q" "fq_queue q \<noteq> []" "es_queue e = [(t, c)]" "es_consumers e = (q, out)"
    and "\<forall>d \<in> set (leaving (\<lambda>now p. now + PacketDrainTime q p) t (fq_queue q)). fst d < es_stop_time e"
  shows "\<exists>e' q'. EventQueue_Run (server_handler FIFOQueue_HandleEvent) e = Some e' \<and> es_queue e' = [] \<and>
    fq_queue q' = [] \<and>
    es_consumers e' = (q', out @ leaving (\<lambda>now p. now + PacketDrainTime q p) t (fq_queue q))"
proof -
  obtain x xs where q: "fq_queue q = x # xs" using assms(2) by (cases "fq_queue q") auto
  show ?thesis using fifo_server.drains [OF assms(1) q assms(3,4)] assms(5) q by simp
qed

theorem FIFOQueue_drains_witness:
  "\<exists>e'. EventQueue_Run (server_handler FIFOQueue_HandleEvent)
     ((SimTimeEventQueue_new (sample_queue\<lparr>fq_queue := [sample_packet, sample_packet]\<rparr>, []))\<lparr>es_queue := [(7, ())]\<rparr>) =
       Some e' \<and> snd (es_consumers e') = [(7, sample_packet), (800007, sample_packet)]"
proof -
  let ?q = "sample_queue\<lparr>fq_queue := [sample_packet, sample_packet]\<rparr>"
  have "fq_connected ?q" "PacketDrainTime ?q sample_packet = 800000"
    by (simp_all add: sample_queue_def FIFOQueue_new_def FIFOQueue_SetRate_def Bandwidth_FromBitsPerSecond_def
        Queue_Connect_def PacketDrainTime_def sample_packet_def Packet_new_def)
  then show ?thesis
    using FIFOQueue_drains [of ?q "(SimTimeEventQueue_new (?q, []))\<lparr>es_queue := [(7, ())]\<rparr>" 7 "()" "[]"]
    by (auto simp: SimTimeEventQueue_new_def EventQueueTime_MaxTime_def)
qed



end
