(* ===== verification/Match_Rules.thy ===== *)
theory Match_Rules
  imports Sim_Packet Std_Map "HOL-Library.Product_Lexorder"
begin

text \<open>
  The match rules of a simulated switch, \<open>src/src/htsim/match.{h,cc}\<close>. Rules are owned by the map
  \<open>all_rules_\<close> and pointed to by the leaves of the match tree, so they live in a store: a pointer is
  an address, a rule that has been freed is no longer in the store, and following a pointer to it is
  undefined behaviour. A node of the tree at level \<open>Index\<close> gets the keys and wildcards of its level
  and those below as a list. The actions are those for which
  \<open>EnableFlowCounter\<close> has not been called, so that the branches on \<open>sample_prob_\<close> and \<open>flow_counter_\<close> are
  not taken; the conversions to strings and the pointers from an action to its rule are left out.
\<close>

section \<open>Keys and actions\<close>

definition kWildDevicePortNumber :: DevicePortNumber where
  "kWildDevicePortNumber = 0"

definition kWildPacketTag :: PacketTag where
  "kWildPacketTag = 0"

definition kWildIPAddress :: IPAddress where
  "kWildIPAddress = 0"

definition kWildIPProto :: IPProto where
  "kWildIPProto = 0"

definition kWildAccessLayerPort :: AccessLayerPort where
  "kWildAccessLayerPort = 0"

record MatchRuleKey =
  mrk_tag :: PacketTag
  mrk_input_port :: DevicePortNumber
  mrk_five_tuples :: "FiveTuple list"

text \<open>
  Keys are ordered, and in a map identified, by their input port, tag and tuples; the hash a tuple
  carries takes no part in it.
\<close>

type_synonym rule_key =
  "DevicePortNumber \<times> PacketTag \<times> (IPAddress \<times> IPAddress \<times> IPProto \<times> AccessLayerPort \<times> AccessLayerPort) list"

definition MatchRuleKey_tie :: "MatchRuleKey \<Rightarrow> rule_key" where
  "MatchRuleKey_tie key = (mrk_input_port key, mrk_tag key, map FiveTuple_tie (mrk_five_tuples key))"

definition MatchRuleKey_less :: "MatchRuleKey \<Rightarrow> MatchRuleKey \<Rightarrow> bool" where
  "MatchRuleKey_less lhs rhs = (MatchRuleKey_tie lhs < MatchRuleKey_tie rhs)"

definition MatchRuleKey_eq :: "MatchRuleKey \<Rightarrow> MatchRuleKey \<Rightarrow> bool" where
  "MatchRuleKey_eq lhs rhs \<longleftrightarrow>
     mrk_tag lhs = mrk_tag rhs \<and> mrk_input_port lhs = mrk_input_port rhs \<and>
     list_all2 FiveTuple_eq (mrk_five_tuples lhs) (mrk_five_tuples rhs)"

record ActionStats =
  as_output_port :: DevicePortNumber
  as_tag :: PacketTag
  as_total_bytes_matched :: "64 word"
  as_total_pkts_matched :: "64 word"
  as_flow_count :: "64 word"

definition ActionStats_new :: "DevicePortNumber \<Rightarrow> PacketTag \<Rightarrow> ActionStats" where
  "ActionStats_new output_port tag =
     \<lparr>as_output_port = output_port, as_tag = tag, as_total_bytes_matched = 0, as_total_pkts_matched = 0,
      as_flow_count = - 1\<rparr>"

record MatchRuleAction =
  mra_output_port :: DevicePortNumber
  mra_tag :: PacketTag
  mra_weight :: "32 word"
  mra_stats :: ActionStats
  mra_preferential_drop :: bool

definition MatchRuleAction_new :: "DevicePortNumber \<Rightarrow> PacketTag \<Rightarrow> 32 word \<Rightarrow> MatchRuleAction" where
  "MatchRuleAction_new output_port tag weight =
     \<lparr>mra_output_port = output_port, mra_tag = tag, mra_weight = weight,
      mra_stats = ActionStats_new output_port tag, mra_preferential_drop = False\<rparr>"

definition MatchRuleAction_copy :: "MatchRuleAction \<Rightarrow> MatchRuleAction" where
  "MatchRuleAction_copy a =
     (MatchRuleAction_new (mra_output_port a) (mra_tag a) (mra_weight a))
       \<lparr>mra_preferential_drop := mra_preferential_drop a\<rparr>"

definition MatchRuleAction_UpdateStats :: "('r, 'st) Packet \<Rightarrow> MatchRuleAction \<Rightarrow> MatchRuleAction res" where
  "MatchRuleAction_UpdateStats packet a =
     (let stats = mra_stats a;
          prev = as_total_bytes_matched stats;
          stats = stats\<lparr>as_total_bytes_matched := prev + ucast (pkt_size_bytes packet),
            as_total_pkts_matched := as_total_pkts_matched stats + 1\<rparr>
      in check (prev \<le> as_total_bytes_matched stats) (Ok (a\<lparr>mra_stats := stats\<rparr>)))"

definition MatchRuleAction_MergeStats :: "ActionStats \<Rightarrow> MatchRuleAction \<Rightarrow> MatchRuleAction res" where
  "MatchRuleAction_MergeStats other a =
     (let stats = mra_stats a;
          prev_bytes = as_total_bytes_matched stats;
          prev_pkts = as_total_pkts_matched stats;
          stats = stats\<lparr>as_total_bytes_matched := prev_bytes + as_total_bytes_matched other,
            as_total_pkts_matched := prev_pkts + as_total_pkts_matched other\<rparr>
      in check (as_total_bytes_matched stats \<ge> prev_bytes)
          (check (as_total_pkts_matched stats \<ge> prev_pkts) (Ok (a\<lparr>mra_stats := stats\<rparr>))))"

section \<open>Rules\<close>

record MatchRule =
  mr_key :: MatchRuleKey
  mr_total_weight :: "32 word"
  mr_actions :: "MatchRuleAction list"
  mr_installed :: bool

definition MatchRule_new :: "MatchRuleKey \<Rightarrow> MatchRule" where
  "MatchRule_new key = \<lparr>mr_key = key, mr_total_weight = 0, mr_actions = [], mr_installed = False\<rparr>"

definition MatchRule_set_parent_matcher :: "MatchRule \<Rightarrow> MatchRule res" where
  "MatchRule_set_parent_matcher rule = check (\<not> mr_installed rule) (Ok (rule\<lparr>mr_installed := True\<rparr>))"

definition MatchRule_AddAction :: "MatchRuleAction \<Rightarrow> MatchRule \<Rightarrow> MatchRule res" where
  "MatchRule_AddAction action rule =
     check (\<forall>current_action \<in> set (mr_actions rule).
              mra_output_port current_action = mra_output_port action \<longrightarrow> mra_tag current_action \<noteq> mra_tag action)
       (let actions = mr_actions rule @ [action]
        in Ok (rule\<lparr>mr_actions := actions, mr_total_weight := fold (\<lambda>a w. w + mra_weight a) actions 0\<rparr>))"

definition MatchRule_Clone :: "MatchRule \<Rightarrow> MatchRule res" where
  "MatchRule_Clone rule =
     rfold (\<lambda>action clone. MatchRule_AddAction (MatchRuleAction_copy action) clone) (mr_actions rule)
       (MatchRule_new (mr_key rule))"

text \<open>The loop of \<open>ChooseOrNull\<close>; the action is named by its index.\<close>

fun choose_loop :: "64 word \<Rightarrow> nat \<Rightarrow> MatchRuleAction list \<Rightarrow> nat res" where
  "choose_loop hash i [] = Fail Log_fatal"
| "choose_loop hash i (output_action # actions) =
     (if hash < ucast (mra_weight output_action) then Ok i
      else choose_loop (hash - ucast (mra_weight output_action)) (Suc i) actions)"

definition MatchRule_ChooseOrNull_tuple :: "FiveTuple \<Rightarrow> MatchRule \<Rightarrow> nat option res" where
  "MatchRule_ChooseOrNull_tuple five_tuple rule =
     (if length (mr_actions rule) = 1 then Ok (Some 0)
      else if mr_total_weight rule = 0 then Ok None
      else rbind (choose_loop (ft_hash five_tuple mod ucast (mr_total_weight rule)) 0 (mr_actions rule)) (\<lambda>i. Ok (Some i)))"

definition MatchRule_ExplicitChooseOrDie ::
    "('r, 'st) Packet \<Rightarrow> nat \<Rightarrow> MatchRule \<Rightarrow> (MatchRule \<times> MatchRuleAction) res" where
  "MatchRule_ExplicitChooseOrDie packet i rule =
     check (i < length (mr_actions rule))
       (rbind (MatchRuleAction_UpdateStats packet (mr_actions rule ! i)) (\<lambda>action.
          Ok (rule\<lparr>mr_actions := (mr_actions rule)[i := action]\<rparr>, action)))"

definition MatchRule_ChooseOrNull ::
    "('r, 'st) Packet \<Rightarrow> MatchRule \<Rightarrow> (MatchRule \<times> MatchRuleAction option) res" where
  "MatchRule_ChooseOrNull packet rule =
     rbind (MatchRule_ChooseOrNull_tuple (pkt_five_tuple packet) rule) (\<lambda>chosen.
       case chosen of
         None \<Rightarrow> Ok (rule, None)
       | Some i \<Rightarrow>
           rbind (vec_at (mr_actions rule) i) (\<lambda>action.
           rbind (MatchRuleAction_UpdateStats packet action) (\<lambda>action.
             Ok (rule\<lparr>mr_actions := (mr_actions rule)[i := action]\<rparr>, Some action))))"

definition MatchRule_Stats :: "MatchRule \<Rightarrow> ActionStats list" where
  "MatchRule_Stats rule = map mra_stats (mr_actions rule)"

text \<open>\<open>MergeStats\<close>: into each action the figures of the actions of the other rule with its tag and port.\<close>

definition merge_action :: "MatchRuleAction list \<Rightarrow> MatchRuleAction \<Rightarrow> MatchRuleAction res" where
  "merge_action others action =
     rfold (\<lambda>other_action action.
        if mra_tag action = mra_tag other_action \<and> mra_output_port action = mra_output_port other_action
        then MatchRuleAction_MergeStats (mra_stats other_action) action else Ok action) others action"

definition MatchRule_MergeStats :: "MatchRule \<Rightarrow> MatchRule \<Rightarrow> MatchRule res" where
  "MatchRule_MergeStats other_rule rule =
     rbind (rfold (\<lambda>action done. rbind (merge_action (mr_actions other_rule) action) (\<lambda>a. Ok (done @ [a])))
              (mr_actions rule) []) (\<lambda>actions. Ok (rule\<lparr>mr_actions := actions\<rparr>))"

section \<open>The match tree\<close>

text \<open>The specialisations for the levels 0 to 6; no other is instantiated.\<close>

definition GetKeyAndWildcard :: "nat \<Rightarrow> FiveTuple \<Rightarrow> DevicePortNumber \<Rightarrow> PacketTag \<Rightarrow> 32 word \<times> 32 word" where
  "GetKeyAndWildcard i five_tuple input_port input_tag =
     (if i = 0 then (input_port, kWildDevicePortNumber)
      else if i = 1 then (input_tag, kWildPacketTag)
      else if i = 2 then (ft_ip_dst five_tuple, kWildIPAddress)
      else if i = 3 then (ft_ip_src five_tuple, kWildIPAddress)
      else if i = 4 then (ucast (ft_ip_proto five_tuple), ucast kWildIPProto)
      else if i = 5 then (ucast (ft_src_port five_tuple), ucast kWildAccessLayerPort)
      else (ucast (ft_dst_port five_tuple), ucast kWildAccessLayerPort))"

definition match_keys :: "FiveTuple \<Rightarrow> DevicePortNumber \<Rightarrow> PacketTag \<Rightarrow> (32 word \<times> 32 word) list" where
  "match_keys five_tuple input_port input_tag =
     map (\<lambda>i. GetKeyAndWildcard i five_tuple input_port input_tag) [0..<7]"

type_synonym rule_ptr = nat
type_synonym rule_store = "rule_ptr \<rightharpoonup> MatchRule"

datatype match_node =
    Leaf (leaf_rule: "rule_ptr option")
  | Node (children: "(32 word, match_node) smap") (wildcard_child: "match_node option")

text \<open>A default-constructed node with \<open>n\<close> levels below it.\<close>

definition MatchNode_new :: "nat \<Rightarrow> match_node" where
  "MatchNode_new n = (if n = 0 then Leaf None else Node [] None)"

primrec MatchNode_ClearRule :: "rule_ptr \<Rightarrow> match_node \<Rightarrow> match_node" where
  "MatchNode_ClearRule rule (Leaf r) = Leaf (if r = Some rule then None else r)"
| "MatchNode_ClearRule rule (Node ch wild) =
     Node (map (map_prod id (MatchNode_ClearRule rule)) ch) (map_option (MatchNode_ClearRule rule) wild)"

fun MatchNode_MatchOrNull :: "(32 word \<times> 32 word) list \<Rightarrow> match_node \<Rightarrow> rule_ptr option" where
  "MatchNode_MatchOrNull [] (Leaf r) = r"
| "MatchNode_MatchOrNull ((key, wildcard) # keys) (Node ch wild) =
     (case (case map_of ch key of None \<Rightarrow> None | Some child \<Rightarrow> MatchNode_MatchOrNull keys child) of
        Some exact_match \<Rightarrow> Some exact_match
      | None \<Rightarrow> (case wild of None \<Rightarrow> None | Some child \<Rightarrow> MatchNode_MatchOrNull keys child))"
| "MatchNode_MatchOrNull _ _ = None"

text \<open>What a leaf does: the rule it had, if any, is merged into the new one.\<close>

definition leaf_InsertOrUpdate ::
    "rule_ptr \<Rightarrow> rule_ptr option \<Rightarrow> rule_store \<Rightarrow> rule_store res" where
  "leaf_InsertOrUpdate rule old st =
     (case old of
        None \<Rightarrow> Ok st
      | Some old_rule \<Rightarrow>
          (case (st rule, st old_rule) of
             (Some r, Some o') \<Rightarrow> rbind (MatchRule_MergeStats o' r) (\<lambda>r. Ok (st(rule \<mapsto> r)))
           | _ \<Rightarrow> Fail Undefined_behaviour))"

fun MatchNode_InsertOrUpdate ::
    "(32 word \<times> 32 word) list \<Rightarrow> rule_ptr \<Rightarrow> match_node \<Rightarrow> rule_store \<Rightarrow> (match_node \<times> rule_store) res" where
  "MatchNode_InsertOrUpdate [] rule (Leaf old) st =
     rbind (leaf_InsertOrUpdate rule old st) (\<lambda>st. Ok (Leaf (Some rule), st))"
| "MatchNode_InsertOrUpdate ((key, wildcard) # keys) rule (Node ch wild) st =
     (if key = wildcard
      then rbind (MatchNode_InsertOrUpdate keys rule
                    (case wild of None \<Rightarrow> MatchNode_new (length keys) | Some child \<Rightarrow> child) st) (\<lambda>(child, st).
             Ok (Node ch (Some child), st))
      else rbind (MatchNode_InsertOrUpdate keys rule (smap_get (MatchNode_new (length keys)) key ch) st) (\<lambda>(child, st).
             Ok (Node (smap_put key child ch) wild, st)))"
| "MatchNode_InsertOrUpdate _ _ _ _ = Fail Undefined_behaviour"

section \<open>The matcher\<close>

record Matcher =
  mt_root :: match_node
  mt_all_rules :: "(rule_key, rule_ptr) smap"
  mt_store :: rule_store

definition Matcher_new :: Matcher where
  "Matcher_new = \<lparr>mt_root = MatchNode_new 7, mt_all_rules = [], mt_store = Map.empty\<rparr>"

definition Matcher_MatchOrNull ::
    "('r, 'st) Packet \<Rightarrow> DevicePortNumber \<Rightarrow> Matcher \<Rightarrow> (Matcher \<times> MatchRuleAction option) res" where
  "Matcher_MatchOrNull pkt input_port m =
     check (input_port \<noteq> kWildDevicePortNumber)
       (case MatchNode_MatchOrNull (match_keys (pkt_five_tuple pkt) input_port (pkt_tag pkt)) (mt_root m) of
          None \<Rightarrow> Ok (m, None)
        | Some p \<Rightarrow>
            (case mt_store m p of
               None \<Rightarrow> Fail Undefined_behaviour
             | Some rule \<Rightarrow>
                 rbind (MatchRule_ChooseOrNull pkt rule) (\<lambda>(rule, action).
                   Ok (m\<lparr>mt_store := (mt_store m)(p \<mapsto> rule)\<rparr>, action))))"

text \<open>The loop of \<open>AddRule\<close> over the tuples of the key.\<close>

definition insert_tuples ::
    "FiveTuple list \<Rightarrow> DevicePortNumber \<Rightarrow> PacketTag \<Rightarrow> rule_ptr \<Rightarrow> match_node \<times> rule_store \<Rightarrow> (match_node \<times> rule_store) res" where
  "insert_tuples ts port tag p =
     rfold (\<lambda>t (root, st). MatchNode_InsertOrUpdate (match_keys t port tag) p root st) ts"

text \<open>\<open>AddRule\<close>, where \<open>p\<close> is the address of the new rule.\<close>

definition Matcher_AddRule :: "rule_ptr \<Rightarrow> MatchRule \<Rightarrow> Matcher \<Rightarrow> Matcher res" where
  "Matcher_AddRule p rule m =
     (let key = mr_key rule in
      rbind (MatchRule_set_parent_matcher rule) (\<lambda>rule.
      let delete_rule = (mr_actions rule = []);
          st = (mt_store m)(p \<mapsto> rule)
      in rbind (if delete_rule then Ok (mt_root m, st)
                else insert_tuples (mrk_five_tuples key) (mrk_input_port key) (mrk_tag key) p (mt_root m, st)) (\<lambda>(root, st).
         let to_clear = map_of (mt_all_rules m) (MatchRuleKey_tie key);
             root = (case to_clear of None \<Rightarrow> root | Some old \<Rightarrow> MatchNode_ClearRule old root);
             st = (case to_clear of None \<Rightarrow> st | Some old \<Rightarrow> st(old := None))
         in if delete_rule
            then Ok (m\<lparr>mt_root := root, mt_all_rules := smap_del (MatchRuleKey_tie key) (mt_all_rules m), mt_store := st(p := None)\<rparr>)
            else Ok (m\<lparr>mt_root := root, mt_all_rules := smap_put (MatchRuleKey_tie key) p (mt_all_rules m), mt_store := st\<rparr>))))"

definition Matcher_NumRules :: "Matcher \<Rightarrow> nat" where
  "Matcher_NumRules m = length (mt_all_rules m)"

definition SSCPStatsReply_AddStats ::
    "rule_key \<Rightarrow> ActionStats list \<Rightarrow> (rule_key, ActionStats list) smap \<Rightarrow> (rule_key, ActionStats list) smap res" where
  "SSCPStatsReply_AddStats key action_stats stats =
     check (map_of stats key = None) (Ok (smap_put key action_stats stats))"

definition Matcher_PopulateSSCPStats ::
    "(rule_key, ActionStats list) smap \<Rightarrow> Matcher \<Rightarrow> (rule_key, ActionStats list) smap res" where
  "Matcher_PopulateSSCPStats reply m =
     rfold (\<lambda>(key, p) stats.
        case mt_store m p of
          None \<Rightarrow> Fail Undefined_behaviour
        | Some rule \<Rightarrow> SSCPStatsReply_AddStats key (MatchRule_Stats rule) stats)
       (mt_all_rules m) reply"

section \<open>The tree as a table of patterns\<close>

text \<open>
  A pattern has a value, or 0 for any, for each of the seven fields. The tree is a table from patterns
  to rules; a packet is matched by the patterns got by putting 0 for some of its fields, tried in an
  order in which earlier fields weigh more.
\<close>

fun node_lookup :: "32 word list \<Rightarrow> match_node \<Rightarrow> rule_ptr option" where
  "node_lookup [] (Leaf r) = r"
| "node_lookup (k # ks) (Node ch wild) =
     (case (if k = 0 then wild else map_of ch k) of None \<Rightarrow> None | Some child \<Rightarrow> node_lookup ks child)"
| "node_lookup _ _ = None"

fun candidates :: "32 word list \<Rightarrow> 32 word list list" where
  "candidates [] = [[]]"
| "candidates (k # ks) = map (Cons k) (candidates ks) @ map (Cons 0) (candidates ks)"

fun first_some :: "'a option list \<Rightarrow> 'a option" where
  "first_some [] = None"
| "first_some (Some x # _) = Some x"
| "first_some (None # xs) = first_some xs"

fun node_wf :: "nat \<Rightarrow> match_node \<Rightarrow> bool" where
  "node_wf 0 (Leaf r) = True"
| "node_wf (Suc n) (Node ch wild) \<longleftrightarrow>
     smap_wf ch \<and> map_of ch 0 = None \<and> (\<forall>k c. map_of ch k = Some c \<longrightarrow> node_wf n c) \<and>
     (\<forall>c. wild = Some c \<longrightarrow> node_wf n c)"
| "node_wf _ _ = False"

lemma node_wf_new [simp]: "node_wf n (MatchNode_new n)"
  by (cases n) (simp_all add: MatchNode_new_def)

lemma node_lookup_new [simp]: "node_lookup ks (MatchNode_new n) = None"
  by (cases ks) (simp_all add: MatchNode_new_def)

lemma first_some_append: "first_some (xs @ ys) = (case first_some xs of None \<Rightarrow> first_some ys | Some x \<Rightarrow> Some x)"
  by (induction xs rule: first_some.induct) auto

lemma first_some_None: "\<forall>x \<in> set xs. x = None \<Longrightarrow> first_some xs = None"
  by (induction xs) auto

lemma first_some_mem: "first_some xs = Some x \<Longrightarrow> Some x \<in> set xs"
  by (induction xs rule: first_some.induct) auto

lemma map_of_map_prod_id: "map_of (map (map_prod id f) ch) k = map_option f (map_of ch k)"
  by (induction ch) auto

lemma node_lookup_Clear:
  "node_lookup ks (MatchNode_ClearRule a t) = (if node_lookup ks t = Some a then None else node_lookup ks t)"
proof (induction ks t rule: node_lookup.induct)
  case (2 k ks ch wild)
  then show ?case
    by (cases "k = 0"; cases wild; cases "map_of ch k") (simp_all add: map_of_map_prod_id)
qed auto

lemma node_wf_Clear: "node_wf n t \<Longrightarrow> node_wf n (MatchNode_ClearRule a t)"
proof (induction n t rule: node_wf.induct)
  case (2 n ch wild)
  have "map fst (map (map_prod id (MatchNode_ClearRule a)) ch) = map fst ch" by simp
  then have "smap_wf (map (map_prod id (MatchNode_ClearRule a)) ch)" using 2 by (simp add: smap_wf_def)
  with 2 show ?case by (auto simp: map_of_map_prod_id)
qed auto

lemma MatchNode_MatchOrNull_first:
  "node_wf (length ps) t \<Longrightarrow>
   MatchNode_MatchOrNull ps t = first_some (map (\<lambda>c. node_lookup c t) (candidates (map fst ps)))"
proof (induction ps arbitrary: t)
  case Nil
  then show ?case by (cases t) (auto, case_tac x1, auto)
next
  case (Cons kw keys)
  obtain key wildcard where kw: "kw = (key, wildcard)" by (cases kw)
  obtain ch wild where t: "t = Node ch wild" using Cons.prems by (cases t) auto
  let ?cs = "candidates (map fst keys)"
  have wild: "(case wild of None \<Rightarrow> None | Some child \<Rightarrow> MatchNode_MatchOrNull keys child) =
      first_some (map (\<lambda>c. node_lookup (0 # c) t) ?cs)"
    using Cons t by (cases wild) (simp_all add: first_some_None)
  have split: "first_some (map (\<lambda>c. node_lookup c t) (candidates (map fst (kw # keys)))) =
      (case first_some (map (\<lambda>c. node_lookup (key # c) t) ?cs) of
         None \<Rightarrow> first_some (map (\<lambda>c. node_lookup (0 # c) t) ?cs) | Some x \<Rightarrow> Some x)"
    by (simp add: kw first_some_append comp_def)
  have match: "MatchNode_MatchOrNull (kw # keys) t =
      (case (case map_of ch key of None \<Rightarrow> None | Some child \<Rightarrow> MatchNode_MatchOrNull keys child) of
         None \<Rightarrow> first_some (map (\<lambda>c. node_lookup (0 # c) t) ?cs) | Some x \<Rightarrow> Some x)"
    unfolding wild [symmetric] by (simp add: kw t)
  show ?case
  proof (cases "key = 0")
    case True
    then have "map_of ch key = None" using Cons.prems t by simp
    then show ?thesis unfolding split match using True
      by (cases "first_some (map (\<lambda>c. node_lookup (0 # c) t) ?cs)") simp_all
  next
    case False
    then have "(case map_of ch key of None \<Rightarrow> None | Some child \<Rightarrow> MatchNode_MatchOrNull keys child) =
        first_some (map (\<lambda>c. node_lookup (key # c) t) ?cs)"
      using Cons t by (cases "map_of ch key") (simp_all add: first_some_None)
    then show ?thesis unfolding split match by simp
  qed
qed

lemma node_lookup_wild:
  "node_lookup (k # ks) (Node ch (Some c)) = (if k = 0 then node_lookup ks c else node_lookup (k # ks) (Node ch wild))"
  by simp

lemma node_lookup_put:
  "smap_wf ch \<Longrightarrow> key \<noteq> 0 \<Longrightarrow>
   node_lookup (k # ks) (Node (smap_put key c ch) wild) =
     (if k = key then node_lookup ks c else node_lookup (k # ks) (Node ch wild))"
  by simp

lemma MatchNode_InsertOrUpdate_spec:
  assumes "node_wf (length ps) t" "\<forall>kw \<in> set ps. snd kw = 0"
  shows "(case leaf_InsertOrUpdate a (node_lookup (map fst ps) t) st of
      Inl e \<Rightarrow> MatchNode_InsertOrUpdate ps a t st = Fail e
    | Inr st' \<Rightarrow> \<exists>t'. MatchNode_InsertOrUpdate ps a t st = Ok (t', st') \<and> node_wf (length ps) t' \<and>
        (\<forall>ks. node_lookup ks t' = (if ks = map fst ps then Some a else node_lookup ks t)))"
  using assms
proof (induction ps arbitrary: t)
  case Nil
  then obtain r where t: "t = Leaf r" by (cases t) auto
  have "node_lookup ks (Leaf (Some a)) = (if ks = [] then Some a else node_lookup ks (Leaf r))" for ks
    by (cases ks) simp_all
  then show ?case using t by (cases "leaf_InsertOrUpdate a r st") simp_all
next
  case (Cons kw keys)
  obtain key where kw: "kw = (key, 0)" using Cons.prems by (cases kw) auto
  obtain ch wild where t: "t = Node ch wild" using Cons.prems by (cases t) auto
  define c where "c = (if key = 0 then case wild of None \<Rightarrow> MatchNode_new (length keys) | Some child \<Rightarrow> child
     else smap_get (MatchNode_new (length keys)) key ch)"
  have wf: "node_wf (length keys) c" and l: "node_lookup (key # ks) t = node_lookup ks c" for ks
    using Cons.prems(1) t by (auto simp: c_def smap_get_def split: option.split)
  have ins: "MatchNode_InsertOrUpdate (kw # keys) a t st =
      rbind (MatchNode_InsertOrUpdate keys a c st) (\<lambda>(child, st).
        Ok (if key = 0 then Node ch (Some child) else Node (smap_put key child ch) wild, st))"
    by (simp add: kw t c_def)
  show ?case
  proof (cases "leaf_InsertOrUpdate a (node_lookup (map fst (kw # keys)) t) st")
    case (Inl e)
    then show ?thesis using Cons.IH [OF wf] Cons.prems(2) ins l kw by simp
  next
    case (Inr st')
    then obtain c' where c': "MatchNode_InsertOrUpdate keys a c st = Ok (c', st')" "node_wf (length keys) c'"
      "node_lookup ks c' = (if ks = map fst keys then Some a else node_lookup ks c)" for ks
      using Cons.IH [OF wf] Cons.prems(2) l kw by auto
    let ?t = "if key = 0 then Node ch (Some c') else Node (smap_put key c' ch) wild"
    have chwf: "smap_wf ch" using Cons.prems(1) t by simp
    have "node_wf (length (kw # keys)) ?t" using Cons.prems(1) t c'(2) by simp
    moreover have "node_lookup ks ?t = (if ks = map fst (kw # keys) then Some a else node_lookup ks t)" for ks
    proof (cases ks)
      case (Cons k ks')
      have "node_lookup ks ?t = (if k = key then node_lookup ks' c' else node_lookup ks t)"
        unfolding Cons t using node_lookup_wild [of k ks' ch c' wild] node_lookup_put [OF chwf, of key k ks' c' wild]
        by (cases "key = 0") (auto simp del: node_lookup.simps)
      then show ?thesis using Cons kw c'(3) l by auto
    qed (simp add: t)
    ultimately show ?thesis using Inr ins c'(1) by (auto simp del: node_lookup.simps)
  qed
qed

section \<open>Merging and choosing\<close>

text \<open>A rule's weight is the (wrapping) sum of those of its actions.\<close>

definition rule_wf :: "MatchRule \<Rightarrow> bool" where
  "rule_wf r \<longleftrightarrow> mr_total_weight r = sum_list (map mra_weight (mr_actions r))"

lemma fold_plus_weight: "fold (\<lambda>a w. w + mra_weight a) as w = w + sum_list (map mra_weight as)"
  by (induction as arbitrary: w) (simp_all add: add.assoc)

lemma rule_wf_new [simp]: "rule_wf (MatchRule_new key)"
  by (simp add: rule_wf_def MatchRule_new_def)

lemma rule_wf_AddAction: "MatchRule_AddAction a r = Ok r' \<Longrightarrow> rule_wf r'"
  by (auto simp: MatchRule_AddAction_def res_simps rule_wf_def fold_plus_weight Let_def)

lemma rfold_Fail:
  "rfold f xs s = Fail e \<Longrightarrow> (\<And>x s e. f x s = Fail e \<Longrightarrow> e = e0) \<Longrightarrow> e = e0"
proof (induction xs arbitrary: s)
  case (Cons x xs)
  then show ?case by (cases "f x s") auto
qed simp

lemma merge_action_Fail: "merge_action others a = Fail e \<Longrightarrow> e = Check_failed"
  unfolding merge_action_def
  by (erule rfold_Fail) (auto simp: MatchRuleAction_MergeStats_def Let_def check_def split: if_splits)

lemma merge_action_weight: "merge_action others a = Ok a' \<Longrightarrow> mra_weight a' = mra_weight a"
  unfolding merge_action_def
  by (erule rfold_invariant [where P = "\<lambda>x. mra_weight x = mra_weight a"])
     (auto simp: MatchRuleAction_MergeStats_def Let_def res_simps split: if_splits)

lemma MatchRule_MergeStats_Fail: "MatchRule_MergeStats o' r = Fail e \<Longrightarrow> e = Check_failed"
proof -
  let ?f = "\<lambda>action done. rbind (merge_action (mr_actions o') action) (\<lambda>a. Ok (done @ [a]))"
  assume "MatchRule_MergeStats o' r = Fail e"
  then have "rfold ?f (mr_actions r) [] = Fail e"
    by (cases "rfold ?f (mr_actions r) []") (auto simp: MatchRule_MergeStats_def)
  then show ?thesis
  proof (rule rfold_Fail)
    show "e = Check_failed" if "?f x s = Fail e" for x s e
      using that merge_action_Fail by (cases "merge_action (mr_actions o') x") auto
  qed
qed

lemma merge_loop_weights:
  "rfold (\<lambda>action done. rbind (merge_action others action) (\<lambda>a. Ok (done @ [a]))) as done = Ok as' \<Longrightarrow>
   map mra_weight as' = map mra_weight (done @ as)"
proof (induction as arbitrary: "done")
  case (Cons a as)
  obtain a1 where a1: "merge_action others a = Ok a1" using Cons.prems by (cases "merge_action others a") auto
  with Cons merge_action_weight [OF a1] show ?case by auto
qed simp

lemma MatchRule_MergeStats_keeps:
  assumes "MatchRule_MergeStats o' r = Ok r'"
  shows "rule_wf r' = rule_wf r" "mr_key r' = mr_key r" "length (mr_actions r') = length (mr_actions r)"
proof -
  obtain as' where as': "rfold (\<lambda>action done. rbind (merge_action (mr_actions o') action) (\<lambda>a. Ok (done @ [a])))
      (mr_actions r) [] = Ok as'" "r' = r\<lparr>mr_actions := as'\<rparr>"
    using assms by (auto simp: MatchRule_MergeStats_def res_simps)
  have w: "map mra_weight as' = map mra_weight (mr_actions r)" using merge_loop_weights [OF as'(1)] by simp
  then show "rule_wf r' = rule_wf r" "mr_key r' = mr_key r" by (simp_all add: as'(2) rule_wf_def)
  show "length (mr_actions r') = length (mr_actions r)" using map_eq_imp_length_eq [OF w] as'(2) by simp
qed

lemma unat_sum_list_le: "unat (sum_list ws) \<le> sum_list (map unat ws)"
proof (induction ws)
  case (Cons w ws)
  have "unat (w + sum_list ws) \<le> unat w + unat (sum_list ws)" by (simp add: unat_word_ariths(1))
  with Cons show ?case by simp
qed simp

text \<open>The action chosen is the one in whose share of the total weight the hash falls.\<close>

lemma choose_loop_interval:
  "unat hash < (\<Sum>a\<leftarrow>as. unat (mra_weight a)) \<Longrightarrow>
   \<exists>j < length as. choose_loop hash i as = Ok (i + j) \<and>
     (\<Sum>a\<leftarrow>take j as. unat (mra_weight a)) \<le> unat hash \<and>
     unat hash < (\<Sum>a\<leftarrow>take (Suc j) as. unat (mra_weight a))"
proof (induction as arbitrary: hash i)
  case (Cons a as)
  let ?w = "ucast (mra_weight a) :: 64 word"
  show ?case
  proof (cases "hash < ?w")
    case True
    then show ?thesis by (intro exI [of _ 0]) (simp add: word_less_nat_alt)
  next
    case False
    then have le: "?w \<le> hash" by simp
    then have u: "unat (hash - ?w) = unat hash - unat (mra_weight a)" "unat (mra_weight a) \<le> unat hash"
      by (simp_all add: unat_sub word_le_nat_alt)
    then have "unat (hash - ?w) < (\<Sum>a\<leftarrow>as. unat (mra_weight a))" using Cons.prems by simp
    from Cons.IH [OF this, of "Suc i"] u obtain j where j: "j < length as" "choose_loop (hash - ?w) (Suc i) as = Ok (Suc i + j)"
      "(\<Sum>a\<leftarrow>take j as. unat (mra_weight a)) \<le> unat hash - unat (mra_weight a)"
      "unat hash - unat (mra_weight a) < (\<Sum>a\<leftarrow>take (Suc j) as. unat (mra_weight a))"
      by auto
    then show ?thesis using False u by (intro exI [of _ "Suc j"]) auto
  qed
qed simp

section \<open>The invariant of a matcher\<close>

definition match_pattern :: "FiveTuple \<Rightarrow> DevicePortNumber \<Rightarrow> PacketTag \<Rightarrow> 32 word list" where
  "match_pattern five_tuple input_port input_tag =
     [input_port, input_tag, ft_ip_dst five_tuple, ft_ip_src five_tuple, ucast (ft_ip_proto five_tuple),
      ucast (ft_src_port five_tuple), ucast (ft_dst_port five_tuple)]"

lemma match_keys_pattern:
  "map fst (match_keys t p g) = match_pattern t p g" "length (match_keys t p g) = 7"
  "\<forall>kw \<in> set (match_keys t p g). snd kw = 0"
  by (simp_all add: match_keys_def match_pattern_def upt_rec numeral_eq_Suc GetKeyAndWildcard_def kWildDevicePortNumber_def
      kWildPacketTag_def kWildIPAddress_def kWildIPProto_def kWildAccessLayerPort_def)

definition key_patterns :: "MatchRuleKey \<Rightarrow> 32 word list set" where
  "key_patterns key = (\<lambda>t. match_pattern t (mrk_input_port key) (mrk_tag key)) ` set (mrk_five_tuples key)"

text \<open>The leaves point to rules that the map owns, and the store holds those rules and no others.\<close>

definition matcher_wf :: "Matcher \<Rightarrow> bool" where
  "matcher_wf m \<longleftrightarrow>
     node_wf 7 (mt_root m) \<and> smap_wf (mt_all_rules m) \<and>
     (\<forall>ks p. node_lookup ks (mt_root m) = Some p \<longrightarrow> p \<in> dom (mt_store m)) \<and>
     dom (mt_store m) = ran (map_of (mt_all_rules m)) \<and>
     inj_on (map_of (mt_all_rules m)) (dom (map_of (mt_all_rules m))) \<and>
     (\<forall>p r. mt_store m p = Some r \<longrightarrow> rule_wf r)"

lemma matcher_wf_new: "matcher_wf Matcher_new"
  by (simp add: matcher_wf_def Matcher_new_def)

lemma leaf_InsertOrUpdate_cases:
  assumes "st p = Some r" "\<And>o'. old = Some o' \<Longrightarrow> st o' \<noteq> None" "rule_wf r"
  shows "leaf_InsertOrUpdate p old st = Fail Check_failed \<or>
    (\<exists>r'. leaf_InsertOrUpdate p old st = Ok (st(p \<mapsto> r')) \<and> rule_wf r')"
proof (cases old)
  case None
  have "st = st(p \<mapsto> r)" using assms(1) by auto
  with None assms(3) show ?thesis by (auto simp: leaf_InsertOrUpdate_def)
next
  case (Some o')
  then obtain ro where ro: "st o' = Some ro" using assms(2) by auto
  show ?thesis
  proof (cases "MatchRule_MergeStats ro r")
    case (Inl e)
    then show ?thesis using MatchRule_MergeStats_Fail [OF Inl] Some ro assms(1) by (simp add: leaf_InsertOrUpdate_def)
  next
    case (Inr r')
    then show ?thesis using MatchRule_MergeStats_keeps [OF Inr] Some ro assms(1,3)
      by (intro disjI2 exI [of _ r']) (simp add: leaf_InsertOrUpdate_def)
  qed
qed

lemma insert_tuples_cases:
  assumes "node_wf 7 root" "st p = Some r" "rule_wf r" "\<And>ks q. node_lookup ks root = Some q \<Longrightarrow> st q \<noteq> None"
  shows "insert_tuples ts port tag p (root, st) = Fail Check_failed \<or>
    (\<exists>root' r'. insert_tuples ts port tag p (root, st) = Ok (root', st(p \<mapsto> r')) \<and> rule_wf r' \<and> node_wf 7 root' \<and>
       (\<forall>ks. node_lookup ks root' =
          (if ks \<in> (\<lambda>t. match_pattern t port tag) ` set ts then Some p else node_lookup ks root)))"
  using assms
proof (induction ts arbitrary: root st r)
  case Nil
  have "st = st(p \<mapsto> r)" using Nil(2) by auto
  then have "insert_tuples [] port tag p (root, st) = Ok (root, st(p \<mapsto> r))" by (simp add: insert_tuples_def)
  then show ?case using Nil by (intro disjI2 exI [of _ root] exI [of _ r]) (simp add: fun_upd_def)
next
  case (Cons t ts)
  let ?old = "node_lookup (match_pattern t port tag) root"
  have spec: "case leaf_InsertOrUpdate p ?old st of
      Inl e \<Rightarrow> MatchNode_InsertOrUpdate (match_keys t port tag) p root st = Fail e
    | Inr st' \<Rightarrow> \<exists>t'. MatchNode_InsertOrUpdate (match_keys t port tag) p root st = Ok (t', st') \<and> node_wf 7 t' \<and>
        (\<forall>ks. node_lookup ks t' = (if ks = match_pattern t port tag then Some p else node_lookup ks root))"
    using MatchNode_InsertOrUpdate_spec [OF _ match_keys_pattern(3), of t port tag root p st] Cons.prems(1)
    unfolding match_keys_pattern by blast
  from leaf_InsertOrUpdate_cases [of st p r ?old] Cons.prems(2-4)
  consider "leaf_InsertOrUpdate p ?old st = Fail Check_failed"
    | r1 where "leaf_InsertOrUpdate p ?old st = Ok (st(p \<mapsto> r1))" "rule_wf r1" by blast
  then show ?case
  proof cases
    case 1
    then show ?thesis using spec by (simp add: insert_tuples_def)
  next
    case 2
    then obtain root1 where i: "MatchNode_InsertOrUpdate (match_keys t port tag) p root st = Ok (root1, st(p \<mapsto> r1))"
      "node_wf 7 root1"
      "\<And>ks. node_lookup ks root1 = (if ks = match_pattern t port tag then Some p else node_lookup ks root)"
      using spec by auto
    have "(st(p \<mapsto> r1)) q \<noteq> None" if "node_lookup ks root1 = Some q" for ks q
      using that Cons.prems(4) i(3) by (auto split: if_splits)
    then have IH: "insert_tuples ts port tag p (root1, st(p \<mapsto> r1)) = Fail Check_failed \<or>
      (\<exists>root' r'. insert_tuples ts port tag p (root1, st(p \<mapsto> r1)) = Ok (root', (st(p \<mapsto> r1))(p \<mapsto> r')) \<and>
         rule_wf r' \<and> node_wf 7 root' \<and> (\<forall>ks. node_lookup ks root' =
            (if ks \<in> (\<lambda>t. match_pattern t port tag) ` set ts then Some p else node_lookup ks root1)))"
      using Cons.IH [of root1 "st(p \<mapsto> r1)" r1] i(2) 2(2) by fastforce
    have unf: "insert_tuples (t # ts) port tag p (root, st) = insert_tuples ts port tag p (root1, st(p \<mapsto> r1))"
      using i(1) by (simp add: insert_tuples_def)
    show ?thesis
    proof (cases "insert_tuples ts port tag p (root1, st(p \<mapsto> r1)) = Fail Check_failed")
      case False
      then obtain root' r' where o: "insert_tuples ts port tag p (root1, st(p \<mapsto> r1)) = Ok (root', st(p \<mapsto> r'))"
        "rule_wf r'" "node_wf 7 root'" "\<forall>ks. node_lookup ks root' =
            (if ks \<in> (\<lambda>t. match_pattern t port tag) ` set ts then Some p else node_lookup ks root1)"
        using IH unfolding fun_upd_upd by blast
      show ?thesis unfolding unf o(1) using o(2-) i(3) by (intro disjI2 exI [of _ root'] exI [of _ r']) (simp add: fun_upd_def)
    qed (simp add: unf)
  qed
qed

lemma AddRule_cases:
  assumes "matcher_wf m" "mt_store m p = None" "rule_wf rule" "\<not> mr_installed rule"
  shows "Matcher_AddRule p rule m = Fail Check_failed \<or>
    (\<exists>root r'. node_wf 7 root \<and> rule_wf r' \<and>
       (\<forall>ks. node_lookup ks root =
          (if mr_actions rule \<noteq> [] \<and> ks \<in> key_patterns (mr_key rule) then Some p else node_lookup ks (mt_root m))) \<and>
       Matcher_AddRule p rule m = Ok (
         let key = MatchRuleKey_tie (mr_key rule); to_clear = map_of (mt_all_rules m) key;
             root = (case to_clear of None \<Rightarrow> root | Some old \<Rightarrow> MatchNode_ClearRule old root);
             st = (case to_clear of None \<Rightarrow> (mt_store m)(p \<mapsto> r') | Some old \<Rightarrow> ((mt_store m)(p \<mapsto> r'))(old := None))
         in if mr_actions rule = []
            then m\<lparr>mt_root := root, mt_all_rules := smap_del key (mt_all_rules m), mt_store := st(p := None)\<rparr>
            else m\<lparr>mt_root := root, mt_all_rules := smap_put key p (mt_all_rules m), mt_store := st\<rparr>))"
proof -
  let ?rule = "rule\<lparr>mr_installed := True\<rparr>" and ?key = "mr_key rule"
  let ?st = "(mt_store m)(p \<mapsto> ?rule)"
  have wf: "node_wf 7 (mt_root m)" "rule_wf ?rule" using assms(1,3) by (simp_all add: matcher_wf_def rule_wf_def)
  have ptr: "?st q \<noteq> None" if "node_lookup ks (mt_root m) = Some q" for ks q
    using that assms(1) by (auto simp: matcher_wf_def)
  show ?thesis
  proof (cases "mr_actions rule = []")
    case True
    then show ?thesis using wf assms(4)
      by (intro disjI2 exI [of _ "mt_root m"] exI [of _ ?rule])
         (simp add: Matcher_AddRule_def MatchRule_set_parent_matcher_def Let_def)
  next
    case False
    let ?i = "insert_tuples (mrk_five_tuples ?key) (mrk_input_port ?key) (mrk_tag ?key) p (mt_root m, ?st)"
    have add: "Matcher_AddRule p rule m = rbind ?i (\<lambda>(root, st).
         let key = MatchRuleKey_tie (mr_key rule); to_clear = map_of (mt_all_rules m) key;
             root = (case to_clear of None \<Rightarrow> root | Some old \<Rightarrow> MatchNode_ClearRule old root);
             st = (case to_clear of None \<Rightarrow> st | Some old \<Rightarrow> st(old := None))
         in Ok (m\<lparr>mt_root := root, mt_all_rules := smap_put key p (mt_all_rules m), mt_store := st\<rparr>))"
      using False assms(4) by (simp add: Matcher_AddRule_def MatchRule_set_parent_matcher_def Let_def)
    consider "?i = Fail Check_failed" | root' r' where "?i = Ok (root', (mt_store m)(p \<mapsto> r'))" "rule_wf r'" "node_wf 7 root'"
       "\<forall>ks. node_lookup ks root' = (if ks \<in> key_patterns ?key then Some p else node_lookup ks (mt_root m))"
      using insert_tuples_cases [of "mt_root m" ?st p ?rule "mrk_five_tuples ?key" "mrk_input_port ?key" "mrk_tag ?key"] wf ptr
      unfolding key_patterns_def fun_upd_upd by auto
    then show ?thesis
    proof cases
      case 2
      then show ?thesis using False unfolding add
        by (intro disjI2 exI [of _ root'] exI [of _ r']) (simp add: Let_def)
    qed (simp add: add)
  qed
qed

lemma matcher_wf_store_upd:
  assumes "matcher_wf m" "mt_store m p = Some r" "rule_wf r'"
  shows "matcher_wf (m\<lparr>mt_store := (mt_store m)(p \<mapsto> r')\<rparr>)"
proof -
  have "dom ((mt_store m)(p \<mapsto> r')) = dom (mt_store m)" using assms(2) by auto
  with assms show ?thesis unfolding matcher_wf_def by (auto simp del: dom_fun_upd split: if_splits)
qed

lemma rule_wf_update:
  "rule_wf r \<Longrightarrow> MatchRuleAction_UpdateStats pkt (mr_actions r ! i) = Ok a \<Longrightarrow> i < length (mr_actions r) \<Longrightarrow>
   rule_wf (r\<lparr>mr_actions := (mr_actions r)[i := a]\<rparr>)"
proof -
  assume a: "rule_wf r" "MatchRuleAction_UpdateStats pkt (mr_actions r ! i) = Ok a" "i < length (mr_actions r)"
  have "mra_weight a = mra_weight (mr_actions r ! i)"
    using a(2) by (auto simp: MatchRuleAction_UpdateStats_def Let_def res_simps)
  then have "map mra_weight ((mr_actions r)[i := a]) = map mra_weight (mr_actions r)"
    using a(3) by (metis list_update_id map_update)
  then show ?thesis using a(1) by (simp add: rule_wf_def)
qed

lemma ChooseOrNull_tuple_cases:
  assumes "rule_wf r"
  shows "MatchRule_ChooseOrNull_tuple t r = Ok None \<and> length (mr_actions r) \<noteq> 1 \<and> mr_total_weight r = 0 \<or>
    (\<exists>i < length (mr_actions r). MatchRule_ChooseOrNull_tuple t r = Ok (Some i) \<and>
       (length (mr_actions r) = 1 \<or>
        (\<Sum>a\<leftarrow>take i (mr_actions r). unat (mra_weight a)) \<le> unat (ft_hash t) mod unat (mr_total_weight r) \<and>
        unat (ft_hash t) mod unat (mr_total_weight r) < (\<Sum>a\<leftarrow>take (Suc i) (mr_actions r). unat (mra_weight a))))"
proof (cases "length (mr_actions r) = 1 \<or> mr_total_weight r = 0")
  case True
  then show ?thesis by (auto simp: MatchRule_ChooseOrNull_tuple_def)
next
  case False
  let ?h = "ft_hash t mod ucast (mr_total_weight r)"
  have h: "unat ?h = unat (ft_hash t) mod unat (mr_total_weight r)" by (simp add: unat_mod)
  have "unat ?h < unat (mr_total_weight r)" using False h by (simp add: unat_gt_0)
  also have "\<dots> \<le> (\<Sum>a\<leftarrow>mr_actions r. unat (mra_weight a))"
    using unat_sum_list_le [of "map mra_weight (mr_actions r)"] assms by (simp add: rule_wf_def comp_def)
  finally obtain i where "i < length (mr_actions r)" "choose_loop ?h 0 (mr_actions r) = Ok (0 + i)"
    "(\<Sum>a\<leftarrow>take i (mr_actions r). unat (mra_weight a)) \<le> unat ?h"
    "unat ?h < (\<Sum>a\<leftarrow>take (Suc i) (mr_actions r). unat (mra_weight a))"
    using choose_loop_interval [of ?h "mr_actions r" 0] by blast
  then show ?thesis using False unfolding h by (auto simp: MatchRule_ChooseOrNull_tuple_def)
qed

text \<open>What \<open>AddRule\<close> does to the tree, the map and the store keeps the pointers in step.\<close>

lemma matcher_wf_replace:
  assumes wf: "matcher_wf m" and fresh: "mt_store m p = None"
    and tree: "node_wf 7 (mt_root m')" "smap_wf (mt_all_rules m')"
    and table: "\<And>ks. node_lookup ks (mt_root m') =
         (if \<not> d \<and> ks \<in> P then Some p
          else if node_lookup ks (mt_root m) = map_of (mt_all_rules m) key then None else node_lookup ks (mt_root m))"
    and rules: "\<And>k. map_of (mt_all_rules m') k =
         (if k = key then if d then None else Some p else map_of (mt_all_rules m) k)"
    and store: "\<And>q. mt_store m' q = (if q = p then if d then None else Some r'
        else if map_of (mt_all_rules m) key = Some q then None else mt_store m q)"
    and r': "rule_wf r'"
  shows "matcher_wf m'"
proof -
  let ?M = "map_of (mt_all_rules m)" and ?M' = "map_of (mt_all_rules m')"
  have dom: "dom (mt_store m) = ran ?M" and inj: "inj_on ?M (dom ?M)"
    and rwf: "\<And>q r. mt_store m q = Some r \<Longrightarrow> rule_wf r"
    and ptr: "\<And>ks q. node_lookup ks (mt_root m) = Some q \<Longrightarrow> mt_store m q \<noteq> None"
    using wf unfolding matcher_wf_def by blast+
  have np: "?M k \<noteq> Some p" for k using dom fresh by (metis domIff ranI)
  have uniq: "k = k'" if "?M k = Some q" "?M k' = Some q" for k k' q
    using inj_onD [OF inj, of k k'] that by (simp add: domI)
  have "node_lookup ks (mt_root m') = Some q \<Longrightarrow> mt_store m' q \<noteq> None" for ks q
    using table [of ks] store [of q] ptr [of ks q] fresh by (auto split: if_splits)
  moreover have "mt_store m' q \<noteq> None \<longleftrightarrow> q \<in> ran ?M'" for q
  proof
    assume q: "mt_store m' q \<noteq> None"
    show "q \<in> ran ?M'"
    proof (cases "q = p")
      case True
      then have "?M' key = Some q" using q store [of q] rules [of key] by (simp split: if_splits)
      then show ?thesis by (rule ranI)
    next
      case False
      then have "?M key \<noteq> Some q" "q \<in> dom (mt_store m)" using q store [of q] by (auto split: if_splits)
      then obtain k where k: "?M k = Some q" unfolding dom ran_def by blast
      then have "?M' k = Some q" using \<open>?M key \<noteq> Some q\<close> rules [of k] by auto
      then show ?thesis by (rule ranI)
    qed
  next
    assume "q \<in> ran ?M'"
    then obtain k where k: "?M' k = Some q" unfolding ran_def by blast
    show "mt_store m' q \<noteq> None"
    proof (cases "k = key")
      case True
      then show ?thesis using k rules [of k] store [of q] by (simp split: if_splits)
    next
      case False
      then have kq: "?M k = Some q" using k rules [of k] by simp
      moreover have "mt_store m q \<noteq> None" using ranI [of ?M k q] kq dom by (metis domIff)
      ultimately show ?thesis using store [of q] np [of k] uniq [of k q key] False by auto
    qed
  qed
  moreover have "inj_on ?M' (dom ?M')"
  proof (rule inj_onI)
    fix k k' assume "k \<in> dom ?M'" "k' \<in> dom ?M'" "?M' k = ?M' k'"
    then obtain q where "?M' k = Some q" "?M' k' = Some q" by (metis domD)
    then show "k = k'"
      using rules [of k] rules [of k'] np [of k] np [of k'] uniq [of k q k'] by (metis option.inject option.simps(3))
  qed
  moreover have "mt_store m' q = Some r \<Longrightarrow> rule_wf r" for q r
    using store [of q] rwf [of q r] r' by (auto split: if_splits)
  moreover have "dom (mt_store m') = ran ?M'" using calculation(2) by (auto simp only: dom_def mem_Collect_eq)
  ultimately show ?thesis unfolding matcher_wf_def using tree by (simp only: domIff) blast
qed

text \<open>
  Replacing a rule that has two tuples merges the figures of the old rule into the new one twice: one
  packet of 100 bytes is then counted as 200.
\<close>

definition two_tuples_rule :: MatchRule where
  "two_tuples_rule =
     (MatchRule_new \<lparr>mrk_tag = 0, mrk_input_port = 0,
        mrk_five_tuples = [FiveTuple_new 5 0 0 0 0, FiveTuple_new 6 0 0 0 0]\<rparr>)
       \<lparr>mr_actions := [MatchRuleAction_new 1 9 1], mr_total_weight := 1\<rparr>"

lemma AddRule_merges_per_tuple:
  "(case rbind (Matcher_AddRule 0 two_tuples_rule Matcher_new) (\<lambda>m.
         rbind (Matcher_MatchOrNull (Packet_new (FiveTuple_new 5 8 17 1 1) 100 0 UDPPacket :: (unit, unit) Packet) 1 m) (\<lambda>(m, _).
         Matcher_AddRule 1 two_tuples_rule m)) of
      Inl _ \<Rightarrow> None
    | Inr m \<Rightarrow> map_option (\<lambda>r. as_total_bytes_matched (mra_stats (hd (mr_actions r)))) (mt_store m 1)) = Some 200"
  by code_simp

section \<open>Properties\<close>


definition sample_rule :: "PacketTag \<Rightarrow> MatchRule" where
  "sample_rule tag =
     (MatchRule_new \<lparr>mrk_tag = tag, mrk_input_port = 0, mrk_five_tuples = [FiveTuple_new 5 0 0 0 0]\<rparr>)
       \<lparr>mr_actions := [MatchRuleAction_new 1 9 3, MatchRuleAction_new 2 9 1], mr_total_weight := 4\<rparr>"

lemma sample_rule_wf: "rule_wf (sample_rule tag)" "\<not> mr_installed (sample_rule tag)"
  by (simp_all add: sample_rule_def rule_wf_def MatchRule_new_def MatchRuleAction_new_def)

text \<open>The rule entered into an empty matcher.\<close>

definition sample_matcher :: Matcher where
  "sample_matcher =
     \<lparr>mt_root = Node [] (Some (Node [(7, Node [] (Some (Node [(5, Node [] (Some (Node [] (Some (Node [] (Some (Leaf (Some 0))))))))] None)))] None)),
      mt_all_rules = [((0, 7, [(5, 0, 0, 0, 0)]), 0)],
      mt_store = [0 \<mapsto> (sample_rule 7)\<lparr>mr_installed := True\<rparr>]\<rparr>"

lemma sample_AddRule: "Matcher_AddRule 0 (sample_rule 7) Matcher_new = Ok sample_matcher"
  by (simp add: Matcher_AddRule_def MatchRule_set_parent_matcher_def sample_rule_def MatchRule_new_def Let_def
      insert_tuples_def match_keys_def upt_rec GetKeyAndWildcard_def Matcher_new_def MatchNode_new_def smap_get_def
      kWildDevicePortNumber_def kWildPacketTag_def kWildIPAddress_def kWildIPProto_def kWildAccessLayerPort_def
      FiveTuple_new_def leaf_InsertOrUpdate_def MatchRuleKey_tie_def FiveTuple_tie_def sample_matcher_def)


text \<open>C5. A packet is handled by the rule at the first of its candidate patterns that the table has, where
  a pattern that is exact in an earlier field comes first, and by none if there is none. The action is
  the rule's only one, or the one in whose share of the total weight the hash of the packet's tuple
  falls; it is null if the weights sum to zero. Neither a dead rule nor the fatal branch of
  \<open>ChooseOrNull\<close> is ever reached, and the matcher stays well-formed.\<close>

theorem Matcher_MatchOrNull_most_specific:
  assumes "matcher_wf m" "input_port \<noteq> 0"
  shows "case first_some (map (\<lambda>pat. node_lookup pat (mt_root m))
           (candidates (match_pattern (pkt_five_tuple pkt) input_port (pkt_tag pkt)))) of
      None \<Rightarrow> Matcher_MatchOrNull pkt input_port m = Ok (m, None)
    | Some p \<Rightarrow> \<exists>rule. mt_store m p = Some rule \<and>
        (let actions = mr_actions rule; total = unat (mr_total_weight rule);
             hash = unat (ft_hash (pkt_five_tuple pkt)) mod total
         in length actions \<noteq> 1 \<and> total = 0 \<and> Matcher_MatchOrNull pkt input_port m = Ok (m, None) \<or>
            (\<exists>i < length actions.
               Matcher_MatchOrNull pkt input_port m =
                 rbind (MatchRuleAction_UpdateStats pkt (actions ! i)) (\<lambda>action.
                   Ok (m\<lparr>mt_store := (mt_store m)(p \<mapsto> rule\<lparr>mr_actions := actions[i := action]\<rparr>)\<rparr>, Some action)) \<and>
               (\<forall>action. MatchRuleAction_UpdateStats pkt (actions ! i) = Ok action \<longrightarrow>
                  matcher_wf (m\<lparr>mt_store := (mt_store m)(p \<mapsto> rule\<lparr>mr_actions := actions[i := action]\<rparr>)\<rparr>)) \<and>
               (length actions = 1 \<or>
                (\<Sum>a\<leftarrow>take i actions. unat (mra_weight a)) \<le> hash \<and>
                hash < (\<Sum>a\<leftarrow>take (Suc i) actions. unat (mra_weight a)))))"
proof -
  let ?t = "pkt_five_tuple pkt"
  let ?first = "first_some (map (\<lambda>pat. node_lookup pat (mt_root m)) (candidates (match_pattern ?t input_port (pkt_tag pkt))))"
  have first: "MatchNode_MatchOrNull (match_keys ?t input_port (pkt_tag pkt)) (mt_root m) = ?first"
    using MatchNode_MatchOrNull_first [of "match_keys ?t input_port (pkt_tag pkt)" "mt_root m"] assms(1)
    by (simp add: match_keys_pattern matcher_wf_def)
  show ?thesis
  proof (cases ?first)
    case None
    then show ?thesis using first assms(2) by (simp add: Matcher_MatchOrNull_def kWildDevicePortNumber_def)
  next
    case (Some p)
    obtain ks where "node_lookup ks (mt_root m) = Some p" using first_some_mem [OF Some] by auto
    then obtain rule where rule: "mt_store m p = Some rule" "rule_wf rule"
      using assms(1) unfolding matcher_wf_def by blast
    have m: "Matcher_MatchOrNull pkt input_port m =
        rbind (MatchRule_ChooseOrNull pkt rule) (\<lambda>(rule, action). Ok (m\<lparr>mt_store := (mt_store m)(p \<mapsto> rule)\<rparr>, action))"
      using Some first rule(1) assms(2) by (simp add: Matcher_MatchOrNull_def kWildDevicePortNumber_def)
    consider (null) "MatchRule_ChooseOrNull_tuple ?t rule = Ok None" "length (mr_actions rule) \<noteq> 1" "mr_total_weight rule = 0"
      | (chosen) i where "i < length (mr_actions rule)" "MatchRule_ChooseOrNull_tuple ?t rule = Ok (Some i)"
        "length (mr_actions rule) = 1 \<or>
         (\<Sum>a\<leftarrow>take i (mr_actions rule). unat (mra_weight a)) \<le> unat (ft_hash ?t) mod unat (mr_total_weight rule) \<and>
         unat (ft_hash ?t) mod unat (mr_total_weight rule) < (\<Sum>a\<leftarrow>take (Suc i) (mr_actions rule). unat (mra_weight a))"
      using ChooseOrNull_tuple_cases [OF rule(2), of ?t] by blast
    then show ?thesis
    proof cases
      case null
      have "Matcher_MatchOrNull pkt input_port m = Ok (m, None)"
        unfolding m using null(1) rule(1) by (simp add: MatchRule_ChooseOrNull_def map_upd_triv)
      then show ?thesis using Some rule(1) null(2,3) by (simp add: Let_def)
    next
      case (chosen i)
      have "Matcher_MatchOrNull pkt input_port m =
          rbind (MatchRuleAction_UpdateStats pkt (mr_actions rule ! i)) (\<lambda>action.
            Ok (m\<lparr>mt_store := (mt_store m)(p \<mapsto> rule\<lparr>mr_actions := (mr_actions rule)[i := action]\<rparr>)\<rparr>, Some action))"
        unfolding m MatchRule_ChooseOrNull_def chosen(2)
        using chosen(1) by (cases "MatchRuleAction_UpdateStats pkt (mr_actions rule ! i)") simp_all
      moreover have "matcher_wf (m\<lparr>mt_store := (mt_store m)(p \<mapsto> rule\<lparr>mr_actions := (mr_actions rule)[i := action]\<rparr>)\<rparr>)"
        if "MatchRuleAction_UpdateStats pkt (mr_actions rule ! i) = Ok action" for action
        using matcher_wf_store_upd [OF assms(1) rule(1)] rule_wf_update [OF rule(2) that chosen(1)] .
      ultimately show ?thesis using Some rule(1) chosen(1,3)
        unfolding Let_def by (intro iffD2 [OF arg_cong [OF Some, of "case_option _ _"]]) auto
    qed
  qed
qed

lemma node_lookup_NodeE:
  assumes "node_lookup ks (Node ch wild) = Some p"
  obtains k ks' c where "wild = Some c \<or> map_of ch k = Some c" "node_lookup ks' c = Some p"
  using assms by (cases ks) (auto split: if_splits option.splits)

lemma node_lookup_LeafD: "node_lookup ks (Leaf r) = Some p \<Longrightarrow> r = Some p"
  by (cases ks) simp_all

lemma sample_matcher_wf: "matcher_wf sample_matcher"
proof -
  have "p = 0" if "node_lookup ks (mt_root sample_matcher) = Some p" for ks p
    using that unfolding sample_matcher_def
    by (auto elim!: node_lookup_NodeE dest!: node_lookup_LeafD split: if_splits)
  moreover have "rule_wf ((sample_rule 7)\<lparr>mr_installed := True\<rparr>)"
    using sample_rule_wf by (simp add: rule_wf_def)
  moreover have "node_wf (Suc (Suc (Suc (Suc (Suc (Suc (Suc 0))))))) (mt_root sample_matcher)"
    by (simp add: sample_matcher_def smap_wf_def)
  then have "node_wf 7 (mt_root sample_matcher)" by (simp add: numeral_eq_Suc)
  ultimately show ?thesis
    unfolding matcher_wf_def by (auto simp: sample_matcher_def smap_wf_def split: if_splits)
qed

definition sample_tagged :: "(unit, unit) Packet" where
  "sample_tagged = (Packet_new (FiveTuple_new 5 8 17 1 1) 100 0 UDPPacket)\<lparr>pkt_tag := 7\<rparr>"

theorem Matcher_MatchOrNull_most_specific_witness:
  "matcher_wf sample_matcher \<and> (1 :: DevicePortNumber) \<noteq> 0 \<and>
   (\<exists>m' action. Matcher_MatchOrNull sample_tagged 1 sample_matcher = Ok (m', Some action))"
proof -
  have pat: "match_pattern (pkt_five_tuple sample_tagged) 1 (pkt_tag sample_tagged) = [1, 7, 8, 5, 17, 1, 1]"
    by (simp add: sample_tagged_def Packet_new_def FiveTuple_new_def match_pattern_def)
  have first: "first_some (map (\<lambda>pat. node_lookup pat (mt_root sample_matcher)) (candidates [1, 7, 8, 5, 17, 1, 1])) = Some 0"
    by (simp add: sample_matcher_def)
  let ?rule = "(sample_rule 7)\<lparr>mr_installed := True\<rparr>"
  have rule: "mt_store sample_matcher 0 = Some ?rule" "length (mr_actions ?rule) = 2" "mr_total_weight ?rule = 4"
    by (simp_all add: sample_matcher_def sample_rule_def)
  have "\<exists>i < length (mr_actions ?rule). \<exists>f. Matcher_MatchOrNull sample_tagged 1 sample_matcher =
      rbind (MatchRuleAction_UpdateStats sample_tagged (mr_actions ?rule ! i)) (\<lambda>action. Ok (f action, Some action))"
    using Matcher_MatchOrNull_most_specific [OF sample_matcher_wf, of 1 sample_tagged] rule
    unfolding pat first Let_def by auto
  then obtain i f where i: "i < 2" "Matcher_MatchOrNull sample_tagged 1 sample_matcher =
      rbind (MatchRuleAction_UpdateStats sample_tagged (mr_actions ?rule ! i)) (\<lambda>action. Ok (f action, Some action))"
    using rule(2) by auto
  have "\<exists>a. MatchRuleAction_UpdateStats sample_tagged (mr_actions ?rule ! i) = Ok a"
    using i(1) by (auto simp: sample_rule_def sample_tagged_def Packet_new_def MatchRuleAction_UpdateStats_def
        MatchRuleAction_new_def ActionStats_new_def Let_def less_2_cases_iff)
  then show ?thesis using i(2) sample_matcher_wf by auto
qed

end
