(* ===== verification/Sim_Tcp.thy ===== *)
theory Sim_Tcp
  imports Sim_Packet
begin

text \<open>
  TCP as \<open>src/src/htsim/tcp.{h,cc}\<close> simulates it: the source, with its congestion window, retransmission timer and fast
  recovery, the sink with its cumulative acknowledgement, and the timer all sources share. Numbers are words of the width of the
  code's members; where the code mixes widths or signs, the conversion is written out. A source and a sink keep in
  \<open>ts_out\<close> and \<open>tk_out\<close> what they have handed on so far, in order: the packets passed to the output and
  the calls of callbacks, for the ones that only log whether they are set or not. A callback is taken not to call the
  source back. Signed arithmetic on round-trip times wraps, where the code's is undefined for times beyond \<open>2 ^ 60\<close>.
\<close>

section \<open>The source\<close>

record TCPSourceConfig =
  tc_mss :: "16 word"
  tc_maxcwnd :: "32 word"
  tc_inital_cwnd_size :: "32 word"
  tc_simulate_initial_handshake :: bool

definition TCPSourceConfig_default :: TCPSourceConfig where
  "TCPSourceConfig_default =
     \<lparr>tc_mss = 1500, tc_maxcwnd = 2000000, tc_inital_cwnd_size = 4, tc_simulate_initial_handshake = False\<rparr>"

datatype ('r, 'st) tcp_effect =
    Sent (sent_packet: "('r, 'st) Packet")
  | Fast_retx "64 word"
  | Retx_timeout "64 word"
  | Completion_time EventQueueTime "64 word"
  | Send_buffer_drained
  | Incoming_tag_change "32 word"

text \<open>The members set from the configuration never change; they are the field \<open>ts_config\<close>.\<close>

record ('r, 'st) TCPSource =
  ts_five_tuple :: FiveTuple
  ts_config :: TCPSourceConfig
  ts_last_sent_time :: EventQueueTime
  ts_highest_seqno_sent :: "64 word"
  ts_highest_seqno_sent_real :: "64 word"
  ts_cwnd :: "32 word"
  ts_last_acked :: "64 word"
  ts_dupacks :: "16 word"
  ts_ssthresh :: "32 word"
  ts_rtt :: "64 word"
  ts_rto :: "64 word"
  ts_mdev :: "64 word"
  ts_rtt_avg :: "64 word"
  ts_rtt_cum :: "64 word"
  ts_sawtooth :: "32 word"
  ts_recoverq :: "64 word"
  ts_in_fast_recovery :: bool
  ts_send_buffer :: "64 word"
  ts_first_sent_time :: EventQueueTime
  ts_close_count :: "64 word"
  ts_pending_add :: "64 word"
  ts_original_first_sent_time :: EventQueueTime
  ts_on_send_buffer_drained :: bool
  ts_complection_times_callback :: bool
  ts_stats :: ConnectionStats
  ts_out :: "('r, 'st) tcp_effect list"

abbreviation ts_mss :: "('r, 'st) TCPSource \<Rightarrow> 16 word" where
  "ts_mss s \<equiv> tc_mss (ts_config s)"

definition TCPSource_Close :: "('r, 'st) TCPSource \<Rightarrow> ('r, 'st) TCPSource" where
  "TCPSource_Close s =
     s\<lparr>ts_last_sent_time := 0, ts_first_sent_time := EventQueueTime_MaxTime, ts_highest_seqno_sent := 0,
       ts_highest_seqno_sent_real := 0, ts_cwnd := 0, ts_last_acked := 0, ts_dupacks := 0, ts_ssthresh := 0xffffffff,
       ts_rtt := 0, ts_mdev := 0, ts_rtt_avg := 0, ts_rtt_cum := 0, ts_sawtooth := 0, ts_recoverq := 0,
       ts_in_fast_recovery := False, ts_send_buffer := 0, ts_rto := SimTime_NanosToTime 1000000000,
       ts_close_count := ts_close_count s + 1\<rparr>"

definition ConnectionStats_new :: ConnectionStats where
  "ConnectionStats_new = \<lparr>cs_pkts_tx = 0, cs_pkts_rx = 0, cs_bytes_tx = 0, cs_bytes_rx = 0\<rparr>"

definition TCPSource_new :: "FiveTuple \<Rightarrow> TCPSourceConfig \<Rightarrow> ('r, 'st) TCPSource" where
  "TCPSource_new five_tuple tcp_config =
     TCPSource_Close
       \<lparr>ts_five_tuple = five_tuple, ts_config = tcp_config, ts_last_sent_time = 0, ts_highest_seqno_sent = 0,
        ts_highest_seqno_sent_real = 0, ts_cwnd = 0, ts_last_acked = 0, ts_dupacks = 0, ts_ssthresh = 0, ts_rtt = 0, ts_rto = 0,
        ts_mdev = 0, ts_rtt_avg = 0, ts_rtt_cum = 0, ts_sawtooth = 0, ts_recoverq = 0, ts_in_fast_recovery = False,
        ts_send_buffer = 0, ts_first_sent_time = 0, ts_close_count = 0, ts_pending_add = 0,
        ts_original_first_sent_time = EventQueueTime_MaxTime, ts_on_send_buffer_drained = False,
        ts_complection_times_callback = False, ts_stats = ConnectionStats_new, ts_out = []\<rparr>"

definition TCPSource_OnSendBufferDrained :: "('r, 'st) TCPSource \<Rightarrow> ('r, 'st) TCPSource" where
  "TCPSource_OnSendBufferDrained s = s\<lparr>ts_on_send_buffer_drained := True\<rparr>"

definition TCPSource_set_complection_times_callback :: "('r, 'st) TCPSource \<Rightarrow> ('r, 'st) TCPSource" where
  "TCPSource_set_complection_times_callback s = s\<lparr>ts_complection_times_callback := True\<rparr>"

definition TCPSource_note :: "('r, 'st) tcp_effect \<Rightarrow> ('r, 'st) TCPSource \<Rightarrow> ('r, 'st) TCPSource" where
  "TCPSource_note effect s = s\<lparr>ts_out := ts_out s @ [effect]\<rparr>"

definition TCPSource_SendPacket :: "('r, 'st) Packet \<Rightarrow> ('r, 'st) TCPSource \<Rightarrow> ('r, 'st) TCPSource" where
  "TCPSource_SendPacket pkt s =
     (let (stats, pkt) = Connection_SendPacket pkt (ts_stats s)
      in TCPSource_note (Sent pkt) (s\<lparr>ts_stats := stats\<rparr>))"

definition TCPSource_send_segment :: "EventQueueTime \<Rightarrow> ('r, 'st) TCPSource \<Rightarrow> ('r, 'st) TCPSource res" where
  "TCPSource_send_segment now s =
     (let s = (if ts_highest_seqno_sent s = 0 then s\<lparr>ts_first_sent_time := now\<rparr> else s);
          to_tx = min (ucast (ts_mss s)) (ts_send_buffer s)
      in rbind (TCPPacket_new (ts_five_tuple s) (ucast to_tx) now (ts_highest_seqno_sent s + 1)) (\<lambda>pkt.
           Ok (TCPSource_SendPacket pkt
             (s\<lparr>ts_send_buffer := ts_send_buffer s - to_tx,
                ts_highest_seqno_sent := ts_highest_seqno_sent s + to_tx,
                ts_highest_seqno_sent_real := ts_highest_seqno_sent_real s + to_tx,
                ts_last_sent_time := now\<rparr>))))"

partial_function (option) TCPSource_send_loop :: "EventQueueTime \<Rightarrow> ('r, 'st) TCPSource \<Rightarrow> ('r, 'st) TCPSource res option" where
  "TCPSource_send_loop now s =
     (if ts_last_acked s + ucast (ts_cwnd s) \<ge> ts_highest_seqno_sent s + ucast (ts_mss s) \<and> ts_send_buffer s \<noteq> 0
      then orbind (Some (TCPSource_send_segment now s)) (\<lambda>s. TCPSource_send_loop now s)
      else Some (Ok s))"

text \<open>
  \<open>SendPackets\<close> calls \<open>DataTransferred\<close>, that \<open>AddData\<close> for the data kept back during a handshake, and that
  \<open>SendPackets\<close>. The first argument of the next two is the \<open>DataTransferred\<close> they call.
\<close>

definition SendPackets_with ::
    "(('r, 'st) TCPSource \<Rightarrow> ('r, 'st) TCPSource res option) \<Rightarrow> EventQueueTime \<Rightarrow> ('r, 'st) TCPSource \<Rightarrow>
     ('r, 'st) TCPSource res option" where
  "SendPackets_with DataTransferred now s =
     (if ts_last_acked s \<ge> ts_highest_seqno_sent_real s \<and> ts_send_buffer s = 0 then DataTransferred s
      else TCPSource_send_loop now s)"

definition AddData_with ::
    "(('r, 'st) TCPSource \<Rightarrow> ('r, 'st) TCPSource res option) \<Rightarrow> EventQueueTime \<Rightarrow> 64 word \<Rightarrow> ('r, 'st) TCPSource \<Rightarrow>
     ('r, 'st) TCPSource res option" where
  "AddData_with DataTransferred now bytes s =
     (let s = (if ts_send_buffer s < ucast (ts_mss s) then TCPSource_Close s else s);
          reopen = (ts_cwnd s = 0);
          s = (if reopen then s\<lparr>ts_cwnd := tc_inital_cwnd_size (ts_config s) * ucast (ts_mss s)\<rparr> else s);
          handshake = (reopen \<and> tc_simulate_initial_handshake (ts_config s) \<and> ts_pending_add s = 0);
          s = (if handshake then s\<lparr>ts_pending_add := bytes\<rparr> else s);
          bytes = (if handshake then 1 else bytes);
          s = s\<lparr>ts_send_buffer := (if ts_send_buffer s + bytes < ts_send_buffer s then - 1 else ts_send_buffer s + bytes)\<rparr>
      in SendPackets_with DataTransferred now s)"

lemma SendPackets_with_mono [partial_function_mono]:
  assumes "\<And>s. mono_option (\<lambda>F. dt F s)"
  shows "mono_option (\<lambda>F. SendPackets_with (dt F) now s)"
  unfolding SendPackets_with_def by (rule if_mono) (rule assms, rule option.const_mono)

lemma AddData_with_mono [partial_function_mono]:
  assumes "\<And>s. mono_option (\<lambda>F. dt F s)"
  shows "mono_option (\<lambda>F. AddData_with (dt F) now bytes s)"
  unfolding AddData_with_def Let_def by (rule SendPackets_with_mono [OF assms])

partial_function (option) TCPSource_DataTransferred :: "EventQueueTime \<Rightarrow> ('r, 'st) TCPSource \<Rightarrow> ('r, 'st) TCPSource res option" where
  "TCPSource_DataTransferred now s =
     (if tc_simulate_initial_handshake (ts_config s) \<and> ts_pending_add s \<noteq> 0
      then orbind (AddData_with (\<lambda>s. TCPSource_DataTransferred now s) now (ts_pending_add s)
                     (s\<lparr>ts_original_first_sent_time := ts_first_sent_time s\<rparr>))
             (\<lambda>s. Some (Ok (s\<lparr>ts_pending_add := 0\<rparr>)))
      else if \<not> ts_on_send_buffer_drained s then Some (Ok s)
      else orbind (Some (if ts_complection_times_callback s
               then rbind (EventQueueTime_minus now (if tc_simulate_initial_handshake (ts_config s)
                        then ts_original_first_sent_time s else ts_first_sent_time s)) (\<lambda>completion_time.
                      Ok (TCPSource_note (Completion_time completion_time (ts_close_count s)) s))
               else Ok s)) (\<lambda>s.
             Some (Ok ((TCPSource_note Send_buffer_drained s)\<lparr>ts_on_send_buffer_drained := False\<rparr>))))"

definition TCPSource_SendPackets :: "EventQueueTime \<Rightarrow> ('r, 'st) TCPSource \<Rightarrow> ('r, 'st) TCPSource res option" where
  "TCPSource_SendPackets now s = SendPackets_with (TCPSource_DataTransferred now) now s"

definition TCPSource_AddData :: "EventQueueTime \<Rightarrow> 64 word \<Rightarrow> ('r, 'st) TCPSource \<Rightarrow> ('r, 'st) TCPSource res option" where
  "TCPSource_AddData now bytes s = AddData_with (TCPSource_DataTransferred now) now bytes s"

definition TCPSource_RetransmitPacket :: "EventQueueTime \<Rightarrow> ('r, 'st) TCPSource \<Rightarrow> ('r, 'st) TCPSource res" where
  "TCPSource_RetransmitPacket now s =
     rbind (TCPPacket_new (ts_five_tuple s) (ucast (ts_mss s)) now (ts_last_acked s + 1)) (\<lambda>pkt.
       Ok (TCPSource_SendPacket pkt (s\<lparr>ts_last_sent_time := now\<rparr>)))"

text \<open>
  \<open>InflateWindow\<close>. \<open>newly_acked\<close> is a signed number, of which the product with the segment size is computed in \<open>int\<close>;
  the divisions are unsigned.
\<close>

definition TCPSource_InflateWindow :: "('r, 'st) TCPSource \<Rightarrow> ('r, 'st) TCPSource res" where
  "TCPSource_InflateWindow s =
     (let newly_acked = (ucast (ts_last_acked s + ucast (ts_cwnd s) - ts_highest_seqno_sent s) :: 32 word);
          newly_acked = (if sint newly_acked > int (unat (ts_mss s)) then ucast (ts_mss s) else newly_acked)
      in if sint newly_acked < 0 then Ok s
         else if ts_cwnd s < ts_ssthresh s
         then let increase = min (ts_ssthresh s - ts_cwnd s) newly_acked;
                  cwnd = ts_cwnd s + increase
              in Ok (s\<lparr>ts_cwnd := (if cwnd > tc_maxcwnd (ts_config s) then tc_maxcwnd (ts_config s) else cwnd)\<rparr>)
         else if ts_mss s = 0 \<or> ts_cwnd s = 0 \<or> sint newly_acked * int (unat (ts_mss s)) \<ge> 2 ^ 31
         then Fail Undefined_behaviour
         else let pkts = ts_cwnd s div ucast (ts_mss s);
                  increase = newly_acked * ucast (ts_mss s) div ts_cwnd s;
                  increase = (if increase = 0 then 1 else increase);
                  s = s\<lparr>ts_cwnd := ts_cwnd s + increase\<rparr>
              in Ok (if pkts \<noteq> ts_cwnd s div ucast (ts_mss s)
                     then s\<lparr>ts_rtt_cum := ts_rtt_cum s + ts_rtt s, ts_sawtooth := ts_sawtooth s + 1\<rparr> else s))"

text \<open>The estimates of the round-trip time. \<open>m\<close> is signed, and converted when it is mixed with the members.\<close>

definition TCPSource_update_rtt :: "64 word \<Rightarrow> ('r, 'st) TCPSource \<Rightarrow> ('r, 'st) TCPSource" where
  "TCPSource_update_rtt m s =
     (if m = 0 then s
      else if ts_rtt s > 0
      then let m = m - drop_bit 3 (ts_rtt s);
               s = s\<lparr>ts_rtt := ts_rtt s + m\<rparr>;
               m = (if sint m < 0
                    then let m = - m - drop_bit 2 (ts_mdev s) in if sint m > 0 then drop_bit 3 m else m
                    else m - drop_bit 2 (ts_mdev s))
           in s\<lparr>ts_mdev := ts_mdev s + m\<rparr>
      else s\<lparr>ts_rtt := push_bit 3 m, ts_mdev := push_bit 1 m\<rparr>)"

definition TCPSource_update_rto :: "('r, 'st) TCPSource \<Rightarrow> ('r, 'st) TCPSource" where
  "TCPSource_update_rto s =
     (let rto = drop_bit 3 (ts_rtt s) + ts_mdev s;
          min_rtt = SimTime_NanosToTime 200000000;
          rto = (if rto < min_rtt then min_rtt else rto)
      in s\<lparr>ts_rto := (if rto > SimTime_NanosToTime 5000000000 then SimTime_NanosToTime 2000000000 else rto)\<rparr>)"

text \<open>The end of a sawtooth of the window, when fast recovery begins or the timer expires.\<close>

definition TCPSource_end_sawtooth :: "('r, 'st) TCPSource \<Rightarrow> ('r, 'st) TCPSource" where
  "TCPSource_end_sawtooth s =
     s\<lparr>ts_ssthresh := max (ts_cwnd s div 2) (2 * ucast (ts_mss s)),
       ts_rtt_avg := (if sint (ts_sawtooth s) > 0 then ts_rtt_cum s div ucast (ts_sawtooth s) else 0),
       ts_sawtooth := 0, ts_rtt_cum := 0\<rparr>"

definition TCPSource_new_ack :: "EventQueueTime \<Rightarrow> 64 word \<Rightarrow> ('r, 'st) TCPSource \<Rightarrow> ('r, 'st) TCPSource res option" where
  "TCPSource_new_ack now seqno s =
     (if \<not> ts_in_fast_recovery s
      then orbind (Some (TCPSource_InflateWindow (s\<lparr>ts_last_acked := seqno, ts_dupacks := 0\<rparr>))) (\<lambda>s.
             TCPSource_SendPackets now s)
      else if seqno \<ge> ts_recoverq s
      then let flightsize = ucast (ts_highest_seqno_sent s - seqno) :: 32 word
           in TCPSource_SendPackets now (s\<lparr>ts_cwnd := min (ts_ssthresh s) (flightsize + ucast (ts_mss s)),
                ts_last_acked := seqno, ts_dupacks := 0, ts_in_fast_recovery := False\<rparr>)
      else let new_data = ucast (seqno - ts_last_acked s) :: 32 word;
               cwnd = (if new_data < ts_cwnd s then ts_cwnd s - new_data else 0) + ucast (ts_mss s)
           in orbind (Some (TCPSource_RetransmitPacket now (s\<lparr>ts_last_acked := seqno, ts_cwnd := cwnd\<rparr>))) (\<lambda>s.
                TCPSource_SendPackets now (TCPSource_note (Fast_retx (ts_last_acked s + 1)) s)))"

definition TCPSource_dup_ack :: "EventQueueTime \<Rightarrow> ('r, 'st) TCPSource \<Rightarrow> ('r, 'st) TCPSource res option" where
  "TCPSource_dup_ack now s =
     (if ts_in_fast_recovery s
      then let cwnd = ts_cwnd s + ucast (ts_mss s)
           in TCPSource_SendPackets now
                (s\<lparr>ts_cwnd := (if cwnd > tc_maxcwnd (ts_config s) then tc_maxcwnd (ts_config s) else cwnd)\<rparr>)
      else let s = s\<lparr>ts_dupacks := ts_dupacks s + 1\<rparr>
           in if ts_dupacks s \<noteq> 3 then TCPSource_SendPackets now s
              else if ts_last_acked s < ts_recoverq s then Some (Ok s)
              else orbind (Some (TCPSource_RetransmitPacket now (TCPSource_end_sawtooth s))) (\<lambda>s.
                let s = TCPSource_note (Fast_retx (ts_last_acked s + 1)) s
                in Some (Ok (s\<lparr>ts_cwnd := ts_ssthresh s + 3 * ucast (ts_mss s), ts_in_fast_recovery := True,
                              ts_recoverq := ts_highest_seqno_sent s\<rparr>))))"

definition TCPSource_ReceivePacket ::
    "EventQueueTime \<Rightarrow> ('r, 'st) Packet \<Rightarrow> ('r, 'st) TCPSource \<Rightarrow> ('r, 'st) TCPSource res option" where
  "TCPSource_ReceivePacket now pkt s =
     (case pkt_kind pkt of
        TCPPacket sequence _ \<Rightarrow>
          let time_ack_sent = pkt_time_sent pkt
          in if time_ack_sent < ts_first_sent_time s then Some (Ok s)
             else let seqno = (if sequence < ts_last_acked s then ts_last_acked s else sequence)
                  in orbind (Some (EventQueueTime_minus now time_ack_sent)) (\<lambda>m.
                       let s = TCPSource_update_rto (TCPSource_update_rtt m s)
                       in if seqno > ts_last_acked s then TCPSource_new_ack now seqno s else TCPSource_dup_ack now s)
      | _ \<Rightarrow> Some (Fail Undefined_behaviour))"

definition TCPSource_RtxTimerHook :: "EventQueueTime \<Rightarrow> ('r, 'st) TCPSource \<Rightarrow> ('r, 'st) TCPSource res option" where
  "TCPSource_RtxTimerHook now s =
     (if ts_highest_seqno_sent s = 0 then Some (Ok s)
      else if ts_last_acked s \<ge> ts_highest_seqno_sent_real s then TCPSource_DataTransferred now s
      else if now \<le> ts_last_sent_time s + ts_rto s then Some (Ok s)
      else let flightsize = ucast (ts_highest_seqno_sent s - ts_last_acked s) :: 32 word;
               s = (if ts_in_fast_recovery s
                    then s\<lparr>ts_cwnd := min (ts_ssthresh s) (flightsize + ucast (ts_mss s))\<rparr> else s);
               s = TCPSource_end_sawtooth s;
               s = s\<lparr>ts_cwnd := ucast (ts_mss s), ts_in_fast_recovery := False, ts_recoverq := ts_highest_seqno_sent s,
                     ts_highest_seqno_sent := ts_last_acked s + ucast (ts_mss s), ts_dupacks := 0\<rparr>
           in Some (rbind (TCPSource_RetransmitPacket now s) (\<lambda>s.
                Ok (TCPSource_note (Retx_timeout (ts_last_acked s + 1)) s))))"

definition TCPSource_HandlePacket ::
    "EventQueueTime \<Rightarrow> ('r, 'st) Packet \<Rightarrow> ('r, 'st) TCPSource \<Rightarrow> ('r, 'st) TCPSource res option" where
  "TCPSource_HandlePacket now pkt s =
     (let (stats, pkt) = Connection_HandlePacket pkt (ts_stats s)
      in TCPSource_ReceivePacket now pkt (s\<lparr>ts_stats := stats\<rparr>))"

section \<open>The timer\<close>

text \<open>The sources are pointers, addresses into a store of sources.\<close>

record 'a TCPRtxTimer =
  rt_scan_period :: EventQueueTime
  rt_tcp_sources :: "'a list"

definition TCPRtxTimer_HandleEvent ::
    "'c \<Rightarrow> EventQueueTime \<Rightarrow> 'a TCPRtxTimer \<Rightarrow> ('a \<Rightarrow> ('r, 'st) TCPSource) \<Rightarrow>
     (('a \<Rightarrow> ('r, 'st) TCPSource) \<times> 'c request list) res option" where
  "TCPRtxTimer_HandleEvent c now timer sources =
     orbind (orfold (\<lambda>tcp_ptr sources.
         orbind (TCPSource_RtxTimerHook now (sources tcp_ptr)) (\<lambda>s. Some (Ok (sources(tcp_ptr := s)))))
       (rt_tcp_sources timer) sources) (\<lambda>sources. Some (Ok (sources, [EnqueueIn c (rt_scan_period timer)])))"

definition TCPRtxTimer_RegisterTCPSource :: "'c \<Rightarrow> 'a \<Rightarrow> 'a TCPRtxTimer \<Rightarrow> 'a TCPRtxTimer \<times> 'c request list" where
  "TCPRtxTimer_RegisterTCPSource c tcp_source timer =
     (let timer = timer\<lparr>rt_tcp_sources := rt_tcp_sources timer @ [tcp_source]\<rparr>
      in (timer, if length (rt_tcp_sources timer) = 1 then [EnqueueIn c (rt_scan_period timer)] else []))"

section \<open>The sink\<close>

record ('r, 'st) TCPSink =
  tk_five_tuple :: FiveTuple
  tk_cumulative_ack :: "64 word"
  tk_received :: "64 word list"
  tk_last_seen_incoming_tag :: PacketTag
  tk_tag_change_count :: "64 word"
  tk_stats :: ConnectionStats
  tk_out :: "('r, 'st) tcp_effect list"

definition TCPSink_new :: "FiveTuple \<Rightarrow> ('r, 'st) TCPSink" where
  "TCPSink_new five_tuple =
     \<lparr>tk_five_tuple = five_tuple, tk_cumulative_ack = 0, tk_received = [], tk_last_seen_incoming_tag = - 1,
      tk_tag_change_count = 0, tk_stats = ConnectionStats_new, tk_out = []\<rparr>"

definition TCPSink_AddData :: "64 word \<Rightarrow> ('r, 'st) TCPSink \<Rightarrow> ('r, 'st) TCPSink res" where
  "TCPSink_AddData bytes s = Fail Log_fatal"

definition TCPSink_Close :: "('r, 'st) TCPSink \<Rightarrow> ('r, 'st) TCPSink res" where
  "TCPSink_Close s = Fail Log_fatal"

definition TCPSink_Reset :: "('r, 'st) TCPSink \<Rightarrow> ('r, 'st) TCPSink" where
  "TCPSink_Reset s = s\<lparr>tk_cumulative_ack := 0, tk_last_seen_incoming_tag := - 1, tk_received := []\<rparr>"

definition kAckSize :: "32 word" where
  "kAckSize = 40"

definition TCPSink_SendAck :: "EventQueueTime \<Rightarrow> ('r, 'st) TCPSink \<Rightarrow> ('r, 'st) TCPSink res" where
  "TCPSink_SendAck time_sent s =
     rbind (TCPPacket_new (tk_five_tuple s) kAckSize time_sent (tk_cumulative_ack s)) (\<lambda>pkt.
       let (stats, pkt) = Connection_SendPacket pkt (tk_stats s)
       in Ok (s\<lparr>tk_stats := stats, tk_out := tk_out s @ [Sent pkt]\<rparr>))"

text \<open>The packets received earlier that can be acknowledged now.\<close>

fun sink_drain :: "64 word \<Rightarrow> 64 word \<Rightarrow> 64 word list \<Rightarrow> 64 word \<times> 64 word list" where
  "sink_drain size_bytes cumulative_ack [] = (cumulative_ack, [])"
| "sink_drain size_bytes cumulative_ack (front # received) =
     (if front = cumulative_ack + 1 then sink_drain size_bytes (cumulative_ack + size_bytes) received
      else (cumulative_ack, front # received))"

fun sink_fill_hole :: "64 word \<Rightarrow> 64 word list \<Rightarrow> 64 word list" where
  "sink_fill_hole seqno [] = []"
| "sink_fill_hole seqno (it # received) =
     (if seqno = it then it # received
      else if seqno < it then seqno # it # received
      else it # sink_fill_hole seqno received)"

text \<open>What becomes of the acknowledged bytes and the segments after a hole.\<close>

definition sink_place :: "64 word \<Rightarrow> 64 word \<Rightarrow> 64 word \<times> 64 word list \<Rightarrow> 64 word \<times> 64 word list" where
  "sink_place size_bytes seqno = (\<lambda>(cumulative_ack, received).
     if seqno = cumulative_ack + 1 then sink_drain size_bytes (seqno + size_bytes - 1) received
     else if seqno < cumulative_ack + 1 then (cumulative_ack, received)
     else if received = [] then (cumulative_ack, [seqno])
     else if seqno > last received then (cumulative_ack, received @ [seqno])
     else (cumulative_ack, sink_fill_hole seqno received))"

definition TCPSink_ReceivePacket :: "('r, 'st) Packet \<Rightarrow> ('r, 'st) TCPSink \<Rightarrow> ('r, 'st) TCPSink res" where
  "TCPSink_ReceivePacket pkt s =
     (case pkt_kind pkt of
        TCPPacket seqno _ \<Rightarrow>
          let size_bytes = ucast (pkt_size_bytes pkt);
              s = (if seqno = 1 then TCPSink_Reset s else s);
              s = (if tk_last_seen_incoming_tag s \<noteq> pkt_tag pkt
                   then s\<lparr>tk_tag_change_count := tk_tag_change_count s + 1,
                          tk_out := tk_out s @ [Incoming_tag_change (ucast (tk_tag_change_count s + 1))],
                          tk_last_seen_incoming_tag := pkt_tag pkt\<rparr>
                   else s);
              (cumulative_ack, received) = sink_place size_bytes seqno (tk_cumulative_ack s, tk_received s)
          in TCPSink_SendAck (pkt_time_sent pkt) (s\<lparr>tk_cumulative_ack := cumulative_ack, tk_received := received\<rparr>)
      | _ \<Rightarrow> Fail Undefined_behaviour)"

definition TCPSink_HandlePacket :: "('r, 'st) Packet \<Rightarrow> ('r, 'st) TCPSink \<Rightarrow> ('r, 'st) TCPSink res" where
  "TCPSink_HandlePacket pkt s =
     (let (stats, pkt) = Connection_HandlePacket pkt (tk_stats s)
      in TCPSink_ReceivePacket pkt (s\<lparr>tk_stats := stats\<rparr>))"

section \<open>UDP\<close>

record ('r, 'st) UDPConnection =
  uc_five_tuple :: FiveTuple
  uc_stats :: ConnectionStats
  uc_out :: "('r, 'st) Packet list"

definition UDPSource_AddData :: "EventQueueTime \<Rightarrow> 64 word \<Rightarrow> ('r, 'st) UDPConnection \<Rightarrow> ('r, 'st) UDPConnection res" where
  "UDPSource_AddData now pkt_size s =
     rbind (UDPPacket_new (uc_five_tuple s) (ucast pkt_size) now) (\<lambda>pkt.
       let (stats, pkt) = Connection_SendPacket pkt (uc_stats s)
       in Ok (s\<lparr>uc_stats := stats, uc_out := uc_out s @ [pkt]\<rparr>))"

definition UDPConnection_new :: "FiveTuple \<Rightarrow> ('r, 'st) UDPConnection" where
  "UDPConnection_new five_tuple = \<lparr>uc_five_tuple = five_tuple, uc_stats = ConnectionStats_new, uc_out = []\<rparr>"

definition UDPConnection_Close :: "('r, 'st) UDPConnection \<Rightarrow> ('r, 'st) UDPConnection res" where
  "UDPConnection_Close s = Fail Check_failed"

definition UDPSink_AddData :: "64 word \<Rightarrow> ('r, 'st) UDPConnection \<Rightarrow> ('r, 'st) UDPConnection res" where
  "UDPSink_AddData bytes s = Fail Check_failed"

definition UDPSource_HandlePacket :: "('r, 'st) Packet \<Rightarrow> ('r, 'st) UDPConnection \<Rightarrow> ('r, 'st) UDPConnection res" where
  "UDPSource_HandlePacket pkt s = Fail Check_failed"

definition UDPSink_HandlePacket :: "('r, 'st) Packet \<Rightarrow> ('r, 'st) UDPConnection \<Rightarrow> ('r, 'st) UDPConnection res" where
  "UDPSink_HandlePacket pkt s =
     (let (stats, pkt) = Connection_HandlePacket pkt (uc_stats s) in Ok (s\<lparr>uc_stats := stats\<rparr>))"

end
