(* ===== verification/Tcp_Sink.thy ===== *)
theory Tcp_Sink
  imports Sim_Tcp
begin

text \<open>
  What the sink of \<open>src/src/htsim/tcp.cc\<close> acknowledges, for flows of segments of one size that arrive in any order and any
  number of times: \<open>sink_inv\<close> relates its state to the set of segments it has seen since the last first one.
\<close>


section \<open>The sink\<close>

text \<open>The number of bytes before segment \<open>j\<close>.\<close>

definition offset :: "nat \<Rightarrow> nat \<Rightarrow> 64 word" where
  "offset sz j = of_nat (sz * j)"

lemma unat_offset: "sz * j < 2 ^ 64 \<Longrightarrow> unat (offset sz j) = sz * j"
  unfolding offset_def by (intro of_nat_unat_less) simp

lemma offset_Suc: "offset sz (Suc j) = offset sz j + of_nat sz" "offset sz 0 = 0"
  by (simp_all add: offset_def algebra_simps)

text \<open>A packet that carries segment \<open>j\<close> of a flow whose segments all have the same size.\<close>

definition segment :: "32 word \<Rightarrow> nat \<Rightarrow> ('r, 'st) Packet \<Rightarrow> bool" where
  "segment mss j pkt \<longleftrightarrow> pkt_size_bytes pkt = mss \<and> unat mss * Suc j + 1 < 2 ^ 64 \<and>
     (\<exists>flags. pkt_kind pkt = TCPPacket (offset (unat mss) j + 1) flags)"

text \<open>The segments the sink remembers: the first one makes it forget what it had.\<close>

definition remember :: "nat \<Rightarrow> nat set \<Rightarrow> nat set" where
  "remember j R = (if j = 0 then {0} else insert j R)"

definition first_missing :: "nat set \<Rightarrow> nat" where
  "first_missing R = (LEAST k. k \<notin> R)"

lemma first_missing_eq:
  assumes "{..<k} \<subseteq> R" "k \<notin> R"
  shows "first_missing R = k"
  unfolding first_missing_def
proof (rule Least_equality)
  show "k \<notin> R" by fact
  show "k \<le> j" if "j \<notin> R" for j using that assms(1) by (meson lessThan_iff not_le subsetD)
qed

definition sink_inv :: "nat \<Rightarrow> nat set \<Rightarrow> ('r, 'st) TCPSink \<Rightarrow> bool" where
  "sink_inv sz R s \<longleftrightarrow> (\<exists>k js. R = {..<k} \<union> set js \<and> sorted_wrt (<) js \<and> (\<forall>j \<in> set js. k < j) \<and>
     (\<forall>j \<in> R. sz * Suc j + 1 < 2 ^ 64) \<and> tk_cumulative_ack s = offset sz k \<and>
     tk_received s = map (\<lambda>j. offset sz j + 1) js)"

lemma unat_seqno:
  assumes "sz * Suc j < 2 ^ 64" "0 < sz"
  shows "unat (offset sz j + 1) = sz * j + 1"
proof -
  have "sz * j + 1 < 2 ^ 64" using assms by simp
  then show ?thesis using unat_offset [of sz j] by (simp add: unat_word_ariths)
qed

lemma seqno_less_iff:
  assumes "sz * Suc i < 2 ^ 64" "sz * Suc j < 2 ^ 64" "0 < sz"
  shows "(offset sz i + 1) < offset sz j + 1 \<longleftrightarrow> i < j"
    "(offset sz i + 1) = offset sz j + 1 \<longleftrightarrow> i = j"
  unfolding word_less_nat_alt word_unat_eq_iff unat_seqno [OF assms(1,3)] unat_seqno [OF assms(2,3)] using assms(3) by simp_all

lemma sink_drain_segments:
  assumes "sorted_wrt (<) js" "\<forall>j \<in> set js. k \<le> j" "\<forall>j \<in> set js. sz * Suc j < 2 ^ 64" "0 < sz" "sz * k < 2 ^ 64"
  shows "\<exists>k' js'. sink_drain (of_nat sz) (offset sz k) (map (\<lambda>j. offset sz j + 1) js) =
      (offset sz k', map (\<lambda>j. offset sz j + 1) js') \<and>
    {..<k} \<union> set js = {..<k'} \<union> set js' \<and> sorted_wrt (<) js' \<and> (\<forall>j \<in> set js'. k' < j)"
  using assms
proof (induction js arbitrary: k)
  case Nil
  then show ?case by (intro exI [of _ k] exI [of _ "[]"]) simp
next
  case (Cons j js)
  show ?case
  proof (cases "j = k")
    case True
    have "sz * Suc k < 2 ^ 64" "\<forall>j \<in> set js. Suc k \<le> j" using Cons.prems True by auto
    with Cons.IH [of "Suc k"] Cons.prems obtain k' js' where
      "sink_drain (of_nat sz) (offset sz (Suc k)) (map (\<lambda>j. offset sz j + 1) js) =
         (offset sz k', map (\<lambda>j. offset sz j + 1) js')"
      "{..<Suc k} \<union> set js = {..<k'} \<union> set js'" "sorted_wrt (<) js'" "\<forall>j \<in> set js'. k' < j" by auto
    then show ?thesis using True by (intro exI [of _ k'] exI [of _ js']) (auto simp: lessThan_Suc offset_Suc)
  next
    case False
    have "(offset sz j + 1) \<noteq> offset sz k + 1"
    proof -
      have "k < j" using False Cons.prems(2) by simp
      then have "sz * Suc k \<le> sz * j" using mult_le_mono2 [of "Suc k" j sz] by simp
      then have "sz * Suc k < 2 ^ 64" using Cons.prems(3) by (simp add: algebra_simps)
      then show ?thesis using seqno_less_iff(2) [of sz j k] Cons.prems(3,4) False by simp
    qed
    then show ?thesis using False Cons.prems
      by (intro exI [of _ k] exI [of _ "j # js"]) (auto simp: le_less)
  qed
qed

lemma sink_fill_hole_segments:
  assumes "sorted_wrt (<) js" "\<forall>i \<in> set (j # js). sz * Suc i < 2 ^ 64" "0 < sz" "js \<noteq> []" "j \<le> last js"
  shows "\<exists>js'. sink_fill_hole (offset sz j + 1) (map (\<lambda>j. offset sz j + 1) js) = map (\<lambda>j. offset sz j + 1) js' \<and>
    sorted_wrt (<) js' \<and> set js' = insert j (set js)"
  using assms
proof (induction js)
  case (Cons i js)
  have eq: "(offset sz j + 1) = offset sz i + 1 \<longleftrightarrow> j = i"
    and less: "(offset sz j + 1) < offset sz i + 1 \<longleftrightarrow> j < i"
    using seqno_less_iff [of sz j i] Cons.prems(2,3) by simp_all
  consider "j = i" | "j < i" | "i < j" by linarith
  then show ?case
  proof cases
    case 1
    then show ?thesis using Cons.prems(1) by (intro exI [of _ "i # js"]) auto
  next
    case 2
    then show ?thesis using Cons.prems(1) eq less by (intro exI [of _ "j # i # js"]) auto
  next
    case 3
    then have "js \<noteq> []" using Cons.prems(5) by auto
    with Cons.IH Cons.prems obtain js' where
      js': "sink_fill_hole (offset sz j + 1) (map (\<lambda>j. offset sz j + 1) js) = map (\<lambda>j. offset sz j + 1) js'"
      "sorted_wrt (<) js'" "set js' = insert j (set js)" by auto
    then show ?thesis using 3 eq less Cons.prems(1) by (intro exI [of _ "i # js'"]) auto
  qed
qed simp

text \<open>The packets among the things handed on.\<close>

definition sent_packets :: "('r, 'st) tcp_effect list \<Rightarrow> ('r, 'st) Packet list" where
  "sent_packets es = concat (map (\<lambda>e. case e of Sent p \<Rightarrow> [p] | _ \<Rightarrow> []) es)"

lemma sent_packets_simps [simp]:
  "sent_packets [] = []" "sent_packets (es @ fs) = sent_packets es @ sent_packets fs"
  "sent_packets (Sent p # es) = p # sent_packets es" "sent_packets (Fast_retx n # es) = sent_packets es"
  "sent_packets (Retx_timeout n # es) = sent_packets es" "sent_packets (Completion_time t n # es) = sent_packets es"
  "sent_packets (Send_buffer_drained # es) = sent_packets es" "sent_packets (Incoming_tag_change m # es) = sent_packets es"
  by (simp_all add: sent_packets_def)

definition ack_for :: "('r, 'st) Packet \<Rightarrow> 64 word \<Rightarrow> ('r, 'st) Packet \<Rightarrow> bool" where
  "ack_for pkt seqno ack \<longleftrightarrow> pkt_time_sent ack = pkt_time_sent pkt \<and> pkt_kind ack = TCPPacket seqno 0"

lemma TCPSink_ReceivePacket_place:
  assumes "pkt_kind pkt = TCPPacket seqno flags"
  shows "\<exists>s' ack. TCPSink_HandlePacket pkt s = Ok s' \<and> sent_packets (tk_out s') = sent_packets (tk_out s) @ [ack] \<and>
    ack_for pkt (tk_cumulative_ack s') ack \<and>
    (tk_cumulative_ack s', tk_received s') = sink_place (ucast (pkt_size_bytes pkt)) seqno
      (if seqno = 1 then (0, []) else (tk_cumulative_ack s, tk_received s))"
proof -
  let ?s = "if seqno = 1 then TCPSink_Reset s else s"
  obtain c r where cr: "sink_place (ucast (pkt_size_bytes pkt)) seqno (tk_cumulative_ack ?s, tk_received ?s) = (c, r)" by fastforce
  moreover have "(tk_cumulative_ack ?s, tk_received ?s) = (if seqno = 1 then (0, []) else (tk_cumulative_ack s, tk_received s))"
    by (simp add: TCPSink_Reset_def)
  moreover have "tk_out ?s = tk_out s" by (simp add: TCPSink_Reset_def)
  ultimately show ?thesis
    using assms by (cases "seqno = 1") (simp_all add: TCPSink_HandlePacket_def Connection_HandlePacket_def TCPSink_ReceivePacket_def Let_def TCPSink_SendAck_def
      TCPPacket_new_def kAckSize_def check_def Connection_SendPacket_def ack_for_def Packet_new_def TCPSink_Reset_def)
qed

lemma sink_place_segment:
  assumes js: "sorted_wrt (<) js" "\<forall>j \<in> set js. k < j" and sz: "0 < sz" "sz * k + 1 < 2 ^ 64"
    and bound: "\<forall>i \<in> insert j (set js). sz * Suc i < 2 ^ 64"
  shows "\<exists>k' js'. sink_place (of_nat sz) (offset sz j + 1) (offset sz k, map (\<lambda>j. offset sz j + 1) js) =
      (offset sz k', map (\<lambda>j. offset sz j + 1) js') \<and>
    insert j ({..<k} \<union> set js) = {..<k'} \<union> set js' \<and> sorted_wrt (<) js' \<and> (\<forall>j \<in> set js'. k' < j)"
proof -
  let ?enc = "map (\<lambda>j. offset sz j + 1)"
  have enc: "(offset sz i + 1 = offset sz i' + 1 \<longleftrightarrow> i = i') \<and> (offset sz i + 1 < offset sz i' + 1 \<longleftrightarrow> i < i')"
    if "i \<in> insert j (set js)" "i' \<in> insert j (set js)" for i i' using seqno_less_iff [of sz i i'] bound sz(1) that by blast
  consider (expected) "j = k" | (old) "j < k" | (hole) "k < j" by linarith
  then show ?thesis
  proof cases
    case expected
    have "sink_place (of_nat sz) (offset sz j + 1) (offset sz k, ?enc js) = sink_drain (of_nat sz) (offset sz (Suc k)) (?enc js)"
      using expected by (simp add: sink_place_def offset_Suc)
    moreover have "\<forall>j \<in> set js. Suc k \<le> j" using js(2) by auto
    ultimately show ?thesis
      using sink_drain_segments [OF js(1), of "Suc k" sz] bound sz expected by (auto simp: lessThan_Suc insert_commute)
  next
    case old
    have "unat (offset sz j + 1) = sz * j + 1" using unat_seqno bound sz(1) by blast
    moreover have "unat (offset sz k + 1) = sz * k + 1" using unat_offset [of sz k] sz(2) by (simp add: unat_word_ariths)
    moreover have "sz * Suc j \<le> sz * k" using old by (intro mult_le_mono2) simp
    ultimately have "offset sz j + 1 < offset sz k + 1" using old sz(1) unfolding word_less_nat_alt by simp
    then show ?thesis using old js by (intro exI [of _ k] exI [of _ js]) (auto simp: sink_place_def)
  next
    case hole
    then have "sz * Suc k \<le> sz * j" by (intro mult_le_mono2) simp
    moreover have "sz * Suc j < 2 ^ 64" using bound by simp
    ultimately have "sz * Suc k < 2 ^ 64" by (simp add: algebra_simps)
    then have beyond: "\<not> offset sz j + 1 < offset sz k + 1" "offset sz j + 1 \<noteq> offset sz k + 1"
      using seqno_less_iff [of sz j k] bound sz(1) hole by simp_all
    show ?thesis
    proof (cases "js = [] \<or> last js < j")
      case True
      then have "sink_place (of_nat sz) (offset sz j + 1) (offset sz k, ?enc js) = (offset sz k, ?enc (js @ [j]))"
        using beyond enc [of "last js" j] by (auto simp: sink_place_def last_map)
      moreover have "\<forall>i \<in> set js. i < j"
        using True js(1) by (cases js rule: rev_cases) (auto simp: sorted_wrt_append)
      ultimately show ?thesis using js hole by (intro exI [of _ k] exI [of _ "js @ [j]"]) (auto simp: sorted_wrt_append)
    next
      case False
      then have "sink_place (of_nat sz) (offset sz j + 1) (offset sz k, ?enc js) =
          (offset sz k, sink_fill_hole (offset sz j + 1) (?enc js))"
        using beyond enc [of "last js" j] by (simp add: sink_place_def last_map)
      moreover obtain js' where "sink_fill_hole (offset sz j + 1) (?enc js) = ?enc js'" "sorted_wrt (<) js'" "set js' = insert j (set js)"
        using sink_fill_hole_segments [OF js(1), of j sz] bound sz(1) False by auto
      ultimately show ?thesis using js hole by (intro exI [of _ k] exI [of _ js']) auto
    qed
  qed
qed

lemma sink_step:
  fixes s :: "('r, 'st) TCPSink"
  assumes inv: "sink_inv (unat mss) R s" and seg: "segment mss j pkt" and mss: "mss \<noteq> 0"
  shows "\<exists>s' ack. TCPSink_HandlePacket pkt s = Ok s' \<and> sink_inv (unat mss) (remember j R) s' \<and>
    sent_packets (tk_out s') = sent_packets (tk_out s) @ [ack] \<and>
    ack_for pkt (offset (unat mss) (first_missing (remember j R))) ack"
proof -
  let ?sz = "unat mss"
  have sz: "0 < ?sz" using mss by (simp add: unat_gt_0)
  obtain flags where pkt: "pkt_kind pkt = TCPPacket (offset ?sz j + 1) flags" "pkt_size_bytes pkt = mss" "?sz * Suc j + 1 < 2 ^ 64"
    using seg by (auto simp: segment_def)
  have one: "offset ?sz j + 1 = 1 \<longleftrightarrow> j = 0" using unat_seqno [of ?sz j] pkt(3) sz by (auto simp: offset_Suc word_unat_eq_iff)
  obtain k js where k: "(if j = 0 then {} else R) = {..<k} \<union> set js" "sorted_wrt (<) js" "\<forall>j \<in> set js. k < j"
    "\<forall>j \<in> {..<k} \<union> set js. ?sz * Suc j + 1 < 2 ^ 64"
    "(if j = 0 then (0, []) else (tk_cumulative_ack s, tk_received s)) = (offset ?sz k, map (\<lambda>j. offset ?sz j + 1) js)"
  proof (cases "j = 0")
    case True
    then show thesis using that [of 0 "[]"] by (simp add: offset_Suc)
  next
    case False
    then show thesis using inv that unfolding sink_inv_def by auto
  qed
  have szk: "?sz * k + 1 < 2 ^ 64"
    using k(4) by (cases k) auto
  obtain k' js' where place: "sink_place (of_nat ?sz) (offset ?sz j + 1) (offset ?sz k, map (\<lambda>j. offset ?sz j + 1) js) =
      (offset ?sz k', map (\<lambda>j. offset ?sz j + 1) js')"
    "insert j ({..<k} \<union> set js) = {..<k'} \<union> set js'" "sorted_wrt (<) js'" "\<forall>j \<in> set js'. k' < j"
    using sink_place_segment [OF k(2,3) sz szk, of j] k(4) pkt(3) by force
  have R': "remember j R = {..<k'} \<union> set js'"
    using place(2) k(1) by (simp add: remember_def split: if_splits)
  obtain s' :: "('r, 'st) TCPSink" and ack where s': "TCPSink_HandlePacket pkt s = Ok s'" "sent_packets (tk_out s') = sent_packets (tk_out s) @ [ack]"
    "ack_for pkt (tk_cumulative_ack s') ack"
    "(tk_cumulative_ack s', tk_received s') = (offset ?sz k', map (\<lambda>j. offset ?sz j + 1) js')"
    using TCPSink_ReceivePacket_place [OF pkt(1), of s] k(5) place(1) one pkt(2) by (auto split: if_splits)
  have "sink_inv ?sz (remember j R) s'"
    unfolding sink_inv_def using s'(4) place(3,4) R' k(1,4) pkt(3) place(2) by (intro exI [of _ k'] exI [of _ js']) auto
  moreover have "first_missing (remember j R) = k'" using place(4) unfolding R' by (intro first_missing_eq) auto
  ultimately show ?thesis using s' by (intro exI [of _ s'] exI [of _ ack]) simp
qed

lemma sink_inv_new: "sink_inv sz {} (TCPSink_new five_tuple)"
  by (auto simp: sink_inv_def TCPSink_new_def offset_Suc intro!: exI [of _ 0])

lemma sink_run:
  assumes "list_all2 (segment mss) js pkts" "mss \<noteq> 0"
  shows "\<exists>s'. rfold TCPSink_HandlePacket pkts (TCPSink_new five_tuple) = Ok s' \<and>
    sink_inv (unat mss) (fold remember js {}) s' \<and> length (sent_packets (tk_out s')) = length js \<and>
    (\<forall>i < length js. ack_for (pkts ! i) (offset (unat mss) (first_missing (fold remember (take (Suc i) js) {})))
      (sent_packets (tk_out s') ! i))"
  using assms(1)
proof (induction pkts arbitrary: js rule: rev_induct)
  case Nil
  then show ?case using sink_inv_new by (simp add: TCPSink_new_def)
next
  case (snoc pkt pkts)
  then obtain js' j where js: "js = js' @ [j]" "list_all2 (segment mss) js' pkts" "segment mss j pkt"
    by (auto simp: list_all2_append2 list_all2_Cons2)
  have len: "length js' = length pkts" using js(2) by (rule list_all2_lengthD)
  from snoc.IH [OF js(2)] obtain s where
    s: "rfold TCPSink_HandlePacket pkts (TCPSink_new five_tuple) = Ok s" "sink_inv (unat mss) (fold remember js' {}) s"
      "length (sent_packets (tk_out s)) = length js'"
      "\<forall>i < length js'. ack_for (pkts ! i) (offset (unat mss) (first_missing (fold remember (take (Suc i) js') {})))
        (sent_packets (tk_out s) ! i)" by blast
  from sink_step [OF s(2) js(3) assms(2)] obtain s' ack where
    s': "TCPSink_HandlePacket pkt s = Ok s'" "sink_inv (unat mss) (fold remember js {}) s'"
      "sent_packets (tk_out s') = sent_packets (tk_out s) @ [ack]"
      "ack_for pkt (offset (unat mss) (first_missing (fold remember js {}))) ack" by (auto simp: js(1))
  have "rfold TCPSink_HandlePacket (pkts @ [pkt]) (TCPSink_new five_tuple) = Ok s'" using s(1) s'(1) by (simp add: rfold_append)
  moreover have "ack_for ((pkts @ [pkt]) ! i) (offset (unat mss) (first_missing (fold remember (take (Suc i) js) {})))
      (sent_packets (tk_out s') ! i)" if i: "i < length js" for i
  proof (cases "i < length js'")
    case True
    then show ?thesis using s(3,4) s'(3) len by (simp add: js(1) nth_append)
  next
    case False
    then have "i = length js'" using i by (simp add: js(1))
    then show ?thesis using s(3) s'(3,4) len by (simp add: js(1) nth_append)
  qed
  ultimately show ?case using s'(2,3) s(3) by (intro exI [of _ s']) (simp add: js(1))
qed

text \<open>C16. The sink acknowledges every packet, in order. If all segments have the same size the acknowledgement has the
  number of bytes before the first segment that is missing among those received since the last copy of the first
  segment: another copy makes the sink start over.\<close>

theorem TCPSink_acknowledges:
  assumes "list_all2 (segment mss) js pkts" and "mss \<noteq> 0"
  shows "\<exists>s'. rfold TCPSink_HandlePacket pkts (TCPSink_new five_tuple) = Ok s' \<and>
    length (sent_packets (tk_out s')) = length js \<and>
    (\<forall>i < length js. ack_for (pkts ! i) (offset (unat mss) (first_missing (fold remember (take (Suc i) js) {})))
      (sent_packets (tk_out s') ! i))"
  using sink_run [OF assms, of five_tuple] by blast

definition data_packet :: "32 word \<Rightarrow> nat \<Rightarrow> (unit, unit) Packet" where
  "data_packet mss j = Packet_new FiveTuple_default mss 7 (TCPPacket (offset (unat mss) j + 1) 0)"

theorem TCPSink_acknowledges_witness:
  "\<exists>s'. rfold TCPSink_HandlePacket (map (data_packet 1500) [0, 2, 1]) (TCPSink_new FiveTuple_default) = Ok s' \<and>
     (\<exists>a b c. sent_packets (tk_out s') = [a, b, c] \<and> pkt_kind a = TCPPacket 1500 0 \<and> pkt_kind b = TCPPacket 1500 0 \<and>
        pkt_kind c = TCPPacket 4500 0)"
proof -
  have "list_all2 (segment 1500) [0, 2, 1] (map (data_packet 1500) [0, 2, 1])"
    by (simp add: segment_def data_packet_def Packet_new_def)
  from TCPSink_acknowledges [OF this, of FiveTuple_default] obtain s' where
    s': "rfold TCPSink_HandlePacket (map (data_packet 1500) [0, 2, 1]) (TCPSink_new FiveTuple_default) = Ok s'"
    "length (sent_packets (tk_out s')) = 3"
    "\<forall>i < 3. ack_for (map (data_packet 1500) [0, 2, 1] ! i)
       (offset 1500 (first_missing (fold remember (take (Suc i) [0, 2, 1]) {}))) (sent_packets (tk_out s') ! i)"
    by auto
  have "first_missing {0} = 1" "first_missing {0, 2} = 1" "first_missing {0, 1, 2} = 3"
    by (auto intro!: first_missing_eq)
  moreover have "{1 :: nat, 2, 0} = {0, 1, 2}" "{2 :: nat, 0} = {0, 2}" by auto
  ultimately have "\<forall>i < 3. pkt_kind (sent_packets (tk_out s') ! i) = TCPPacket ([1500, 1500, 4500] ! i) 0"
    using s'(3) by (auto simp: ack_for_def remember_def offset_def numeral_3_eq_3 less_Suc_eq)
  then show ?thesis using s'(1,2) by (auto simp: numeral_3_eq_3 length_Suc_conv less_Suc_eq)
qed

text \<open>A second copy of the first segment stalls a flow whose source has already been told about more.\<close>

lemma second_first_segment_stalls:
  assumes "0 \<notin> set js" "1 \<notin> set js"
  shows "first_missing (fold remember [0, 1] {}) = 2 \<and> first_missing (fold remember ([0, 1, 0] @ js) {}) = 1"
proof -
  have "fold remember js {0} = insert 0 (set js)" if "0 \<notin> set js" for js
    using that by (induction js rule: rev_induct) (auto simp: remember_def)
  then show ?thesis using assms by (auto simp: remember_def intro!: first_missing_eq)
qed

text \<open>When a hole is filled, the segments after it are taken to be as long as the one that fills it: 4500 bytes are acknowledged
  here, of which 3100 have been received.\<close>

definition data_packet_at :: "64 word \<Rightarrow> 32 word \<Rightarrow> (unit, unit) Packet" where
  "data_packet_at seqno bytes = Packet_new FiveTuple_default bytes 7 (TCPPacket seqno 0)"

lemma sink_acknowledges_too_much:
  "\<exists>s. rfold TCPSink_HandlePacket [data_packet_at 1 1500, data_packet_at 3001 100, data_packet_at 1501 1500]
       (TCPSink_new FiveTuple_default) = Ok s \<and> tk_cumulative_ack s = 4500"
  by (simp add: data_packet_at_def Packet_new_def TCPSink_HandlePacket_def TCPSink_ReceivePacket_def Connection_HandlePacket_def Let_def
      TCPSink_new_def TCPSink_Reset_def sink_place_def TCPSink_SendAck_def TCPPacket_new_def kAckSize_def Connection_SendPacket_def
      kDefaultTag_def)

end
