(* ===== verification/Tcp_Source.thy ===== *)
theory Tcp_Source
  imports Tcp_Sink
begin

text \<open>
  What the source of \<open>src/src/htsim/tcp.cc\<close> sends: \<open>SendPackets\<close> fills the congestion window and ends. The timeout stays within
  its bounds; the window does not.
\<close>


section \<open>The sending loop\<close>

lemma send_loop_rule:
  assumes "I s"
    and step: "\<And>s. I s \<Longrightarrow> ts_last_acked s + ucast (ts_cwnd s) \<ge> ts_highest_seqno_sent s + ucast (ts_mss s) \<Longrightarrow> ts_send_buffer s \<noteq> 0 \<Longrightarrow>
      \<exists>s'. TCPSource_send_segment now s = Ok s' \<and> I s' \<and> unat (ts_send_buffer s') < unat (ts_send_buffer s)"
  shows "\<exists>s'. TCPSource_send_loop now s = Some (Ok s') \<and> I s' \<and>
    (ts_last_acked s' + ucast (ts_cwnd s') \<ge> ts_highest_seqno_sent s' + ucast (ts_mss s') \<longrightarrow> ts_send_buffer s' = 0)"
  using assms(1)
proof (induction "unat (ts_send_buffer s)" arbitrary: s rule: less_induct)
  case less
  show ?case
  proof (cases "ts_last_acked s + ucast (ts_cwnd s) \<ge> ts_highest_seqno_sent s + ucast (ts_mss s) \<and> ts_send_buffer s \<noteq> 0")
    case True
    then obtain s' where s': "TCPSource_send_segment now s = Ok s'" "I s'" "unat (ts_send_buffer s') < unat (ts_send_buffer s)"
      using step [OF less.prems] by blast
    have "TCPSource_send_loop now s = TCPSource_send_loop now s'"
      using True s'(1) by (subst TCPSource_send_loop.simps) simp
    then show ?thesis using less.hyps [OF s'(3,2)] by simp
  next
    case False
    have "TCPSource_send_loop now s = Some (Ok s)" by (subst TCPSource_send_loop.simps) (rule if_not_P [OF False])
    then show ?thesis using False less.prems by auto
  qed
qed

lemma unat_ucast_16_64 [simp]: "unat (ucast (w :: 16 word) :: 64 word) = unat w"
proof -
  have "unat w < 2 ^ 16" using unat_bound [of w] by simp
  then show ?thesis by (simp add: unsigned_ucast_eq take_bit_nat_eq_self)
qed

lemma unat_ucast_16_32 [simp]: "unat (ucast (w :: 16 word) :: 32 word) = unat w"
proof -
  have "unat w < 2 ^ 16" using unat_bound [of w] by simp
  then show ?thesis by (simp add: unsigned_ucast_eq take_bit_nat_eq_self)
qed

lemma unat_min: "unat (min a b :: 'a :: len word) = min (unat a) (unat b)"
  by (simp add: min_def word_le_nat_alt)

lemma unat_ucast_64_32: "unat (w :: 64 word) < 2 ^ 32 \<Longrightarrow> unat (ucast w :: 32 word) = unat w"
  by (simp add: unsigned_ucast_eq take_bit_nat_eq_self)

lemma SendPacket_simps [simp]:
  "ts_out (TCPSource_SendPacket p s) = ts_out s @ [Sent p]"
  "ts_five_tuple (TCPSource_SendPacket p s) = ts_five_tuple s" "ts_config (TCPSource_SendPacket p s) = ts_config s"
  "ts_last_sent_time (TCPSource_SendPacket p s) = ts_last_sent_time s"
  "ts_highest_seqno_sent (TCPSource_SendPacket p s) = ts_highest_seqno_sent s"
  "ts_highest_seqno_sent_real (TCPSource_SendPacket p s) = ts_highest_seqno_sent_real s"
  "ts_cwnd (TCPSource_SendPacket p s) = ts_cwnd s" "ts_last_acked (TCPSource_SendPacket p s) = ts_last_acked s"
  "ts_dupacks (TCPSource_SendPacket p s) = ts_dupacks s" "ts_ssthresh (TCPSource_SendPacket p s) = ts_ssthresh s"
  "ts_rtt (TCPSource_SendPacket p s) = ts_rtt s" "ts_rto (TCPSource_SendPacket p s) = ts_rto s"
  "ts_mdev (TCPSource_SendPacket p s) = ts_mdev s" "ts_rtt_avg (TCPSource_SendPacket p s) = ts_rtt_avg s"
  "ts_rtt_cum (TCPSource_SendPacket p s) = ts_rtt_cum s" "ts_sawtooth (TCPSource_SendPacket p s) = ts_sawtooth s"
  "ts_recoverq (TCPSource_SendPacket p s) = ts_recoverq s"
  "ts_in_fast_recovery (TCPSource_SendPacket p s) = ts_in_fast_recovery s"
  "ts_send_buffer (TCPSource_SendPacket p s) = ts_send_buffer s"
  "ts_first_sent_time (TCPSource_SendPacket p s) = ts_first_sent_time s"
  "ts_close_count (TCPSource_SendPacket p s) = ts_close_count s"
  "ts_pending_add (TCPSource_SendPacket p s) = ts_pending_add s"
  "ts_original_first_sent_time (TCPSource_SendPacket p s) = ts_original_first_sent_time s"
  "ts_on_send_buffer_drained (TCPSource_SendPacket p s) = ts_on_send_buffer_drained s"
  "ts_complection_times_callback (TCPSource_SendPacket p s) = ts_complection_times_callback s"
  by (simp_all add: TCPSource_SendPacket_def Connection_SendPacket_def TCPSource_note_def)

lemma note_simps [simp]:
  "ts_out (TCPSource_note e s) = ts_out s @ [e]"
  "ts_five_tuple (TCPSource_note e s) = ts_five_tuple s" "ts_config (TCPSource_note e s) = ts_config s"
  "ts_last_sent_time (TCPSource_note e s) = ts_last_sent_time s"
  "ts_highest_seqno_sent (TCPSource_note e s) = ts_highest_seqno_sent s"
  "ts_highest_seqno_sent_real (TCPSource_note e s) = ts_highest_seqno_sent_real s" "ts_cwnd (TCPSource_note e s) = ts_cwnd s"
  "ts_last_acked (TCPSource_note e s) = ts_last_acked s" "ts_dupacks (TCPSource_note e s) = ts_dupacks s"
  "ts_ssthresh (TCPSource_note e s) = ts_ssthresh s" "ts_rtt (TCPSource_note e s) = ts_rtt s"
  "ts_rto (TCPSource_note e s) = ts_rto s" "ts_mdev (TCPSource_note e s) = ts_mdev s"
  "ts_rtt_avg (TCPSource_note e s) = ts_rtt_avg s" "ts_rtt_cum (TCPSource_note e s) = ts_rtt_cum s"
  "ts_sawtooth (TCPSource_note e s) = ts_sawtooth s" "ts_recoverq (TCPSource_note e s) = ts_recoverq s"
  "ts_in_fast_recovery (TCPSource_note e s) = ts_in_fast_recovery s" "ts_send_buffer (TCPSource_note e s) = ts_send_buffer s"
  "ts_first_sent_time (TCPSource_note e s) = ts_first_sent_time s" "ts_close_count (TCPSource_note e s) = ts_close_count s"
  "ts_pending_add (TCPSource_note e s) = ts_pending_add s"
  "ts_original_first_sent_time (TCPSource_note e s) = ts_original_first_sent_time s"
  "ts_on_send_buffer_drained (TCPSource_note e s) = ts_on_send_buffer_drained s"
  "ts_complection_times_callback (TCPSource_note e s) = ts_complection_times_callback s"
  by (simp_all add: TCPSource_note_def)

text \<open>One segment, as large as the buffer and the segment size allow.\<close>

lemma send_segment_Ok:
  assumes "ts_mss s \<noteq> 0" "ts_send_buffer s \<noteq> 0"
  defines "n \<equiv> min (unat (ts_mss s)) (unat (ts_send_buffer s))"
  shows "TCPSource_send_segment now s = Ok (TCPSource_SendPacket
      (Packet_new (ts_five_tuple s) (of_nat n) now (TCPPacket (ts_highest_seqno_sent s + 1) 0))
      (s\<lparr>ts_first_sent_time := (if ts_highest_seqno_sent s = 0 then now else ts_first_sent_time s),
         ts_send_buffer := ts_send_buffer s - of_nat n, ts_highest_seqno_sent := ts_highest_seqno_sent s + of_nat n,
         ts_highest_seqno_sent_real := ts_highest_seqno_sent_real s + of_nat n, ts_last_sent_time := now\<rparr>))"
proof -
  let ?t = "min (ucast (ts_mss s)) (ts_send_buffer s)"
  have un: "unat ?t = n" by (simp add: n_def unat_min)
  have t: "?t = of_nat n" unfolding un [symmetric] by simp
  have n: "0 < n" "n < 2 ^ 16" using assms(1,2) unat_bound [of "ts_mss s"] by (auto simp: n_def unat_gt_0 min_less_iff_disj)
  then have c: "(ucast ?t :: 32 word) = of_nat n"
    using un by (intro word_unat_eq_iff [THEN iffD2]) (simp add: unat_ucast_64_32 of_nat_unat_less)
  have "unat (of_nat n :: 32 word) = n" using n by (intro of_nat_unat_less) simp
  then have "(of_nat n :: 32 word) > 0" using n(1) by (simp add: word_gt_0 unat_gt_0 [symmetric])
  moreover have "(if ts_highest_seqno_sent s = 0 then s\<lparr>ts_first_sent_time := now\<rparr> else s) =
      s\<lparr>ts_first_sent_time := (if ts_highest_seqno_sent s = 0 then now else ts_first_sent_time s)\<rparr>" by simp
  ultimately show ?thesis
    unfolding TCPSource_send_segment_def Let_def by (simp add: t c [unfolded t] TCPPacket_new_def)
qed

text \<open>After \<open>n\<close> segments of a loop started with \<open>s\<close>.\<close>

definition sent_segments :: "EventQueueTime \<Rightarrow> ('r, 'st) TCPSource \<Rightarrow> nat \<Rightarrow> ('r, 'st) TCPSource \<Rightarrow> bool" where
  "sent_segments now s n t \<longleftrightarrow>
     ts_config t = ts_config s \<and> ts_last_acked t = ts_last_acked s \<and> ts_cwnd t = ts_cwnd s \<and> ts_five_tuple t = ts_five_tuple s \<and>
     ts_in_fast_recovery t = ts_in_fast_recovery s \<and> ts_ssthresh t = ts_ssthresh s \<and>
     ts_on_send_buffer_drained t = ts_on_send_buffer_drained s \<and>
     ts_complection_times_callback t = ts_complection_times_callback s \<and>
     ts_first_sent_time t = (if ts_highest_seqno_sent s = 0 \<and> n \<noteq> 0 then now else ts_first_sent_time s) \<and>
     ts_out t = ts_out s @ map (\<lambda>i. Sent (Packet_new (ts_five_tuple s)
       (of_nat (min (unat (ts_mss s)) (unat (ts_send_buffer s) - i * unat (ts_mss s)))) now
       (TCPPacket (of_nat (unat (ts_highest_seqno_sent s) + i * unat (ts_mss s) + 1)) 0))) [0..<n] \<and>
     (\<forall>i < n. i * unat (ts_mss s) < unat (ts_send_buffer s) \<and>
        unat (ts_highest_seqno_sent s) + Suc i * unat (ts_mss s) \<le> unat (ts_last_acked s) + unat (ts_cwnd s)) \<and>
     unat (ts_send_buffer t) = unat (ts_send_buffer s) - n * unat (ts_mss s) \<and>
     unat (ts_highest_seqno_sent t) = unat (ts_highest_seqno_sent s) + min (unat (ts_send_buffer s)) (n * unat (ts_mss s)) \<and>
     unat (ts_highest_seqno_sent_real t) =
       unat (ts_highest_seqno_sent_real s) + min (unat (ts_send_buffer s)) (n * unat (ts_mss s))"

lemma unat_plus_less: "unat a + unat b < 2 ^ LENGTH('a) \<Longrightarrow> unat (a + b :: 'a :: len word) = unat a + unat b"
  by (simp add: unat_word_ariths)

lemma unat_plus_of_nat: "unat a + n < 2 ^ 64 \<Longrightarrow> unat (a + of_nat n :: 64 word) = unat a + n"
  using unat_plus_less [of a "of_nat n"] by (simp add: of_nat_unat_less)

lemma unat_minus_of_nat: "n \<le> unat a \<Longrightarrow> unat (a - of_nat n :: 64 word) = unat a - n"
proof -
  assume n: "n \<le> unat a"
  then have "n < 2 ^ 64" using unat_bound [of a] by (auto intro: le_less_trans)
  then have "unat (of_nat n :: 64 word) = n" by (intro of_nat_unat_less) simp
  then show ?thesis using n by (simp add: unat_sub word_le_nat_alt)
qed

lemma sent_segments_step:
  assumes mss: "ts_mss s \<noteq> 0" and fits: "unat (ts_last_acked s) + unat (ts_cwnd s) < 2 ^ 64"
      "unat (ts_highest_seqno_sent s) + unat (ts_send_buffer s) + unat (ts_mss s) < 2 ^ 64"
      "unat (ts_highest_seqno_sent_real s) + unat (ts_send_buffer s) < 2 ^ 64"
    and t: "sent_segments now s n t" and opn: "ts_last_acked t + ucast (ts_cwnd t) \<ge> ts_highest_seqno_sent t + ucast (ts_mss t)"
    and more: "ts_send_buffer t \<noteq> 0"
  shows "\<exists>u. TCPSource_send_segment now t = Ok u \<and> sent_segments now s (Suc n) u \<and>
    unat (ts_send_buffer u) < unat (ts_send_buffer t)"
proof -
  let ?m = "unat (ts_mss s)" and ?B = "unat (ts_send_buffer s)" and ?H = "unat (ts_highest_seqno_sent s)"
  have same: "ts_config t = ts_config s" "ts_last_acked t = ts_last_acked s" "ts_cwnd t = ts_cwnd s" "ts_five_tuple t = ts_five_tuple s"
      "ts_in_fast_recovery t = ts_in_fast_recovery s" "ts_ssthresh t = ts_ssthresh s"
      "ts_on_send_buffer_drained t = ts_on_send_buffer_drained s"
      "ts_complection_times_callback t = ts_complection_times_callback s"
    and B: "unat (ts_send_buffer t) = ?B - n * ?m"
    using t by (auto simp: sent_segments_def)
  have nB: "n * ?m < ?B" using more B by (metis diff_is_0_eq not_le unat_eq_0)
  then have H: "unat (ts_highest_seqno_sent t) = ?H + n * ?m"
    and real: "unat (ts_highest_seqno_sent_real t) = unat (ts_highest_seqno_sent_real s) + n * ?m"
    using t by (auto simp: sent_segments_def min_def)
  define k where "k = min ?m (?B - n * ?m)"
  have k: "0 < k" "k \<le> ?B - n * ?m" "n * ?m + k = min ?B (Suc n * ?m)" "?B - n * ?m - k = ?B - Suc n * ?m"
    using nB mss by (auto simp: k_def min_def unat_gt_0)
  have less: "?B - Suc n * ?m < ?B - n * ?m" using nB k(1,4) by linarith
  have cw: "unat (ts_last_acked t + ucast (ts_cwnd t)) = unat (ts_last_acked s) + unat (ts_cwnd s)"
    using fits(1) by (simp add: same unat_plus_less)
  have "unat (ts_highest_seqno_sent t + ucast (ts_mss t)) = ?H + Suc n * ?m"
    using fits(2) nB H by (simp add: same unat_plus_less)
  then have win: "?H + Suc n * ?m \<le> unat (ts_last_acked s) + unat (ts_cwnd s)" using opn cw by (simp add: word_le_nat_alt)
  have seq: "ts_highest_seqno_sent t = of_nat (?H + n * ?m)" unfolding H [symmetric] by simp
  have "ts_highest_seqno_sent t = 0 \<longleftrightarrow> ts_highest_seqno_sent s = 0 \<and> n = 0"
    using H mss by (auto simp flip: unat_eq_0)
  then have first: "(if ts_highest_seqno_sent t = 0 then now else ts_first_sent_time t) =
      (if ts_highest_seqno_sent s = 0 then now else ts_first_sent_time s)"
    using t by (auto simp: sent_segments_def)
  let ?u = "TCPSource_SendPacket
      (Packet_new (ts_five_tuple t) (of_nat k) now (TCPPacket (ts_highest_seqno_sent t + 1) 0))
      (t\<lparr>ts_first_sent_time := (if ts_highest_seqno_sent s = 0 then now else ts_first_sent_time s),
         ts_send_buffer := ts_send_buffer t - of_nat k, ts_highest_seqno_sent := ts_highest_seqno_sent t + of_nat k,
         ts_highest_seqno_sent_real := ts_highest_seqno_sent_real t + of_nat k, ts_last_sent_time := now\<rparr>)"
  have "TCPSource_send_segment now t = Ok ?u"
    using send_segment_Ok [of t now, unfolded first] mss more by (simp add: same B k_def)
  moreover have buf: "unat (ts_send_buffer ?u) = ?B - Suc n * ?m"
    using k by (simp add: unat_minus_of_nat B)
  moreover have "unat (ts_highest_seqno_sent ?u) = ?H + min ?B (Suc n * ?m)"
    using k fits(2) by (simp add: unat_plus_of_nat H)
  moreover have "unat (ts_highest_seqno_sent_real ?u) = unat (ts_highest_seqno_sent_real s) + min ?B (Suc n * ?m)"
    using k fits(3) by (simp add: unat_plus_of_nat real)
  moreover have "ts_out ?u = ts_out s @ map (\<lambda>i. Sent (Packet_new (ts_five_tuple s) (of_nat (min ?m (?B - i * ?m))) now
      (TCPPacket (of_nat (?H + i * ?m + 1)) 0))) [0..<Suc n]"
    using t by (simp add: sent_segments_def same seq k_def add.commute)
  moreover have "\<forall>i < Suc n. i * ?m < ?B \<and> ?H + Suc i * ?m \<le> unat (ts_last_acked s) + unat (ts_cwnd s)"
    using t nB win by (auto simp: sent_segments_def less_Suc_eq)
  ultimately show ?thesis
    using same B less by (intro exI [of _ ?u]) (simp add: sent_segments_def)
qed

lemma SendPackets_sends:
  assumes "ts_mss s \<noteq> 0" and "ts_send_buffer s \<noteq> 0"
    and "unat (ts_last_acked s) + unat (ts_cwnd s) < 2 ^ 64"
    and "unat (ts_highest_seqno_sent s) + unat (ts_send_buffer s) + unat (ts_mss s) < 2 ^ 64"
    and "unat (ts_highest_seqno_sent_real s) + unat (ts_send_buffer s) < 2 ^ 64"
  shows "\<exists>n t. TCPSource_SendPackets now s = Some (Ok t) \<and> sent_segments now s n t \<and>
    (unat (ts_send_buffer s) \<le> n * unat (ts_mss s) \<or>
     unat (ts_last_acked s) + unat (ts_cwnd s) < unat (ts_highest_seqno_sent s) + Suc n * unat (ts_mss s))"
proof -
  let ?m = "unat (ts_mss s)" and ?B = "unat (ts_send_buffer s)" and ?H = "unat (ts_highest_seqno_sent s)"
  have "sent_segments now s 0 s" by (simp add: sent_segments_def)
  then have "\<exists>t. TCPSource_send_loop now s = Some (Ok t) \<and> (\<exists>n. sent_segments now s n t) \<and>
      (ts_last_acked t + ucast (ts_cwnd t) \<ge> ts_highest_seqno_sent t + ucast (ts_mss t) \<longrightarrow> ts_send_buffer t = 0)"
    by (intro send_loop_rule) (use sent_segments_step [OF assms(1,3-5)] in blast)+
  then obtain t n where t: "TCPSource_send_loop now s = Some (Ok t)" "sent_segments now s n t"
    "ts_last_acked t + ucast (ts_cwnd t) \<ge> ts_highest_seqno_sent t + ucast (ts_mss t) \<longrightarrow> ts_send_buffer t = 0" by blast
  have "TCPSource_SendPackets now s = Some (Ok t)"
    using t(1) assms(2) by (simp add: TCPSource_SendPackets_def SendPackets_with_def)
  moreover have "?B \<le> n * ?m \<or> unat (ts_last_acked s) + unat (ts_cwnd s) < ?H + Suc n * ?m"
  proof (cases "?B \<le> n * ?m")
    case False
    then have "ts_send_buffer t \<noteq> 0" using t(2) by (auto simp: sent_segments_def simp flip: unat_eq_0)
    then have "ts_last_acked t + ucast (ts_cwnd t) < ts_highest_seqno_sent t + ucast (ts_mss t)" using t(3) by auto
    moreover have "unat (ts_last_acked t + ucast (ts_cwnd t)) = unat (ts_last_acked s) + unat (ts_cwnd s)"
      using t(2) assms(3) by (simp add: sent_segments_def unat_plus_less)
    moreover have "unat (ts_highest_seqno_sent t + ucast (ts_mss t)) = ?H + Suc n * ?m"
      using t(2) assms(4) False by (simp add: sent_segments_def unat_plus_less)
    ultimately show ?thesis by (simp add: word_less_nat_alt)
  qed simp
  ultimately show ?thesis using t(2) by blast
qed

text \<open>C17. If there is data in the buffer, \<open>SendPackets\<close> sends consecutive segments, each as large as the data left and the segment
  size allow, up to the point where the next one would be beyond the congestion window or there is no data
  left; the buffer and the two sequence numbers are moved by the bytes sent.\<close>

theorem TCPSource_SendPackets_window:
  assumes "ts_mss s \<noteq> 0" and "ts_send_buffer s \<noteq> 0"
    and "unat (ts_last_acked s) + unat (ts_cwnd s) < 2 ^ 64"
    and "unat (ts_highest_seqno_sent s) + unat (ts_send_buffer s) + unat (ts_mss s) < 2 ^ 64"
    and "unat (ts_highest_seqno_sent_real s) + unat (ts_send_buffer s) < 2 ^ 64"
  shows "\<exists>n t. TCPSource_SendPackets now s = Some (Ok t) \<and> sent_segments now s n t \<and>
    (unat (ts_send_buffer s) \<le> n * unat (ts_mss s) \<or>
     unat (ts_last_acked s) + unat (ts_cwnd s) < unat (ts_highest_seqno_sent s) + Suc n * unat (ts_mss s))"
  using SendPackets_sends [OF assms] .

definition sending_source :: "(unit, unit) TCPSource" where
  "sending_source = (TCPSource_new FiveTuple_default TCPSourceConfig_default)\<lparr>ts_cwnd := 6000, ts_send_buffer := 4000\<rparr>"

theorem TCPSource_SendPackets_window_witness:
  "\<exists>n t. TCPSource_SendPackets 7 sending_source = Some (Ok t) \<and> sent_segments 7 sending_source n t \<and> 2 < n"
proof -
  have s: "ts_mss sending_source = 1500" "ts_send_buffer sending_source = 4000" "ts_last_acked sending_source = 0"
    "ts_cwnd sending_source = 6000" "ts_highest_seqno_sent sending_source = 0" "ts_highest_seqno_sent_real sending_source = 0"
    by (simp_all add: sending_source_def TCPSource_new_def TCPSource_Close_def TCPSourceConfig_default_def)
  from TCPSource_SendPackets_window [of sending_source 7] obtain n t where
    t: "TCPSource_SendPackets 7 sending_source = Some (Ok t)" "sent_segments 7 sending_source n t" "4000 \<le> n * 1500 \<or> 6000 < Suc n * 1500"
    by (auto simp: s)
  moreover have "2 < n" using t(3) by auto
  ultimately show ?thesis by blast
qed

text \<open>The retransmission timeout stays between 200 milliseconds and 5 seconds, whatever the estimates are.\<close>

lemma TCPSource_rto_bounds:
  "SimTime_NanosToTime 200000000 \<le> ts_rto (TCPSource_update_rto s) \<and> ts_rto (TCPSource_update_rto s) \<le> SimTime_NanosToTime 5000000000"
  by (auto simp: TCPSource_update_rto_def Let_def SimTime_NanosToTime_def not_less)

text \<open>In congestion avoidance the window grows beyond the maximum of the configuration.\<close>

lemma InflateWindow_exceeds_maximum:
  "\<exists>t. TCPSource_InflateWindow (sending_source\<lparr>ts_cwnd := 2000000, ts_ssthresh := 2000000, ts_last_acked := 1500\<rparr>) = Ok t \<and>
     ts_cwnd t = 2000001 \<and> tc_maxcwnd (ts_config t) = 2000000"
  by (simp add: TCPSource_InflateWindow_def Let_def sending_source_def TCPSource_new_def TCPSource_Close_def
      TCPSourceConfig_default_def signed_take_bit_Suc)

end
