(* ===== verification/Tcp_Flow.thy ===== *)
theory Tcp_Flow
  imports Tcp_Source
begin

text \<open>
  A source and a sink of \<open>src/src/htsim/tcp.cc\<close> together. The packets under way are lists, taken from the front; a step is a call of
  \<open>HandlePacket\<close> at one of the ends.
\<close>


section \<open>A flow of whole segments\<close>

text \<open>
  A source that has data for \<open>n\<close> segments to send, of which \<open>h\<close> have been sent and \<open>k\<close> acknowledged.
\<close>

definition source_at :: "TCPSourceConfig \<Rightarrow> nat \<Rightarrow> nat \<Rightarrow> nat \<Rightarrow> ('r, 'st) TCPSource \<Rightarrow> bool" where
  "source_at config n k h s \<longleftrightarrow> ts_config s = config \<and> h \<le> n \<and>
     unat (ts_last_acked s) = unat (tc_mss config) * k \<and> unat (ts_highest_seqno_sent s) = unat (tc_mss config) * h \<and>
     unat (ts_highest_seqno_sent_real s) = unat (tc_mss config) * h \<and>
     unat (ts_send_buffer s) = unat (tc_mss config) * (n - h)"

lemma SendPackets_segments:
  fixes s :: "('r, 'st) TCPSource"
  assumes s: "source_at config n k h s" and h: "h < n" and mss: "tc_mss config \<noteq> 0" and n: "unat (tc_mss config) * n < 2 ^ 63"
    and k: "k \<le> h"
  shows "\<exists>h' pkts t. TCPSource_SendPackets now s = Some (Ok t) \<and> source_at config n k h' t \<and> h \<le> h' \<and>
    ts_out t = ts_out s @ map Sent pkts \<and>
    list_all2 (\<lambda>j p. segment (ucast (tc_mss config)) j p \<and> pkt_time_sent p = now) [h..<h'] pkts \<and>
    (h' < n \<longrightarrow> unat (tc_mss config) * k + unat (ts_cwnd s) < unat (tc_mss config) * Suc h') \<and>
    ts_cwnd t = ts_cwnd s \<and> ts_in_fast_recovery t = ts_in_fast_recovery s \<and> ts_ssthresh t = ts_ssthresh s \<and>
    ts_on_send_buffer_drained t = ts_on_send_buffer_drained s \<and>
    ts_complection_times_callback t = ts_complection_times_callback s \<and>
    ts_first_sent_time t = (if h = 0 \<and> h' \<noteq> 0 then now else ts_first_sent_time s)"
proof -
  let ?m = "unat (tc_mss config)"
  have m: "0 < ?m" using mss by (simp add: unat_gt_0)
  have s': "ts_config s = config" "unat (ts_last_acked s) = ?m * k" "unat (ts_highest_seqno_sent s) = ?m * h"
    "unat (ts_highest_seqno_sent_real s) = ?m * h" "unat (ts_send_buffer s) = ?m * (n - h)" using s by (auto simp: source_at_def)
  have mk: "?m * k < 2 ^ 63" "?m * h + ?m * (n - h) = ?m * n" "?m < 2 ^ 16"
    using k h n unat_bound [of "tc_mss config"]
    by (auto simp: distrib_left [symmetric] intro: le_less_trans [OF mult_le_mono2, of k n ?m])
  have cw: "unat (ts_cwnd s) < 2 ^ 32" using unat_bound [of "ts_cwnd s"] by simp
  have buf: "ts_send_buffer s \<noteq> 0" using s'(5) h m by (auto simp flip: unat_gt_0)
  have fits: "unat (ts_last_acked s) + unat (ts_cwnd s) < 2 ^ 64"
      "unat (ts_highest_seqno_sent s) + unat (ts_send_buffer s) + unat (ts_mss s) < 2 ^ 64"
      "unat (ts_highest_seqno_sent_real s) + unat (ts_send_buffer s) < 2 ^ 64"
    using mk cw n by (simp_all add: s')
  have "ts_mss s \<noteq> 0" using mss by (simp add: s')
  from SendPackets_sends [OF this buf fits, of now] obtain d t where
    t: "TCPSource_SendPackets now s = Some (Ok t)" "sent_segments now s d t"
      "?m * (n - h) \<le> d * ?m \<or> ?m * k + unat (ts_cwnd s) < ?m * h + Suc d * ?m" unfolding s' by blast
  note seg = t(2) [unfolded sent_segments_def s']
  have room: "i < n - h" if "i < d" for i using seg that m by (auto simp: mult.commute)
  have d: "d \<le> n - h" using room [of "d - 1"] by (cases d) auto
  define pkts where "pkts = map (\<lambda>i. Packet_new (ts_five_tuple s) (of_nat (min ?m (?m * (n - h) - i * ?m))) now
      (TCPPacket (of_nat (?m * h + i * ?m + 1)) 0) :: ('r, 'st) Packet) [0..<d]"
  have "segment (ucast (tc_mss config)) (h + i) (pkts ! i) \<and> pkt_time_sent (pkts ! i) = now" if i: "i < d" for i
  proof -
    have "?m * (n - h) - i * ?m = ?m * (n - h - i)" by (simp only: mult.commute [of i] diff_mult_distrib2)
    moreover have "?m * 1 \<le> ?m * (n - h - i)" using room [OF i] by (intro mult_le_mono2) simp
    ultimately have "min ?m (?m * (n - h) - i * ?m) = ?m" by simp
    moreover have "?m * Suc (h + i) \<le> ?m * n" using room [OF i] by (intro mult_le_mono2) simp
    ultimately show ?thesis using i n
      by (simp add: pkts_def segment_def Packet_new_def offset_def algebra_simps)
  qed
  then have "list_all2 (\<lambda>j p. segment (ucast (tc_mss config)) j p \<and> pkt_time_sent p = now) [h..<h + d] pkts"
    by (simp add: list_all2_conv_all_nth pkts_def)
  moreover have "source_at config n k (h + d) t"
  proof -
    have "min (?m * (n - h)) (d * ?m) = ?m * d" using d m by (simp add: min_def mult.commute)
    moreover have "?m * (n - h) - d * ?m = ?m * (n - (h + d))"
      by (simp only: mult.commute [of d] diff_mult_distrib2 [symmetric] diff_diff_left)
    ultimately show ?thesis using seg d h s by (simp add: source_at_def distrib_left)
  qed
  moreover have "?m * k + unat (ts_cwnd s) < ?m * Suc (h + d)" if "h + d < n"
  proof -
    have "d < n - h" using that by simp
    then have "d * ?m < ?m * (n - h)" using m by (simp add: mult.commute)
    then show ?thesis using t(3) by (simp add: algebra_simps)
  qed
  moreover have "ts_highest_seqno_sent s = 0 \<longleftrightarrow> h = 0" using s'(3) m by (auto simp flip: unat_eq_0)
  ultimately show ?thesis
    using t(1) seg by (intro exI [of _ "h + d"] exI [of _ pkts] exI [of _ t]) (auto simp: pkts_def)
qed

lemma InflateWindow_slow_start:
  assumes "ts_cwnd s < ts_ssthresh s"
  shows "\<exists>cwnd. TCPSource_InflateWindow s = Ok (s\<lparr>ts_cwnd := cwnd\<rparr>) \<and>
    min (ts_cwnd s) (tc_maxcwnd (ts_config s)) \<le> cwnd \<and> cwnd \<le> max (ts_cwnd s) (tc_maxcwnd (ts_config s))"
proof -
  let ?n = "ucast (ts_last_acked s + ucast (ts_cwnd s) - ts_highest_seqno_sent s) :: 32 word"
  define n where "n = (if sint ?n > int (unat (ts_mss s)) then ucast (ts_mss s) else ?n)"
  define inc where "inc = min (ts_ssthresh s - ts_cwnd s) n"
  show ?thesis
  proof (cases "sint n < 0")
    case True
    have "TCPSource_InflateWindow s = Ok s"
      unfolding TCPSource_InflateWindow_def Let_def n_def [symmetric] by (rule if_P [OF True])
    then show ?thesis by (intro exI [of _ "ts_cwnd s"]) simp
  next
    case False
    let ?c = "ts_cwnd s + inc"
    have "TCPSource_InflateWindow s =
        Ok (s\<lparr>ts_cwnd := if ?c > tc_maxcwnd (ts_config s) then tc_maxcwnd (ts_config s) else ?c\<rparr>)"
      unfolding TCPSource_InflateWindow_def Let_def n_def [symmetric] inc_def [symmetric] if_not_P [OF False] by (rule if_P [OF assms])
    moreover have "ts_cwnd s \<le> ?c"
    proof -
      have "unat inc \<le> unat (ts_ssthresh s - ts_cwnd s)" by (simp add: inc_def unat_min)
      also have "\<dots> = unat (ts_ssthresh s) - unat (ts_cwnd s)" using assms by (intro unat_sub) simp
      finally have "unat (ts_cwnd s) + unat inc < 2 ^ 32" using unat_bound [of "ts_ssthresh s"] assms by (simp add: word_less_nat_alt)
      then show ?thesis using unat_plus_less [of "ts_cwnd s" inc] by (simp add: word_le_nat_alt)
    qed
    ultimately show ?thesis by (auto simp: min_def max_def not_less)
  qed
qed

section \<open>Without losses\<close>

text \<open>A source and a sink with the packets on their way between them, delivered in order.\<close>

record ('r, 'st) tcp_flow =
  fl_source :: "('r, 'st) TCPSource"
  fl_sink :: "('r, 'st) TCPSink"
  fl_data :: "('r, 'st) Packet list"
  fl_acks :: "('r, 'st) Packet list"

definition flow_start :: "FiveTuple \<Rightarrow> TCPSourceConfig \<Rightarrow> EventQueueTime \<Rightarrow> 64 word \<Rightarrow> ('r, 'st) tcp_flow res option" where
  "flow_start five_tuple config now bytes =
     orbind (TCPSource_AddData now bytes (TCPSource_OnSendBufferDrained (TCPSource_new five_tuple config))) (\<lambda>s.
       Some (Ok \<lparr>fl_source = s, fl_sink = TCPSink_new (FiveTuple_Reverse five_tuple), fl_data = sent_packets (ts_out s),
         fl_acks = []\<rparr>))"

definition new_packets :: "('r, 'st) tcp_effect list \<Rightarrow> ('r, 'st) tcp_effect list \<Rightarrow> ('r, 'st) Packet list" where
  "new_packets before after = drop (length (sent_packets before)) (sent_packets after)"

inductive flow_step :: "('r, 'st) tcp_flow \<Rightarrow> ('r, 'st) tcp_flow \<Rightarrow> bool" where
  data_arrives: "fl_data f = p # ds \<Longrightarrow> TCPSink_HandlePacket p (fl_sink f) = Ok sink \<Longrightarrow>
    flow_step f (f\<lparr>fl_sink := sink, fl_data := ds, fl_acks := fl_acks f @ new_packets (tk_out (fl_sink f)) (tk_out sink)\<rparr>)"
| ack_arrives: "fl_acks f = a # as \<Longrightarrow> pkt_time_sent a \<le> now \<Longrightarrow>
    TCPSource_HandlePacket now a (fl_source f) = Some (Ok source) \<Longrightarrow>
    flow_step f (f\<lparr>fl_source := source, fl_acks := as,
      fl_data := fl_data f @ new_packets (ts_out (fl_source f)) (ts_out source)\<rparr>)"

text \<open>Of \<open>n\<close> segments \<open>h\<close> have been sent, \<open>c\<close> delivered and \<open>k\<close> acknowledged.\<close>

definition flow_inv :: "TCPSourceConfig \<Rightarrow> nat \<Rightarrow> EventQueueTime \<Rightarrow> nat \<Rightarrow> nat \<Rightarrow> nat \<Rightarrow> ('r, 'st) tcp_flow \<Rightarrow> bool" where
  "flow_inv config n t0 k c h f \<longleftrightarrow> k \<le> c \<and> c \<le> h \<and> source_at config n k h (fl_source f) \<and>
     \<not> ts_in_fast_recovery (fl_source f) \<and> ts_ssthresh (fl_source f) = 0xffffffff \<and>
     \<not> ts_complection_times_callback (fl_source f) \<and> ts_first_sent_time (fl_source f) = t0 \<and>
     unat (tc_mss config) \<le> unat (ts_cwnd (fl_source f)) \<and> ts_cwnd (fl_source f) < 0xffffffff \<and>
     (h < n \<longrightarrow> unat (tc_mss config) * k + unat (ts_cwnd (fl_source f)) < unat (tc_mss config) * Suc h) \<and>
     (if k < n then ts_on_send_buffer_drained (fl_source f) else Send_buffer_drained \<in> set (ts_out (fl_source f))) \<and>
     sink_inv (unat (tc_mss config)) {..<c} (fl_sink f) \<and>
     list_all2 (\<lambda>j p. segment (ucast (tc_mss config)) j p \<and> t0 \<le> pkt_time_sent p) [c..<h] (fl_data f) \<and>
     list_all2 (\<lambda>j p. pkt_kind p = TCPPacket (offset (unat (tc_mss config)) (Suc j)) 0 \<and> t0 \<le> pkt_time_sent p) [k..<c] (fl_acks f)"

definition flow_config :: "TCPSourceConfig \<Rightarrow> nat \<Rightarrow> bool" where
  "flow_config config n \<longleftrightarrow> tc_mss config \<noteq> 0 \<and> \<not> tc_simulate_initial_handshake config \<and>
     unat (tc_mss config) \<le> unat (tc_maxcwnd config) \<and> tc_maxcwnd config < 0xffffffff \<and>
     0 < tc_inital_cwnd_size config \<and> unat (tc_inital_cwnd_size config) * unat (tc_mss config) < 2 ^ 32 - 1 \<and>
     0 < n \<and> unat (tc_mss config) * n < 2 ^ 63"

lemma sent_packets_Sent [simp]: "sent_packets (map Sent ps) = ps"
  by (induction ps) simp_all

lemma flow_start_inv:
  assumes "flow_config config n"
  shows "\<exists>(f :: ('r, 'st) tcp_flow) h. flow_start five_tuple config t0 (offset (unat (tc_mss config)) n) = Some (Ok f) \<and> flow_inv config n t0 0 0 h f"
proof -
  let ?m = "unat (tc_mss config)"
  have m: "0 < ?m" and nm: "0 < ?m * n" "?m * n < 2 ^ 63" using assms by (auto simp: flow_config_def unat_gt_0)
  let ?s = "TCPSource_OnSendBufferDrained (TCPSource_new five_tuple config) :: ('r, 'st) TCPSource"
  let ?cw = "tc_inital_cwnd_size config * ucast (tc_mss config)"
  have cw: "unat ?cw = unat (tc_inital_cwnd_size config) * ?m"
    using assms unat_mult_lem [of "tc_inital_cwnd_size config" "ucast (tc_mss config) :: 32 word"]
    by (simp add: flow_config_def)
  have "1 * ?m \<le> unat (tc_inital_cwnd_size config) * ?m"
    using assms by (intro mult_le_mono1) (simp add: flow_config_def word_less_nat_alt)
  then have cw': "?m \<le> unat ?cw" "?cw < 0xffffffff"
    using assms cw by (simp_all add: flow_config_def word_less_nat_alt)
  define u where "u = (TCPSource_Close ?s)\<lparr>ts_cwnd := ?cw, ts_send_buffer := offset ?m n\<rparr>"
  have u: "ts_out u = []" "ts_cwnd u = ?cw" "\<not> ts_in_fast_recovery u" "ts_ssthresh u = 0xffffffff" "ts_on_send_buffer_drained u"
    "\<not> ts_complection_times_callback u" "source_at config n 0 0 u"
    using nm by (simp_all add: u_def source_at_def TCPSource_OnSendBufferDrained_def TCPSource_new_def TCPSource_Close_def unat_offset)
  have add: "TCPSource_AddData t0 (offset ?m n) ?s = TCPSource_SendPackets t0 u"
    using assms m unfolding u_def
    by (simp add: TCPSource_AddData_def AddData_with_def TCPSource_SendPackets_def Let_def TCPSource_OnSendBufferDrained_def
        TCPSource_new_def TCPSource_Close_def flow_config_def word_gt_0 word_less_nat_alt)
  have "0 < n" "tc_mss config \<noteq> 0" using assms by (auto simp: flow_config_def)
  from SendPackets_segments [OF u(7) this nm(2) le_refl, of t0, folded add] obtain h pkts t where
    t: "TCPSource_AddData t0 (offset ?m n) ?s = Some (Ok t)" "source_at config n 0 h t" "ts_out t = ts_out u @ map Sent pkts"
    "h < n \<longrightarrow> ?m * 0 + unat (ts_cwnd u) < ?m * Suc h"
    "list_all2 (\<lambda>j p. segment (ucast (tc_mss config)) j p \<and> pkt_time_sent p = t0) [0..<h] pkts"
    "ts_cwnd t = ts_cwnd u" "ts_in_fast_recovery t = ts_in_fast_recovery u" "ts_ssthresh t = ts_ssthresh u"
    "ts_on_send_buffer_drained t = ts_on_send_buffer_drained u"
    "ts_complection_times_callback t = ts_complection_times_callback u"
    "ts_first_sent_time t = (if (0 :: nat) = 0 \<and> h \<noteq> 0 then t0 else ts_first_sent_time u)"
    by (elim exE conjE) (rule that)
  note t = t [unfolded u]
  have "h \<noteq> 0"
  proof
    assume "h = 0"
    then show False using t(4) cw' nm by simp
  qed
  moreover have "sink_inv ?m {..<0} (TCPSink_new (FiveTuple_Reverse five_tuple))" using sink_inv_new by simp
  moreover have "list_all2 (\<lambda>j p. segment (ucast (tc_mss config)) j p \<and> t0 \<le> pkt_time_sent p) [0..<h] pkts"
    using t(5) by (rule list_all2_mono) simp
  ultimately show ?thesis using t u(3,5,6) cw' nm
    by (intro exI [of _ "\<lparr>fl_source = t, fl_sink = TCPSink_new (FiveTuple_Reverse five_tuple), fl_data = sent_packets (ts_out t),
         fl_acks = []\<rparr>"] exI [of _ h]) (simp add: flow_start_def flow_inv_def)
qed

lemma remember_next: "remember c {..<c} = {..<Suc c}" "first_missing {..<c} = c"
  by (auto simp: remember_def intro: first_missing_eq)

lemma sink_inv_complete:
  assumes "sink_inv sz {..<n} s"
  shows "tk_cumulative_ack s = offset sz n" "tk_received s = []"
proof -
  obtain j js where js: "{..<n} = {..<j} \<union> set js" "\<forall>i \<in> set js. j < i" "tk_cumulative_ack s = offset sz j"
    "tk_received s = map (\<lambda>j. offset sz j + 1) js" using assms by (auto simp: sink_inv_def)
  have "first_missing ({..<j} \<union> set js) = j" using js(2) by (intro first_missing_eq) auto
  then have j: "j = n" unfolding js(1) [symmetric] by (simp add: remember_next)
  have "set js \<subseteq> {..<n}" using js(1) by blast
  then have "i \<notin> set js" for i using js(2) j by (auto dest: less_asym)
  then have "js = []" by (cases js) auto
  then show "tk_cumulative_ack s = offset sz n" "tk_received s = []" using js(3,4) j by simp_all
qed

lemma flow_data_step:
  assumes inv: "flow_inv config n t0 k c h f" and mss: "tc_mss config \<noteq> 0" and data: "fl_data f = p # ds"
  shows "\<exists>sink. TCPSink_HandlePacket p (fl_sink f) = Ok sink \<and> flow_inv config n t0 k (Suc c) h
    (f\<lparr>fl_sink := sink, fl_data := ds, fl_acks := fl_acks f @ new_packets (tk_out (fl_sink f)) (tk_out sink)\<rparr>)"
proof -
  let ?m = "unat (tc_mss config)"
  let ?d = "\<lambda>j p. segment (ucast (tc_mss config)) j p \<and> t0 \<le> pkt_time_sent p"
  let ?a = "\<lambda>j p. pkt_kind p = TCPPacket (offset ?m (Suc j)) 0 \<and> t0 \<le> pkt_time_sent p"
  have f: "k \<le> c" "list_all2 ?d [c..<h] (p # ds)" "list_all2 ?a [k..<c] (fl_acks f)" "sink_inv ?m {..<c} (fl_sink f)"
    using inv data by (auto simp: flow_inv_def)
  have "c < h" using f(2) by (cases "c < h") simp_all
  then have p: "?d c p" and ds: "list_all2 ?d [Suc c..<h] ds" using f(2) by (simp_all add: upt_conv_Cons)
  have seg: "segment (ucast (tc_mss config)) c p" using p by simp
  have nz: "(ucast (tc_mss config) :: 32 word) \<noteq> 0" using mss unat_ucast_16_32 [of "tc_mss config"] by (metis unat_0 unat_eq_zero)
  have si: "sink_inv (unat (ucast (tc_mss config) :: 32 word)) {..<c} (fl_sink f)" using f(4) by simp
  obtain sink ack where sink: "TCPSink_HandlePacket p (fl_sink f) = Ok sink" "sink_inv ?m {..<Suc c} sink"
    "sent_packets (tk_out sink) = sent_packets (tk_out (fl_sink f)) @ [ack]" "ack_for p (offset ?m (Suc c)) ack"
    using sink_step [OF si seg nz] by (auto simp: remember_next)
  have "new_packets (tk_out (fl_sink f)) (tk_out sink) = [ack]" using sink(3) by (simp add: new_packets_def)
  moreover have "list_all2 ?a [k..<Suc c] (fl_acks f @ [ack])"
    using f(1,3) sink(4) p by (simp add: list_all2_appendI ack_for_def)
  ultimately show ?thesis using inv sink(1,2) ds \<open>c < h\<close> f(1) by (intro exI [of _ sink]) (simp add: flow_inv_def)
qed

lemma update_estimates_simps [simp]:
  fixes m :: "64 word" and s :: "('r, 'st) TCPSource"
  defines "t \<equiv> TCPSource_update_rto (TCPSource_update_rtt m s)"
  shows "ts_config t = ts_config s" "ts_last_acked t = ts_last_acked s" "ts_in_fast_recovery t = ts_in_fast_recovery s"
    "ts_highest_seqno_sent t = ts_highest_seqno_sent s" "ts_highest_seqno_sent_real t = ts_highest_seqno_sent_real s"
    "ts_send_buffer t = ts_send_buffer s" "ts_cwnd t = ts_cwnd s" "ts_ssthresh t = ts_ssthresh s" "ts_out t = ts_out s"
    "ts_on_send_buffer_drained t = ts_on_send_buffer_drained s" "ts_first_sent_time t = ts_first_sent_time s"
    "ts_complection_times_callback t = ts_complection_times_callback s"
  by (simp_all add: t_def TCPSource_update_rto_def TCPSource_update_rtt_def Let_def)

text \<open>A new acknowledgement outside fast recovery, up to the call of \<open>SendPackets\<close>.\<close>

lemma HandlePacket_new_ack:
  fixes s :: "('r, 'st) TCPSource"
  assumes ack: "pkt_kind a = TCPPacket seqno 0" "ts_last_acked s < seqno" "pkt_time_sent a \<le> now"
      "ts_first_sent_time s \<le> pkt_time_sent a"
    and s: "\<not> ts_in_fast_recovery s" "ts_cwnd s < ts_ssthresh s"
  shows "\<exists>t. TCPSource_HandlePacket now a s = TCPSource_SendPackets now t \<and> ts_config t = ts_config s \<and>
    ts_last_acked t = seqno \<and> ts_in_fast_recovery t = ts_in_fast_recovery s \<and> ts_highest_seqno_sent t = ts_highest_seqno_sent s \<and>
    ts_highest_seqno_sent_real t = ts_highest_seqno_sent_real s \<and> ts_send_buffer t = ts_send_buffer s \<and>
    ts_ssthresh t = ts_ssthresh s \<and> ts_out t = ts_out s \<and> ts_on_send_buffer_drained t = ts_on_send_buffer_drained s \<and>
    ts_first_sent_time t = ts_first_sent_time s \<and> ts_complection_times_callback t = ts_complection_times_callback s \<and>
    min (ts_cwnd s) (tc_maxcwnd (ts_config s)) \<le> ts_cwnd t \<and> ts_cwnd t \<le> max (ts_cwnd s) (tc_maxcwnd (ts_config s))"
proof -
  let ?s = "s\<lparr>ts_stats := fst (Connection_HandlePacket a (ts_stats s))\<rparr>"
  let ?u = "(TCPSource_update_rto (TCPSource_update_rtt (now - pkt_time_sent a) ?s))\<lparr>ts_last_acked := seqno, ts_dupacks := 0\<rparr>"
  have "ts_cwnd ?u < ts_ssthresh ?u" using s(2) by simp
  from InflateWindow_slow_start [OF this] obtain cwnd where
    cwnd: "TCPSource_InflateWindow ?u = Ok (?u\<lparr>ts_cwnd := cwnd\<rparr>)"
      "min (ts_cwnd s) (tc_maxcwnd (ts_config s)) \<le> cwnd" "cwnd \<le> max (ts_cwnd s) (tc_maxcwnd (ts_config s))" by auto
  have "\<not> pkt_time_sent a < ts_first_sent_time s" "\<not> seqno < ts_last_acked s" using ack by auto
  then have "TCPSource_HandlePacket now a s = TCPSource_SendPackets now (?u\<lparr>ts_cwnd := cwnd\<rparr>)"
    using ack s(1) cwnd(1)
    by (simp add: TCPSource_HandlePacket_def Connection_HandlePacket_def TCPSource_ReceivePacket_def Let_def
        EventQueueTime_minus_def check_def TCPSource_new_ack_def)
  then show ?thesis using cwnd(2,3) by (intro exI [of _ "?u\<lparr>ts_cwnd := cwnd\<rparr>"]) simp
qed

lemma DataTransferred_drained:
  assumes "\<not> tc_simulate_initial_handshake (ts_config s)" "ts_on_send_buffer_drained s" "\<not> ts_complection_times_callback s"
  shows "TCPSource_DataTransferred now s =
    Some (Ok ((TCPSource_note Send_buffer_drained s)\<lparr>ts_on_send_buffer_drained := False\<rparr>))"
  using assms by (subst TCPSource_DataTransferred.simps) simp

lemma SendPackets_nothing_left:
  assumes s: "source_at config n k n s" and mss: "tc_mss config \<noteq> 0" and k: "k \<le> n"
    and drained: "\<not> tc_simulate_initial_handshake config" "ts_on_send_buffer_drained s" "\<not> ts_complection_times_callback s"
  shows "TCPSource_SendPackets now s =
    Some (Ok (if k = n then (TCPSource_note Send_buffer_drained s)\<lparr>ts_on_send_buffer_drained := False\<rparr> else s))"
proof -
  have m: "0 < unat (tc_mss config)" using mss by (simp add: unat_gt_0)
  have s': "ts_config s = config" "unat (ts_send_buffer s) = 0" "unat (ts_last_acked s) = unat (tc_mss config) * k"
    "unat (ts_highest_seqno_sent_real s) = unat (tc_mss config) * n" using s by (auto simp: source_at_def)
  then have buf: "ts_send_buffer s = 0" and le: "ts_highest_seqno_sent_real s \<le> ts_last_acked s \<longleftrightarrow> k = n"
    using m k by (auto simp: unat_eq_0 word_le_nat_alt)
  have "TCPSource_send_loop now s = Some (Ok s)" by (subst TCPSource_send_loop.simps) (simp add: buf)
  then show ?thesis
    using DataTransferred_drained [of s now] drained
    by (simp add: TCPSource_SendPackets_def SendPackets_with_def buf le s'(1))
qed

text \<open>Sending after an acknowledgement, whether there is data left or not.\<close>

lemma SendPackets_flow:
  fixes s :: "('r, 'st) TCPSource"
  assumes s: "source_at config n k h s" and config: "flow_config config n" and k: "k \<le> h"
    and drained: "ts_on_send_buffer_drained s" "\<not> ts_complection_times_callback s"
  shows "\<exists>h' pkts t. TCPSource_SendPackets now s = Some (Ok t) \<and> source_at config n k h' t \<and> h \<le> h' \<and>
    sent_packets (ts_out t) = sent_packets (ts_out s) @ pkts \<and>
    list_all2 (\<lambda>j p. segment (ucast (tc_mss config)) j p \<and> pkt_time_sent p = now) [h..<h'] pkts \<and>
    (h' < n \<longrightarrow> unat (tc_mss config) * k + unat (ts_cwnd s) < unat (tc_mss config) * Suc h') \<and>
    ts_cwnd t = ts_cwnd s \<and> ts_in_fast_recovery t = ts_in_fast_recovery s \<and> ts_ssthresh t = ts_ssthresh s \<and>
    \<not> ts_complection_times_callback t \<and> (h \<noteq> 0 \<longrightarrow> ts_first_sent_time t = ts_first_sent_time s) \<and>
    (if k < n then ts_on_send_buffer_drained t else Send_buffer_drained \<in> set (ts_out t))"
proof (cases "h < n")
  case True
  have "tc_mss config \<noteq> 0" "unat (tc_mss config) * n < 2 ^ 63" using config by (auto simp: flow_config_def)
  from SendPackets_segments [OF s True this k, of now] obtain h' pkts t where
    t: "TCPSource_SendPackets now s = Some (Ok t)" "source_at config n k h' t" "h \<le> h'" "ts_out t = ts_out s @ map Sent pkts"
      "list_all2 (\<lambda>j p. segment (ucast (tc_mss config)) j p \<and> pkt_time_sent p = now) [h..<h'] pkts"
      "h' < n \<longrightarrow> unat (tc_mss config) * k + unat (ts_cwnd s) < unat (tc_mss config) * Suc h'"
      "ts_cwnd t = ts_cwnd s" "ts_in_fast_recovery t = ts_in_fast_recovery s" "ts_ssthresh t = ts_ssthresh s"
      "ts_on_send_buffer_drained t = ts_on_send_buffer_drained s"
      "ts_complection_times_callback t = ts_complection_times_callback s"
      "ts_first_sent_time t = (if h = 0 \<and> h' \<noteq> 0 then now else ts_first_sent_time s)"
    by (elim exE conjE) (rule that)
  have "k < n" using k True by simp
  then show ?thesis using t drained by (intro exI [of _ h'] exI [of _ pkts] exI [of _ t]) simp
next
  case False
  then have n: "h = n" using s by (simp add: source_at_def)
  have "tc_mss config \<noteq> 0" "\<not> tc_simulate_initial_handshake config" using config by (auto simp: flow_config_def)
  note SendPackets_nothing_left [OF s [unfolded n] this(1) k [unfolded n] this(2) drained, of now]
  then show ?thesis using k s drained unfolding n
    by (intro exI [of _ n] exI [of _ "[]"]
          exI [of _ "if k = n then (TCPSource_note Send_buffer_drained s)\<lparr>ts_on_send_buffer_drained := False\<rparr> else s"])
       (simp add: source_at_def)
qed

lemma flow_ack_step:
  assumes inv: "flow_inv config n t0 k c h f" and config: "flow_config config n" and acks: "fl_acks f = a # as"
    and now: "pkt_time_sent a \<le> now"
  shows "\<exists>source h'. TCPSource_HandlePacket now a (fl_source f) = Some (Ok source) \<and> flow_inv config n t0 (Suc k) c h'
    (f\<lparr>fl_source := source, fl_acks := as, fl_data := fl_data f @ new_packets (ts_out (fl_source f)) (ts_out source)\<rparr>)"
proof -
  let ?m = "unat (tc_mss config)" and ?s = "fl_source f"
  let ?d = "\<lambda>j p. segment (ucast (tc_mss config)) j p \<and> t0 \<le> pkt_time_sent p"
  let ?a = "\<lambda>j p. pkt_kind p = TCPPacket (offset ?m (Suc j)) 0 \<and> t0 \<le> pkt_time_sent p"
  have m: "0 < ?m" "tc_mss config \<le> tc_mss config" using config by (auto simp: flow_config_def unat_gt_0)
  have f: "c \<le> h" "source_at config n k h ?s" "\<not> ts_in_fast_recovery ?s" "ts_ssthresh ?s = 0xffffffff"
    "ts_first_sent_time ?s = t0" "ts_cwnd ?s < 0xffffffff" "list_all2 ?d [c..<h] (fl_data f)" "list_all2 ?a [k..<c] (a # as)"
    "\<not> ts_complection_times_callback ?s" "if k < n then ts_on_send_buffer_drained ?s else Send_buffer_drained \<in> set (ts_out ?s)"
    "?m \<le> unat (ts_cwnd ?s)" "sink_inv ?m {..<c} (fl_sink f)"
    using inv acks by (auto simp: flow_inv_def)
  have kc: "k < c" using f(8) by (cases "k < c") simp_all
  then have a: "?a k a" and as: "list_all2 ?a [Suc k..<c] as" using f(8) by (simp_all add: upt_conv_Cons)
  have hn: "h \<le> n" using f(2) by (simp add: source_at_def)
  have "?m * Suc k \<le> ?m * n" using kc f(1) hn by (intro mult_le_mono2) simp
  then have uo: "unat (offset ?m (Suc k)) = ?m * Suc k" using config by (intro unat_offset) (simp add: flow_config_def)
  have newer: "ts_last_acked ?s < offset ?m (Suc k)"
    using f(2) m uo by (simp add: word_less_nat_alt source_at_def)
  have "ts_cwnd ?s < ts_ssthresh ?s" "ts_first_sent_time ?s \<le> pkt_time_sent a" using f a by simp_all
  from HandlePacket_new_ack [OF conjunct1 [OF a] newer now this(2) f(3) this(1)] obtain u where
    u: "TCPSource_HandlePacket now a ?s = TCPSource_SendPackets now u" "source_at config n (Suc k) h u"
      "\<not> ts_in_fast_recovery u" "ts_ssthresh u = 0xffffffff" "ts_out u = ts_out ?s" "ts_first_sent_time u = t0"
      "\<not> ts_complection_times_callback u" "ts_on_send_buffer_drained u"
      "min (ts_cwnd ?s) (tc_maxcwnd config) \<le> ts_cwnd u" "ts_cwnd u \<le> max (ts_cwnd ?s) (tc_maxcwnd config)"
    using f uo kc hn by (auto simp: source_at_def)
  have cw: "?m \<le> unat (ts_cwnd u)" "ts_cwnd u < 0xffffffff"
    using u(9,10) f(6,11) config by (auto simp: flow_config_def word_le_nat_alt word_less_nat_alt min_def max_def split: if_splits)
  have "Suc k \<le> h" using kc f(1) by simp
  from SendPackets_flow [OF u(2) config this u(8,7), of now] obtain h' pkts t where
    t: "TCPSource_SendPackets now u = Some (Ok t)" "source_at config n (Suc k) h' t" "h \<le> h'"
      "sent_packets (ts_out t) = sent_packets (ts_out u) @ pkts"
      "list_all2 (\<lambda>j p. segment (ucast (tc_mss config)) j p \<and> pkt_time_sent p = now) [h..<h'] pkts"
      "h' < n \<longrightarrow> ?m * Suc k + unat (ts_cwnd u) < ?m * Suc h'"
      "ts_cwnd t = ts_cwnd u" "ts_in_fast_recovery t = ts_in_fast_recovery u" "ts_ssthresh t = ts_ssthresh u"
      "\<not> ts_complection_times_callback t" "h \<noteq> 0 \<longrightarrow> ts_first_sent_time t = ts_first_sent_time u"
      "if Suc k < n then ts_on_send_buffer_drained t else Send_buffer_drained \<in> set (ts_out t)"
    by (elim exE conjE) (rule that)
  have new: "new_packets (ts_out ?s) (ts_out t) = pkts" using t(4) u(5) by (simp add: new_packets_def)
  have "list_all2 ?d [h..<h'] pkts" using t(5) a now by (auto intro: list_all2_mono)
  moreover have "[c..<h'] = [c..<h] @ [h..<h']" using upt_add_eq_append [OF f(1), of "h' - h"] t(3) by simp
  ultimately have "list_all2 ?d [c..<h'] (fl_data f @ pkts)" using list_all2_appendI [OF f(7)] by simp
  then show ?thesis using new t u cw as kc f(1,12)
    by (intro exI [of _ t] exI [of _ h']) (simp add: flow_inv_def)
qed

section \<open>A flow completes\<close>

lemma flow_step_inv:
  assumes inv: "flow_inv config n t0 k c h f" and config: "flow_config config n" and step: "flow_step f f'"
  shows "\<exists>k' c' h'. flow_inv config n t0 k' c' h' f' \<and> k' + c' = Suc (k + c)"
  using step
proof (cases rule: flow_step.cases)
  case (data_arrives p ds sink)
  have "tc_mss config \<noteq> 0" using config by (simp add: flow_config_def)
  from flow_data_step [OF inv this data_arrives(2)] data_arrives(1,3) show ?thesis
    by (intro exI [of _ k] exI [of _ "Suc c"] exI [of _ h]) simp
next
  case (ack_arrives a as now source)
  from flow_ack_step [OF inv config ack_arrives(2,3)] ack_arrives(1,4) obtain h' where
    "flow_inv config n t0 (Suc k) c h' f'" by auto
  then show ?thesis by (intro exI [of _ "Suc k"] exI [of _ c] exI [of _ h']) simp
qed

lemma flow_steps_inv:
  assumes "(flow_step ^^ m) f0 f" "flow_inv config n t0 0 0 h f0" "flow_config config n"
  shows "\<exists>k c h. flow_inv config n t0 k c h f \<and> k + c = m"
  using assms(1)
proof (induction m arbitrary: f)
  case 0
  then show ?case using assms(2) by auto
next
  case (Suc m)
  then obtain g where "(flow_step ^^ m) f0 g" "flow_step g f" by auto
  with Suc.IH flow_step_inv [OF _ assms(3)] show ?case by blast
qed

lemma flow_progress:
  assumes inv: "flow_inv config n t0 k c h f" and config: "flow_config config n" and "k < n"
  shows "\<exists>f'. flow_step f f'"
proof -
  have mss: "tc_mss config \<noteq> 0" using config by (simp add: flow_config_def)
  consider p ds where "fl_data f = p # ds" | a as where "fl_acks f = a # as" | "fl_data f = []" "fl_acks f = []"
    by (meson neq_Nil_conv)
  then show ?thesis
  proof cases
    case (1 p ds)
    from flow_data_step [OF inv mss this] data_arrives [OF this] show ?thesis by blast
  next
    case (2 a as)
    from flow_ack_step [OF inv config this order_refl] ack_arrives [OF this order_refl] show ?thesis by blast
  next
    case 3
    then have "k = h" using inv by (auto simp: flow_inv_def)
    then show ?thesis using inv assms(3) by (auto simp: flow_inv_def)
  qed
qed

lemma flow_inv_complete:
  fixes f :: "('r, 'st) tcp_flow"
  assumes inv: "flow_inv config n t0 n n n f" and config: "flow_config config n"
  shows "fl_data f = []" "fl_acks f = []" "ts_send_buffer (fl_source f) = 0" "ts_last_acked (fl_source f) = offset (unat (tc_mss config)) n"
    "tk_cumulative_ack (fl_sink f) = offset (unat (tc_mss config)) n" "tk_received (fl_sink f) = []"
    "Send_buffer_drained \<in> set (ts_out (fl_source f))"
proof -
  let ?m = "unat (tc_mss config)"
  have "unat (offset ?m n) = ?m * n" using config by (intro unat_offset) (simp add: flow_config_def)
  moreover have "unat (ts_last_acked (fl_source f)) = ?m * n" "unat (ts_send_buffer (fl_source f)) = 0"
    using inv by (simp_all add: flow_inv_def source_at_def)
  ultimately show "ts_last_acked (fl_source f) = offset ?m n" "ts_send_buffer (fl_source f) = 0"
    by (simp_all only: unat_eq_unat_iff [symmetric] unat_0)
  show "tk_cumulative_ack (fl_sink f) = offset ?m n" "tk_received (fl_sink f) = []"
    using sink_inv_complete [of ?m n "fl_sink f"] inv by (simp_all add: flow_inv_def)
  show "fl_data f = []" "fl_acks f = []" "Send_buffer_drained \<in> set (ts_out (fl_source f))"
    using inv by (simp_all add: flow_inv_def)
qed



end
