(* ===== verification/Sim_Network.thy ===== *)
theory Sim_Network
  imports Tcp_Flow Match_Rules
begin

text \<open>
  Devices, their ports and the network that wires them, \<open>src/src/htsim/network.{h,cc}\<close>. A device has a matcher, ports and the
  connections that end at it. Handlers, observers and devices are addresses. What a device hands to a queue, a replies handler
  or an observer, and the callbacks of its connections, are kept in order in \<open>dv_out\<close>. A rule that a message carries
  comes with its address.

  The packets a connection sends enter the device again through the loopback port. They do so here when the handler of the
  connection has returned, each in turn, and in the code from within it; the two differ only for a connection from a device to
  itself, whose packets in the code come back to it in the middle of its handler.
\<close>

section \<open>Ports\<close>

datatype sim_handler = Queue_handler nat | Other_handler nat

record Port =
  po_out_handler :: "sim_handler option"
  po_internal :: bool

definition Port_new :: Port where
  "Port_new = \<lparr>po_out_handler = None, po_internal = False\<rparr>"

definition Port_Connect :: "sim_handler option \<Rightarrow> Port \<Rightarrow> Port res" where
  "Port_Connect out_handler p =
     (if out_handler = po_out_handler p then Ok p
      else check (po_out_handler p = None) (Ok (p\<lparr>po_out_handler := out_handler\<rparr>)))"

definition Port_Reconnect :: "sim_handler option \<Rightarrow> Port \<Rightarrow> Port res" where
  "Port_Reconnect out_handler p = check (po_out_handler p \<noteq> None) (Ok (p\<lparr>po_out_handler := out_handler\<rparr>))"

definition Port_set_internal :: "bool \<Rightarrow> Port \<Rightarrow> Port" where
  "Port_set_internal internal p = p\<lparr>po_internal := internal\<rparr>"

section \<open>Connections\<close>

type_synonym sim_rule = "rule_ptr \<times> MatchRule"
type_synonym sim_stats = "(rule_key, ActionStats list) smap"
type_synonym sim_packet = "(sim_rule, sim_stats) Packet"
type_synonym sim_effect = "(sim_rule, sim_stats) tcp_effect"

datatype connection =
    TCP_source "(sim_rule, sim_stats) TCPSource"
  | TCP_sink "(sim_rule, sim_stats) TCPSink"
  | UDP_source "(sim_rule, sim_stats) UDPConnection"
  | UDP_sink "(sim_rule, sim_stats) UDPConnection"

text \<open>The virtual functions of a connection.\<close>

definition connection_HandlePacket :: "EventQueueTime \<Rightarrow> sim_packet \<Rightarrow> connection \<Rightarrow> connection res option" where
  "connection_HandlePacket now pkt c =
     (case c of
        TCP_source s \<Rightarrow> orbind (TCPSource_HandlePacket now pkt s) (\<lambda>s. Some (Ok (TCP_source s)))
      | TCP_sink s \<Rightarrow> Some (rbind (TCPSink_HandlePacket pkt s) (\<lambda>s. Ok (TCP_sink s)))
      | UDP_source s \<Rightarrow> Some (rbind (UDPSource_HandlePacket pkt s) (\<lambda>s. Ok (UDP_source s)))
      | UDP_sink s \<Rightarrow> Some (rbind (UDPSink_HandlePacket pkt s) (\<lambda>s. Ok (UDP_sink s))))"

definition connection_AddData :: "EventQueueTime \<Rightarrow> 64 word \<Rightarrow> connection \<Rightarrow> connection res option" where
  "connection_AddData now bytes c =
     (case c of
        TCP_source s \<Rightarrow> orbind (TCPSource_AddData now bytes s) (\<lambda>s. Some (Ok (TCP_source s)))
      | TCP_sink s \<Rightarrow> Some (rbind (TCPSink_AddData bytes s) (\<lambda>s. Ok (TCP_sink s)))
      | UDP_source s \<Rightarrow> Some (rbind (UDPSource_AddData now bytes s) (\<lambda>s. Ok (UDP_source s)))
      | UDP_sink s \<Rightarrow> Some (rbind (UDPSink_AddData bytes s) (\<lambda>s. Ok (UDP_sink s))))"

definition connection_GetStats :: "connection \<Rightarrow> ConnectionStats" where
  "connection_GetStats c =
     (case c of TCP_source s \<Rightarrow> ts_stats s | TCP_sink s \<Rightarrow> tk_stats s | UDP_source s \<Rightarrow> uc_stats s | UDP_sink s \<Rightarrow> uc_stats s)"

text \<open>What a connection has handed on since it was last asked.\<close>

definition connection_take :: "connection \<Rightarrow> sim_effect list \<times> connection" where
  "connection_take c =
     (case c of
        TCP_source s \<Rightarrow> (ts_out s, TCP_source (s\<lparr>ts_out := []\<rparr>))
      | TCP_sink s \<Rightarrow> (tk_out s, TCP_sink (s\<lparr>tk_out := []\<rparr>))
      | UDP_source s \<Rightarrow> (map Sent (uc_out s), UDP_source (s\<lparr>uc_out := []\<rparr>))
      | UDP_sink s \<Rightarrow> (map Sent (uc_out s), UDP_sink (s\<lparr>uc_out := []\<rparr>)))"

section \<open>Devices\<close>

type_synonym tuple_key = "IPAddress \<times> IPAddress \<times> IPProto \<times> AccessLayerPort \<times> AccessLayerPort"

record DeviceStats =
  ds_num_rules :: "32 word"
  ds_packets_seen :: "64 word"
  ds_packets_failed_to_match :: "64 word"
  ds_bytes_seen :: "64 word"
  ds_bytes_failed_to_match :: "64 word"
  ds_packets_for_localhost :: "64 word"
  ds_bytes_for_localhost :: "64 word"
  ds_route_updates_seen :: "64 word"
  ds_connection_stats :: "(tuple_key, ConnectionStats) smap"

definition DeviceStats_new :: DeviceStats where
  "DeviceStats_new =
     \<lparr>ds_num_rules = 0, ds_packets_seen = 0, ds_packets_failed_to_match = 0, ds_bytes_seen = 0, ds_bytes_failed_to_match = 0,
      ds_packets_for_localhost = 0, ds_bytes_for_localhost = 0, ds_route_updates_seen = 0, ds_connection_stats = []\<rparr>"

datatype device_effect =
    Passed sim_handler sim_packet
  | Replied sim_handler sim_packet
  | Observed nat sim_packet
  | Noted sim_effect

record Device =
  dv_id :: string
  dv_ip_address :: IPAddress
  dv_in_network :: bool
  dv_ports :: "(DevicePortNumber, Port) smap"
  dv_replies_handler :: "sim_handler option"
  dv_internal_external_observer :: "nat option"
  dv_external_internal_observer :: "nat option"
  dv_matcher :: Matcher
  dv_stats :: DeviceStats
  dv_connections :: "(tuple_key, connection) smap"
  dv_die_on_fail_to_match :: bool
  dv_out :: "device_effect list"

definition kLoopbackPortNum :: DevicePortNumber where
  "kLoopbackPortNum = - 1"

definition kProtoTCP :: IPProto where
  "kProtoTCP = 6"

definition kProtoUDP :: IPProto where
  "kProtoUDP = 17"

definition kNullPacketTag :: PacketTag where
  "kNullPacketTag = - 1"

definition Device_new :: "string \<Rightarrow> IPAddress \<Rightarrow> Device" where
  "Device_new device_id ip_address =
     \<lparr>dv_id = device_id, dv_ip_address = ip_address, dv_in_network = False, dv_ports = [], dv_replies_handler = None,
      dv_internal_external_observer = None, dv_external_internal_observer = None, dv_matcher = Matcher_new,
      dv_stats = DeviceStats_new, dv_connections = [], dv_die_on_fail_to_match = False, dv_out = []\<rparr>"

definition Device_set_tx_replies_handler :: "sim_handler option \<Rightarrow> Device \<Rightarrow> Device" where
  "Device_set_tx_replies_handler tx_replies_handler d = d\<lparr>dv_replies_handler := tx_replies_handler\<rparr>"

definition Device_set_die_on_fail_to_match :: "bool \<Rightarrow> Device \<Rightarrow> Device" where
  "Device_set_die_on_fail_to_match die d = d\<lparr>dv_die_on_fail_to_match := die\<rparr>"

definition Device_AddInternalExternalObserver :: "nat option \<Rightarrow> Device \<Rightarrow> Device res" where
  "Device_AddInternalExternalObserver observer d =
     check (dv_internal_external_observer d = None \<or> dv_internal_external_observer d = observer)
       (check (observer \<noteq> None) (Ok (d\<lparr>dv_internal_external_observer := observer\<rparr>)))"

definition Device_AddExternalInternalObserver :: "nat option \<Rightarrow> Device \<Rightarrow> Device res" where
  "Device_AddExternalInternalObserver observer d =
     check (dv_external_internal_observer d = None \<or> dv_external_internal_observer d = observer)
       (check (observer \<noteq> None) (Ok (d\<lparr>dv_external_internal_observer := observer\<rparr>)))"

text \<open>A port is referred to by its number.\<close>

definition Device_FindOrCreatePort :: "DevicePortNumber \<Rightarrow> Device \<Rightarrow> Device" where
  "Device_FindOrCreatePort port_num d =
     (case map_of (dv_ports d) port_num of
        Some _ \<Rightarrow> d
      | None \<Rightarrow> d\<lparr>dv_ports := smap_put port_num Port_new (dv_ports d)\<rparr>)"

text \<open>A function of the port \<open>FindOrCreatePort\<close> returns.\<close>

definition Device_update_port :: "DevicePortNumber \<Rightarrow> (Port \<Rightarrow> Port res) \<Rightarrow> Device \<Rightarrow> Device res" where
  "Device_update_port port_num f d =
     (let d = Device_FindOrCreatePort port_num d
      in rbind (f (smap_get Port_new port_num (dv_ports d))) (\<lambda>p. Ok (d\<lparr>dv_ports := smap_put port_num p (dv_ports d)\<rparr>)))"

text \<open>The loops below count up from \<open>i\<close> to the maximum of the type, which is not tried.\<close>

function next_port :: "(DevicePortNumber, Port) smap \<Rightarrow> nat \<Rightarrow> DevicePortNumber res" where
  "next_port ports i =
     (if i < 2 ^ 32 - 1
      then if map_of ports (of_nat i) \<noteq> None then next_port ports (i + 1) else Ok (of_nat i)
      else Fail Log_fatal)"
  by auto
termination by (relation "measure (\<lambda>(ports, i). 2 ^ 32 - i)") auto

declare next_port.simps [simp del]

definition Device_NextAvailablePort :: "Device \<Rightarrow> (Device \<times> DevicePortNumber) res" where
  "Device_NextAvailablePort d =
     rbind (next_port (dv_ports d) 1) (\<lambda>port_number.
       Ok (d\<lparr>dv_ports := smap_put port_number Port_new (dv_ports d)\<rparr>, port_number))"

definition Device_GetLoopbackPort :: "Device \<Rightarrow> Device" where
  "Device_GetLoopbackPort d = Device_FindOrCreatePort kLoopbackPortNum d"

function pick_src_port :: "(tuple_key, connection) smap \<Rightarrow> FiveTuple \<Rightarrow> nat \<Rightarrow> FiveTuple res" where
  "pick_src_port connections t i =
     (if i < 2 ^ 16 - 1
      then let return_tuple = FiveTuple_new (ft_ip_src t) (ft_ip_dst t) (ft_ip_proto t) (of_nat i) (ft_dst_port t)
           in if map_of connections (FiveTuple_tie return_tuple) = None then Ok return_tuple
              else pick_src_port connections t (i + 1)
      else Fail Check_failed)"
  by auto
termination by (relation "measure (\<lambda>(connections, t, i). 2 ^ 16 - i)") auto

declare pick_src_port.simps [simp del]

definition Device_PickSrcPortOrDie :: "FiveTuple \<Rightarrow> Device \<Rightarrow> FiveTuple res" where
  "Device_PickSrcPortOrDie tuple_with_no_src_port d = pick_src_port (dv_connections d) tuple_with_no_src_port 1"

definition Device_PrepareTuple :: "IPAddress \<Rightarrow> AccessLayerPort \<Rightarrow> bool \<Rightarrow> Device \<Rightarrow> FiveTuple res" where
  "Device_PrepareTuple dst_address dst_port tcp d =
     Device_PickSrcPortOrDie
       (FiveTuple_new (dv_ip_address d) dst_address (if tcp then kProtoTCP else kProtoUDP) kWildAccessLayerPort dst_port) d"

text \<open>\<open>emplace\<close>, which leaves an entry that is there alone.\<close>

definition Device_add_connection :: "FiveTuple \<Rightarrow> connection \<Rightarrow> Device \<Rightarrow> Device" where
  "Device_add_connection tuple c d =
     (if map_of (dv_connections d) (FiveTuple_tie tuple) = None
      then d\<lparr>dv_connections := smap_put (FiveTuple_tie tuple) c (dv_connections d)\<rparr> else d)"

text \<open>A source is registered with the timer of the network by the address of the device and its tuple.\<close>

type_synonym source_address = "nat \<times> tuple_key"

definition Device_AddTCPGenerator ::
    "'c \<Rightarrow> nat \<Rightarrow> TCPSourceConfig \<Rightarrow> IPAddress \<Rightarrow> AccessLayerPort \<Rightarrow> source_address TCPRtxTimer \<Rightarrow> Device \<Rightarrow>
     (FiveTuple \<times> Device \<times> source_address TCPRtxTimer \<times> 'c request list) res" where
  "Device_AddTCPGenerator timer_consumer this tcp_config dst_address dst_port timer d =
     rbind (Device_PrepareTuple dst_address dst_port True d) (\<lambda>tuple.
       let d = Device_GetLoopbackPort d
       in check (dv_in_network d)
            (let (timer, requests) = TCPRtxTimer_RegisterTCPSource timer_consumer (this, FiveTuple_tie tuple) timer
             in Ok (tuple, Device_add_connection tuple (TCP_source (TCPSource_new tuple tcp_config)) d, timer, requests)))"

definition Device_AddUDPGenerator :: "IPAddress \<Rightarrow> AccessLayerPort \<Rightarrow> Device \<Rightarrow> (FiveTuple \<times> Device) res" where
  "Device_AddUDPGenerator dst_address dst_port d =
     rbind (Device_PrepareTuple dst_address dst_port False d) (\<lambda>tuple.
       Ok (tuple, Device_add_connection tuple (UDP_source (UDPConnection_new tuple)) (Device_GetLoopbackPort d)))"

definition Device_GetStats :: "Device \<Rightarrow> DeviceStats" where
  "Device_GetStats d =
     (dv_stats d)\<lparr>ds_connection_stats :=
         fold (\<lambda>(tuple, connection) stats. smap_put tuple (connection_GetStats connection) stats) (dv_connections d)
           (ds_connection_stats (dv_stats d)),
       ds_num_rules := of_nat (Matcher_NumRules (dv_matcher d))\<rparr>"

definition Device_emit :: "device_effect \<Rightarrow> Device \<Rightarrow> Device" where
  "Device_emit effect d = d\<lparr>dv_out := dv_out d @ [effect]\<rparr>"

text \<open>A packet of size zero for the device itself is a message from the controller.\<close>

definition Device_handle_message :: "EventQueueTime \<Rightarrow> sim_packet \<Rightarrow> Device \<Rightarrow> Device res" where
  "Device_handle_message now pkt d =
     (let type = ft_ip_proto (pkt_five_tuple pkt); src = ft_ip_src (pkt_five_tuple pkt)
      in if type = 180
         then let d = d\<lparr>dv_stats := (dv_stats d)\<lparr>ds_route_updates_seen := ds_route_updates_seen (dv_stats d) + 1\<rparr>\<rparr>
              in case pkt_kind pkt of
                   SSCPAddOrUpdate (Some (p, rule)) tx \<Rightarrow>
                     rbind (Matcher_AddRule p rule (dv_matcher d)) (\<lambda>matcher.
                       let d = d\<lparr>dv_matcher := matcher\<rparr>
                       in case dv_replies_handler d of
                            None \<Rightarrow> Ok d
                          | Some replies_handler \<Rightarrow>
                              Ok (if tx \<noteq> kNoTxId
                                  then Device_emit (Replied replies_handler (SSCPAck_new (dv_ip_address d) src now tx)) d
                                  else d))
                 | _ \<Rightarrow> Fail Undefined_behaviour
         else if type = 253
         then case pkt_kind pkt of
                SSCPStatsRequest include tx \<Rightarrow>
                  rbind (Matcher_PopulateSSCPStats [] (dv_matcher d)) (\<lambda>stats.
                    case dv_replies_handler d of
                      None \<Rightarrow> Fail Check_failed
                    | Some replies_handler \<Rightarrow>
                        Ok (Device_emit (Replied replies_handler (SSCPStatsReply_new stats (dv_ip_address d) src now)) d))
              | _ \<Rightarrow> Fail Undefined_behaviour
         else Ok d)"

text \<open>The sink for the first packet of a connection.\<close>

definition Device_new_sink :: "FiveTuple \<Rightarrow> FiveTuple \<Rightarrow> connection res" where
  "Device_new_sink incoming_tuple outgoing_tuple =
     (if ft_ip_proto incoming_tuple = kProtoUDP then Ok (UDP_sink (UDPConnection_new outgoing_tuple))
      else if ft_ip_proto incoming_tuple = kProtoTCP then Ok (TCP_sink (TCPSink_new outgoing_tuple))
      else Fail Log_fatal)"

text \<open>A call of a function of the connection at \<open>tuple\<close>, and what the connection hands on in it.\<close>

definition Device_call_connection ::
    "tuple_key \<Rightarrow> (connection \<Rightarrow> connection res option) \<Rightarrow> Device \<Rightarrow> (Device \<times> sim_effect list) res option" where
  "Device_call_connection tuple f d =
     (case map_of (dv_connections d) tuple of
        None \<Rightarrow> Some (Fail Undefined_behaviour)
      | Some c \<Rightarrow> orbind (f c) (\<lambda>c.
          let (effects, c) = connection_take c
          in Some (Ok (d\<lparr>dv_connections := smap_put tuple c (dv_connections d)\<rparr>, effects))))"

text \<open>\<open>HandlePacket\<close> of a device, up to the packets its connection sends.\<close>

definition Device_receive :: "EventQueueTime \<Rightarrow> sim_packet \<Rightarrow> Device \<Rightarrow> (Device \<times> sim_effect list) res option" where
  "Device_receive now pkt d =
     (if pkt_size_bytes pkt = 0 then Some (rbind (Device_handle_message now pkt d) (\<lambda>d. Ok (d, [])))
      else let incoming_tuple = pkt_five_tuple pkt;
               outgoing_tuple = FiveTuple_Reverse incoming_tuple
           in if map_of (dv_connections d) (FiveTuple_tie outgoing_tuple) \<noteq> None
              then Device_call_connection (FiveTuple_tie outgoing_tuple) (connection_HandlePacket now pkt) d
              else let d = Device_GetLoopbackPort d
                   in orbind (Some (Device_new_sink incoming_tuple outgoing_tuple)) (\<lambda>new_connection.
                        Device_call_connection (FiveTuple_tie outgoing_tuple) (connection_HandlePacket now pkt)
                          (Device_add_connection outgoing_tuple new_connection d)))"

definition Device_observe :: "Port \<Rightarrow> Port \<Rightarrow> sim_packet \<Rightarrow> Device \<Rightarrow> Device" where
  "Device_observe input_port output_port pkt d =
     (if po_internal input_port \<and> \<not> po_internal output_port \<and> dv_internal_external_observer d \<noteq> None
      then Device_emit (Observed (the (dv_internal_external_observer d)) pkt) d
      else if \<not> po_internal input_port \<and> po_internal output_port \<and> dv_external_internal_observer d \<noteq> None
      then Device_emit (Observed (the (dv_external_internal_observer d)) pkt) d
      else d)"

definition Port_SendPacketOut :: "sim_packet \<Rightarrow> Port \<Rightarrow> Device \<Rightarrow> Device res" where
  "Port_SendPacketOut pkt p d =
     (case po_out_handler p of
        None \<Rightarrow> Fail Undefined_behaviour
      | Some out_handler \<Rightarrow> Ok (Device_emit (Passed out_handler pkt) d))"

definition Device_HandlePacketWithAction :: "Port \<Rightarrow> sim_packet \<Rightarrow> MatchRuleAction \<Rightarrow> Device \<Rightarrow> Device res" where
  "Device_HandlePacketWithAction input_port pkt action d =
     (let pkt = (if mra_tag action \<noteq> kNullPacketTag then pkt\<lparr>pkt_tag := mra_tag action\<rparr> else pkt);
          pkt = (if \<not> pkt_preferential_drop pkt \<and> mra_preferential_drop action
                 then pkt\<lparr>pkt_preferential_drop := True\<rparr> else pkt);
          (alive, pkt) = Packet_DecrementTTL pkt
      in if \<not> alive then Fail Log_fatal
         else case map_of (dv_ports d) (mra_output_port action) of
                None \<Rightarrow> Fail Check_failed
              | Some output_port \<Rightarrow> Port_SendPacketOut pkt output_port (Device_observe input_port output_port pkt d))"

text \<open>\<open>HandlePacketFromPort\<close> for a packet that is not for the device.\<close>

definition Device_forward :: "DevicePortNumber \<Rightarrow> sim_packet \<Rightarrow> Device \<Rightarrow> Device res" where
  "Device_forward input_port pkt d =
     rbind (Matcher_MatchOrNull pkt input_port (dv_matcher d)) (\<lambda>(matcher, action).
       let d = d\<lparr>dv_matcher := matcher\<rparr>
       in case action of
            None \<Rightarrow>
              let d = d\<lparr>dv_stats := (dv_stats d)
                    \<lparr>ds_packets_failed_to_match := ds_packets_failed_to_match (dv_stats d) + 1,
                     ds_bytes_failed_to_match := ds_bytes_failed_to_match (dv_stats d) + ucast (pkt_size_bytes pkt)\<rparr>\<rparr>
              in if dv_die_on_fail_to_match d then Fail Log_fatal else Ok d
          | Some action \<Rightarrow>
              (case map_of (dv_ports d) input_port of
                 None \<Rightarrow> Fail Undefined_behaviour
               | Some port \<Rightarrow> Device_HandlePacketWithAction port pkt action d))"

definition Device_count_seen :: "sim_packet \<Rightarrow> Device \<Rightarrow> Device" where
  "Device_count_seen pkt d =
     d\<lparr>dv_stats := (dv_stats d)\<lparr>ds_packets_seen := ds_packets_seen (dv_stats d) + 1,
         ds_bytes_seen := ds_bytes_seen (dv_stats d) + ucast (pkt_size_bytes pkt)\<rparr>\<rparr>"

definition Device_count_local :: "sim_packet \<Rightarrow> Device \<Rightarrow> Device" where
  "Device_count_local pkt d =
     d\<lparr>dv_stats := (dv_stats d)\<lparr>ds_packets_for_localhost := ds_packets_for_localhost (dv_stats d) + 1,
         ds_bytes_for_localhost := ds_bytes_for_localhost (dv_stats d) + ucast (pkt_size_bytes pkt)\<rparr>\<rparr>"

partial_function (option) Device_HandlePacketFromPort ::
    "EventQueueTime \<Rightarrow> DevicePortNumber \<Rightarrow> sim_packet \<Rightarrow> Device \<Rightarrow> Device res option" where
  "Device_HandlePacketFromPort now input_port pkt d =
     (if ft_ip_dst (pkt_five_tuple pkt) = dv_ip_address d
      then orbind (Device_receive now pkt (Device_count_local pkt (Device_count_seen pkt d))) (\<lambda>x.
             orfold (\<lambda>effect d.
                 if is_Sent effect then Device_HandlePacketFromPort now kLoopbackPortNum (sent_packet effect) d
                 else Some (Ok (Device_emit (Noted effect) d)))
               (snd x) (fst x))
      else Some (Device_forward input_port pkt (Device_count_seen pkt d)))"

text \<open>What a connection has handed on, through the loopback port.\<close>

definition Device_pass_on :: "EventQueueTime \<Rightarrow> sim_effect list \<Rightarrow> Device \<Rightarrow> Device res option" where
  "Device_pass_on now effects d =
     orfold (\<lambda>effect d.
         if is_Sent effect then Device_HandlePacketFromPort now kLoopbackPortNum (sent_packet effect) d
         else Some (Ok (Device_emit (Noted effect) d))) effects d"

definition Device_HandlePacket :: "EventQueueTime \<Rightarrow> sim_packet \<Rightarrow> Device \<Rightarrow> Device res option" where
  "Device_HandlePacket now pkt d =
     orbind (Device_receive now pkt d) (\<lambda>(d, effects). Device_pass_on now effects d)"

text \<open>\<open>AddData\<close> and \<open>RtxTimerHook\<close> of a source of the device.\<close>

definition Device_AddData :: "EventQueueTime \<Rightarrow> tuple_key \<Rightarrow> 64 word \<Rightarrow> Device \<Rightarrow> Device res option" where
  "Device_AddData now tuple bytes d =
     orbind (Device_call_connection tuple (connection_AddData now bytes) d) (\<lambda>(d, effects). Device_pass_on now effects d)"

definition Device_RtxTimerHook :: "EventQueueTime \<Rightarrow> tuple_key \<Rightarrow> Device \<Rightarrow> Device res option" where
  "Device_RtxTimerHook now tuple d =
     orbind (Device_call_connection tuple (\<lambda>c.
         case c of
           TCP_source s \<Rightarrow> orbind (TCPSource_RtxTimerHook now s) (\<lambda>s. Some (Ok (TCP_source s)))
         | _ \<Rightarrow> Some (Fail Undefined_behaviour)) d) (\<lambda>(d, effects). Device_pass_on now effects d)"

section \<open>The network\<close>

text \<open>
  The devices, queues and pipes are objects the network is given pointers to; the record has the devices and where the queues
  and pipes are connected.
\<close>

record Network =
  nw_id_to_device :: "(string, nat) smap"
  nw_tcp_retx_timer :: "source_address TCPRtxTimer"
  nw_devices :: "nat \<rightharpoonup> Device"
  nw_queue_other_end :: "nat \<rightharpoonup> nat"
  nw_pipe_other_end :: "nat \<rightharpoonup> nat \<times> DevicePortNumber"

definition Network_new :: "EventQueueTime \<Rightarrow> (nat \<rightharpoonup> Device) \<Rightarrow> Network" where
  "Network_new tcp_retx_scan_period devices =
     \<lparr>nw_id_to_device = [], nw_tcp_retx_timer = \<lparr>rt_scan_period = tcp_retx_scan_period, rt_tcp_sources = []\<rparr>,
      nw_devices = devices, nw_queue_other_end = Map.empty, nw_pipe_other_end = Map.empty\<rparr>"

definition Network_at_device :: "nat \<Rightarrow> (Device \<Rightarrow> Device res option) \<Rightarrow> Network \<Rightarrow> Network res option" where
  "Network_at_device a f n =
     (case nw_devices n a of
        None \<Rightarrow> Some (Fail Undefined_behaviour)
      | Some d \<Rightarrow> orbind (f d) (\<lambda>d. Some (Ok (n\<lparr>nw_devices := (nw_devices n)(a \<mapsto> d)\<rparr>))))"

definition Network_AddDevice :: "nat \<Rightarrow> Network \<Rightarrow> Network res" where
  "Network_AddDevice device n =
     (case nw_devices n device of
        None \<Rightarrow> Fail Undefined_behaviour
      | Some d \<Rightarrow> Ok (n\<lparr>nw_id_to_device := (if map_of (nw_id_to_device n) (dv_id d) = None
                           then smap_put (dv_id d) device (nw_id_to_device n) else nw_id_to_device n),
                       nw_devices := (nw_devices n)(device \<mapsto> d\<lparr>dv_in_network := True\<rparr>)\<rparr>))"

definition Network_update_port ::
    "nat \<Rightarrow> DevicePortNumber \<Rightarrow> (Port \<Rightarrow> Port res) \<Rightarrow> Network \<Rightarrow> Network res" where
  "Network_update_port a port_num f n =
     (case nw_devices n a of
        None \<Rightarrow> Fail Undefined_behaviour
      | Some d \<Rightarrow> rbind (Device_update_port port_num f d) (\<lambda>d. Ok (n\<lparr>nw_devices := (nw_devices n)(a \<mapsto> d)\<rparr>)))"

definition Network_AddLink ::
    "nat \<Rightarrow> nat \<Rightarrow> string \<Rightarrow> string \<Rightarrow> DevicePortNumber \<Rightarrow> DevicePortNumber \<Rightarrow> bool \<Rightarrow> Network \<Rightarrow> Network res" where
  "Network_AddLink queue pipe src_id dst_id src_port_num dst_port_num internal n =
     check (src_id \<noteq> dst_id)
       (rbind (FindOrDie (nw_id_to_device n) src_id) (\<lambda>src.
        rbind (FindOrDie (nw_id_to_device n) dst_id) (\<lambda>dst.
        rbind (Network_update_port src src_port_num (\<lambda>p. Ok (Port_set_internal internal p)) n) (\<lambda>n.
        rbind (Network_update_port dst dst_port_num (\<lambda>p. Ok (Port_set_internal internal p)) n) (\<lambda>n.
        rbind (Network_update_port src src_port_num (Port_Connect (Some (Queue_handler queue))) n) (\<lambda>n.
          Ok (n\<lparr>nw_queue_other_end := (nw_queue_other_end n)(queue \<mapsto> pipe),
                nw_pipe_other_end := (nw_pipe_other_end n)(pipe \<mapsto> (dst, dst_port_num))\<rparr>)))))))"

definition Network_AddTCPGenerator ::
    "'c \<Rightarrow> nat \<Rightarrow> TCPSourceConfig \<Rightarrow> IPAddress \<Rightarrow> AccessLayerPort \<Rightarrow> Network \<Rightarrow>
     (FiveTuple \<times> Network \<times> 'c request list) res" where
  "Network_AddTCPGenerator timer_consumer a tcp_config dst_address dst_port n =
     (case nw_devices n a of
        None \<Rightarrow> Fail Undefined_behaviour
      | Some d \<Rightarrow>
          rbind (Device_AddTCPGenerator timer_consumer a tcp_config dst_address dst_port (nw_tcp_retx_timer n) d)
            (\<lambda>(tuple, d, timer, requests).
              Ok (tuple, n\<lparr>nw_devices := (nw_devices n)(a \<mapsto> d), nw_tcp_retx_timer := timer\<rparr>, requests)))"

text \<open>The timer's event, with the sources where they are.\<close>

definition Network_RtxTimer_HandleEvent ::
    "'c \<Rightarrow> EventQueueTime \<Rightarrow> Network \<Rightarrow> (Network \<times> 'c request list) res option" where
  "Network_RtxTimer_HandleEvent timer_consumer now n =
     orbind (orfold (\<lambda>(a, tuple) n. Network_at_device a (Device_RtxTimerHook now tuple) n)
         (rt_tcp_sources (nw_tcp_retx_timer n)) n) (\<lambda>n.
       Some (Ok (n, [EnqueueIn timer_consumer (rt_scan_period (nw_tcp_retx_timer n))])))"

text \<open>A packet at the end of a pipe.\<close>

definition Port_HandlePacket :: "EventQueueTime \<Rightarrow> nat \<times> DevicePortNumber \<Rightarrow> sim_packet \<Rightarrow> Network \<Rightarrow> Network res option" where
  "Port_HandlePacket now port pkt n =
     Network_at_device (fst port) (Device_HandlePacketFromPort now (snd port) pkt) n"

end
