(* ===== verification/Tcp_Calls.thy ===== *)
theory Tcp_Calls
  imports Tcp_Flow
begin

text \<open>
  What every call of a TCP source of \<open>src/src/htsim/tcp.cc\<close> has in common, in whatever state the source is: it returns, it leaves the
  tuple and the configuration alone, and the packets it sends are segments of its own connection.
\<close>

section \<open>Calls of a source\<close>

definition own_packet :: "FiveTuple \<Rightarrow> ('r, 'st) Packet \<Rightarrow> bool" where
  "own_packet tuple p \<longleftrightarrow> pkt_five_tuple p = tuple \<and> pkt_size_bytes p \<noteq> 0 \<and> pkt_tag p = kDefaultTag \<and> pkt_ttl p = kDefaultTTL"

definition source_step :: "('r, 'st) TCPSource \<Rightarrow> ('r, 'st) TCPSource \<Rightarrow> bool" where
  "source_step s t \<longleftrightarrow> ts_five_tuple t = ts_five_tuple s \<and> ts_config t = ts_config s \<and>
     (\<exists>new. ts_out t = ts_out s @ new \<and> (\<forall>p. Sent p \<in> set new \<longrightarrow> own_packet (ts_five_tuple s) p))"

definition source_returns :: "('r, 'st) TCPSource \<Rightarrow> ('r, 'st) TCPSource res option \<Rightarrow> bool" where
  "source_returns s r \<longleftrightarrow> (\<exists>x. r = Some x \<and> (\<forall>t. x = Ok t \<longrightarrow> source_step s t))"

lemma source_step_trans: "source_step s t \<Longrightarrow> source_step t u \<Longrightarrow> source_step s u"
  unfolding source_step_def
proof (elim conjE exE, intro conjI)
  fix new new'
  assume "ts_out t = ts_out s @ new" "ts_out u = ts_out t @ new'" "ts_five_tuple t = ts_five_tuple s"
    "\<forall>p. Sent p \<in> set new \<longrightarrow> own_packet (ts_five_tuple s) p" "\<forall>p. Sent p \<in> set new' \<longrightarrow> own_packet (ts_five_tuple t) p"
  then show "\<exists>new. ts_out u = ts_out s @ new \<and> (\<forall>p. Sent p \<in> set new \<longrightarrow> own_packet (ts_five_tuple s) p)"
    by (intro exI [of _ "new @ new'"]) auto
qed simp_all

lemma source_step_quiet:
  "ts_five_tuple t = ts_five_tuple s \<Longrightarrow> ts_config t = ts_config s \<Longrightarrow> ts_out t = ts_out s \<Longrightarrow> source_step s t"
  by (simp add: source_step_def)

lemma source_step_refl [simp]: "source_step s s"
  by (rule source_step_quiet) simp_all

lemma source_step_note: "source_step s t \<Longrightarrow> \<not> is_Sent effect \<Longrightarrow> source_step s (TCPSource_note effect t)"
  by (erule source_step_trans, cases effect) (auto simp: source_step_def TCPSource_note_def)

lemma source_returns_Ok: "source_step s t \<Longrightarrow> source_returns s (Some (Ok t))"
  by (simp add: source_returns_def)

lemma source_returns_Fail [simp]: "source_returns s (Some (Fail e))"
  by (simp add: source_returns_def)

lemma source_returns_orbind:
  assumes "source_returns s r" "\<And>t. source_step s t \<Longrightarrow> source_returns s (f t)"
  shows "source_returns s (orbind r f)"
  using assms(1)
proof (cases r)
  case (Some x)
  then show ?thesis
    using assms by (cases x) (auto simp: source_returns_def)
qed (simp add: source_returns_def)

lemma source_returns_trans: "source_step s t \<Longrightarrow> source_returns t r \<Longrightarrow> source_returns s r"
  unfolding source_returns_def by (blast intro: source_step_trans)

lemma source_step_upd [simp]:
  "source_step s (s\<lparr>ts_stats := x1\<rparr>)" "source_step s (s\<lparr>ts_cwnd := w\<rparr>)" "source_step s (s\<lparr>ts_first_sent_time := t1\<rparr>)"
  by (simp_all add: source_step_quiet)

lemma SendPacket_step:
  assumes "own_packet (ts_five_tuple s) p"
  shows "source_step s (TCPSource_SendPacket p s)"
  using assms by (simp add: source_step_def TCPSource_SendPacket_def TCPSource_note_def Connection_SendPacket_def)

lemma RetransmitPacket_step: "source_returns s (Some (TCPSource_RetransmitPacket now s))"
proof (cases "ucast (ts_mss s) > (0 :: 32 word)")
  case True
  let ?p = "Packet_new (ts_five_tuple s) (ucast (ts_mss s)) now (TCPPacket (ts_last_acked s + 1) 0)"
  have "source_step s (TCPSource_SendPacket ?p (s\<lparr>ts_last_sent_time := now\<rparr>))"
    by (rule source_step_trans [OF source_step_quiet SendPacket_step]) (use True in \<open>simp_all add: own_packet_def Packet_new_def\<close>)
  then show ?thesis using True by (simp add: TCPSource_RetransmitPacket_def TCPPacket_new_def check_def source_returns_def)
qed (simp add: TCPSource_RetransmitPacket_def TCPPacket_new_def check_def)

text \<open>One segment of \<open>SendPackets\<close>: the send buffer gets shorter, or a packet of size zero is refused.\<close>

lemma send_segment_step:
  assumes "TCPSource_send_segment now s = Ok t" "ts_send_buffer s \<noteq> 0"
  shows "source_step s t" "unat (ts_send_buffer t) < unat (ts_send_buffer s)"
proof -
  let ?tx = "min (ucast (ts_mss s)) (ts_send_buffer s)"
  define s1 where "s1 = (if ts_highest_seqno_sent s = 0 then s\<lparr>ts_first_sent_time := now\<rparr> else s)"
  define s2 where "s2 = s1\<lparr>ts_send_buffer := ts_send_buffer s1 - ?tx, ts_highest_seqno_sent := ts_highest_seqno_sent s1 + ?tx,
                ts_highest_seqno_sent_real := ts_highest_seqno_sent_real s1 + ?tx, ts_last_sent_time := now\<rparr>"
  let ?p = "Packet_new (ts_five_tuple s) (ucast ?tx) now (TCPPacket (ts_highest_seqno_sent s + 1) 0)"
  have s1: "ts_config s1 = ts_config s" "ts_send_buffer s1 = ts_send_buffer s" "ts_five_tuple s1 = ts_five_tuple s"
    "ts_out s1 = ts_out s" "ts_highest_seqno_sent s1 = ts_highest_seqno_sent s" by (simp_all add: s1_def)
  have t: "(0 :: 32 word) < ucast ?tx" "t = TCPSource_SendPacket ?p s2"
    using assms(1) unfolding TCPSource_send_segment_def s1_def [symmetric] Let_def s1 TCPPacket_new_def
    by (auto simp: check_def s2_def s1 split: if_splits)
  have tx: "?tx \<noteq> 0" using t(1) by auto
  have "?tx \<le> ts_send_buffer s" by simp
  then have "unat (ts_send_buffer s - ?tx) < unat (ts_send_buffer s)"
    using diff_less [of "unat ?tx" "unat (ts_send_buffer s)"] tx assms(2) by (simp add: unat_sub unat_gt_0)
  then show "unat (ts_send_buffer t) < unat (ts_send_buffer s)"
    using t(2) by (simp add: s2_def s1 TCPSource_SendPacket_def TCPSource_note_def Connection_SendPacket_def)
  have "source_step s s2" by (rule source_step_quiet) (simp_all add: s2_def s1)
  moreover have "source_step s2 t" unfolding t(2)
    by (rule SendPacket_step) (use t(1) in \<open>simp add: own_packet_def Packet_new_def s2_def s1\<close>)
  ultimately show "source_step s t" by (rule source_step_trans)
qed

lemma send_loop_returns: "source_returns s (TCPSource_send_loop now s)"
proof (induction s rule: measure_induct_rule [of "\<lambda>s. unat (ts_send_buffer s)"])
  case (less s)
  show ?case
  proof (cases "ts_last_acked s + ucast (ts_cwnd s) \<ge> ts_highest_seqno_sent s + ucast (ts_mss s) \<and> ts_send_buffer s \<noteq> 0")
    case True
    show ?thesis
    proof (cases "TCPSource_send_segment now s")
      case (Inl e)
      then show ?thesis using True by (subst TCPSource_send_loop.simps) simp
    next
      case (Inr t)
      from send_segment_step [OF this] True have t: "source_step s t" "unat (ts_send_buffer t) < unat (ts_send_buffer s)" by auto
      from source_returns_trans [OF t(1) less [OF t(2)]] show ?thesis using True Inr by (subst TCPSource_send_loop.simps) simp
    qed
  next
    case False
    show ?thesis unfolding TCPSource_send_loop.simps [of now s] if_not_P [OF False] by (simp add: source_returns_Ok)
  qed
qed

lemma SendPackets_with_returns:
  "(\<And>t. source_returns t (dt t)) \<Longrightarrow> source_returns s (SendPackets_with dt now s)"
  by (simp add: SendPackets_with_def send_loop_returns)

text \<open>\<open>AddData\<close> of one byte or more calls \<open>DataTransferred\<close> no more, as the buffer is not empty.\<close>

lemma saturated_add_nonzero:
  fixes b bytes :: "64 word"
  assumes "bytes \<noteq> 0"
  shows "(if b + bytes < b then - 1 else b + bytes) \<noteq> 0"
proof (cases "b + bytes < b")
  case False
  have "b + bytes \<noteq> 0"
  proof
    assume eq: "b + bytes = 0"
    with False have "b = 0" by (metis not_less word_le_0_iff)
    with eq assms show False by simp
  qed
  then show ?thesis using False by simp
qed simp

lemma AddData_with_returns:
  assumes "bytes \<noteq> 0 \<or> (\<forall>t. source_returns t (dt t))"
  shows "source_returns s (AddData_with dt now bytes s)"
proof -
  define s1 where "s1 = (if ts_send_buffer s < ucast (ts_mss s) then TCPSource_Close s else s)"
  define s2 where "s2 = (if ts_cwnd s1 = 0 then s1\<lparr>ts_cwnd := tc_inital_cwnd_size (ts_config s1) * ucast (ts_mss s1)\<rparr> else s1)"
  define handshake where "handshake = (ts_cwnd s1 = 0 \<and> tc_simulate_initial_handshake (ts_config s2) \<and> ts_pending_add s2 = 0)"
  define s3 where "s3 = (if handshake then s2\<lparr>ts_pending_add := bytes\<rparr> else s2)"
  define b where "b = (if handshake then 1 else bytes)"
  define s4 where "s4 = s3\<lparr>ts_send_buffer := (if ts_send_buffer s3 + b < ts_send_buffer s3 then - 1 else ts_send_buffer s3 + b)\<rparr>"
  have eq: "AddData_with dt now bytes s = SendPackets_with dt now s4"
    unfolding AddData_with_def Let_def s4_def b_def s3_def handshake_def s2_def s1_def ..
  have "source_step s s1" by (simp add: s1_def TCPSource_Close_def source_step_quiet)
  moreover have "source_step s1 s4" by (simp add: s4_def s3_def s2_def source_step_quiet)
  ultimately have step: "source_step s s4" by (rule source_step_trans)
  have "source_returns s4 (SendPackets_with dt now s4)"
  proof (cases "b = 0")
    case True
    then show ?thesis using assms by (intro SendPackets_with_returns) (auto simp: b_def split: if_splits)
  next
    case False
    have "ts_send_buffer s4 \<noteq> 0" using saturated_add_nonzero [OF False] by (simp add: s4_def)
    then show ?thesis by (simp add: SendPackets_with_def send_loop_returns)
  qed
  then show ?thesis unfolding eq by (rule source_returns_trans [OF step])
qed

lemma DataTransferred_returns: "source_returns s (TCPSource_DataTransferred now s)"
proof (cases "tc_simulate_initial_handshake (ts_config s) \<and> ts_pending_add s \<noteq> 0")
  case True
  let ?s = "s\<lparr>ts_original_first_sent_time := ts_first_sent_time s\<rparr>"
  have "source_returns ?s (AddData_with (\<lambda>s. TCPSource_DataTransferred now s) now (ts_pending_add s) ?s)"
    using True by (intro AddData_with_returns) simp
  then have "source_returns s (AddData_with (\<lambda>s. TCPSource_DataTransferred now s) now (ts_pending_add s) ?s)"
    by (rule source_returns_trans [OF source_step_quiet, rotated 3]) simp_all
  then show ?thesis using True
    by (subst TCPSource_DataTransferred.simps)
       (simp, erule source_returns_orbind, simp add: source_returns_Ok source_step_trans [OF _ source_step_quiet])
next
  case False
  let ?c = "if ts_complection_times_callback s
      then rbind (EventQueueTime_minus now (if tc_simulate_initial_handshake (ts_config s)
             then ts_original_first_sent_time s else ts_first_sent_time s)) (\<lambda>completion_time.
           Ok (TCPSource_note (Completion_time completion_time (ts_close_count s)) s))
      else Ok s"
  have c: "source_returns s (Some ?c)"
    by (auto simp: source_returns_def EventQueueTime_minus_def check_def source_step_note)
  have "source_returns s (orbind (Some ?c) (\<lambda>s. Some (Ok ((TCPSource_note Send_buffer_drained s)\<lparr>ts_on_send_buffer_drained := False\<rparr>))))"
    by (rule source_returns_orbind [OF c])
       (rule source_returns_Ok, rule source_step_trans [OF source_step_note source_step_quiet], simp_all)
  then have "source_returns s (if \<not> ts_on_send_buffer_drained s then Some (Ok s)
      else orbind (Some ?c) (\<lambda>s. Some (Ok ((TCPSource_note Send_buffer_drained s)\<lparr>ts_on_send_buffer_drained := False\<rparr>))))"
    by (simp only: source_returns_Ok source_step_refl split: if_split) blast
  then show ?thesis unfolding TCPSource_DataTransferred.simps [of now s] if_not_P [OF False] .
qed

lemma SendPackets_returns: "source_returns s (TCPSource_SendPackets now s)"
  unfolding TCPSource_SendPackets_def by (rule SendPackets_with_returns) (rule DataTransferred_returns)

lemma AddData_returns: "source_returns s (TCPSource_AddData now bytes s)"
  unfolding TCPSource_AddData_def by (rule AddData_with_returns) (simp add: DataTransferred_returns)

lemma InflateWindow_step: "source_returns s (Some (TCPSource_InflateWindow s))"
  by (auto simp: source_returns_def TCPSource_InflateWindow_def Let_def source_step_quiet split: if_splits)

lemma end_sawtooth_step [simp]: "source_step s (TCPSource_end_sawtooth s)"
  by (simp add: TCPSource_end_sawtooth_def source_step_quiet)

text \<open>The same from a state that differs only in members other than the output.\<close>

lemmas from_quiet = source_returns_trans [OF source_step_quiet]

lemma source_returns_then_send:
  assumes "source_returns s r" "\<And>t. source_step t (f t)"
  shows "source_returns s (orbind r (\<lambda>t. TCPSource_SendPackets now (f t)))"
  by (rule source_returns_orbind [OF assms(1)])
     (rule source_returns_trans [OF source_step_trans [OF _ assms(2)] SendPackets_returns])

lemma new_ack_returns: "source_returns s (TCPSource_new_ack now seqno s)"
proof -
  let ?t = "\<lambda>seqno. s\<lparr>ts_last_acked := seqno, ts_dupacks := 0\<rparr>"
  have 1: "source_returns s (orbind (Some (TCPSource_InflateWindow (?t seqno))) (\<lambda>s. TCPSource_SendPackets now s))"
    by (rule source_returns_then_send) (rule from_quiet [OF _ _ _ InflateWindow_step], simp_all)
  have 2: "source_returns s (TCPSource_SendPackets now (s\<lparr>ts_cwnd := w, ts_last_acked := seqno, ts_dupacks := 0, ts_in_fast_recovery := False\<rparr>))" for w
    by (rule from_quiet [OF _ _ _ SendPackets_returns]) simp_all
  have 3: "source_returns s (orbind (Some (TCPSource_RetransmitPacket now (s\<lparr>ts_last_acked := seqno, ts_cwnd := w\<rparr>))) (\<lambda>s.
                TCPSource_SendPackets now (TCPSource_note (Fast_retx (ts_last_acked s + 1)) s)))" for w
    by (rule source_returns_then_send) (rule from_quiet [OF _ _ _ RetransmitPacket_step], simp_all add: source_step_note)
  show ?thesis unfolding TCPSource_new_ack_def Let_def using 1 2 3 by (simp only: split: if_split) blast
qed

lemma dup_ack_returns: "source_returns s (TCPSource_dup_ack now s)"
proof -
  have 1: "source_returns s (TCPSource_SendPackets now (s\<lparr>ts_cwnd := w\<rparr>))" for w
    by (rule from_quiet [OF _ _ _ SendPackets_returns]) simp_all
  define t where "t = s\<lparr>ts_dupacks := ts_dupacks s + 1\<rparr>"
  have t: "source_step s t" by (simp add: t_def source_step_quiet)
  have 2: "source_returns s (TCPSource_SendPackets now t)" by (rule source_returns_trans [OF t SendPackets_returns])
  have 3: "source_returns s (Some (Ok t))" by (rule source_returns_Ok [OF t])
  have "source_returns s (Some (TCPSource_RetransmitPacket now (TCPSource_end_sawtooth t)))"
    by (rule source_returns_trans [OF source_step_trans [OF t end_sawtooth_step] RetransmitPacket_step])
  then have 4: "source_returns s (orbind (Some (TCPSource_RetransmitPacket now (TCPSource_end_sawtooth t))) (\<lambda>s.
      Some (Ok ((TCPSource_note (Fast_retx (ts_last_acked s + 1)) s)
        \<lparr>ts_cwnd := ts_ssthresh (TCPSource_note (Fast_retx (ts_last_acked s + 1)) s) + 3 * ucast (ts_mss (TCPSource_note (Fast_retx (ts_last_acked s + 1)) s)), ts_in_fast_recovery := True,
          ts_recoverq := ts_highest_seqno_sent (TCPSource_note (Fast_retx (ts_last_acked s + 1)) s)\<rparr>))))"
    by (rule source_returns_orbind) (rule source_returns_Ok, rule source_step_trans [OF source_step_note source_step_quiet], simp_all)
  show ?thesis unfolding TCPSource_dup_ack_def Let_def t_def [symmetric] using 1 2 3 4 by (simp only: split: if_split) blast
qed

lemma update_estimates_step [simp]: "source_step s (TCPSource_update_rto (TCPSource_update_rtt m s))"
  by (rule source_step_quiet) (simp_all add: TCPSource_update_rto_def TCPSource_update_rtt_def Let_def)

lemma ReceivePacket_returns: "source_returns s (TCPSource_ReceivePacket now pkt s)"
proof (cases "pkt_kind pkt")
  case (TCPPacket sequence flags)
  have 1: "source_returns s (TCPSource_new_ack now x (TCPSource_update_rto (TCPSource_update_rtt m s)))"
    "source_returns s (TCPSource_dup_ack now (TCPSource_update_rto (TCPSource_update_rtt m s)))" for x m
    by (rule source_returns_trans [OF update_estimates_step], rule new_ack_returns dup_ack_returns)+
  have m: "EventQueueTime_minus now (pkt_time_sent pkt) = Fail Check_failed \<or> (\<exists>m. EventQueueTime_minus now (pkt_time_sent pkt) = Ok m)"
    by (auto simp: EventQueueTime_minus_def check_def)
  then show ?thesis unfolding TCPSource_ReceivePacket_def TCPPacket Let_def
    using 1 by (auto simp: source_returns_Ok)
qed (simp_all add: TCPSource_ReceivePacket_def)

lemma TCPSource_HandlePacket_returns: "source_returns s (TCPSource_HandlePacket now pkt s)"
  unfolding TCPSource_HandlePacket_def Connection_HandlePacket_def Let_def split_conv
  by (rule from_quiet [OF _ _ _ ReceivePacket_returns]) simp_all

lemma TCPSource_RtxTimerHook_returns: "source_returns s (TCPSource_RtxTimerHook now s)"
proof -
  have retx: "source_returns s (Some (rbind (TCPSource_RetransmitPacket now t) (\<lambda>s.
      Ok (TCPSource_note (Retx_timeout (ts_last_acked s + 1)) s))))" if t: "source_step s t" for t
    using source_returns_trans [OF t RetransmitPacket_step, of now]
    by (cases "TCPSource_RetransmitPacket now t") (auto simp: source_returns_def source_step_note)
  show ?thesis unfolding TCPSource_RtxTimerHook_def Let_def
    by (simp only: split: if_split) (auto simp: source_returns_Ok DataTransferred_returns TCPSource_end_sawtooth_def intro!: retx source_step_quiet)
qed

end
