(* ===== verification/Device_Calls.thy ===== *)
theory Device_Calls
  imports Sim_Network Tcp_Calls
begin

text \<open>
  What a device of \<open>src/src/htsim/network.cc\<close> keeps over every call: its connections are found under their own tuple, and each packet
  it has seen is counted as delivered, as dropped for want of a rule, or has been passed on.
\<close>

section \<open>Connections\<close>

definition connection_tuple :: "connection \<Rightarrow> FiveTuple" where
  "connection_tuple c =
     (case c of TCP_source s \<Rightarrow> ts_five_tuple s | TCP_sink s \<Rightarrow> tk_five_tuple s | UDP_source s \<Rightarrow> uc_five_tuple s
      | UDP_sink s \<Rightarrow> uc_five_tuple s)"

definition connection_idle :: "connection \<Rightarrow> bool" where
  "connection_idle c \<longleftrightarrow> fst (connection_take c) = []"

text \<open>A call returns and what it hands on are packets of the connection.\<close>

definition connection_returns :: "connection \<Rightarrow> connection res option \<Rightarrow> bool" where
  "connection_returns c r \<longleftrightarrow> (\<exists>x. r = Some x \<and> (\<forall>c'. x = Ok c' \<longrightarrow> connection_tuple c' = connection_tuple c \<and>
     (\<forall>p. Sent p \<in> set (fst (connection_take c')) \<longrightarrow> own_packet (connection_tuple c) p)))"

lemma connection_take_simps [simp]:
  "connection_tuple (snd (connection_take c)) = connection_tuple c" "connection_idle (snd (connection_take c))"
  by (cases c; simp add: connection_tuple_def connection_take_def connection_idle_def)+

lemma source_connection_returns:
  assumes "source_returns s r" "connection_idle (TCP_source s)"
  shows "connection_returns (TCP_source s) (orbind r (\<lambda>s. Some (Ok (TCP_source s))))"
proof -
  obtain x where x: "r = Some x" "\<forall>t. x = Ok t \<longrightarrow> source_step s t" using assms(1) by (auto simp: source_returns_def)
  have "ts_out s = []" using assms(2) by (simp add: connection_idle_def connection_take_def)
  then show ?thesis using x
    by (cases x) (auto simp: connection_returns_def source_step_def connection_tuple_def connection_take_def)
qed

lemma sink_own_packets:
  assumes "TCPSink_HandlePacket pkt s = Ok t" "tk_out s = []"
  shows "tk_five_tuple t = tk_five_tuple s \<and> (\<forall>p. Sent p \<in> set (tk_out t) \<longrightarrow> own_packet (tk_five_tuple s) p \<and> pkt_size_bytes p = kAckSize)"
  using assms
  by (auto simp: TCPSink_HandlePacket_def TCPSink_ReceivePacket_def TCPSink_SendAck_def Connection_HandlePacket_def Let_def
      Connection_SendPacket_def TCPPacket_new_def check_def TCPSink_Reset_def own_packet_def Packet_new_def kAckSize_def
      split: packet_kind.splits if_splits prod.splits)

lemma connection_HandlePacket_returns:
  assumes "connection_idle c"
  shows "connection_returns c (connection_HandlePacket now pkt c)"
proof (cases c)
  case (TCP_source s)
  show ?thesis
    using source_connection_returns [OF TCPSource_HandlePacket_returns assms [unfolded TCP_source]] TCP_source
    by (simp add: connection_HandlePacket_def)
next
  case (TCP_sink s)
  then have "tk_out s = []" using assms by (simp add: connection_idle_def connection_take_def)
  from sink_own_packets [OF _ this, of pkt] show ?thesis
    unfolding TCP_sink connection_HandlePacket_def
    by (cases "TCPSink_HandlePacket pkt s") (auto simp: connection_returns_def connection_tuple_def connection_take_def)
qed (use assms in \<open>auto simp: connection_HandlePacket_def UDPSource_HandlePacket_def UDPSink_HandlePacket_def
      connection_returns_def connection_idle_def connection_tuple_def connection_take_def Connection_HandlePacket_def\<close>)

lemma connection_AddData_returns:
  assumes "connection_idle c"
  shows "connection_returns c (connection_AddData now bytes c)"
proof (cases c)
  case (TCP_source s)
  show ?thesis
    using source_connection_returns [OF AddData_returns assms [unfolded TCP_source]] TCP_source
    by (simp add: connection_AddData_def)
qed (use assms in \<open>auto simp: connection_AddData_def TCPSink_AddData_def UDPSource_AddData_def UDPSink_AddData_def
      connection_returns_def connection_idle_def connection_tuple_def connection_take_def Connection_SendPacket_def
      UDPPacket_new_def check_def own_packet_def Packet_new_def\<close>)

section \<open>Devices\<close>

definition loopback_ready :: "Device \<Rightarrow> bool" where
  "loopback_ready d \<longleftrightarrow> map_of (dv_ports d) kLoopbackPortNum \<noteq> None"

text \<open>No connection leads from the device to itself.\<close>

definition device_wf :: "Device \<Rightarrow> bool" where
  "device_wf d \<longleftrightarrow> smap_wf (dv_ports d) \<and> smap_wf (dv_connections d) \<and> (dv_connections d \<noteq> [] \<longrightarrow> loopback_ready d) \<and>
     (\<forall>k c. map_of (dv_connections d) k = Some c \<longrightarrow> FiveTuple_tie (connection_tuple c) = k \<and> connection_idle c \<and>
        ft_ip_dst (connection_tuple c) \<noteq> dv_ip_address d)"

definition passed_packets :: "device_effect list \<Rightarrow> sim_packet list" where
  "passed_packets es = concat (map (\<lambda>e. case e of Passed h p \<Rightarrow> [p] | _ \<Rightarrow> []) es)"

definition accounted :: "Device \<Rightarrow> bool" where
  "accounted d \<longleftrightarrow>
     (let s = dv_stats d; ps = passed_packets (dv_out d)
      in ds_packets_seen s = ds_packets_for_localhost s + ds_packets_failed_to_match s + of_nat (length ps) \<and>
         ds_bytes_seen s = ds_bytes_for_localhost s + ds_bytes_failed_to_match s + (\<Sum>p\<leftarrow>ps. ucast (pkt_size_bytes p)))"

definition device_step :: "Device \<Rightarrow> Device \<Rightarrow> bool" where
  "device_step d d' \<longleftrightarrow> dv_ip_address d' = dv_ip_address d \<and> (device_wf d \<longrightarrow> device_wf d') \<and> (accounted d \<longrightarrow> accounted d')"

definition device_returns :: "Device \<Rightarrow> Device res option \<Rightarrow> bool" where
  "device_returns d r \<longleftrightarrow> (\<exists>x. r = Some x \<and> (\<forall>d'. x = Ok d' \<longrightarrow> device_step d d'))"

lemma device_step_trans: "device_step d d' \<Longrightarrow> device_step d' d'' \<Longrightarrow> device_step d d''"
  by (simp add: device_step_def)

lemma passed_packets_simps [simp]:
  "passed_packets [] = []" "passed_packets (es @ fs) = passed_packets es @ passed_packets fs"
  "passed_packets (Passed h p # es) = p # passed_packets es" "passed_packets (Replied h p # es) = passed_packets es"
  "passed_packets (Observed i p # es) = passed_packets es" "passed_packets (Noted e # es) = passed_packets es"
  by (simp_all add: passed_packets_def)

lemma device_wf_new: "device_wf (Device_new device_id ip)"
  by (simp add: device_wf_def Device_new_def)

lemma device_wf_connection:
  assumes "device_wf d" "map_of (dv_connections d) k = Some c"
  shows "FiveTuple_tie (connection_tuple c) = k" "connection_idle c" "ft_ip_dst (connection_tuple c) \<noteq> dv_ip_address d"
  using assms unfolding device_wf_def by blast+

lemma accounted_new: "accounted (Device_new device_id ip)"
  by (simp add: accounted_def Device_new_def DeviceStats_new_def)

text \<open>The packet an action passes on, and the handler it is passed to.\<close>

definition acted_on :: "MatchRuleAction \<Rightarrow> sim_packet \<Rightarrow> sim_packet" where
  "acted_on action pkt =
     pkt\<lparr>pkt_tag := (if mra_tag action \<noteq> kNullPacketTag then mra_tag action else pkt_tag pkt),
         pkt_preferential_drop := (pkt_preferential_drop pkt \<or> mra_preferential_drop action), pkt_ttl := pkt_ttl pkt - 1\<rparr>"

lemma HandlePacketWithAction_eq:
  "Device_HandlePacketWithAction port pkt action d =
     (if pkt_ttl pkt = 0 then Fail Log_fatal
      else case map_of (dv_ports d) (mra_output_port action) of
             None \<Rightarrow> Fail Check_failed
           | Some output_port \<Rightarrow> Port_SendPacketOut (acted_on action pkt) output_port
               (Device_observe port output_port (acted_on action pkt) d))"
proof -
  let ?p1 = "if mra_tag action \<noteq> kNullPacketTag then pkt\<lparr>pkt_tag := mra_tag action\<rparr> else pkt"
  let ?p2 = "if \<not> pkt_preferential_drop ?p1 \<and> mra_preferential_drop action then ?p1\<lparr>pkt_preferential_drop := True\<rparr> else ?p1"
  have "?p2\<lparr>pkt_ttl := pkt_ttl ?p2 - 1\<rparr> = acted_on action pkt" "pkt_ttl ?p2 = pkt_ttl pkt"
    by (simp_all add: acted_on_def)
  then have "Packet_DecrementTTL ?p2 = (if pkt_ttl pkt = 0 then (False, ?p2) else (True, acted_on action pkt))"
    unfolding Packet_DecrementTTL_def by (simp only:)
  then show ?thesis unfolding Device_HandlePacketWithAction_def Let_def by simp
qed

lemma SendPacketOut_eq:
  assumes "po_out_handler output_port = Some h"
  shows "\<exists>os. Port_SendPacketOut p output_port (Device_observe port output_port p d) = Ok (d\<lparr>dv_out := dv_out d @ os @ [Passed h p]\<rparr>) \<and>
    passed_packets os = []"
proof -
  define os where "os = (if po_internal port \<and> \<not> po_internal output_port \<and> dv_internal_external_observer d \<noteq> None
    then [Observed (the (dv_internal_external_observer d)) p]
    else if \<not> po_internal port \<and> po_internal output_port \<and> dv_external_internal_observer d \<noteq> None
    then [Observed (the (dv_external_internal_observer d)) p] else [])"
  have "Device_observe port output_port p d = d\<lparr>dv_out := dv_out d @ os\<rparr>" "passed_packets os = []"
    by (simp_all add: Device_observe_def os_def Device_emit_def)
  then show ?thesis using assms by (intro exI [of _ os]) (simp add: Port_SendPacketOut_def Device_emit_def)
qed

lemma WithAction_passes:
  assumes "Device_HandlePacketWithAction port pkt action d = Ok d'"
  obtains os h where "d' = d\<lparr>dv_out := dv_out d @ os @ [Passed h (acted_on action pkt)]\<rparr>" "passed_packets os = []"
proof -
  obtain output_port h where "po_out_handler output_port = Some h"
    "Port_SendPacketOut (acted_on action pkt) output_port (Device_observe port output_port (acted_on action pkt) d) = Ok d'"
    using assms unfolding HandlePacketWithAction_eq
    by (auto simp: Port_SendPacketOut_def split: if_splits option.splits)
  with SendPacketOut_eq [of output_port h "acted_on action pkt" port d] that show thesis by auto
qed

lemma size_acted_on [simp]: "pkt_size_bytes (acted_on action pkt) = pkt_size_bytes pkt"
  by (simp add: acted_on_def)

text \<open>A packet that is not for the device, from the count of the packets seen to what becomes of it.\<close>

lemma device_step_quiet:
  assumes "dv_ip_address d' = dv_ip_address d" "dv_ports d' = dv_ports d" "dv_connections d' = dv_connections d"
    and "accounted d \<longrightarrow> accounted d'"
  shows "device_step d d'"
  using assms by (simp add: device_step_def device_wf_def loopback_ready_def)

lemma forward_step:
  assumes "Device_forward port pkt (Device_count_seen pkt d) = Ok d'"
  shows "device_step d d'"
proof -
  let ?d = "Device_count_seen pkt d"
  obtain matcher action where m: "Matcher_MatchOrNull pkt port (dv_matcher ?d) = Ok (matcher, action)"
    using assms by (cases "Matcher_MatchOrNull pkt port (dv_matcher ?d)") (auto simp: Device_forward_def)
  show ?thesis
  proof (cases action)
    case None
    then show ?thesis using assms m
      by (intro device_step_quiet)
         (auto simp: Device_forward_def Let_def Device_count_seen_def accounted_def split: if_splits)
  next
    case (Some act)
    let ?d1 = "?d\<lparr>dv_matcher := matcher\<rparr>"
    obtain p where "Device_HandlePacketWithAction p pkt act ?d1 = Ok d'"
      using assms m Some by (auto simp: Device_forward_def Let_def split: option.splits)
    from WithAction_passes [OF this] obtain os h where
      "d' = ?d1\<lparr>dv_out := dv_out ?d1 @ os @ [Passed h (acted_on act pkt)]\<rparr>" "passed_packets os = []" .
    then show ?thesis by (intro device_step_quiet) (auto simp: accounted_def Device_count_seen_def Let_def)
  qed
qed

lemma device_returns_orbind:
  assumes "device_returns d r" "\<And>d'. device_step d d' \<Longrightarrow> device_returns d' (f d')"
  shows "device_returns d (orbind r f)"
proof -
  obtain x where x: "r = Some x" "\<forall>d'. x = Ok d' \<longrightarrow> device_step d d'" using assms(1) by (auto simp: device_returns_def)
  show ?thesis
  proof (cases x)
    case (Inr d')
    then have "device_step d d'" using x(2) by simp
    then show ?thesis using assms(2) [of d'] x(1) Inr unfolding device_returns_def
      by (auto intro: device_step_trans)
  qed (simp add: x(1) device_returns_def)
qed

lemma FromPort_remote_returns:
  assumes "ft_ip_dst (pkt_five_tuple pkt) \<noteq> dv_ip_address d"
  shows "device_returns d (Device_HandlePacketFromPort now port pkt d)"
  using assms forward_step by (subst Device_HandlePacketFromPort.simps) (auto simp: device_returns_def)

lemma pass_on_returns:
  assumes "\<And>p. Sent p \<in> set effects \<Longrightarrow> ft_ip_dst (pkt_five_tuple p) \<noteq> dv_ip_address d"
  shows "device_returns d (Device_pass_on now effects d)"
  using assms
proof (induction effects arbitrary: d)
  case Nil
  then show ?case by (simp add: Device_pass_on_def device_returns_def device_step_def)
next
  case (Cons e effects)
  have "device_returns d (if is_Sent e then Device_HandlePacketFromPort now kLoopbackPortNum (sent_packet e) d
      else Some (Ok (Device_emit (Noted e) d)))"
  proof (cases "is_Sent e")
    case True
    then have "e = Sent (sent_packet e)" by (cases e) simp_all
    then show ?thesis using True Cons.prems [of "sent_packet e"] by (simp add: FromPort_remote_returns)
  next
    case False
    have "device_step d (Device_emit (Noted e) d)"
      by (rule device_step_quiet) (simp_all add: Device_emit_def accounted_def)
    then show ?thesis using False by (simp add: device_returns_def)
  qed
  moreover have "device_returns d' (Device_pass_on now effects d')" if "device_step d d'" for d'
    using that Cons.prems by (intro Cons.IH) (auto simp: device_step_def)
  ultimately show ?case using device_returns_orbind unfolding Device_pass_on_def orfold.simps by blast
qed

text \<open>A call of a connection, followed by what it hands on.\<close>

lemma call_connection_returns:
  assumes wf: "device_wf d" and c: "map_of (dv_connections d) tuple = Some c" and f: "connection_returns c (f c)"
  shows "device_returns d (orbind (Device_call_connection tuple f d) (\<lambda>(d, effects). Device_pass_on now effects d))"
proof -
  obtain x where x: "f c = Some x" "\<forall>c'. x = Ok c' \<longrightarrow> connection_tuple c' = connection_tuple c \<and>
     (\<forall>p. Sent p \<in> set (fst (connection_take c')) \<longrightarrow> own_packet (connection_tuple c) p)"
    using f by (auto simp: connection_returns_def)
  show ?thesis
  proof (cases x)
    case (Inl e)
    then show ?thesis using c x(1) by (simp add: Device_call_connection_def device_returns_def)
  next
    case (Inr c')
    define d' where "d' = d\<lparr>dv_connections := smap_put tuple (snd (connection_take c')) (dv_connections d)\<rparr>"
    have c': "connection_tuple c' = connection_tuple c"
      "\<And>p. Sent p \<in> set (fst (connection_take c')) \<Longrightarrow> own_packet (connection_tuple c) p" using x(2) Inr by auto
    have dst: "ft_ip_dst (connection_tuple c) \<noteq> dv_ip_address d" "FiveTuple_tie (connection_tuple c) = tuple"
      "dv_connections d \<noteq> []" using device_wf_connection [OF wf c] c by auto
    have "device_wf d'" using wf dst c'(1) by (auto simp: d'_def device_wf_def loopback_ready_def)
    then have step: "device_step d d'" by (simp add: device_step_def d'_def accounted_def)
    have "device_returns d' (Device_pass_on now (fst (connection_take c')) d')"
      by (rule pass_on_returns) (use dst c'(2) in \<open>auto simp: d'_def own_packet_def\<close>)
    then have "device_returns d (Device_pass_on now (fst (connection_take c')) d')"
      using step unfolding device_returns_def by (blast intro: device_step_trans)
    then show ?thesis using c x(1) Inr by (simp add: Device_call_connection_def d'_def case_prod_beta Let_def)
  qed
qed

lemma device_step_refl [simp]: "device_step d d"
  by (simp add: device_step_def)

lemma device_returns_trans: "device_step d d' \<Longrightarrow> device_returns d' r \<Longrightarrow> device_returns d r"
  unfolding device_returns_def by (blast intro: device_step_trans)

lemma device_returns_Ok: "device_step d d' \<Longrightarrow> device_returns d (Some (Ok d'))"
  by (simp add: device_returns_def)

lemma device_returns_Fail [simp]: "device_returns d (Some (Fail e))"
  by (simp add: device_returns_def)

text \<open>Ports.\<close>

lemma put_port_step: "device_step d (d\<lparr>dv_ports := smap_put port_num p (dv_ports d)\<rparr>)"
  by (auto simp: device_step_def device_wf_def loopback_ready_def accounted_def)

lemma FindOrCreatePort_step: "device_step d (Device_FindOrCreatePort port_num d)"
  by (auto simp: Device_FindOrCreatePort_def put_port_step split: option.split)

lemma GetLoopbackPort_step: "device_step d (Device_GetLoopbackPort d)"
  unfolding Device_GetLoopbackPort_def by (rule FindOrCreatePort_step)

lemma GetLoopbackPort_ready: "device_wf d \<Longrightarrow> loopback_ready (Device_GetLoopbackPort d)"
  by (auto simp: Device_GetLoopbackPort_def Device_FindOrCreatePort_def loopback_ready_def device_wf_def split: option.split)

lemma update_port_step: "Device_update_port port_num f d = Ok d' \<Longrightarrow> device_step d d'"
  using device_step_trans [OF FindOrCreatePort_step put_port_step]
  by (auto simp: Device_update_port_def Let_def res_simps)

lemma NextAvailablePort_step: "Device_NextAvailablePort d = Ok (d', port_number) \<Longrightarrow> device_step d d'"
  by (auto simp: Device_NextAvailablePort_def res_simps put_port_step)

text \<open>New connections.\<close>

lemma add_connection_step:
  assumes "loopback_ready d" "connection_tuple c = tuple" "connection_idle c" "ft_ip_dst tuple \<noteq> dv_ip_address d"
  shows "device_step d (Device_add_connection tuple c d)"
proof (cases "map_of (dv_connections d) (FiveTuple_tie tuple) = None")
  case True
  let ?d = "d\<lparr>dv_connections := smap_put (FiveTuple_tie tuple) c (dv_connections d)\<rparr>"
  have "device_wf ?d" if wf: "device_wf d"
    unfolding device_wf_def
  proof (intro conjI allI impI)
    fix k c' assume "map_of (dv_connections ?d) k = Some c'"
    then have "k = FiveTuple_tie tuple \<and> c' = c \<or> map_of (dv_connections d) k = Some c'"
      using wf by (auto simp: device_wf_def split: if_splits)
    then show "FiveTuple_tie (connection_tuple c') = k" "connection_idle c'" "ft_ip_dst (connection_tuple c') \<noteq> dv_ip_address ?d"
      using device_wf_connection [OF wf, of k c'] assms(2-4) by auto
  qed (use wf assms(1) in \<open>auto simp: device_wf_def loopback_ready_def\<close>)
  then show ?thesis using True by (simp add: Device_add_connection_def device_step_def accounted_def)
next
  case False
  show ?thesis unfolding Device_add_connection_def if_not_P [OF False] by simp
qed

lemma new_sink_connection:
  "Device_new_sink t tuple = Ok c \<Longrightarrow> connection_tuple c = tuple \<and> connection_idle c"
  by (auto simp: Device_new_sink_def connection_tuple_def connection_idle_def connection_take_def UDPConnection_new_def TCPSink_new_def
      split: if_splits)

text \<open>Messages.\<close>

lemma emit_step: "passed_packets [effect] = [] \<Longrightarrow> device_step d (Device_emit effect d)"
  by (rule device_step_quiet) (simp_all add: Device_emit_def accounted_def)

lemma route_update_step:
  "device_step d (d\<lparr>dv_stats := (dv_stats d)\<lparr>ds_route_updates_seen := n\<rparr>, dv_matcher := matcher\<rparr>)"
  by (rule device_step_quiet) (simp_all add: accounted_def Let_def)

lemma handle_message_step:
  assumes "Device_handle_message now pkt d = Ok d'"
  shows "device_step d d'"
proof (cases "ft_ip_proto (pkt_five_tuple pkt) = 180")
  case True
  let ?d = "\<lambda>matcher. d\<lparr>dv_stats := (dv_stats d)\<lparr>ds_route_updates_seen := ds_route_updates_seen (dv_stats d) + 1\<rparr>, dv_matcher := matcher\<rparr>"
  obtain p rule tx where k: "pkt_kind pkt = SSCPAddOrUpdate (Some (p, rule)) tx"
  proof (cases "pkt_kind pkt")
    case (SSCPAddOrUpdate r tx)
    then show thesis using assms True that by (cases r) (auto simp: Device_handle_message_def Let_def)
  qed (use assms True in \<open>simp_all add: Device_handle_message_def Let_def\<close>)
  obtain matcher where m: "Matcher_AddRule p rule (dv_matcher d) = Ok matcher"
    using assms True k by (cases "Matcher_AddRule p rule (dv_matcher d)") (auto simp: Device_handle_message_def)
  have "d' = ?d matcher \<or> (\<exists>h a. d' = Device_emit (Replied h a) (?d matcher))"
  proof (cases "dv_replies_handler d")
    case None
    then show ?thesis using assms True k m by (simp add: Device_handle_message_def Let_def)
  next
    case (Some h)
    have "Ok d' = Ok (if tx \<noteq> kNoTxId then Device_emit (Replied h (SSCPAck_new (dv_ip_address d) (ft_ip_src (pkt_five_tuple pkt)) now tx))
        (?d matcher) else ?d matcher)"
      unfolding assms [symmetric] using True k m Some by (simp add: Device_handle_message_def Let_def)
    then show ?thesis by (cases "tx = kNoTxId") auto
  qed
  then show ?thesis using route_update_step [of d] device_step_trans [OF route_update_step [of d] emit_step] by auto
next
  case False
  show ?thesis
  proof (cases "ft_ip_proto (pkt_five_tuple pkt) = 253")
    case True
    obtain flows tx where k: "pkt_kind pkt = SSCPStatsRequest flows tx"
      using assms True by (cases "pkt_kind pkt") (simp_all add: Device_handle_message_def Let_def)
    obtain stats h where "Matcher_PopulateSSCPStats [] (dv_matcher d) = Ok stats" "dv_replies_handler d = Some h"
      using assms True k by (cases "Matcher_PopulateSSCPStats [] (dv_matcher d)"; cases "dv_replies_handler d")
        (auto simp: Device_handle_message_def)
    then show ?thesis using assms True k by (auto simp: Device_handle_message_def intro: emit_step)
  qed (use assms False in \<open>simp add: Device_handle_message_def\<close>)
qed

text \<open>A packet for the device.\<close>

lemma receive_returns:
  assumes wf: "device_wf d" and src: "ft_ip_src (pkt_five_tuple pkt) \<noteq> dv_ip_address d"
  shows "device_returns d (orbind (Device_receive now pkt d) (\<lambda>(d, effects). Device_pass_on now effects d))"
proof (cases "pkt_size_bytes pkt = 0")
  case True
  then show ?thesis using handle_message_step [of now pkt d]
    by (cases "Device_handle_message now pkt d") (auto simp: Device_receive_def Device_pass_on_def device_returns_Ok)
next
  case False
  let ?out = "FiveTuple_Reverse (pkt_five_tuple pkt)"
  show ?thesis
  proof (cases "map_of (dv_connections d) (FiveTuple_tie ?out)")
    case (Some c)
    then have "connection_idle c" by (rule device_wf_connection(2) [OF wf])
    from call_connection_returns [where f = "connection_HandlePacket now pkt", OF wf Some connection_HandlePacket_returns [OF this]] False Some
    show ?thesis by (simp add: Device_receive_def Let_def)
  next
    case None
    let ?d = "Device_GetLoopbackPort d"
    show ?thesis
    proof (cases "Device_new_sink (pkt_five_tuple pkt) ?out")
      case (Inl e)
      then show ?thesis using False None by (simp add: Device_receive_def Let_def)
    next
      case (Inr c)
      let ?d' = "Device_add_connection ?out c ?d"
      have ip: "dv_ip_address ?d = dv_ip_address d" "dv_connections ?d = dv_connections d"
        by (simp_all add: Device_GetLoopbackPort_def Device_FindOrCreatePort_def split: option.split)
      have c: "connection_tuple c = ?out" "connection_idle c" using new_sink_connection [OF Inr] by simp_all
      have "ft_ip_dst ?out \<noteq> dv_ip_address ?d" using src ip by (simp add: FiveTuple_Reverse_def FiveTuple_new_def)
      from device_step_trans [OF GetLoopbackPort_step add_connection_step [OF GetLoopbackPort_ready [OF wf] c this]]
      have step: "device_step d ?d'" .
      then have wf': "device_wf ?d'" using wf by (simp add: device_step_def)
      have "map_of (dv_connections ?d') (FiveTuple_tie ?out) = Some c"
        using None ip wf by (simp add: Device_add_connection_def device_wf_def)
      from device_returns_trans [OF step call_connection_returns [where f = "connection_HandlePacket now pkt", OF wf' this connection_HandlePacket_returns [OF c(2)]]]
      show ?thesis using False None Inr by (simp add: Device_receive_def Let_def)
    qed
  qed
qed

lemma HandlePacketFromPort_unfold:
  "Device_HandlePacketFromPort now input_port pkt d =
     (if ft_ip_dst (pkt_five_tuple pkt) = dv_ip_address d
      then Device_HandlePacket now pkt (Device_count_local pkt (Device_count_seen pkt d))
      else Some (Device_forward input_port pkt (Device_count_seen pkt d)))"
  by (subst Device_HandlePacketFromPort.simps) (simp only: Device_HandlePacket_def Device_pass_on_def split_def)

lemma HandlePacket_returns:
  "device_wf d \<Longrightarrow> ft_ip_src (pkt_five_tuple pkt) \<noteq> dv_ip_address d \<Longrightarrow> device_returns d (Device_HandlePacket now pkt d)"
  unfolding Device_HandlePacket_def by (rule receive_returns)

lemma HandlePacketFromPort_returns:
  assumes "device_wf d" "ft_ip_src (pkt_five_tuple pkt) \<noteq> dv_ip_address d"
  shows "device_returns d (Device_HandlePacketFromPort now input_port pkt d)"
proof (cases "ft_ip_dst (pkt_five_tuple pkt) = dv_ip_address d")
  case True
  let ?d = "Device_count_local pkt (Device_count_seen pkt d)"
  have step: "device_step d ?d"
    by (rule device_step_quiet) (simp_all add: Device_count_local_def Device_count_seen_def accounted_def Let_def)
  moreover have "device_wf ?d" "dv_ip_address ?d = dv_ip_address d" using step assms(1) by (simp_all add: device_step_def)
  ultimately show ?thesis
    using device_returns_trans [OF step HandlePacket_returns] assms(2) True by (simp add: HandlePacketFromPort_unfold)
qed (rule FromPort_remote_returns)

lemma AddData_device_returns:
  assumes "device_wf d"
  shows "device_returns d (Device_AddData now tuple bytes d)"
proof (cases "map_of (dv_connections d) tuple")
  case (Some c)
  then have "connection_idle c" by (rule device_wf_connection(2) [OF assms])
  from call_connection_returns [where f = "connection_AddData now bytes", OF assms Some connection_AddData_returns [OF this]]
  show ?thesis by (simp add: Device_AddData_def)
qed (simp add: Device_AddData_def Device_call_connection_def)

lemma RtxTimerHook_device_returns:
  assumes "device_wf d"
  shows "device_returns d (Device_RtxTimerHook now tuple d)"
proof (cases "map_of (dv_connections d) tuple")
  case (Some c)
  let ?f = "\<lambda>c. case c of TCP_source s \<Rightarrow> orbind (TCPSource_RtxTimerHook now s) (\<lambda>s. Some (Ok (TCP_source s)))
         | _ \<Rightarrow> Some (Fail Undefined_behaviour)"
  have "connection_idle c" by (rule device_wf_connection(2) [OF assms Some])
  then have "connection_returns c (?f c)"
    using source_connection_returns [OF TCPSource_RtxTimerHook_returns] by (cases c) (auto simp: connection_returns_def)
  from call_connection_returns [where f = ?f, OF assms Some this] show ?thesis by (simp add: Device_RtxTimerHook_def)
qed (simp add: Device_RtxTimerHook_def Device_call_connection_def)

section \<open>Picking numbers\<close>

lemma pick_src_port_least:
  assumes "1 \<le> i" "i \<le> 2 ^ 16 - 1"
  shows "(\<forall>e. pick_src_port connections t i = Fail e \<longrightarrow> e = Check_failed \<and>
       (\<forall>j. i \<le> j \<and> j < 2 ^ 16 - 1 \<longrightarrow> map_of connections (ft_ip_src t, ft_ip_dst t, ft_ip_proto t, of_nat j, ft_dst_port t) \<noteq> None)) \<and>
    (\<forall>u. pick_src_port connections t i = Ok u \<longrightarrow> (\<exists>k. i \<le> k \<and> k < 2 ^ 16 - 1 \<and>
       u = FiveTuple_new (ft_ip_src t) (ft_ip_dst t) (ft_ip_proto t) (of_nat k) (ft_dst_port t) \<and>
       map_of connections (FiveTuple_tie u) = None \<and>
       (\<forall>j. i \<le> j \<and> j < k \<longrightarrow> map_of connections (ft_ip_src t, ft_ip_dst t, ft_ip_proto t, of_nat j, ft_dst_port t) \<noteq> None)))"
  using assms
proof (induction connections t i rule: pick_src_port.induct)
  case (1 connections t i)
  let ?u = "\<lambda>k. FiveTuple_new (ft_ip_src t) (ft_ip_dst t) (ft_ip_proto t) (of_nat k) (ft_dst_port t)"
  have tie: "FiveTuple_tie (?u k) = (ft_ip_src t, ft_ip_dst t, ft_ip_proto t, of_nat k, ft_dst_port t)" for k
    by (simp add: FiveTuple_tie_def FiveTuple_new_def)
  show ?case
  proof (cases "i < 2 ^ 16 - 1")
    case False
    then have "pick_src_port connections t i = Fail Check_failed" by (subst pick_src_port.simps) simp
    then show ?thesis using False by auto
  next
    case lt: True
    show ?thesis
    proof (cases "map_of connections (FiveTuple_tie (?u i)) = None")
      case True
      then have "pick_src_port connections t i = Ok (?u i)" using lt by (subst pick_src_port.simps) (simp add: Let_def)
      then show ?thesis using lt True by (auto intro!: exI [of _ i])
    next
      case False
      then have eq: "pick_src_port connections t i = pick_src_port connections t (i + 1)"
        using lt by (subst pick_src_port.simps) (simp add: Let_def del: not_None_eq)
      have upto: "(\<forall>j. i \<le> j \<and> j < k \<longrightarrow> map_of connections (FiveTuple_tie (?u j)) \<noteq> None)"
        if "\<forall>j. i + 1 \<le> j \<and> j < k \<longrightarrow> map_of connections (FiveTuple_tie (?u j)) \<noteq> None" for k
        using that False by (metis Suc_eq_plus1 le_neq_implies_less Suc_leI)
      note IH = 1(1) [OF lt refl False, folded tie]
      have "1 \<le> i + 1" "i + 1 \<le> 2 ^ 16 - 1" using lt by auto
      note IH = IH [OF this]
      show ?thesis unfolding eq tie [symmetric]
      proof (intro conjI allI impI)
        fix e assume "pick_src_port connections t (i + 1) = Fail e"
        then show "e = Check_failed" "\<And>j. i \<le> j \<and> j < 2 ^ 16 - 1 \<Longrightarrow> map_of connections (FiveTuple_tie (?u j)) \<noteq> None"
          using conjunct1 [OF IH] upto [of "2 ^ 16 - 1"] by blast+
      next
        fix u assume "pick_src_port connections t (i + 1) = Ok u"
        then obtain k where "i + 1 \<le> k" "k < 2 ^ 16 - 1" "u = ?u k" "map_of connections (FiveTuple_tie u) = None"
            "\<forall>j. i + 1 \<le> j \<and> j < k \<longrightarrow> map_of connections (FiveTuple_tie (?u j)) \<noteq> None"
          using conjunct2 [OF IH] by blast
        then show "\<exists>k\<ge>i. k < 2 ^ 16 - 1 \<and> u = ?u k \<and> map_of connections (FiveTuple_tie u) = None \<and>
            (\<forall>j. i \<le> j \<and> j < k \<longrightarrow> map_of connections (FiveTuple_tie (?u j)) \<noteq> None)"
          using upto [of k] by (intro exI [of _ k]) auto
      qed
    qed
  qed
qed

section \<open>Calls\<close>

text \<open>
  The calls of a device, by the code that sets it up, by the handlers of packets and by the timer; no connection to
  itself is asked for, and no packet arrives from its own address.
\<close>

inductive device_call :: "Device \<Rightarrow> Device \<Rightarrow> bool" where
  in_network: "device_call d (d\<lparr>dv_in_network := True\<rparr>)"
| replies: "device_call d (Device_set_tx_replies_handler h d)"
| die_on_fail: "device_call d (Device_set_die_on_fail_to_match die d)"
| internal_external: "Device_AddInternalExternalObserver obs d = Ok d' \<Longrightarrow> device_call d d'"
| external_internal: "Device_AddExternalInternalObserver obs d = Ok d' \<Longrightarrow> device_call d d'"
| port: "Device_update_port port_num f d = Ok d' \<Longrightarrow> device_call d d'"
| next_available: "Device_NextAvailablePort d = Ok (d', port_num) \<Longrightarrow> device_call d d'"
| tcp_generator: "Device_AddTCPGenerator (tc :: nat) a config dst_address dst_port timer d = Ok (tuple, d', timer', requests) \<Longrightarrow>
    dst_address \<noteq> dv_ip_address d \<Longrightarrow> device_call d d'"
| udp_generator: "Device_AddUDPGenerator dst_address dst_port d = Ok (tuple, d') \<Longrightarrow>
    dst_address \<noteq> dv_ip_address d \<Longrightarrow> device_call d d'"
| from_port: "Device_HandlePacketFromPort now port_num pkt d = Some (Ok d') \<Longrightarrow>
    ft_ip_src (pkt_five_tuple pkt) \<noteq> dv_ip_address d \<Longrightarrow> device_call d d'"
| packet: "Device_HandlePacket now pkt d = Some (Ok d') \<Longrightarrow>
    ft_ip_src (pkt_five_tuple pkt) \<noteq> dv_ip_address d \<Longrightarrow> device_call d d'"
| add_data: "Device_AddData now key bytes d = Some (Ok d') \<Longrightarrow> device_call d d'"
| timer: "Device_RtxTimerHook now key d = Some (Ok d') \<Longrightarrow> device_call d d'"

text \<open>The source ports of the connections to one port of a host.\<close>

definition port_taken :: "Device \<Rightarrow> IPAddress \<Rightarrow> AccessLayerPort \<Rightarrow> IPProto \<Rightarrow> nat \<Rightarrow> bool" where
  "port_taken d dst_address dst_port proto i \<longleftrightarrow>
     map_of (dv_connections d) (dv_ip_address d, dst_address, proto, of_nat i, dst_port) \<noteq> None"

lemma PrepareTuple_result:
  defines "proto tcp \<equiv> if tcp then kProtoTCP else kProtoUDP"
  shows "Device_PrepareTuple dst_address dst_port tcp d = Ok tuple \<Longrightarrow> \<exists>i. 1 \<le> i \<and> i < 2 ^ 16 - 1 \<and>
      tuple = FiveTuple_new (dv_ip_address d) dst_address (proto tcp) (of_nat i) dst_port \<and>
      \<not> port_taken d dst_address dst_port (proto tcp) i \<and>
      (\<forall>j. 1 \<le> j \<and> j < i \<longrightarrow> port_taken d dst_address dst_port (proto tcp) j)"
    and "Device_PrepareTuple dst_address dst_port tcp d = Fail e \<Longrightarrow> e = Check_failed \<and>
      (\<forall>j. 1 \<le> j \<and> j < 2 ^ 16 - 1 \<longrightarrow> port_taken d dst_address dst_port (proto tcp) j)"
proof -
  define t where "t = FiveTuple_new (dv_ip_address d) dst_address (proto tcp) kWildAccessLayerPort dst_port"
  have t: "ft_ip_src t = dv_ip_address d" "ft_ip_dst t = dst_address" "ft_ip_proto t = proto tcp" "ft_dst_port t = dst_port"
    by (simp_all add: t_def FiveTuple_new_def)
  have eq: "Device_PrepareTuple dst_address dst_port tcp d = pick_src_port (dv_connections d) t 1"
    by (simp add: Device_PrepareTuple_def Device_PickSrcPortOrDie_def t_def proto_def)
  have tie: "FiveTuple_tie (FiveTuple_new a b c e f) = (a, b, c, e, f)" for a b c e f
    by (simp add: FiveTuple_tie_def FiveTuple_new_def)
  have "1 \<le> (1 :: nat)" "1 \<le> (2 :: nat) ^ 16 - 1" by simp_all
  note r = pick_src_port_least [OF this, of "dv_connections d" t, unfolded t, folded eq]
  { assume "Device_PrepareTuple dst_address dst_port tcp d = Ok tuple"
    with conjunct2 [OF r] show "\<exists>i. 1 \<le> i \<and> i < 2 ^ 16 - 1 \<and>
      tuple = FiveTuple_new (dv_ip_address d) dst_address (proto tcp) (of_nat i) dst_port \<and>
      \<not> port_taken d dst_address dst_port (proto tcp) i \<and>
      (\<forall>j. 1 \<le> j \<and> j < i \<longrightarrow> port_taken d dst_address dst_port (proto tcp) j)"
      unfolding port_taken_def by (metis tie) }
  { assume "Device_PrepareTuple dst_address dst_port tcp d = Fail e"
    with conjunct1 [OF r] show "e = Check_failed \<and>
      (\<forall>j. 1 \<le> j \<and> j < 2 ^ 16 - 1 \<longrightarrow> port_taken d dst_address dst_port (proto tcp) j)"
      unfolding port_taken_def by blast }
qed

lemma new_generator_step:
  assumes "device_wf d" "Device_PrepareTuple dst_address dst_port tcp d = Ok tuple" "dst_address \<noteq> dv_ip_address d"
    and "connection_tuple c = tuple" "connection_idle c"
  shows "device_step d (Device_add_connection tuple c (Device_GetLoopbackPort d))"
proof -
  have "dv_ip_address (Device_GetLoopbackPort d) = dv_ip_address d" using GetLoopbackPort_step by (simp add: device_step_def)
  moreover obtain i where "tuple = FiveTuple_new (dv_ip_address d) dst_address (if tcp then kProtoTCP else kProtoUDP) (of_nat i) dst_port"
    using PrepareTuple_result(1) [OF assms(2)] by blast
  ultimately have "ft_ip_dst tuple \<noteq> dv_ip_address (Device_GetLoopbackPort d)" using assms(3) by (simp add: FiveTuple_new_def)
  from add_connection_step [OF GetLoopbackPort_ready [OF assms(1)] assms(4,5) this]
  show ?thesis by (rule device_step_trans [OF GetLoopbackPort_step])
qed

lemma new_connection_simps [simp]:
  "connection_tuple (TCP_source (TCPSource_new tuple config)) = tuple" "connection_idle (TCP_source (TCPSource_new tuple config))"
  "connection_tuple (UDP_source (UDPConnection_new tuple)) = tuple" "connection_idle (UDP_source (UDPConnection_new tuple))"
  by (simp_all add: connection_tuple_def connection_idle_def connection_take_def TCPSource_new_def TCPSource_Close_def UDPConnection_new_def)

lemma device_call_step:
  assumes "device_call d d'" "device_wf d"
  shows "device_step d d'"
  using assms
proof (induction rule: device_call.induct)
  case (tcp_generator tc a config dst_address dst_port timer d tuple d' timer' requests)
  then have "Device_PrepareTuple dst_address dst_port True d = Ok tuple"
    "d' = Device_add_connection tuple (TCP_source (TCPSource_new tuple config)) (Device_GetLoopbackPort d)"
    by (auto simp: Device_AddTCPGenerator_def res_simps Let_def split: prod.splits)
  with new_generator_step tcp_generator show ?case by simp
next
  case (udp_generator dst_address dst_port d tuple d')
  then have "Device_PrepareTuple dst_address dst_port False d = Ok tuple"
    "d' = Device_add_connection tuple (UDP_source (UDPConnection_new tuple)) (Device_GetLoopbackPort d)"
    by (auto simp: Device_AddUDPGenerator_def res_simps)
  with new_generator_step udp_generator show ?case by simp
next
  case (from_port now port_num pkt d d')
  then show ?case using HandlePacketFromPort_returns [of d pkt now port_num] by (simp add: device_returns_def)
next
  case (packet now pkt d d')
  then show ?case using HandlePacket_returns [of d pkt now] by (simp add: device_returns_def)
next
  case (add_data now key bytes d d')
  then show ?case using AddData_device_returns [of d now key bytes] by (simp add: device_returns_def)
next
  case (timer now key d d')
  then show ?case using RtxTimerHook_device_returns [of d now key] by (simp add: device_returns_def)
qed (auto simp: Device_set_tx_replies_handler_def Device_set_die_on_fail_to_match_def Device_AddInternalExternalObserver_def
      Device_AddExternalInternalObserver_def res_simps accounted_def check_def split: if_splits
      intro: update_port_step NextAvailablePort_step device_step_quiet)

lemma device_calls_invariant:
  assumes "device_call\<^sup>*\<^sup>* (Device_new device_id ip) d"
  shows "device_wf d \<and> accounted d \<and> dv_ip_address d = ip"
  using assms
proof (induction rule: rtranclp_induct)
  case base
  then show ?case using device_wf_new accounted_new by (simp add: Device_new_def)
next
  case (step d d')
  then show ?case using device_call_step [of d d'] by (auto simp: device_step_def)
qed

section \<open>Properties\<close>



text \<open>C19. \<open>AddTCPGenerator\<close> of a device in a network connects from the lowest source port for which there is no connection to the port
  of the destination yet, leaves all other connections as they were and registers the new source with the timer; it dies if and only if
  all of the ports 1 to 65534 are taken.\<close>

theorem Device_AddTCPGenerator_picks_free_port:
  assumes "device_wf d" "dv_in_network d"
  shows "case Device_AddTCPGenerator (tc :: 'c) a config dst_address dst_port timer d of
      Inl e \<Rightarrow> e = Check_failed \<and> (\<forall>i. 1 \<le> i \<and> i \<le> 65534 \<longrightarrow> port_taken d dst_address dst_port kProtoTCP i)
    | Inr (tuple, d', timer', requests) \<Rightarrow> \<exists>i. 1 \<le> i \<and> i \<le> 65534 \<and>
        \<not> port_taken d dst_address dst_port kProtoTCP i \<and> (\<forall>j. 1 \<le> j \<and> j < i \<longrightarrow> port_taken d dst_address dst_port kProtoTCP j) \<and>
        tuple = FiveTuple_new (dv_ip_address d) dst_address kProtoTCP (of_nat i) dst_port \<and>
        map_of (dv_connections d') = (map_of (dv_connections d))(FiveTuple_tie tuple \<mapsto> TCP_source (TCPSource_new tuple config)) \<and>
        rt_tcp_sources timer' = rt_tcp_sources timer @ [(a, FiveTuple_tie tuple)]"
proof (cases "Device_PrepareTuple dst_address dst_port True d")
  case (Inl e)
  then show ?thesis using PrepareTuple_result(2) [OF Inl] by (auto simp: Device_AddTCPGenerator_def)
next
  case (Inr tuple)
  let ?d = "Device_GetLoopbackPort d"
  have d: "dv_in_network ?d" "dv_connections ?d = dv_connections d"
    using assms(2) by (simp_all add: Device_GetLoopbackPort_def Device_FindOrCreatePort_def split: option.split)
  obtain i where i: "1 \<le> i" "i < 2 ^ 16 - 1" "\<not> port_taken d dst_address dst_port kProtoTCP i"
      "\<forall>j. 1 \<le> j \<and> j < i \<longrightarrow> port_taken d dst_address dst_port kProtoTCP j"
      "tuple = FiveTuple_new (dv_ip_address d) dst_address kProtoTCP (of_nat i) dst_port"
    using PrepareTuple_result(1) [OF Inr] by auto
  have "FiveTuple_tie tuple = (dv_ip_address d, dst_address, kProtoTCP, of_nat i, dst_port)"
    by (simp add: i(5) FiveTuple_tie_def FiveTuple_new_def)
  then have free: "map_of (dv_connections ?d) (FiveTuple_tie tuple) = None" using i(3) d(2) by (simp add: port_taken_def)
  have "smap_wf (dv_connections d)" using assms(1) by (simp add: device_wf_def)
  then have "map_of (dv_connections (Device_add_connection tuple c ?d)) = (map_of (dv_connections d))(FiveTuple_tie tuple \<mapsto> c)" for c
    using free d(2) by (auto simp: Device_add_connection_def fun_eq_iff)
  then show ?thesis using Inr i d(1)
    by (simp add: Device_AddTCPGenerator_def check_def Let_def TCPRtxTimer_RegisterTCPSource_def) (intro exI [of _ i], simp)
qed

theorem Device_AddTCPGenerator_picks_free_port_witness:
  "\<exists>r. Device_AddTCPGenerator (0 :: nat) 7 TCPSourceConfig_default 9 80 \<lparr>rt_scan_period = 10, rt_tcp_sources = []\<rparr>
     ((Device_new ''d'' 5)\<lparr>dv_in_network := True\<rparr>) = Ok r \<and> fst r = FiveTuple_new 5 9 6 1 80"
proof -
  let ?d = "(Device_new ''d'' 5)\<lparr>dv_in_network := True\<rparr>"
  have "device_wf ?d" "dv_in_network ?d" by (simp_all add: device_wf_def Device_new_def)
  note r = Device_AddTCPGenerator_picks_free_port [OF this, where tc = "0 :: nat" and a = 7 and config = TCPSourceConfig_default
      and dst_address = 9 and dst_port = 80 and timer = "\<lparr>rt_scan_period = 10, rt_tcp_sources = []\<rparr>"]
  have free: "\<not> port_taken ?d 9 80 kProtoTCP i" for i by (simp add: port_taken_def Device_new_def)
  show ?thesis
  proof (cases "Device_AddTCPGenerator (0 :: nat) 7 TCPSourceConfig_default 9 80 \<lparr>rt_scan_period = 10, rt_tcp_sources = []\<rparr> ?d")
    case (Inl e)
    have "port_taken ?d 9 80 kProtoTCP 1" using r unfolding Inl by simp
    then show ?thesis using free by blast
  next
    case (Inr x)
    obtain tuple d' timer' requests where x: "x = (tuple, d', timer', requests)" by (cases x)
    obtain i :: nat where i: "1 \<le> i" "\<forall>j. 1 \<le> j \<and> j < i \<longrightarrow> port_taken ?d 9 80 kProtoTCP j"
      "tuple = FiveTuple_new (dv_ip_address ?d) 9 kProtoTCP (of_nat i) 80"
      using r unfolding Inr x sum.case prod.case by (elim exE conjE) (rule that)
    have "i = 1" using i(1,2) free by (cases "i = 1") auto
    then have "tuple = FiveTuple_new 5 9 6 1 80" using i(3) by (simp add: Device_new_def kProtoTCP_def)
    then show ?thesis using Inr x by simp
  qed
qed

end
