(* ===== verification/Device_Flow.thy ===== *)
theory Device_Flow
  imports Device_Calls
begin

text \<open>
  A TCP flow between two devices of a network. Devices, matchers, ports, links and the two ends of the connection are the
  models of the other theories; a link delivers the packets its queue is given, in order and at any time.
\<close>

section \<open>Routes\<close>

text \<open>
  The rule for the packets of a tuple that enter through the loopback port leads to handler \<open>h\<close>, and \<open>b\<close> more bytes do not make
  the counter of its action overflow.
\<close>

definition route_ok :: "nat \<Rightarrow> sim_handler \<Rightarrow> FiveTuple \<Rightarrow> Device \<Rightarrow> bool" where
  "route_ok b h tuple d \<longleftrightarrow>
     (\<exists>p rule i port. MatchNode_MatchOrNull (match_keys tuple kLoopbackPortNum kDefaultTag) (mt_root (dv_matcher d)) = Some p \<and>
        mt_store (dv_matcher d) p = Some rule \<and> MatchRule_ChooseOrNull_tuple tuple rule = Ok (Some i) \<and> i < length (mr_actions rule) \<and>
        map_of (dv_ports d) (mra_output_port (mr_actions rule ! i)) = Some port \<and> po_out_handler port = Some h \<and>
        unat (as_total_bytes_matched (mra_stats (mr_actions rule ! i))) + b < 2 ^ 64)"

definition packets_to :: "sim_handler \<Rightarrow> device_effect list \<Rightarrow> sim_packet list" where
  "packets_to h es = concat (map (\<lambda>e. case e of Passed h' p \<Rightarrow> if h' = h then [p] else [] | _ \<Rightarrow> []) es)"

lemma packets_to_simps [simp]:
  "packets_to h [] = []" "packets_to h (es @ fs) = packets_to h es @ packets_to h fs"
  "packets_to h (Passed h' p # es) = (if h' = h then p # packets_to h es else packets_to h es)"
  "packets_to h (Replied h' p # es) = packets_to h es"
  "packets_to h (Observed i p # es) = packets_to h es" "packets_to h (Noted e # es) = packets_to h es"
  by (simp_all add: packets_to_def)

lemma packets_to_none: "passed_packets es = [] \<Longrightarrow> packets_to h es = []"
proof (induction es)
  case (Cons e es)
  then show ?case by (cases e) simp_all
qed simp

text \<open>What a packet keeps on its way through devices and links.\<close>

definition carried :: "sim_packet \<Rightarrow> sim_packet \<Rightarrow> bool" where
  "carried p q \<longleftrightarrow> pkt_kind q = pkt_kind p \<and> pkt_size_bytes q = pkt_size_bytes p \<and> pkt_time_sent q = pkt_time_sent p \<and>
     pkt_five_tuple q = pkt_five_tuple p"

lemma carried_acted_on [simp]: "carried p (acted_on action p)"
  by (simp add: carried_def acted_on_def)

text \<open>The counters of an action take part neither in matching nor in choosing.\<close>

lemma choose_loop_cong: "map mra_weight as = map mra_weight bs \<Longrightarrow> choose_loop hash i as = choose_loop hash i bs"
proof (induction hash i as arbitrary: bs rule: choose_loop.induct)
  case (2 hash i a as)
  then show ?case by (cases bs) auto
qed simp

lemma ChooseOrNull_tuple_update:
  assumes "i < length (mr_actions rule)" "mra_weight action = mra_weight (mr_actions rule ! i)"
  shows "MatchRule_ChooseOrNull_tuple t (rule\<lparr>mr_actions := (mr_actions rule)[i := action]\<rparr>) = MatchRule_ChooseOrNull_tuple t rule"
proof -
  have "map mra_weight ((mr_actions rule)[i := action]) = map mra_weight (mr_actions rule)"
    using assms by (metis list_update_id map_update nth_map)
  from choose_loop_cong [OF this] show ?thesis by (simp add: MatchRule_ChooseOrNull_tuple_def)
qed

text \<open>A packet of the connection, with the tag and time to live it is made with, goes where the route leads.\<close>

lemma forward_route:
  assumes route: "route_ok b h tuple d" "loopback_ready d" and pkt: "own_packet tuple pkt" "unat (pkt_size_bytes pkt) \<le> b"
  shows "\<exists>d' os q. Device_forward kLoopbackPortNum pkt d = Ok d' \<and> route_ok (b - unat (pkt_size_bytes pkt)) h tuple d' \<and>
    dv_out d' = dv_out d @ os @ [Passed h q] \<and> passed_packets os = [] \<and> carried pkt q \<and>
    dv_connections d' = dv_connections d \<and> dv_ip_address d' = dv_ip_address d \<and> dv_ports d' = dv_ports d"
proof -
  obtain p rule i port where r:
      "MatchNode_MatchOrNull (match_keys tuple kLoopbackPortNum kDefaultTag) (mt_root (dv_matcher d)) = Some p"
      "mt_store (dv_matcher d) p = Some rule" "MatchRule_ChooseOrNull_tuple tuple rule = Ok (Some i)" "i < length (mr_actions rule)"
      "map_of (dv_ports d) (mra_output_port (mr_actions rule ! i)) = Some port" "po_out_handler port = Some h"
      "unat (as_total_bytes_matched (mra_stats (mr_actions rule ! i))) + b < 2 ^ 64"
    using route(1) unfolding route_ok_def by (elim conjE exE) (rule that)
  let ?a = "mr_actions rule ! i" and ?sz = "pkt_size_bytes pkt"
  let ?stats = "mra_stats ?a"
  have sum: "unat (as_total_bytes_matched ?stats + ucast ?sz) = unat (as_total_bytes_matched ?stats) + unat ?sz"
    using r(7) pkt(2) unat_plus_less [of "as_total_bytes_matched ?stats" "ucast ?sz"] by simp
  define act where "act = ?a\<lparr>mra_stats := ?stats\<lparr>as_total_bytes_matched := as_total_bytes_matched ?stats + ucast ?sz,
      as_total_pkts_matched := as_total_pkts_matched ?stats + 1\<rparr>\<rparr>"
  have upd: "MatchRuleAction_UpdateStats pkt ?a = Ok act"
    using sum by (simp add: MatchRuleAction_UpdateStats_def Let_def act_def check_def word_le_nat_alt)
  define rule' where "rule' = rule\<lparr>mr_actions := (mr_actions rule)[i := act]\<rparr>"
  define m where "m = (dv_matcher d)\<lparr>mt_store := (mt_store (dv_matcher d))(p \<mapsto> rule')\<rparr>"
  have t: "pkt_five_tuple pkt = tuple" "pkt_tag pkt = kDefaultTag" "pkt_ttl pkt \<noteq> 0"
    using pkt(1) by (simp_all add: own_packet_def kDefaultTTL_def)
  have "Matcher_MatchOrNull pkt kLoopbackPortNum (dv_matcher d) = Ok (m, Some act)"
    using r(1-4) upd t
    by (simp add: Matcher_MatchOrNull_def check_def kLoopbackPortNum_def kWildDevicePortNumber_def MatchRule_ChooseOrNull_def
        m_def rule'_def)
  moreover obtain lp where "map_of (dv_ports d) kLoopbackPortNum = Some lp"
    using route(2) by (auto simp: loopback_ready_def)
  moreover have "mra_output_port act = mra_output_port ?a" by (simp add: act_def)
  ultimately have eq: "Device_forward kLoopbackPortNum pkt d =
      Port_SendPacketOut (acted_on act pkt) port (Device_observe lp port (acted_on act pkt) (d\<lparr>dv_matcher := m\<rparr>))"
    using r(5) t(3) by (simp add: Device_forward_def Let_def HandlePacketWithAction_eq)
  obtain os where os: "Device_forward kLoopbackPortNum pkt d = Ok (d\<lparr>dv_matcher := m, dv_out := dv_out d @ os @ [Passed h (acted_on act pkt)]\<rparr>)"
      "passed_packets os = []"
    using SendPacketOut_eq [OF r(6), of "acted_on act pkt" lp "d\<lparr>dv_matcher := m\<rparr>"] unfolding eq by auto
  have "MatchRule_ChooseOrNull_tuple tuple rule' = Ok (Some i)"
    using r(3) ChooseOrNull_tuple_update [OF r(4), of act tuple] by (simp add: rule'_def act_def)
  moreover have "unat (as_total_bytes_matched (mra_stats (mr_actions rule' ! i))) + (b - unat ?sz) < 2 ^ 64"
    using r(4,7) sum pkt(2) by (simp add: rule'_def act_def)
  ultimately have "route_ok (b - unat ?sz) h tuple (d\<lparr>dv_matcher := m, dv_out := x\<rparr>)" for x
    unfolding route_ok_def using r(1,4,5,6)
    by (intro exI [of _ p] exI [of _ rule'] exI [of _ i] exI [of _ port])
       (simp add: m_def rule'_def act_def)
  then show ?thesis using os
    by (intro exI [of _ "d\<lparr>dv_matcher := m, dv_out := dv_out d @ os @ [Passed h (acted_on act pkt)]\<rparr>"] exI [of _ os]
        exI [of _ "acted_on act pkt"]) simp
qed

lemma route_ok_count_seen [simp]: "route_ok b h tuple (Device_count_seen pkt d) = route_ok b h tuple d"
    "route_ok b h tuple (Device_count_local pkt d) = route_ok b h tuple d"
    "loopback_ready (Device_count_seen pkt d) = loopback_ready d" "loopback_ready (Device_count_local pkt d) = loopback_ready d"
  by (simp_all add: route_ok_def Device_count_seen_def Device_count_local_def loopback_ready_def)

lemma route_ok_emit [simp]: "route_ok b h tuple (Device_emit e d) = route_ok b h tuple d"
    "loopback_ready (Device_emit e d) = loopback_ready d"
  by (simp_all add: route_ok_def Device_emit_def loopback_ready_def)

lemma route_ok_add_connection [simp]: "route_ok b h t (Device_add_connection tuple c d) = route_ok b h t d"
  by (simp add: route_ok_def Device_add_connection_def)

text \<open>What the effects of a connection become at the device.\<close>

definition handed_on :: "sim_handler \<Rightarrow> sim_effect list \<Rightarrow> device_effect list \<Rightarrow> sim_packet list \<Rightarrow> bool" where
  "handed_on h effects new qs \<longleftrightarrow> (\<forall>h'. packets_to h' new = (if h' = h then qs else [])) \<and>
     list_all2 carried (sent_packets effects) qs \<and> (\<forall>e \<in> set effects. \<not> is_Sent e \<longrightarrow> Noted e \<in> set new)"

lemma pass_on_route:
  assumes "route_ok b h tuple d" "\<forall>p. Sent p \<in> set effects \<longrightarrow> own_packet tuple p"
    and "(\<Sum>p\<leftarrow>sent_packets effects. unat (pkt_size_bytes p)) \<le> b" "ft_ip_dst tuple \<noteq> dv_ip_address d" "loopback_ready d"
  shows "\<exists>d' new qs. Device_pass_on now effects d = Some (Ok d') \<and>
    route_ok (b - (\<Sum>p\<leftarrow>sent_packets effects. unat (pkt_size_bytes p))) h tuple d' \<and>
    dv_out d' = dv_out d @ new \<and> handed_on h effects new qs \<and>
    dv_connections d' = dv_connections d \<and> dv_ip_address d' = dv_ip_address d \<and> dv_ports d' = dv_ports d"
  using assms
proof (induction effects arbitrary: b d)
  case Nil
  then show ?case by (intro exI [of _ d] exI [of _ "[]"]) (simp add: Device_pass_on_def handed_on_def)
next
  case (Cons e effects)
  show ?case
  proof (cases "is_Sent e")
    case True
    then obtain p where e: "e = Sent p" by (cases e) auto
    have p: "own_packet tuple p" "unat (pkt_size_bytes p) \<le> b" using Cons.prems e by auto
    have "route_ok b h tuple (Device_count_seen p d)" "loopback_ready (Device_count_seen p d)" using Cons.prems by simp_all
    from forward_route [OF this p] obtain d1 os q where
      d1: "Device_forward kLoopbackPortNum p (Device_count_seen p d) = Ok d1" "route_ok (b - unat (pkt_size_bytes p)) h tuple d1"
        "dv_out d1 = dv_out d @ os @ [Passed h q]" "passed_packets os = []" "carried p q" "dv_connections d1 = dv_connections d"
        "dv_ip_address d1 = dv_ip_address d" "loopback_ready d1" "dv_ports d1 = dv_ports d"
      using Cons.prems(5) by (auto simp: Device_count_seen_def loopback_ready_def)
    have from_port: "Device_HandlePacketFromPort now kLoopbackPortNum p d = Some (Ok d1)"
      using p(1) Cons.prems(4) d1(1) by (simp add: HandlePacketFromPort_unfold own_packet_def)
    have "\<forall>p. Sent p \<in> set effects \<longrightarrow> own_packet tuple p" "ft_ip_dst tuple \<noteq> dv_ip_address d1"
      "(\<Sum>p\<leftarrow>sent_packets effects. unat (pkt_size_bytes p)) \<le> b - unat (pkt_size_bytes p)"
      using Cons.prems e d1(7) by auto
    from Cons.IH [OF d1(2) this(1,3,2) d1(8)] obtain d' new qs where
      d': "Device_pass_on now effects d1 = Some (Ok d')"
        "route_ok (b - unat (pkt_size_bytes p) - (\<Sum>p\<leftarrow>sent_packets effects. unat (pkt_size_bytes p))) h tuple d'"
        "dv_out d' = dv_out d1 @ new" "handed_on h effects new qs" "dv_connections d' = dv_connections d1"
        "dv_ip_address d' = dv_ip_address d1" "dv_ports d' = dv_ports d1" by blast
    have "handed_on h (e # effects) (os @ [Passed h q] @ new) (q # qs)"
      using d'(4) d1(4,5) e by (auto simp: handed_on_def packets_to_none)
    then show ?thesis using d' d1 from_port e
      by (intro exI [of _ d'] exI [of _ "os @ [Passed h q] @ new"] exI [of _ "q # qs"]) (simp add: Device_pass_on_def)
  next
    case False
    let ?d1 = "Device_emit (Noted e) d"
    have "sent_packets (e # effects) = sent_packets effects" using False by (cases e) simp_all
    moreover have "route_ok b h tuple ?d1" "loopback_ready ?d1" using Cons.prems(1,5) by simp_all
    moreover have "\<forall>p. Sent p \<in> set effects \<longrightarrow> own_packet tuple p" "ft_ip_dst tuple \<noteq> dv_ip_address ?d1"
      using Cons.prems by (auto simp: Device_emit_def)
    ultimately obtain d' new qs where
      d': "Device_pass_on now effects ?d1 = Some (Ok d')"
        "route_ok (b - (\<Sum>p\<leftarrow>sent_packets (e # effects). unat (pkt_size_bytes p))) h tuple d'"
        "dv_out d' = dv_out ?d1 @ new" "handed_on h effects new qs" "dv_connections d' = dv_connections ?d1"
        "dv_ip_address d' = dv_ip_address ?d1" "dv_ports d' = dv_ports ?d1" using Cons.IH [of b ?d1] Cons.prems(3) by auto
    have "handed_on h (e # effects) (Noted e # new) qs"
      using d'(4) False by (cases e) (auto simp: handed_on_def)
    then show ?thesis using d' False
      by (intro exI [of _ d'] exI [of _ "Noted e # new"] exI [of _ qs]) (simp add: Device_pass_on_def Device_emit_def)
  qed
qed

text \<open>A call of a connection whose packets have a route.\<close>

lemma call_connection_route:
  fixes d :: Device
  assumes c: "map_of (dv_connections d) key = Some c" "f c = Some (Ok c')"
    and own: "\<forall>p. Sent p \<in> set (fst (connection_take c')) \<longrightarrow> own_packet tuple p"
    and route: "route_ok b h tuple d" "(\<Sum>p\<leftarrow>sent_packets (fst (connection_take c')). unat (pkt_size_bytes p)) \<le> b"
      "ft_ip_dst tuple \<noteq> dv_ip_address d" "loopback_ready d"
  shows "\<exists>d' new qs. orbind (Device_call_connection key f d) (\<lambda>(d, effects). Device_pass_on now effects d) = Some (Ok d') \<and>
    route_ok (b - (\<Sum>p\<leftarrow>sent_packets (fst (connection_take c')). unat (pkt_size_bytes p))) h tuple d' \<and>
    dv_out d' = dv_out d @ new \<and> handed_on h (fst (connection_take c')) new qs \<and>
    dv_connections d' = smap_put key (snd (connection_take c')) (dv_connections d) \<and>
    dv_ip_address d' = dv_ip_address d \<and> dv_ports d' = dv_ports d"
proof -
  let ?d = "d\<lparr>dv_connections := smap_put key (snd (connection_take c')) (dv_connections d)\<rparr>"
  have "route_ok b h tuple ?d" "ft_ip_dst tuple \<noteq> dv_ip_address ?d" "loopback_ready ?d"
    using route by (simp_all add: route_ok_def loopback_ready_def)
  from pass_on_route [OF this(1) own route(2) this(2,3), of now] show ?thesis
    using c by (simp add: Device_call_connection_def case_prod_beta Let_def)
qed

section \<open>The two ends\<close>

lemma tie_Reverse_Reverse: "FiveTuple_tie (FiveTuple_Reverse (FiveTuple_Reverse t)) = FiveTuple_tie t"
  by (simp add: FiveTuple_Reverse_def FiveTuple_new_def FiveTuple_tie_def)

text \<open>A packet that arrives at the end it is for. If there is no connection yet, there is one afterwards.\<close>

definition end_device :: "FiveTuple \<Rightarrow> connection \<Rightarrow> sim_packet \<Rightarrow> Device \<Rightarrow> Device" where
  "end_device tuple c pkt d =
     (let d = Device_count_local pkt (Device_count_seen pkt d)
      in if map_of (dv_connections d) (FiveTuple_tie tuple) = None then Device_add_connection tuple c (Device_GetLoopbackPort d) else d)"

lemma end_device_simps:
  fixes d :: Device
  assumes "smap_wf (dv_ports d)" "smap_wf (dv_connections d)"
    and "map_of (dv_connections d) (FiveTuple_tie tuple) = None \<or> map_of (dv_connections d) (FiveTuple_tie tuple) = Some c \<and> loopback_ready d"
  shows "map_of (dv_connections (end_device tuple c pkt d)) (FiveTuple_tie tuple) = Some c" "loopback_ready (end_device tuple c pkt d)"
    "dv_ip_address (end_device tuple c pkt d) = dv_ip_address d" "dv_out (end_device tuple c pkt d) = dv_out d"
    "smap_wf (dv_ports (end_device tuple c pkt d))" "smap_wf (dv_connections (end_device tuple c pkt d))"
    "route_ok b h t d \<Longrightarrow> route_ok b h t (end_device tuple c pkt d)"
proof -
  let ?d = "Device_count_local pkt (Device_count_seen pkt d)"
  have d: "dv_connections ?d = dv_connections d" "dv_ports ?d = dv_ports d" "dv_out ?d = dv_out d" "dv_ip_address ?d = dv_ip_address d"
    "dv_matcher ?d = dv_matcher d"
    by (simp_all add: Device_count_local_def Device_count_seen_def)
  let ?l = "Device_GetLoopbackPort ?d"
  have l: "dv_connections ?l = dv_connections d" "dv_out ?l = dv_out d" "dv_ip_address ?l = dv_ip_address d" "dv_matcher ?l = dv_matcher d"
    "smap_wf (dv_ports ?l)" "map_of (dv_ports ?l) kLoopbackPortNum \<noteq> None"
    "map_of (dv_ports d) x = Some y \<Longrightarrow> map_of (dv_ports ?l) x = Some y" for x y
    using assms(1) d by (auto simp: Device_GetLoopbackPort_def Device_FindOrCreatePort_def split: option.split)
  have "route_ok b h t ?l" if "route_ok b h t d"
    using that unfolding route_ok_def l(4) by (elim exE conjE) (drule l(7), blast)
  then show "route_ok b h t d \<Longrightarrow> route_ok b h t (end_device tuple c pkt d)"
    by (simp add: end_device_def Let_def)
  show "map_of (dv_connections (end_device tuple c pkt d)) (FiveTuple_tie tuple) = Some c"
    using assms(2,3) l d by (auto simp: end_device_def Let_def Device_add_connection_def)
  show "loopback_ready (end_device tuple c pkt d)"
    using assms(3) l d by (auto simp: end_device_def Let_def Device_add_connection_def loopback_ready_def)
  show "dv_ip_address (end_device tuple c pkt d) = dv_ip_address d" "dv_out (end_device tuple c pkt d) = dv_out d"
    "smap_wf (dv_ports (end_device tuple c pkt d))" "smap_wf (dv_connections (end_device tuple c pkt d))"
    using assms(1,2) l d by (auto simp: end_device_def Let_def Device_add_connection_def)
qed

lemma HandlePacketFromPort_end:
  fixes d :: Device
  assumes "ft_ip_dst (pkt_five_tuple pkt) = dv_ip_address d" "pkt_size_bytes pkt \<noteq> 0"
    and "map_of (dv_connections d) (FiveTuple_tie (FiveTuple_Reverse (pkt_five_tuple pkt))) = None \<Longrightarrow>
      Device_new_sink (pkt_five_tuple pkt) (FiveTuple_Reverse (pkt_five_tuple pkt)) = Ok c"
  shows "Device_HandlePacketFromPort now port pkt d =
    orbind (Device_call_connection (FiveTuple_tie (FiveTuple_Reverse (pkt_five_tuple pkt))) (connection_HandlePacket now pkt)
        (end_device (FiveTuple_Reverse (pkt_five_tuple pkt)) c pkt d))
      (\<lambda>(d, effects). Device_pass_on now effects d)"
proof -
  let ?d = "Device_count_local pkt (Device_count_seen pkt d)"
  have d: "dv_connections ?d = dv_connections d" by (simp add: Device_count_local_def Device_count_seen_def)
  show ?thesis
  proof (cases "map_of (dv_connections d) (FiveTuple_tie (FiveTuple_Reverse (pkt_five_tuple pkt)))")
    case None
    then show ?thesis using assms d
      by (simp add: HandlePacketFromPort_unfold Device_HandlePacket_def Device_receive_def Let_def end_device_def)
  next
    case (Some c')
    then show ?thesis using assms d
      by (simp add: HandlePacketFromPort_unfold Device_HandlePacket_def Device_receive_def Let_def end_device_def)
  qed
qed

lemma data_at_sink:
  fixes d :: Device and tuple :: FiveTuple
  defines "key \<equiv> FiveTuple_tie (FiveTuple_Reverse tuple)"
  assumes wf: "smap_wf (dv_ports d)" "smap_wf (dv_connections d)"
    and conn: "map_of (dv_connections d) key = None \<and> sink = TCPSink_new (FiveTuple_Reverse tuple) \<or>
      map_of (dv_connections d) key = Some (TCP_sink sink) \<and> loopback_ready d"
    and sink: "tk_out sink = []" "tk_five_tuple sink = FiveTuple_Reverse tuple"
    and pkt: "pkt_five_tuple pkt = tuple" "pkt_size_bytes pkt \<noteq> 0" "ft_ip_proto tuple = kProtoTCP" "ft_ip_dst tuple = dv_ip_address d"
      "ft_ip_src tuple \<noteq> dv_ip_address d"
    and sink': "TCPSink_HandlePacket pkt sink = Ok sink'" "sent_packets (tk_out sink') = [ack]"
    and route: "route_ok b h (FiveTuple_Reverse tuple) d" "40 \<le> b"
  shows "\<exists>d' new q. Device_HandlePacketFromPort now port pkt d = Some (Ok d') \<and> route_ok (b - 40) h (FiveTuple_Reverse tuple) d' \<and>
    dv_out d' = dv_out d @ new \<and> handed_on h (tk_out sink') new [q] \<and>
    map_of (dv_connections d') key = Some (TCP_sink (sink'\<lparr>tk_out := []\<rparr>)) \<and>
    dv_ip_address d' = dv_ip_address d \<and> loopback_ready d' \<and> smap_wf (dv_ports d') \<and> smap_wf (dv_connections d') \<and>
    tk_five_tuple sink' = FiveTuple_Reverse tuple \<and> own_packet (FiveTuple_Reverse tuple) ack"
proof -
  let ?e = "end_device (FiveTuple_Reverse tuple) (TCP_sink sink) pkt d"
  have conn': "map_of (dv_connections d) (FiveTuple_tie (FiveTuple_Reverse tuple)) = None \<or>
      map_of (dv_connections d) (FiveTuple_tie (FiveTuple_Reverse tuple)) = Some (TCP_sink sink) \<and> loopback_ready d"
    using conn by (auto simp: key_def)
  note e = end_device_simps [OF wf conn', where pkt = pkt]
  have own: "tk_five_tuple sink' = FiveTuple_Reverse tuple"
    "\<forall>p. Sent p \<in> set (tk_out sink') \<longrightarrow> own_packet (FiveTuple_Reverse tuple) p \<and> pkt_size_bytes p = kAckSize"
    using sink_own_packets [OF sink'(1) sink(1)] sink(2) by auto
  have "ack \<in> set (sent_packets (tk_out sink'))" using sink'(2) by simp
  then have ack: "own_packet (FiveTuple_Reverse tuple) ack" "pkt_size_bytes ack = kAckSize"
    using own(2) by (auto simp: sent_packets_def split: tcp_effect.splits)
  have proto: "Device_new_sink tuple (FiveTuple_Reverse tuple) = Ok (TCP_sink sink)"
    if "map_of (dv_connections d) (FiveTuple_tie (FiveTuple_Reverse tuple)) = None"
    using that conn pkt(3) by (auto simp: Device_new_sink_def key_def kProtoTCP_def kProtoUDP_def)
  have f: "connection_HandlePacket now pkt (TCP_sink sink) = Some (Ok (TCP_sink sink'))"
    using sink'(1) by (simp add: connection_HandlePacket_def)
  have take: "connection_take (TCP_sink sink') = (tk_out sink', TCP_sink (sink'\<lparr>tk_out := []\<rparr>))" by (simp add: connection_take_def)
  have "ft_ip_dst (FiveTuple_Reverse tuple) \<noteq> dv_ip_address ?e"
    using pkt(5) e(3) by (simp add: FiveTuple_Reverse_def FiveTuple_new_def)
  from call_connection_route [where f = "connection_HandlePacket now pkt" and tuple = "FiveTuple_Reverse tuple" and b = b and h = h
      and now = now, OF e(1) f, unfolded take fst_conv snd_conv sink'(2), OF _ e(7) [OF route(1)] _ this e(2)]
  obtain d' new qs where d':
      "orbind (Device_call_connection key (connection_HandlePacket now pkt) ?e) (\<lambda>(d, effects). Device_pass_on now effects d) = Some (Ok d')"
      "route_ok (b - 40) h (FiveTuple_Reverse tuple) d'" "dv_out d' = dv_out d @ new" "handed_on h (tk_out sink') new qs"
      "dv_connections d' = smap_put key (TCP_sink (sink'\<lparr>tk_out := []\<rparr>)) (dv_connections ?e)"
      "dv_ip_address d' = dv_ip_address d" "dv_ports d' = dv_ports ?e"
    using own(2) ack(2) route(2) e(3,4) by (auto simp: kAckSize_def key_def)
  have "length qs = 1" using d'(4) sink'(2) by (auto simp: handed_on_def dest: list_all2_lengthD)
  then obtain q where "qs = [q]" by (auto simp: length_Suc_conv)
  moreover have "Device_HandlePacketFromPort now port pkt d = Some (Ok d')"
    using HandlePacketFromPort_end [of pkt d "TCP_sink sink" now port] pkt d'(1) proto by (simp add: key_def)
  moreover have "loopback_ready d'" using e(2) d'(7) by (simp add: loopback_ready_def)
  ultimately show ?thesis using d' e own(1) ack(1) by (intro exI [of _ d'] exI [of _ new] exI [of _ q]) (simp add: key_def)
qed

lemma call_at_source:
  fixes d :: Device
  assumes s: "map_of (dv_connections d) (FiveTuple_tie tuple) = Some (TCP_source s)" "ts_out s = []" "ts_five_tuple s = tuple"
    and f: "f (TCP_source s) = Some (Ok (TCP_source t))" "source_step s t"
    and route: "route_ok b h tuple d" "(\<Sum>p\<leftarrow>sent_packets (ts_out t). unat (pkt_size_bytes p)) \<le> b"
      "ft_ip_dst tuple \<noteq> dv_ip_address d" "loopback_ready d"
    and wf: "smap_wf (dv_connections d)"
  shows "\<exists>d' new qs. orbind (Device_call_connection (FiveTuple_tie tuple) f d) (\<lambda>(d, effects). Device_pass_on now effects d) = Some (Ok d') \<and>
    route_ok (b - (\<Sum>p\<leftarrow>sent_packets (ts_out t). unat (pkt_size_bytes p))) h tuple d' \<and>
    dv_out d' = dv_out d @ new \<and> handed_on h (ts_out t) new qs \<and>
    map_of (dv_connections d') (FiveTuple_tie tuple) = Some (TCP_source (t\<lparr>ts_out := []\<rparr>)) \<and> smap_wf (dv_connections d') \<and>
    dv_ip_address d' = dv_ip_address d \<and> dv_ports d' = dv_ports d \<and> ts_five_tuple t = tuple"
proof -
  have t: "ts_five_tuple t = tuple" "\<forall>p. Sent p \<in> set (ts_out t) \<longrightarrow> own_packet tuple p"
    using f(2) s(2,3) by (auto simp: source_step_def)
  have take: "connection_take (TCP_source t) = (ts_out t, TCP_source (t\<lparr>ts_out := []\<rparr>))" by (simp add: connection_take_def)
  from call_connection_route [where f = f and now = now, OF s(1) f(1), unfolded take fst_conv snd_conv, OF t(2) route]
  obtain d' new qs where "orbind (Device_call_connection (FiveTuple_tie tuple) f d) (\<lambda>(d, effects). Device_pass_on now effects d) = Some (Ok d')"
    "route_ok (b - (\<Sum>p\<leftarrow>sent_packets (ts_out t). unat (pkt_size_bytes p))) h tuple d'" "dv_out d' = dv_out d @ new"
    "handed_on h (ts_out t) new qs" "dv_connections d' = smap_put (FiveTuple_tie tuple) (TCP_source (t\<lparr>ts_out := []\<rparr>)) (dv_connections d)"
    "dv_ip_address d' = dv_ip_address d" "dv_ports d' = dv_ports d" by blast
  then show ?thesis using wf t(1) by (intro exI [of _ d'] exI [of _ new] exI [of _ qs]) simp
qed

lemma ack_at_source:
  fixes d :: Device
  assumes wf: "smap_wf (dv_ports d)" "smap_wf (dv_connections d)"
    and s: "map_of (dv_connections d) (FiveTuple_tie tuple) = Some (TCP_source s)" "ts_out s = []" "ts_five_tuple s = tuple" "loopback_ready d"
    and pkt: "pkt_five_tuple pkt = FiveTuple_Reverse tuple" "pkt_size_bytes pkt \<noteq> 0" "ft_ip_src tuple = dv_ip_address d"
      "ft_ip_dst tuple \<noteq> dv_ip_address d"
    and t: "TCPSource_HandlePacket now pkt s = Some (Ok t)"
    and route: "route_ok b h tuple d" "(\<Sum>p\<leftarrow>sent_packets (ts_out t). unat (pkt_size_bytes p)) \<le> b"
  shows "\<exists>d' new qs. Device_HandlePacketFromPort now port pkt d = Some (Ok d') \<and>
    route_ok (b - (\<Sum>p\<leftarrow>sent_packets (ts_out t). unat (pkt_size_bytes p))) h tuple d' \<and>
    dv_out d' = dv_out d @ new \<and> handed_on h (ts_out t) new qs \<and>
    map_of (dv_connections d') (FiveTuple_tie tuple) = Some (TCP_source (t\<lparr>ts_out := []\<rparr>)) \<and> smap_wf (dv_connections d') \<and>
    smap_wf (dv_ports d') \<and> dv_ip_address d' = dv_ip_address d \<and> loopback_ready d' \<and> ts_five_tuple t = tuple"
proof -
  let ?r = "FiveTuple_Reverse (FiveTuple_Reverse tuple)"
  let ?e = "end_device ?r (TCP_source s) pkt d"
  have "map_of (dv_connections d) (FiveTuple_tie ?r) = Some (TCP_source s) \<and> loopback_ready d"
    using s(1,4) by (simp add: tie_Reverse_Reverse)
  note e = end_device_simps [OF wf disjI2 [OF this], where pkt = pkt, unfolded tie_Reverse_Reverse]
  have f: "connection_HandlePacket now pkt (TCP_source s) = Some (Ok (TCP_source t))" using t by (simp add: connection_HandlePacket_def)
  have step: "source_step s t" using TCPSource_HandlePacket_returns [of s now pkt] t by (simp add: source_returns_def)
  have dst: "ft_ip_dst tuple \<noteq> dv_ip_address ?e" using pkt(4) e(3) by simp
  from call_at_source [where f = "connection_HandlePacket now pkt" and now = now, OF e(1) s(2,3) f step e(7) [OF route(1)] route(2) dst e(2) e(6)]
  obtain d' new qs where d': "orbind (Device_call_connection (FiveTuple_tie tuple) (connection_HandlePacket now pkt) ?e)
        (\<lambda>(d, effects). Device_pass_on now effects d) = Some (Ok d')"
    "route_ok (b - (\<Sum>p\<leftarrow>sent_packets (ts_out t). unat (pkt_size_bytes p))) h tuple d'" "dv_out d' = dv_out d @ new"
    "handed_on h (ts_out t) new qs" "map_of (dv_connections d') (FiveTuple_tie tuple) = Some (TCP_source (t\<lparr>ts_out := []\<rparr>))"
    "smap_wf (dv_connections d')" "dv_ip_address d' = dv_ip_address d" "dv_ports d' = dv_ports ?e" "ts_five_tuple t = tuple"
    unfolding e(3,4) by blast
  have "ft_ip_dst (pkt_five_tuple pkt) = dv_ip_address d" using pkt(1,3) by (simp add: FiveTuple_Reverse_def FiveTuple_new_def)
  then have "Device_HandlePacketFromPort now port pkt d = Some (Ok d')"
    using HandlePacketFromPort_end [of pkt d "TCP_source s" now port] pkt(1,2) d'(1) s(1) by (simp add: tie_Reverse_Reverse)
  then show ?thesis using d' e(2,5) by (intro exI [of _ d'] exI [of _ new] exI [of _ qs]) (simp add: loopback_ready_def)
qed

text \<open>The device of the source and that of the sink, each with a route for \<open>b\<close> more bytes of the connection.\<close>

definition source_end :: "nat \<Rightarrow> sim_handler \<Rightarrow> FiveTuple \<Rightarrow> (sim_rule, sim_stats) TCPSource \<Rightarrow> Device \<Rightarrow> bool" where
  "source_end b h tuple s d \<longleftrightarrow> smap_wf (dv_ports d) \<and> smap_wf (dv_connections d) \<and>
     map_of (dv_connections d) (FiveTuple_tie tuple) = Some (TCP_source s) \<and> ts_out s = [] \<and> ts_five_tuple s = tuple \<and>
     loopback_ready d \<and> ft_ip_src tuple = dv_ip_address d \<and> ft_ip_dst tuple \<noteq> dv_ip_address d \<and> route_ok b h tuple d"

definition sink_end :: "nat \<Rightarrow> sim_handler \<Rightarrow> FiveTuple \<Rightarrow> (sim_rule, sim_stats) TCPSink \<Rightarrow> Device \<Rightarrow> bool" where
  "sink_end b h tuple sink d \<longleftrightarrow> smap_wf (dv_ports d) \<and> smap_wf (dv_connections d) \<and>
     (map_of (dv_connections d) (FiveTuple_tie (FiveTuple_Reverse tuple)) = None \<and> sink = TCPSink_new (FiveTuple_Reverse tuple) \<or>
      map_of (dv_connections d) (FiveTuple_tie (FiveTuple_Reverse tuple)) = Some (TCP_sink sink) \<and> loopback_ready d) \<and>
     tk_out sink = [] \<and> tk_five_tuple sink = FiveTuple_Reverse tuple \<and> ft_ip_proto tuple = kProtoTCP \<and>
     ft_ip_dst tuple = dv_ip_address d \<and> ft_ip_src tuple \<noteq> dv_ip_address d \<and> route_ok b h (FiveTuple_Reverse tuple) d"

lemma sink_end_step:
  assumes d: "sink_end b h tuple sink d" and pkt: "pkt_five_tuple pkt = tuple" "pkt_size_bytes pkt \<noteq> 0"
    and sink': "TCPSink_HandlePacket pkt sink = Ok sink'" "sent_packets (tk_out sink') = [ack]" and b: "40 \<le> b"
  shows "\<exists>d' new q. Device_HandlePacketFromPort now port pkt d = Some (Ok d') \<and> dv_out d' = dv_out d @ new \<and>
    handed_on h (tk_out sink') new [q] \<and> sink_end (b - 40) h tuple (sink'\<lparr>tk_out := []\<rparr>) d' \<and> own_packet (FiveTuple_Reverse tuple) ack"
proof -
  have d': "smap_wf (dv_ports d)" "smap_wf (dv_connections d)"
      "map_of (dv_connections d) (FiveTuple_tie (FiveTuple_Reverse tuple)) = None \<and> sink = TCPSink_new (FiveTuple_Reverse tuple) \<or>
        map_of (dv_connections d) (FiveTuple_tie (FiveTuple_Reverse tuple)) = Some (TCP_sink sink) \<and> loopback_ready d"
      "tk_out sink = []" "tk_five_tuple sink = FiveTuple_Reverse tuple" "ft_ip_proto tuple = kProtoTCP"
      "ft_ip_dst tuple = dv_ip_address d" "ft_ip_src tuple \<noteq> dv_ip_address d" "route_ok b h (FiveTuple_Reverse tuple) d"
    using d unfolding sink_end_def by blast+
  from data_at_sink [OF d'(1-5) pkt d'(6-8) sink' d'(9) b, of now port] d'(6-8) show ?thesis
    unfolding sink_end_def by (elim exE conjE) (intro exI conjI, assumption+, simp_all)
qed

lemma source_end_step:
  assumes d: "source_end b h tuple s d" and pkt: "pkt_five_tuple pkt = FiveTuple_Reverse tuple" "pkt_size_bytes pkt \<noteq> 0"
    and t: "TCPSource_HandlePacket now pkt s = Some (Ok t)" and b: "(\<Sum>p\<leftarrow>sent_packets (ts_out t). unat (pkt_size_bytes p)) \<le> b"
  shows "\<exists>d' new qs. Device_HandlePacketFromPort now port pkt d = Some (Ok d') \<and> dv_out d' = dv_out d @ new \<and>
    handed_on h (ts_out t) new qs \<and>
    source_end (b - (\<Sum>p\<leftarrow>sent_packets (ts_out t). unat (pkt_size_bytes p))) h tuple (t\<lparr>ts_out := []\<rparr>) d'"
proof -
  have d': "smap_wf (dv_ports d)" "smap_wf (dv_connections d)"
      "map_of (dv_connections d) (FiveTuple_tie tuple) = Some (TCP_source s)" "ts_out s = []" "ts_five_tuple s = tuple" "loopback_ready d"
      "ft_ip_src tuple = dv_ip_address d" "ft_ip_dst tuple \<noteq> dv_ip_address d" "route_ok b h tuple d"
    using d unfolding source_end_def by blast+
  from ack_at_source [OF d'(1-6) pkt d'(7,8) t d'(9) b, of port] d'(7,8) show ?thesis
    unfolding source_end_def by (elim exE conjE) (intro exI conjI, assumption+, simp_all)
qed

section \<open>The network\<close>

text \<open>
  A network with the packets that its queues have been given and that have not come out of the pipe behind the queue yet. A packet comes out at
  any time; in between, the queue and the pipe have set how long it was in them.
\<close>

record net_state =
  ns_network :: Network
  ns_transit :: "nat \<Rightarrow> sim_packet list"

definition new_effects :: "nat \<Rightarrow> Network \<Rightarrow> Network \<Rightarrow> device_effect list" where
  "new_effects a n n' =
     (case (nw_devices n a, nw_devices n' a) of (Some d, Some d') \<Rightarrow> drop (length (dv_out d)) (dv_out d') | _ \<Rightarrow> [])"

definition link_to :: "Network \<Rightarrow> nat \<Rightarrow> nat \<times> DevicePortNumber \<Rightarrow> bool" where
  "link_to n q port \<longleftrightarrow> (\<exists>pipe. nw_queue_other_end n q = Some pipe \<and> nw_pipe_other_end n pipe = Some port)"

inductive net_step :: "net_state \<Rightarrow> net_state \<Rightarrow> bool" where
  arrives: "ns_transit s q = p # ps \<Longrightarrow> link_to (ns_network s) q (a, port) \<Longrightarrow> pkt_time_sent p \<le> now \<Longrightarrow>
    Port_HandlePacket now (a, port) (p\<lparr>pkt_queueing_time := t1, pkt_propagation_time := t2\<rparr>) (ns_network s) = Some (Ok n') \<Longrightarrow>
    net_step s \<lparr>ns_network = n',
      ns_transit = (\<lambda>q'. (if q' = q then ps else ns_transit s q') @ packets_to (Queue_handler q') (new_effects a (ns_network s) n'))\<rparr>"

definition net_start :: "nat \<Rightarrow> FiveTuple \<Rightarrow> EventQueueTime \<Rightarrow> 64 word \<Rightarrow> Network \<Rightarrow> net_state res option" where
  "net_start a tuple now bytes n =
     orbind (Network_at_device a (Device_AddData now (FiveTuple_tie tuple) bytes) n) (\<lambda>n'.
       Some (Ok \<lparr>ns_network = n', ns_transit = (\<lambda>q. packets_to (Queue_handler q) (new_effects a n n'))\<rparr>))"

text \<open>The network that carries a flow of \<open>n\<close> segments from device \<open>a\<close> to device \<open>b\<close>.\<close>

definition flow_links :: "nat \<Rightarrow> nat \<Rightarrow> nat \<Rightarrow> nat \<Rightarrow> Network \<Rightarrow> bool" where
  "flow_links a b ql qr n \<longleftrightarrow> a \<noteq> b \<and> ql \<noteq> qr \<and> (\<exists>port. link_to n ql (b, port)) \<and> (\<exists>port. link_to n qr (a, port))"

definition net_inv ::
    "TCPSourceConfig \<Rightarrow> nat \<Rightarrow> EventQueueTime \<Rightarrow> FiveTuple \<Rightarrow> nat \<Rightarrow> nat \<Rightarrow> nat \<Rightarrow> nat \<Rightarrow> nat \<Rightarrow> nat \<Rightarrow> nat \<Rightarrow> net_state \<Rightarrow> bool" where
  "net_inv config n t0 tuple a b ql qr k c h s \<longleftrightarrow> flow_links a b ql qr (ns_network s) \<and>
     (\<exists>da db source sink. nw_devices (ns_network s) a = Some da \<and> nw_devices (ns_network s) b = Some db \<and>
        source_end (unat (tc_mss config) * (n - h)) (Queue_handler ql) tuple source da \<and>
        sink_end (40 * (n - c)) (Queue_handler qr) tuple sink db \<and>
        flow_inv config n t0 k c h \<lparr>fl_source = source\<lparr>ts_out := (if k < n then [] else [Send_buffer_drained])\<rparr>, fl_sink = sink,
          fl_data = ns_transit s ql, fl_acks = ns_transit s qr\<rparr> \<and>
        (k = n \<longrightarrow> Noted Send_buffer_drained \<in> set (dv_out da))) \<and>
     (\<forall>p \<in> set (ns_transit s ql). pkt_five_tuple p = tuple) \<and>
     (\<forall>p \<in> set (ns_transit s qr). pkt_five_tuple p = FiveTuple_Reverse tuple \<and> pkt_size_bytes p \<noteq> 0) \<and>
     (\<forall>q. q \<noteq> ql \<and> q \<noteq> qr \<longrightarrow> ns_transit s q = [])"

lemma Port_HandlePacket_at:
  assumes "nw_devices n a = Some d" "Device_HandlePacketFromPort now port pkt d = Some (Ok d')" "dv_out d' = dv_out d @ new"
  shows "\<exists>n'. Port_HandlePacket now (a, port) pkt n = Some (Ok n') \<and> nw_devices n' = (nw_devices n)(a \<mapsto> d') \<and>
    new_effects a n n' = new \<and> (\<forall>q x. link_to n' q x = link_to n q x)"
  using assms by (simp add: Port_HandlePacket_def Network_at_device_def new_effects_def link_to_def)

text \<open>Of the packets on their way the flow depends on what is carried, of the ends not on their output.\<close>

lemma list_all2_carried:
  assumes "list_all2 P js ps" "list_all2 carried ps qs" "\<And>j p q. P j p \<Longrightarrow> carried p q \<Longrightarrow> P j q"
  shows "list_all2 P js qs"
  using list_all2_trans [of P carried P js ps qs] assms by blast

lemma segment_carried: "segment mss j p \<Longrightarrow> carried p q \<Longrightarrow> segment mss j q"
  by (simp add: segment_def carried_def)

lemma flow_inv_carried:
  assumes "flow_inv config n t0 k c h \<lparr>fl_source = source, fl_sink = sink, fl_data = ds, fl_acks = as\<rparr>"
    and "list_all2 carried ds ds'" "list_all2 carried as as'"
  shows "flow_inv config n t0 k c h \<lparr>fl_source = source, fl_sink = sink\<lparr>tk_out := x\<rparr>, fl_data = ds', fl_acks = as'\<rparr>"
proof -
  have "list_all2 (\<lambda>j p. segment (ucast (tc_mss config)) j p \<and> t0 \<le> pkt_time_sent p) [c..<h] ds'"
    by (rule list_all2_carried [OF _ assms(2)]) (use assms(1) segment_carried in \<open>auto simp: flow_inv_def carried_def\<close>)
  moreover have "list_all2 (\<lambda>j p. pkt_kind p = TCPPacket (offset (unat (tc_mss config)) (Suc j)) 0 \<and> t0 \<le> pkt_time_sent p) [k..<c] as'"
    by (rule list_all2_carried [OF _ assms(3)]) (use assms(1) in \<open>auto simp: flow_inv_def carried_def\<close>)
  ultimately show ?thesis using assms(1) by (simp add: flow_inv_def sink_inv_def cong: if_cong)
qed

lemma carried_refl [simp]: "carried p p"
  by (simp add: carried_def)

lemma carried_times [simp]: "carried p (p\<lparr>pkt_queueing_time := t1, pkt_propagation_time := t2\<rparr>)"
  by (simp add: carried_def)

lemma list_all2_carried_refl [simp]: "list_all2 carried ps ps"
  by (simp add: list.rel_refl)

lemma flow_inv_lengths:
  assumes "flow_inv config n t0 k c h f"
  shows "length (fl_data f) = h - c" "length (fl_acks f) = c - k" "k \<le> c" "c \<le> h" "h \<le> n"
  using assms by (auto simp: flow_inv_def source_at_def dest: list_all2_lengthD)

lemma set_sent_packets: "p \<in> set (sent_packets es) \<longleftrightarrow> Sent p \<in> set es"
proof (induction es)
  case (Cons e es)
  then show ?case by (cases e) auto
qed simp

lemma carried_tuples:
  assumes "list_all2 carried ps qs" "\<forall>p \<in> set ps. pkt_five_tuple p = tuple"
  shows "\<forall>q \<in> set qs. pkt_five_tuple q = tuple"
  using assms by (simp add: list_all2_conv_all_nth all_set_conv_all_nth carried_def)

lemma net_invI:
  assumes "flow_links a b ql qr (ns_network s)" "nw_devices (ns_network s) a = Some da" "nw_devices (ns_network s) b = Some db"
    and "source_end (unat (tc_mss config) * (n - h)) (Queue_handler ql) tuple source da"
    and "sink_end (40 * (n - c)) (Queue_handler qr) tuple sink db"
    and "flow_inv config n t0 k c h \<lparr>fl_source = source\<lparr>ts_out := (if k < n then [] else [Send_buffer_drained])\<rparr>, fl_sink = sink,
          fl_data = ns_transit s ql, fl_acks = ns_transit s qr\<rparr>"
    and "k = n \<longrightarrow> Noted Send_buffer_drained \<in> set (dv_out da)"
    and "\<forall>p \<in> set (ns_transit s ql). pkt_five_tuple p = tuple"
    and "\<forall>p \<in> set (ns_transit s qr). pkt_five_tuple p = FiveTuple_Reverse tuple \<and> pkt_size_bytes p \<noteq> 0"
    and "\<forall>q. q \<noteq> ql \<and> q \<noteq> qr \<longrightarrow> ns_transit s q = []"
  shows "net_inv config n t0 tuple a b ql qr k c h s"
  unfolding net_inv_def
  by (intro conjI exI [of _ da] exI [of _ db] exI [of _ source] exI [of _ sink]) (rule assms)+

lemma net_invE:
  assumes "net_inv config n t0 tuple a b ql qr k c h s"
  obtains da db source sink where "flow_links a b ql qr (ns_network s)" "nw_devices (ns_network s) a = Some da" "nw_devices (ns_network s) b = Some db"
    "source_end (unat (tc_mss config) * (n - h)) (Queue_handler ql) tuple source da"
    "sink_end (40 * (n - c)) (Queue_handler qr) tuple sink db"
    "flow_inv config n t0 k c h \<lparr>fl_source = source\<lparr>ts_out := (if k < n then [] else [Send_buffer_drained])\<rparr>, fl_sink = sink,
          fl_data = ns_transit s ql, fl_acks = ns_transit s qr\<rparr>"
    "k = n \<longrightarrow> Noted Send_buffer_drained \<in> set (dv_out da)"
    "\<forall>p \<in> set (ns_transit s ql). pkt_five_tuple p = tuple"
    "\<forall>p \<in> set (ns_transit s qr). pkt_five_tuple p = FiveTuple_Reverse tuple \<and> pkt_size_bytes p \<noteq> 0"
    "\<forall>q. q \<noteq> ql \<and> q \<noteq> qr \<longrightarrow> ns_transit s q = []"
  using assms unfolding net_inv_def by (elim conjE exE) (rule that)

lemma flow_links_upd:
  "\<forall>q x. link_to n' q x = link_to n q x \<Longrightarrow> flow_links a b ql qr n \<Longrightarrow> flow_links a b ql qr n'"
  by (simp add: flow_links_def)

lemma net_inv_counts:
  assumes "net_inv config n t0 tuple a b ql qr k c h s"
  shows "k \<le> c" "c \<le> h" "h \<le> n"
proof -
  from assms obtain f :: "(sim_rule, sim_stats) tcp_flow" where "flow_inv config n t0 k c h f" by (rule net_invE)
  from flow_inv_lengths(3-5) [OF this] show "k \<le> c" "c \<le> h" "h \<le> n" .
qed

lemma net_data_step:
  assumes inv: "net_inv config n t0 tuple a b ql qr k c h s" and mss: "tc_mss config \<noteq> 0" and data: "ns_transit s ql = p # ps"
  shows "\<exists>n'. Port_HandlePacket now (b, port) (p\<lparr>pkt_queueing_time := t1, pkt_propagation_time := t2\<rparr>) (ns_network s) = Some (Ok n') \<and>
    net_inv config n t0 tuple a b ql qr k (Suc c) h \<lparr>ns_network = n',
      ns_transit = (\<lambda>q'. (if q' = ql then ps else ns_transit s q') @ packets_to (Queue_handler q') (new_effects b (ns_network s) n'))\<rparr>"
proof -
  let ?p = "p\<lparr>pkt_queueing_time := t1, pkt_propagation_time := t2\<rparr>" and ?src = "\<lambda>s. s\<lparr>ts_out := if k < n then [] else [Send_buffer_drained]\<rparr>"
  obtain da db source sink where links: "flow_links a b ql qr (ns_network s)" and
      d: "nw_devices (ns_network s) a = Some da" "nw_devices (ns_network s) b = Some db"
      "source_end (unat (tc_mss config) * (n - h)) (Queue_handler ql) tuple source da"
      "sink_end (40 * (n - c)) (Queue_handler qr) tuple sink db"
      "flow_inv config n t0 k c h \<lparr>fl_source = ?src source, fl_sink = sink, fl_data = p # ps, fl_acks = ns_transit s qr\<rparr>"
      "k = n \<longrightarrow> Noted Send_buffer_drained \<in> set (dv_out da)" and
      tuples: "\<forall>p \<in> set (p # ps). pkt_five_tuple p = tuple"
      "\<forall>p \<in> set (ns_transit s qr). pkt_five_tuple p = FiveTuple_Reverse tuple \<and> pkt_size_bytes p \<noteq> 0"
      "\<forall>q. q \<noteq> ql \<and> q \<noteq> qr \<longrightarrow> ns_transit s q = []"
    using inv unfolding data [symmetric] by (rule net_invE)
  have others: "flow_links a b ql qr (ns_network s)" "pkt_five_tuple p = tuple" "\<forall>p \<in> set ps. pkt_five_tuple p = tuple"
    using links tuples(1) by simp_all
  note others = others tuples(2,3)
  have tk: "tk_out sink = []" "tk_five_tuple sink = FiveTuple_Reverse tuple" using d(4) by (simp_all add: sink_end_def)
  have "flow_inv config n t0 k c h \<lparr>fl_source = ?src source, fl_sink = sink\<lparr>tk_out := []\<rparr>, fl_data = ?p # ps, fl_acks = ns_transit s qr\<rparr>"
    by (rule flow_inv_carried [OF d(5)]) simp_all
  moreover have "sink\<lparr>tk_out := []\<rparr> = sink" using tk(1) by simp
  ultimately have f: "flow_inv config n t0 k c h \<lparr>fl_source = ?src source, fl_sink = sink, fl_data = ?p # ps, fl_acks = ns_transit s qr\<rparr>"
    by simp
  from flow_data_step [OF f mss, of ?p ps] obtain sink' where sink': "TCPSink_HandlePacket ?p sink = Ok sink'"
      "flow_inv config n t0 k (Suc c) h \<lparr>fl_source = ?src source, fl_sink = sink', fl_data = ps,
         fl_acks = ns_transit s qr @ sent_packets (tk_out sink')\<rparr>"
    using tk(1) by (auto simp: new_packets_def)
  have len: "length (ns_transit s qr) = c - k" "k \<le> c" "Suc c \<le> n" "length (sent_packets (tk_out sink')) = 1" "c < h"
    using flow_inv_lengths [OF f] flow_inv_lengths [OF sink'(2)] by auto
  then obtain ack where ack: "sent_packets (tk_out sink') = [ack]" by (auto simp: length_Suc_conv)
  have size: "pkt_size_bytes ?p \<noteq> 0"
  proof -
    have "list_all2 (\<lambda>j p. segment (ucast (tc_mss config)) j p \<and> t0 \<le> pkt_time_sent p) [c..<h] (?p # ps)" using f by (simp add: flow_inv_def)
    then have "segment (ucast (tc_mss config)) c ?p" using len(5) by (simp add: upt_conv_Cons)
    moreover have "(ucast (tc_mss config) :: 32 word) \<noteq> 0" using mss unat_ucast_16_32 [of "tc_mss config"] by (metis unat_0 unat_eq_zero)
    ultimately show ?thesis by (simp add: segment_def)
  qed
  have "40 \<le> 40 * (n - c)" using len(3) by simp
  from sink_end_step [OF d(4) _ size sink'(1) ack this, of now port] others(2) obtain d' new q where
    d': "Device_HandlePacketFromPort now port ?p db = Some (Ok d')" "dv_out d' = dv_out db @ new"
      "handed_on (Queue_handler qr) (tk_out sink') new [q]" "sink_end (40 * (n - c) - 40) (Queue_handler qr) tuple (sink'\<lparr>tk_out := []\<rparr>) d'"
      "own_packet (FiveTuple_Reverse tuple) ack" by auto
  obtain n' where n': "Port_HandlePacket now (b, port) ?p (ns_network s) = Some (Ok n')"
      "nw_devices n' = (nw_devices (ns_network s))(b \<mapsto> d')" "new_effects b (ns_network s) n' = new"
      "\<forall>q x. link_to n' q x = link_to (ns_network s) q x"
    using Port_HandlePacket_at [OF d(2) d'(1,2)] by blast
  have ne: "a \<noteq> b" "ql \<noteq> qr" using others(1) by (simp_all add: flow_links_def)
  have q: "carried ack q" "packets_to (Queue_handler x) new = (if x = qr then [q] else [])" for x
    using d'(3) ack by (auto simp: handed_on_def)
  have "flow_inv config n t0 k (Suc c) h \<lparr>fl_source = ?src source, fl_sink = sink'\<lparr>tk_out := []\<rparr>, fl_data = ps, fl_acks = ns_transit s qr @ [q]\<rparr>"
    by (rule flow_inv_carried [OF sink'(2)]) (simp_all add: ack q(1) list_all2_appendI)
  moreover have "40 * (n - c) - 40 = 40 * (n - Suc c)" by simp
  moreover have "pkt_five_tuple q = FiveTuple_Reverse tuple" "pkt_size_bytes q \<noteq> 0"
    using q(1) d'(5) by (auto simp: carried_def own_packet_def)
  ultimately have "net_inv config n t0 tuple a b ql qr k (Suc c) h \<lparr>ns_network = n',
      ns_transit = (\<lambda>q'. (if q' = ql then ps else ns_transit s q') @ packets_to (Queue_handler q') new)\<rparr>"
    using others flow_links_upd [OF n'(4) others(1)] d d' n'(2) q(2) ne
    by (intro net_invI [where da = da and db = d' and source = source and sink = "sink'\<lparr>tk_out := []\<rparr>"]) simp_all
  then show ?thesis using n'(1,3) by auto
qed

lemma flow_inv_source_out:
  assumes "flow_inv config n t0 k c h f"
  shows "flow_inv config n t0 k c h (f\<lparr>fl_source := (fl_source f)\<lparr>ts_out := if k < n then [] else [Send_buffer_drained]\<rparr>\<rparr>)"
    "k = n \<longrightarrow> Send_buffer_drained \<in> set (ts_out (fl_source f))"
  using assms by (auto simp: flow_inv_def source_at_def cong: if_cong)

text \<open>The bytes of the segments that are new on their way.\<close>

lemma new_segment_bytes:
  assumes "list_all2 P [c..<h'] (ds @ ps)" "length ds = h - c" "c \<le> h" "c \<le> h'" "\<And>j p. P j p \<Longrightarrow> pkt_size_bytes p = ucast (w :: 16 word)"
  shows "h + length ps = h'" "(\<Sum>p\<leftarrow>ps. unat (pkt_size_bytes p)) = unat w * length ps"
proof -
  have "length ds + length ps = h' - c" using list_all2_lengthD [OF assms(1)] by simp
  then show "h + length ps = h'" using assms(2-4) by simp
  have "\<forall>p \<in> set (ds @ ps). pkt_size_bytes p = ucast w"
    using list_all2_mono [OF assms(1), of "\<lambda>_ p. pkt_size_bytes p = ucast w"] assms(5)
    by (simp add: list_all2_conv_all_nth all_set_conv_all_nth del: set_append)
  then have "\<forall>p \<in> set ps. unat (pkt_size_bytes p) = unat w" by simp
  then show "(\<Sum>p\<leftarrow>ps. unat (pkt_size_bytes p)) = unat w * length ps" by (induction ps) simp_all
qed

lemma net_ack_step:
  assumes inv: "net_inv config n t0 tuple a b ql qr k c h s" and config: "flow_config config n" and acks: "ns_transit s qr = p # ps"
    and now: "pkt_time_sent p \<le> now"
  shows "\<exists>n' h'. Port_HandlePacket now (a, port) (p\<lparr>pkt_queueing_time := t1, pkt_propagation_time := t2\<rparr>) (ns_network s) = Some (Ok n') \<and>
    net_inv config n t0 tuple a b ql qr (Suc k) c h' \<lparr>ns_network = n',
      ns_transit = (\<lambda>q'. (if q' = qr then ps else ns_transit s q') @ packets_to (Queue_handler q') (new_effects a (ns_network s) n'))\<rparr>"
proof -
  let ?p = "p\<lparr>pkt_queueing_time := t1, pkt_propagation_time := t2\<rparr>" and ?m = "unat (tc_mss config)"
  obtain da db source sink where links: "flow_links a b ql qr (ns_network s)" and
      d: "nw_devices (ns_network s) a = Some da" "nw_devices (ns_network s) b = Some db"
      "source_end (?m * (n - h)) (Queue_handler ql) tuple source da" "sink_end (40 * (n - c)) (Queue_handler qr) tuple sink db"
      "flow_inv config n t0 k c h \<lparr>fl_source = source\<lparr>ts_out := if k < n then [] else [Send_buffer_drained]\<rparr>, fl_sink = sink,
         fl_data = ns_transit s ql, fl_acks = p # ps\<rparr>"
      "k = n \<longrightarrow> Noted Send_buffer_drained \<in> set (dv_out da)" and
      tuples: "\<forall>p \<in> set (ns_transit s ql). pkt_five_tuple p = tuple"
      "\<forall>p \<in> set (p # ps). pkt_five_tuple p = FiveTuple_Reverse tuple \<and> pkt_size_bytes p \<noteq> 0"
      "\<forall>q. q \<noteq> ql \<and> q \<noteq> qr \<longrightarrow> ns_transit s q = []"
    using inv unfolding acks [symmetric] by (rule net_invE)
  have others: "flow_links a b ql qr (ns_network s)" "pkt_five_tuple ?p = FiveTuple_Reverse tuple" "pkt_size_bytes ?p \<noteq> 0"
      "\<forall>p \<in> set ps. pkt_five_tuple p = FiveTuple_Reverse tuple \<and> pkt_size_bytes p \<noteq> 0"
    using links tuples(2) by simp_all
  note others = others tuples(1,3)
  have tk: "tk_out sink = []" "ts_out source = []" using d(3,4) by (simp_all add: sink_end_def source_end_def)
  have "length (p # ps) = c - k" "c \<le> n" using flow_inv_lengths [OF d(5)] by simp_all
  then have kn: "k < n" by auto
  have sink: "sink\<lparr>tk_out := []\<rparr> = sink" using tk(1) by simp
  from kn have src: "source\<lparr>ts_out := if k < n then [] else [Send_buffer_drained]\<rparr> = source" using tk(2) by simp
  have "flow_inv config n t0 k c h \<lparr>fl_source = source, fl_sink = sink\<lparr>tk_out := []\<rparr>, fl_data = ns_transit s ql, fl_acks = ?p # ps\<rparr>"
    by (rule flow_inv_carried [OF d(5) [unfolded src]]) simp_all
  then have f: "flow_inv config n t0 k c h \<lparr>fl_source = source, fl_sink = sink, fl_data = ns_transit s ql, fl_acks = ?p # ps\<rparr>"
    unfolding sink .
  have "pkt_time_sent ?p \<le> now" using now by simp
  from flow_ack_step [OF f config _ this, of ps] obtain source' h' where source': "TCPSource_HandlePacket now ?p source = Some (Ok source')"
      "flow_inv config n t0 (Suc k) c h' \<lparr>fl_source = source', fl_sink = sink, fl_data = ns_transit s ql @ sent_packets (ts_out source'), fl_acks = ps\<rparr>"
    using tk(2) by (auto simp: new_packets_def)
  note len = flow_inv_lengths [OF f] flow_inv_lengths [OF source'(2)]
  have "list_all2 (\<lambda>j p. segment (ucast (tc_mss config)) j p \<and> t0 \<le> pkt_time_sent p) [c..<h'] (ns_transit s ql @ sent_packets (ts_out source'))"
    using source'(2) by (simp add: flow_inv_def)
  from new_segment_bytes [OF this, of h "tc_mss config"] len have
    sum: "(\<Sum>p\<leftarrow>sent_packets (ts_out source'). unat (pkt_size_bytes p)) = ?m * (h' - h)" and h': "h \<le> h'" "h' \<le> n"
    by (auto simp: segment_def)
  have "?m * (h' - h) \<le> ?m * (n - h)" using h' by (intro mult_le_mono2) simp
  from source_end_step [OF d(3) others(2,3) source'(1), unfolded sum, OF this, of port] obtain d' new qs where
    d': "Device_HandlePacketFromPort now port ?p da = Some (Ok d')" "dv_out d' = dv_out da @ new"
      "handed_on (Queue_handler ql) (ts_out source') new qs"
      "source_end (?m * (n - h) - ?m * (h' - h)) (Queue_handler ql) tuple (source'\<lparr>ts_out := []\<rparr>) d'" by blast
  obtain n' where n': "Port_HandlePacket now (a, port) ?p (ns_network s) = Some (Ok n')"
      "nw_devices n' = (nw_devices (ns_network s))(a \<mapsto> d')" "new_effects a (ns_network s) n' = new"
      "\<forall>q x. link_to n' q x = link_to (ns_network s) q x"
    using Port_HandlePacket_at [OF d(1) d'(1,2)] by blast
  have ne: "a \<noteq> b" "ql \<noteq> qr" using others(1) by (simp_all add: flow_links_def)
  have q: "list_all2 carried (sent_packets (ts_out source')) qs" "packets_to (Queue_handler x) new = (if x = ql then qs else [])" for x
    using d'(3) by (auto simp: handed_on_def)
  have "flow_inv config n t0 (Suc k) c h' \<lparr>fl_source = source', fl_sink = sink\<lparr>tk_out := []\<rparr>, fl_data = ns_transit s ql @ qs, fl_acks = ps\<rparr>"
    by (rule flow_inv_carried [OF source'(2)]) (simp_all add: q(1) list_all2_appendI)
  from flow_inv_source_out(1) [OF this] sink have
    "flow_inv config n t0 (Suc k) c h' \<lparr>fl_source = source'\<lparr>ts_out := []\<rparr>\<lparr>ts_out := if Suc k < n then [] else [Send_buffer_drained]\<rparr>,
       fl_sink = sink, fl_data = ns_transit s ql @ qs, fl_acks = ps\<rparr>" by simp
  moreover have "Noted Send_buffer_drained \<in> set (dv_out d')" if "Suc k = n"
    using flow_inv_source_out(2) [OF source'(2)] that d'(2,3) by (auto simp: handed_on_def)
  moreover have "?m * (n - h) - ?m * (h' - h) = ?m * (n - h')" using h' by (simp only: diff_mult_distrib2 [symmetric]) simp
  moreover have "\<forall>p \<in> set qs. pkt_five_tuple p = tuple"
  proof -
    have "source_step source source'" using TCPSource_HandlePacket_returns [of source now ?p] source'(1) by (simp add: source_returns_def)
    then have "\<forall>p \<in> set (sent_packets (ts_out source')). pkt_five_tuple p = tuple"
      using tk(2) d(3) by (auto simp: source_step_def own_packet_def set_sent_packets source_end_def)
    then show ?thesis by (rule carried_tuples [OF q(1)])
  qed
  ultimately have "net_inv config n t0 tuple a b ql qr (Suc k) c h' \<lparr>ns_network = n',
      ns_transit = (\<lambda>q'. (if q' = qr then ps else ns_transit s q') @ packets_to (Queue_handler q') new)\<rparr>"
    using others flow_links_upd [OF n'(4) others(1)] d(2,4) d'(4) n'(2) q(2) ne
    by (intro net_invI [where da = d' and db = db and source = "source'\<lparr>ts_out := []\<rparr>" and sink = sink]) auto
  then show ?thesis using n'(1,3) by (intro exI [of _ n'] exI [of _ h']) simp
qed

lemma link_to_unique: "link_to n q x \<Longrightarrow> link_to n q y \<Longrightarrow> x = y"
  by (auto simp: link_to_def)

lemma net_step_inv:
  assumes inv: "net_inv config n t0 tuple a b ql qr k c h s" and config: "flow_config config n" and step: "net_step s s'"
  shows "\<exists>k' c' h'. net_inv config n t0 tuple a b ql qr k' c' h' s' \<and> k' + c' = Suc (k + c)"
  using step
proof (cases rule: net_step.cases)
  case (arrives q p ps a' port now t1 t2 n')
  have links: "flow_links a b ql qr (ns_network s)" and empty: "\<forall>q. q \<noteq> ql \<and> q \<noteq> qr \<longrightarrow> ns_transit s q = []"
    using inv unfolding net_inv_def by blast+
  have mss: "tc_mss config \<noteq> 0" using config by (simp add: flow_config_def)
  consider "q = ql" | "q = qr" using empty arrives(2) by (metis list.distinct(1))
  then show ?thesis
  proof cases
    case 1
    then have "a' = b" using links arrives(3) link_to_unique unfolding flow_links_def by blast
    with net_data_step [OF inv mss, of p ps now port t1 t2] arrives 1 show ?thesis
      by (intro exI [of _ k] exI [of _ "Suc c"] exI [of _ h]) simp
  next
    case 2
    then have "a' = a" using links arrives(3) link_to_unique unfolding flow_links_def by blast
    with net_ack_step [OF inv config, of p ps now port t1 t2] arrives 2 obtain h' where
      "net_inv config n t0 tuple a b ql qr (Suc k) c h' s'" by auto
    then show ?thesis by (intro exI [of _ "Suc k"] exI [of _ c] exI [of _ h']) simp
  qed
qed

lemma net_steps_inv:
  assumes "(net_step ^^ m) s0 s" "net_inv config n t0 tuple a b ql qr 0 0 h s0" "flow_config config n"
  shows "\<exists>k c h. net_inv config n t0 tuple a b ql qr k c h s \<and> k + c = m"
  using assms(1)
proof (induction m arbitrary: s)
  case 0
  then show ?case using assms(2) by auto
next
  case (Suc m)
  then obtain s' where "(net_step ^^ m) s0 s'" "net_step s' s" by auto
  with Suc.IH net_step_inv [OF _ assms(3)] show ?case by blast
qed

lemma net_progress:
  assumes inv: "net_inv config n t0 tuple a b ql qr k c h s" and config: "flow_config config n" and "k < n"
  shows "\<exists>s'. net_step s s'"
proof -
  have links: "flow_links a b ql qr (ns_network s)" using inv unfolding net_inv_def by blast
  obtain source sink where f: "flow_inv config n t0 k c h \<lparr>fl_source = source, fl_sink = sink, fl_data = ns_transit s ql, fl_acks = ns_transit s qr\<rparr>"
    using inv unfolding net_inv_def by blast
  have mss: "tc_mss config \<noteq> 0" using config by (simp add: flow_config_def)
  consider p ps where "ns_transit s ql = p # ps" | p ps where "ns_transit s qr = p # ps" | "ns_transit s ql = []" "ns_transit s qr = []"
    by (meson neq_Nil_conv)
  then show ?thesis
  proof cases
    case (1 p ps)
    obtain port where port: "link_to (ns_network s) ql (b, port)" using links by (auto simp: flow_links_def)
    from net_data_step [OF inv mss 1, of "pkt_time_sent p" port 0 0] arrives [OF 1 port order_refl] show ?thesis by blast
  next
    case (2 p ps)
    obtain port where port: "link_to (ns_network s) qr (a, port)" using links by (auto simp: flow_links_def)
    from net_ack_step [OF inv config 2 order_refl, of port 0 0] arrives [OF 2 port order_refl] show ?thesis by blast
  next
    case 3
    then have "k = h" "h < n" using flow_inv_lengths [OF f] assms(3) by auto
    then show ?thesis using f by (auto simp: flow_inv_def)
  qed
qed

text \<open>
  The network before the flow: the source is in place at device \<open>a\<close>, with a callback for its drained buffer, and the devices
  have routes that lead to each other.
\<close>

definition flow_network :: "TCPSourceConfig \<Rightarrow> nat \<Rightarrow> FiveTuple \<Rightarrow> nat \<Rightarrow> nat \<Rightarrow> nat \<Rightarrow> nat \<Rightarrow> Network \<Rightarrow> bool" where
  "flow_network config n tuple a b ql qr nw \<longleftrightarrow> flow_links a b ql qr nw \<and>
     (\<exists>da db. nw_devices nw a = Some da \<and> nw_devices nw b = Some db \<and>
        source_end (unat (tc_mss config) * n) (Queue_handler ql) tuple (TCPSource_OnSendBufferDrained (TCPSource_new tuple config)) da \<and>
        sink_end (40 * n) (Queue_handler qr) tuple (TCPSink_new (FiveTuple_Reverse tuple)) db)"

lemma net_start_inv:
  assumes config: "flow_config config n" and nw: "flow_network config n tuple a b ql qr nw"
  shows "\<exists>s h. net_start a tuple t0 (offset (unat (tc_mss config)) n) nw = Some (Ok s) \<and> net_inv config n t0 tuple a b ql qr 0 0 h s"
proof -
  let ?m = "unat (tc_mss config)"
  let ?s = "TCPSource_OnSendBufferDrained (TCPSource_new tuple config) :: (sim_rule, sim_stats) TCPSource"
  let ?k = "TCPSink_new (FiveTuple_Reverse tuple) :: (sim_rule, sim_stats) TCPSink"
  obtain da db where d: "flow_links a b ql qr nw" "nw_devices nw a = Some da" "nw_devices nw b = Some db"
      "source_end (?m * n) (Queue_handler ql) tuple ?s da" "sink_end (40 * n) (Queue_handler qr) tuple ?k db"
    using nw unfolding flow_network_def by blast
  have n: "0 < n" using config by (simp add: flow_config_def)
  obtain f :: "(sim_rule, sim_stats) tcp_flow" and h where
    f: "flow_start tuple config t0 (offset ?m n) = Some (Ok f)" "flow_inv config n t0 0 0 h f"
    using flow_start_inv [OF config] by blast
  obtain t where t: "TCPSource_AddData t0 (offset ?m n) ?s = Some (Ok t)"
      "f = \<lparr>fl_source = t, fl_sink = ?k, fl_data = sent_packets (ts_out t), fl_acks = []\<rparr>"
  proof -
    obtain x where x: "TCPSource_AddData t0 (offset ?m n) ?s = Some x"
      using AddData_returns [of ?s t0 "offset ?m n"] by (auto simp: source_returns_def)
    then show thesis using f(1) that unfolding flow_start_def by (cases x) auto
  qed
  note len = flow_inv_lengths [OF f(2), unfolded t(2)]
  have "list_all2 (\<lambda>j p. segment (ucast (tc_mss config)) j p \<and> t0 \<le> pkt_time_sent p) [0..<h] ([] @ sent_packets (ts_out t))"
    using f(2) t(2) by (simp add: flow_inv_def)
  from new_segment_bytes(2) [OF this, of 0 "tc_mss config"] len(1)
  have sum: "(\<Sum>p\<leftarrow>sent_packets (ts_out t). unat (pkt_size_bytes p)) = ?m * h" by (simp add: segment_def)
  have le: "?m * h \<le> ?m * n" using len(5) by (intro mult_le_mono2) simp
  have da: "map_of (dv_connections da) (FiveTuple_tie tuple) = Some (TCP_source ?s)" "ts_out ?s = []" "ts_five_tuple ?s = tuple"
      "route_ok (?m * n) (Queue_handler ql) tuple da" "ft_ip_dst tuple \<noteq> dv_ip_address da" "loopback_ready da"
      "smap_wf (dv_connections da)" "smap_wf (dv_ports da)" "ft_ip_src tuple = dv_ip_address da"
    using d(4) unfolding source_end_def by blast+
  have step: "source_step ?s t" using AddData_returns [of ?s t0 "offset ?m n"] t(1) by (simp add: source_returns_def)
  have "connection_AddData t0 (offset ?m n) (TCP_source ?s) = Some (Ok (TCP_source t))" using t(1) by (simp add: connection_AddData_def)
  from call_at_source [where f = "connection_AddData t0 (offset ?m n)" and now = t0, OF da(1-3) this step da(4), unfolded sum, OF le da(5-7)]
  obtain d' new qs where d': "Device_AddData t0 (FiveTuple_tie tuple) (offset ?m n) da = Some (Ok d')"
      "route_ok (?m * n - ?m * h) (Queue_handler ql) tuple d'" "dv_out d' = dv_out da @ new" "handed_on (Queue_handler ql) (ts_out t) new qs"
      "map_of (dv_connections d') (FiveTuple_tie tuple) = Some (TCP_source (t\<lparr>ts_out := []\<rparr>))" "smap_wf (dv_connections d')"
      "dv_ip_address d' = dv_ip_address da" "dv_ports d' = dv_ports da" "ts_five_tuple t = tuple"
    unfolding Device_AddData_def by blast
  let ?n' = "nw\<lparr>nw_devices := (nw_devices nw)(a \<mapsto> d')\<rparr>"
  have q: "list_all2 carried (sent_packets (ts_out t)) qs" "packets_to (Queue_handler x) new = (if x = ql then qs else [])" for x
    using d'(4) by (auto simp: handed_on_def)
  have start: "net_start a tuple t0 (offset ?m n) nw = Some (Ok \<lparr>ns_network = ?n', ns_transit = (\<lambda>x. if x = ql then qs else [])\<rparr>)"
    using d(2) d'(1,3) q(2) by (simp add: net_start_def Network_at_device_def new_effects_def)
  have "flow_inv config n t0 0 0 h \<lparr>fl_source = t, fl_sink = ?k\<lparr>tk_out := []\<rparr>, fl_data = qs, fl_acks = []\<rparr>"
    by (rule flow_inv_carried [OF f(2) [unfolded t(2)]]) (simp_all add: q(1))
  from flow_inv_source_out(1) [OF this] n have fl:
    "flow_inv config n t0 0 0 h \<lparr>fl_source = t\<lparr>ts_out := []\<rparr>\<lparr>ts_out := if 0 < n then [] else [Send_buffer_drained]\<rparr>,
       fl_sink = ?k, fl_data = qs, fl_acks = []\<rparr>" by (simp add: TCPSink_new_def)
  have "source_end (?m * (n - h)) (Queue_handler ql) tuple (t\<lparr>ts_out := []\<rparr>) d'"
    using d' da len(5) by (simp add: source_end_def loopback_ready_def diff_mult_distrib2)
  moreover have "\<forall>p \<in> set (sent_packets (ts_out t)). pkt_five_tuple p = tuple"
    using step da(2,3) by (auto simp: source_step_def own_packet_def set_sent_packets)
  from carried_tuples [OF q(1) this] have "\<forall>p \<in> set qs. pkt_five_tuple p = tuple" .
  moreover have "a \<noteq> b" "ql \<noteq> qr" using d(1) by (simp_all add: flow_links_def)
  moreover have "flow_links a b ql qr ?n'" using d(1) by (simp add: flow_links_def link_to_def)
  ultimately have "net_inv config n t0 tuple a b ql qr 0 0 h \<lparr>ns_network = ?n', ns_transit = (\<lambda>x. if x = ql then qs else [])\<rparr>"
    using d(3,5) fl n by (intro net_invI [where da = d' and db = db and source = "t\<lparr>ts_out := []\<rparr>" and sink = ?k]) simp_all
  with start show ?thesis by blast
qed

section \<open>The flow completes\<close>

lemma net_inv_complete:
  assumes inv: "net_inv config n t0 tuple a b ql qr n n n s" and config: "flow_config config n"
  shows "(\<forall>q. ns_transit s q = []) \<and> (\<exists>da db source sink. nw_devices (ns_network s) a = Some da \<and> nw_devices (ns_network s) b = Some db \<and>
      map_of (dv_connections da) (FiveTuple_tie tuple) = Some (TCP_source source) \<and>
      map_of (dv_connections db) (FiveTuple_tie (FiveTuple_Reverse tuple)) = Some (TCP_sink sink) \<and>
      ts_send_buffer source = 0 \<and> ts_last_acked source = offset (unat (tc_mss config)) n \<and>
      tk_cumulative_ack sink = offset (unat (tc_mss config)) n \<and> tk_received sink = [] \<and> Noted Send_buffer_drained \<in> set (dv_out da))"
proof -
  let ?m = "unat (tc_mss config)"
  obtain da db source sink where d: "flow_links a b ql qr (ns_network s)" "nw_devices (ns_network s) a = Some da" "nw_devices (ns_network s) b = Some db"
    "source_end (?m * (n - n)) (Queue_handler ql) tuple source da" "sink_end (40 * (n - n)) (Queue_handler qr) tuple sink db"
    "flow_inv config n t0 n n n \<lparr>fl_source = source\<lparr>ts_out := (if n < n then [] else [Send_buffer_drained])\<rparr>, fl_sink = sink,
          fl_data = ns_transit s ql, fl_acks = ns_transit s qr\<rparr>"
    "n = n \<longrightarrow> Noted Send_buffer_drained \<in> set (dv_out da)"
    "\<forall>p \<in> set (ns_transit s ql). pkt_five_tuple p = tuple"
    "\<forall>p \<in> set (ns_transit s qr). pkt_five_tuple p = FiveTuple_Reverse tuple \<and> pkt_size_bytes p \<noteq> 0"
    "\<forall>q. q \<noteq> ql \<and> q \<noteq> qr \<longrightarrow> ns_transit s q = []" using inv by (rule net_invE)
  note f = flow_inv_complete [OF d(6) config, simplified]
  have "unat (offset ?m n) = ?m * n" "?m * n \<noteq> 0" using config by (auto simp: flow_config_def unat_eq_0 intro!: unat_offset)
  then have "offset ?m n \<noteq> 0" by (metis unat_0)
  then have "sink \<noteq> TCPSink_new (FiveTuple_Reverse tuple)" using f(5) by (auto simp: TCPSink_new_def)
  then have "map_of (dv_connections db) (FiveTuple_tie (FiveTuple_Reverse tuple)) = Some (TCP_sink sink)"
    using d(5) unfolding sink_end_def by blast
  moreover have "map_of (dv_connections da) (FiveTuple_tie tuple) = Some (TCP_source source)" using d(4) unfolding source_end_def by blast
  moreover have "ns_transit s q = []" for q using d(10) f(1,2) by (cases "q = ql"; cases "q = qr") simp_all
  ultimately show ?thesis using d(2,3,7) f
    by (intro conjI allI exI [of _ da] exI [of _ db] exI [of _ source] exI [of _ sink]) simp_all
qed


text \<open>Two devices, each with a rule that sends everything out of port 5.\<close>

primrec wild_nodes :: "nat \<Rightarrow> match_node" where
  "wild_nodes 0 = Leaf (Some 0)"
| "wild_nodes (Suc n) = Node [] (Some (wild_nodes n))"

definition sample_device :: "IPAddress \<Rightarrow> nat \<Rightarrow> (tuple_key, connection) smap \<Rightarrow> Device" where
  "sample_device ip q connections =
     (Device_new ''sample'' ip)\<lparr>
       dv_ports := [(5, \<lparr>po_out_handler = Some (Queue_handler q), po_internal = False\<rparr>), (kLoopbackPortNum, Port_new)],
       dv_connections := connections,
       dv_matcher := \<lparr>mt_root = wild_nodes 7,
         mt_all_rules = [((0, 0, [(0, 0, 0, 0, 0)]), 0)],
         mt_store = [0 \<mapsto> \<lparr>mr_key = \<lparr>mrk_tag = 0, mrk_input_port = 0, mrk_five_tuples = [FiveTuple_new 0 0 0 0 0]\<rparr>, mr_total_weight = 1,
           mr_actions = [MatchRuleAction_new 5 kNullPacketTag 1], mr_installed = True\<rparr>]\<rparr>\<rparr>"

definition sample_tuple :: FiveTuple where
  "sample_tuple = FiveTuple_new 1 2 6 1 80"

definition sample_network :: Network where
  "sample_network = \<lparr>nw_id_to_device = [], nw_tcp_retx_timer = \<lparr>rt_scan_period = 10, rt_tcp_sources = []\<rparr>,
     nw_devices = [0 \<mapsto> sample_device 1 0 [(FiveTuple_tie sample_tuple,
         TCP_source (TCPSource_OnSendBufferDrained (TCPSource_new sample_tuple TCPSourceConfig_default)))],
       1 \<mapsto> sample_device 2 1 []],
     nw_queue_other_end = [0 \<mapsto> 0, 1 \<mapsto> 1], nw_pipe_other_end = [0 \<mapsto> (1, 5), 1 \<mapsto> (0, 5)]\<rparr>"

lemma wild_nodes_match: "MatchNode_MatchOrNull keys (wild_nodes (length keys)) = Some 0"
  by (induction keys) auto

lemma sample_route: "b < 2 ^ 64 \<Longrightarrow> route_ok b (Queue_handler q) tuple (sample_device ip q connections)"
  unfolding route_ok_def
  by (intro exI [of _ 0] exI [of _ "\<lparr>mr_key = \<lparr>mrk_tag = 0, mrk_input_port = 0, mrk_five_tuples = [FiveTuple_new 0 0 0 0 0]\<rparr>, mr_total_weight = 1,
           mr_actions = [MatchRuleAction_new 5 kNullPacketTag 1], mr_installed = True\<rparr>"] exI [of _ 0]
        exI [of _ "\<lparr>po_out_handler = Some (Queue_handler q), po_internal = False\<rparr>"])
     (use wild_nodes_match [of "match_keys tuple kLoopbackPortNum kDefaultTag"] in
       \<open>simp add: sample_device_def match_keys_def MatchRule_ChooseOrNull_tuple_def MatchRuleAction_new_def ActionStats_new_def\<close>)

lemma new_ends_simps [simp]:
  "ts_out (TCPSource_OnSendBufferDrained (TCPSource_new t c)) = []" "ts_five_tuple (TCPSource_OnSendBufferDrained (TCPSource_new t c)) = t"
  "tk_out (TCPSink_new t) = []" "tk_five_tuple (TCPSink_new t) = t"
  by (simp_all add: TCPSource_OnSendBufferDrained_def TCPSource_new_def TCPSource_Close_def TCPSink_new_def)

lemma sample_flow_network: "flow_network TCPSourceConfig_default 10 sample_tuple 0 1 0 1 sample_network"
proof -
  have "smap_wf (dv_ports (sample_device ip q conns))" "loopback_ready (sample_device ip q conns)" for ip q conns
    by (simp_all add: sample_device_def smap_wf_def kLoopbackPortNum_def loopback_ready_def word_less_nat_alt unsigned_minus_1_eq_mask mask_eq_exp_minus_1)
  moreover have "dv_ip_address (sample_device ip q conns) = ip" "dv_connections (sample_device ip q conns) = conns" for ip q conns
    by (simp_all add: sample_device_def Device_new_def)
  moreover have "ft_ip_src sample_tuple = 1" "ft_ip_dst sample_tuple = 2" "ft_ip_proto sample_tuple = kProtoTCP"
    by (simp_all add: sample_tuple_def FiveTuple_new_def kProtoTCP_def)
  ultimately show ?thesis
    unfolding flow_network_def source_end_def sink_end_def
    by (simp add: flow_links_def link_to_def sample_network_def sample_route TCPSourceConfig_default_def smap_wf_def)
qed


end
