(* ===== verification/Network_Links.thy ===== *)
theory Network_Links
  imports Device_Flow
begin

text \<open>
  How \<open>NextAvailablePort\<close> and \<open>AddLink\<close> of \<open>src/src/htsim/network.cc\<close> wire a network.
\<close>

section \<open>Wiring\<close>

lemma next_port_free: "next_port ports i = Ok p \<Longrightarrow> map_of ports p = None \<and> p \<noteq> kLoopbackPortNum"
proof (induction ports i rule: next_port.induct)
  case (1 ports i)
  have lt: "i < 2 ^ 32 - 1" using 1(2) by (subst (asm) next_port.simps) (simp split: if_splits)
  show ?case
  proof (cases "map_of ports (of_nat i) = None")
    case True
    then have "p = of_nat i" using 1(2) lt by (subst (asm) next_port.simps) simp
    moreover have "unat (of_nat i :: 32 word) = i" using lt by (simp add: unat_of_nat take_bit_nat_eq_self)
    moreover have "unat kLoopbackPortNum = 2 ^ 32 - 1" by (simp add: kLoopbackPortNum_def unsigned_minus_1_eq_mask mask_eq_exp_minus_1)
    ultimately show ?thesis using True lt by auto
  next
    case False
    then have "next_port ports (i + 1) = Ok p" using 1(2) lt by (subst (asm) next_port.simps) (simp del: not_None_eq)
    then show ?thesis by (rule 1(1) [OF lt False])
  qed
qed

text \<open>\<open>NextAvailablePort\<close> returns a new port, never that of the loopback.\<close>

lemma NextAvailablePort_new:
  assumes "Device_NextAvailablePort d = Ok (d', port_number)" "smap_wf (dv_ports d)"
  shows "map_of (dv_ports d) port_number = None" "port_number \<noteq> kLoopbackPortNum"
    "map_of (dv_ports d') = (map_of (dv_ports d))(port_number \<mapsto> Port_new)"
  using assms next_port_free [of "dv_ports d" 1 port_number]
  by (auto simp: Device_NextAvailablePort_def res_simps fun_eq_iff)

definition port_at :: "DevicePortNumber \<Rightarrow> Device \<Rightarrow> Port" where
  "port_at port_num d = smap_get Port_new port_num (dv_ports d)"

lemma update_port_eq:
  fixes d :: Device
  assumes "smap_wf (dv_ports d)"
  shows "Device_update_port port_num f d =
    rbind (f (port_at port_num d)) (\<lambda>p. Ok (d\<lparr>dv_ports := smap_put port_num p (dv_ports d)\<rparr>))"
proof (cases "map_of (dv_ports d) port_num")
  case None
  have "smap_put port_num p (smap_put port_num Port_new ports) = smap_put port_num p ports" if "smap_wf ports" for p and ports :: "(DevicePortNumber, Port) smap"
    using that by (induction port_num p ports rule: smap_put.induct) (auto simp: smap_wf_def)
  then show ?thesis using None assms
    by (simp add: Device_update_port_def Device_FindOrCreatePort_def port_at_def smap_get_def)
qed (simp add: Device_update_port_def Device_FindOrCreatePort_def port_at_def)

lemma Network_update_port_eq:
  assumes "nw_devices n a = Some d" "smap_wf (dv_ports d)" "f (port_at port_num d) = Ok p"
  shows "Network_update_port a port_num f n =
    Ok (n\<lparr>nw_devices := (nw_devices n)(a \<mapsto> d\<lparr>dv_ports := smap_put port_num p (dv_ports d)\<rparr>)\<rparr>)"
  using assms by (simp add: Network_update_port_def update_port_eq)



end
