(* ===== verification/Ptr_Queue.thy ===== *)
theory Ptr_Queue
  imports Circular_Array
begin

text \<open>
  \<open>PtrQueue\<close> of \<open>src/src/ptr_queue.h\<close>, a blocking queue between threads. What a call does while it
  holds the mutex is one step; waiting on the condition variable releases the mutex, and the call goes on
  with another step once it has been woken. \<open>step\<close> is the interleaving of such steps by any number of
  threads, with the timeouts and spurious wake-ups that \<open>wait_for\<close> allows. A null pointer is
  \<open>None\<close>. The queue is shown to refine a bounded list; waiting threads are shown not to miss
  what they wait for in the absence of \<open>Invalidate\<close> and \<open>Drain\<close>, and to miss it in their presence.
\<close>

section \<open>The queue\<close>

record 'a PtrQueue =
  pq_producer :: "64 word"
  pq_consumer :: "64 word"
  pq_num_items :: "64 word"
  pq_closed :: bool
  pq_queue :: "'a option list"

text \<open>The template parameter \<open>Size\<close> is the length of the array.\<close>

definition PtrQueue_Size :: "'a PtrQueue \<Rightarrow> 64 word" where
  "PtrQueue_Size q = of_nat (length (pq_queue q))"

definition PtrQueue_kMask :: "'a PtrQueue \<Rightarrow> 64 word" where
  "PtrQueue_kMask q = PtrQueue_Size q - 1"

definition PtrQueue_new :: "32 word \<Rightarrow> 'a PtrQueue" where
  "PtrQueue_new Size = \<lparr>pq_producer = 0, pq_consumer = 0, pq_num_items = 0, pq_closed = False,
     pq_queue = replicate (unat Size) None\<rparr>"

definition PtrQueue_empty :: "'a PtrQueue \<Rightarrow> bool" where
  "PtrQueue_empty q \<longleftrightarrow> pq_num_items q = 0"

text \<open>What a call comes to when it lets go of the mutex: it returns, or it waits.\<close>

datatype 'a outcome = Produced bool | Consumed "'a option" | Waits

text \<open>An outcome comes with whether \<open>notify_all\<close> was called.\<close>

definition put_item :: "'a \<Rightarrow> 'a PtrQueue \<Rightarrow> 'a PtrQueue" where
  "put_item item q =
     q\<lparr>pq_queue := (pq_queue q)[unat (pq_producer q) := Some item],
       pq_producer := (pq_producer q + 1) AND PtrQueue_kMask q,
       pq_num_items := pq_num_items q + 1\<rparr>"

definition PtrQueue_Produce :: "'a \<Rightarrow> 'a PtrQueue \<Rightarrow> 'a PtrQueue \<times> 'a outcome \<times> bool" where
  "PtrQueue_Produce item q =
     (if pq_closed q then (q, Produced False, False)
      else if pq_num_items q = PtrQueue_Size q then (q, Waits, False)
      else (put_item item q, Produced True, True))"

text \<open>The calls a thread can wait in, and the negation of the predicate it then waits for.\<close>

datatype 'a call = Produce 'a | Consume

fun must_wait :: "'a call \<Rightarrow> 'a PtrQueue \<Rightarrow> bool" where
  "must_wait (Produce item) q \<longleftrightarrow> \<not> (pq_closed q \<or> pq_num_items q < PtrQueue_Size q)"
| "must_wait Consume q \<longleftrightarrow> \<not> (pq_closed q \<or> pq_num_items q > 0)"

text \<open>After waking up: the predicate of \<open>wait_for\<close> is tried first.\<close>

definition PtrQueue_Produce_woken :: "'a \<Rightarrow> 'a PtrQueue \<Rightarrow> 'a PtrQueue \<times> 'a outcome \<times> bool" where
  "PtrQueue_Produce_woken item q =
     (if must_wait (Produce item) q then (q, Waits, False)
      else if pq_closed q then (q, Produced False, False)
      else (put_item item q, Produced True, True))"

definition take_item :: "'a PtrQueue \<Rightarrow> 'a option \<times> 'a PtrQueue" where
  "take_item q =
     (pq_queue q ! unat (pq_consumer q),
      q\<lparr>pq_queue := (pq_queue q)[unat (pq_consumer q) := None],
        pq_consumer := (pq_consumer q + 1) AND PtrQueue_kMask q,
        pq_num_items := pq_num_items q - 1\<rparr>)"

lemma num_items_take_item: "pq_num_items (snd (take_item q)) = pq_num_items q - 1"
  by (simp add: take_item_def)

lemma unat_minus_one_less: "(w :: 'w::len word) \<noteq> 0 \<Longrightarrow> unat (w - 1) < unat w"
  by (metis unat_minus_one diff_less neq0_conv unat_eq_zero zero_less_one)

text \<open>The loop of \<open>ConsumeOrBlock\<close>, up to where it waits or returns. Invalidated items are skipped.\<close>

function PtrQueue_Consume :: "'a PtrQueue \<Rightarrow> 'a PtrQueue \<times> 'a outcome \<times> bool" where
  "PtrQueue_Consume q =
     (if pq_num_items q = 0
      then if pq_closed q then (q, Consumed None, False) else (q, Waits, False)
      else let (return_ptr, q) = take_item q
           in case return_ptr of
                Some item \<Rightarrow> (q, Consumed (Some item), True)
              | None \<Rightarrow> PtrQueue_Consume q)"
  by pat_completeness auto
termination
  by (relation "measure (\<lambda>q. unat (pq_num_items q))")
     (auto simp: take_item_def unat_minus_one_less)

declare PtrQueue_Consume.simps [simp del]

definition PtrQueue_Consume_woken :: "'a PtrQueue \<Rightarrow> 'a PtrQueue \<times> 'a outcome \<times> bool" where
  "PtrQueue_Consume_woken q =
     (if must_wait Consume q then (q, Waits, False)
      else if pq_closed q \<and> pq_num_items q = 0 then (q, Consumed None, False)
      else PtrQueue_Consume q)"

definition PtrQueue_Invalidate :: "('a \<Rightarrow> bool) \<Rightarrow> 'a PtrQueue \<Rightarrow> 'a PtrQueue" where
  "PtrQueue_Invalidate callback q =
     q\<lparr>pq_queue := map (\<lambda>p. case p of None \<Rightarrow> None | Some item \<Rightarrow> if callback item then None else p) (pq_queue q)\<rparr>"

definition PtrQueue_Close :: "'a PtrQueue \<Rightarrow> 'a PtrQueue" where
  "PtrQueue_Close q = q\<lparr>pq_closed := True\<rparr>"

function PtrQueue_Drain :: "'a PtrQueue \<Rightarrow> 'a option list \<times> 'a PtrQueue" where
  "PtrQueue_Drain q =
     (if pq_num_items q = 0 then ([], q)
      else let (item, q) = take_item q; (out, q) = PtrQueue_Drain q in (item # out, q))"
  by pat_completeness auto
termination
  by (relation "measure (\<lambda>q. unat (pq_num_items q))")
     (auto simp: take_item_def unat_minus_one_less)

declare PtrQueue_Drain.simps [simp del]

section \<open>Threads\<close>

datatype 'a thread = Idle | Waiting "'a call" | Woken "'a call"

record ('th, 'a) config =
  cf_queue :: "'a PtrQueue"
  cf_threads :: "'th \<Rightarrow> 'a thread"

fun enter :: "'a call \<Rightarrow> 'a PtrQueue \<Rightarrow> 'a PtrQueue \<times> 'a outcome \<times> bool" where
  "enter (Produce item) q = PtrQueue_Produce item q"
| "enter Consume q = PtrQueue_Consume q"

fun resume :: "'a call \<Rightarrow> 'a PtrQueue \<Rightarrow> 'a PtrQueue \<times> 'a outcome \<times> bool" where
  "resume (Produce item) q = PtrQueue_Produce_woken item q"
| "resume Consume q = PtrQueue_Consume_woken q"

fun wake :: "'a thread \<Rightarrow> 'a thread" where
  "wake (Waiting c) = Woken c"
| "wake t = t"

text \<open>Thread \<open>t\<close> lets go of the mutex with a result: it waits or is done, and the others are woken if told.\<close>

definition finish :: "'th \<Rightarrow> 'a call \<Rightarrow> 'a PtrQueue \<times> 'a outcome \<times> bool \<Rightarrow> ('th, 'a) config \<Rightarrow> ('th, 'a) config" where
  "finish t c r s =
     (case r of (q, out, notify) \<Rightarrow>
        \<lparr>cf_queue = q,
         cf_threads = (\<lambda>u. if u = t then (if out = Waits then Waiting c else Idle)
                           else if notify then wake (cf_threads s u) else cf_threads s u)\<rparr>)"

datatype ('th, 'a) label =
    Enter 'th "'a call" | Resume 'th | Timeout 'th | Spurious 'th
  | Invalidate "'a \<Rightarrow> bool" | Close | Drain

inductive step :: "('th, 'a) config \<Rightarrow> ('th, 'a) label \<Rightarrow> ('th, 'a) config \<Rightarrow> bool" where
  entered: "cf_threads s t = Idle \<Longrightarrow> step s (Enter t c) (finish t c (enter c (cf_queue s)) s)"
| resumed: "cf_threads s t = Woken c \<Longrightarrow> step s (Resume t) (finish t c (resume c (cf_queue s)) s)"
| timed_out: "cf_threads s t = Waiting c \<or> cf_threads s t = Woken c \<Longrightarrow> must_wait c (cf_queue s) \<Longrightarrow>
    step s (Timeout t) (s\<lparr>cf_threads := (cf_threads s)(t := Idle)\<rparr>)"
| spurious: "cf_threads s t = Waiting c \<Longrightarrow> step s (Spurious t) (s\<lparr>cf_threads := (cf_threads s)(t := Woken c)\<rparr>)"
| invalidated: "step s (Invalidate cb) (s\<lparr>cf_queue := PtrQueue_Invalidate cb (cf_queue s)\<rparr>)"
| closed: "step s Close \<lparr>cf_queue = PtrQueue_Close (cf_queue s), cf_threads = (\<lambda>t. wake (cf_threads s t))\<rparr>"
| drained: "step s Drain (s\<lparr>cf_queue := snd (PtrQueue_Drain (cf_queue s))\<rparr>)"

inductive steps :: "('th, 'a) config \<Rightarrow> ('th, 'a) label list \<Rightarrow> ('th, 'a) config \<Rightarrow> bool" where
  none: "steps s [] s"
| more: "steps s ls s' \<Longrightarrow> step s' l s'' \<Longrightarrow> steps s (ls @ [l]) s''"

section \<open>The queue as a bounded list\<close>

definition pq_wf :: "nat \<Rightarrow> 'a PtrQueue \<Rightarrow> bool" where
  "pq_wf k q \<longleftrightarrow> k < 32 \<and> length (pq_queue q) = 2 ^ k \<and> unat (pq_consumer q) < 2 ^ k \<and>
     unat (pq_num_items q) \<le> 2 ^ k \<and>
     unat (pq_producer q) = (unat (pq_consumer q) + unat (pq_num_items q)) mod 2 ^ k"

definition pq_items :: "'a PtrQueue \<Rightarrow> 'a option list" where
  "pq_items q = map (\<lambda>i. pq_queue q ! ((unat (pq_consumer q) + i) mod length (pq_queue q))) [0..<unat (pq_num_items q)]"

lemma length_pq_items [simp]: "length (pq_items q) = unat (pq_num_items q)"
  by (simp add: pq_items_def)

lemma pq_items_Nil [simp]: "pq_num_items q = 0 \<Longrightarrow> pq_items q = []"
  by (simp add: pq_items_def)

lemma pq_wf_Size: "pq_wf k q \<Longrightarrow> unat (PtrQueue_Size q) = 2 ^ k"
proof -
  assume wf: "pq_wf k q"
  then have "(2 :: nat) ^ k < 2 ^ 32" by (intro pow2_less) (simp add: pq_wf_def)
  with wf show ?thesis
    using of_nat_unat_less [where 'v = 64, of "2 ^ k"] by (simp add: pq_wf_def PtrQueue_Size_def)
qed

lemma pq_next:
  assumes "pq_wf k q"
  shows "unat ((i + 1) AND PtrQueue_kMask q) = (unat i + 1) mod 2 ^ k"
proof -
  have "PtrQueue_kMask q = mask k"
    using assms by (simp add: pq_wf_def PtrQueue_kMask_def PtrQueue_Size_def mask_eq_exp_minus_1)
  moreover have "unat (take_bit k (i + 1)) = unat (i + 1) mod 2 ^ k"
    by (subst unsigned_take_bit_eq) (rule take_bit_eq_mod)
  moreover have "ca_slot k (i + of_nat 1) = (unat i + 1) mod 2 ^ k"
    using assms by (intro ca_slot_add) (simp add: pq_wf_def)
  ultimately show ?thesis by (simp add: ca_slot_def flip: take_bit_eq_mask)
qed

lemma ring_neq: "i < j \<Longrightarrow> j - i < n \<Longrightarrow> (c + i) mod n \<noteq> (c + j) mod (n :: nat)"
  using mod_eq_dvd_iff_nat [of "c + i" "c + j" n] by (auto dest: dvd_imp_le)

lemma pq_wf_bounded: "pq_wf k q \<Longrightarrow> \<not> unat (pq_num_items q) < 2 ^ k \<Longrightarrow> pq_num_items q = PtrQueue_Size q"
  using pq_wf_Size [of k q] by (simp add: pq_wf_def word_unat_eq_iff)

lemma put_item_items:
  assumes wf: "pq_wf k q" and room: "unat (pq_num_items q) < 2 ^ k"
  shows "pq_wf k (put_item x q)" "pq_items (put_item x q) = pq_items q @ [Some x]"
proof -
  let ?c = "unat (pq_consumer q)" and ?n = "unat (pq_num_items q)"
  have n: "unat (pq_num_items q + 1) = Suc ?n"
  proof (rule unat_Suc_word)
    have "(2 :: nat) ^ k < 2 ^ 32" using wf by (intro pow2_less) (simp add: pq_wf_def)
    with room show "?n < 2 ^ LENGTH(64) - 1" by simp
  qed
  show "pq_wf k (put_item x q)"
    using wf room n pq_next [OF wf, of "pq_producer q"]
    by (simp add: pq_wf_def put_item_def mod_Suc_eq)
  have prod: "unat (pq_producer q) = (?c + ?n) mod 2 ^ k" and len: "length (pq_queue q) = 2 ^ k"
    using wf by (simp_all add: pq_wf_def)
  have "(pq_queue q)[(?c + ?n) mod 2 ^ k := Some x] ! ((?c + i) mod 2 ^ k) = pq_queue q ! ((?c + i) mod 2 ^ k)"
    if "i < ?n" for i
  proof -
    have "?n - i < 2 ^ k" using room by simp
    then show ?thesis using ring_neq [of i ?n "2 ^ k" ?c] that by simp
  qed
  then show "pq_items (put_item x q) = pq_items q @ [Some x]"
    using len by (simp add: pq_items_def put_item_def n prod)
qed

lemma take_item_items:
  assumes wf: "pq_wf k q" and some: "pq_num_items q \<noteq> 0"
  shows "pq_wf k (snd (take_item q))" "pq_items q = fst (take_item q) # pq_items (snd (take_item q))"
proof -
  let ?c = "unat (pq_consumer q)" and ?n = "unat (pq_num_items q)"
  have n: "unat (pq_num_items q - 1) = ?n - 1" and pos: "0 < ?n"
    using some by (simp_all add: unat_minus_one unat_gt_0)
  have c: "unat ((pq_consumer q + 1) AND PtrQueue_kMask q) = (?c + 1) mod 2 ^ k" by (rule pq_next [OF wf])
  have cl: "?c < 2 ^ k" and len: "length (pq_queue q) = 2 ^ k" and nl: "?n \<le> 2 ^ k" using wf by (simp_all add: pq_wf_def)
  have "((?c + 1) mod 2 ^ k + (?n - 1)) mod 2 ^ k = (?c + ?n) mod 2 ^ k"
    unfolding mod_add_left_eq using pos by simp
  then show "pq_wf k (snd (take_item q))"
    using wf n c nl by (simp add: pq_wf_def take_item_def)
  have "(pq_queue q)[?c := None] ! (((?c + 1) mod 2 ^ k + i) mod 2 ^ k) = pq_queue q ! ((?c + Suc i) mod 2 ^ k)"
    if "i < ?n - 1" for i
  proof -
    have "((?c + 1) mod 2 ^ k + i) mod 2 ^ k = (?c + Suc i) mod 2 ^ k" by (simp add: mod_add_left_eq)
    moreover have "(?c + Suc i) mod 2 ^ k \<noteq> ?c"
    proof -
      have "Suc i - 0 < 2 ^ k" using that nl by simp
      then show ?thesis using ring_neq [of 0 "Suc i" "2 ^ k" ?c] cl by simp
    qed
    ultimately show ?thesis by simp
  qed
  then have rest: "pq_items (snd (take_item q)) = map (\<lambda>i. pq_queue q ! ((?c + Suc i) mod 2 ^ k)) [0..<?n - 1]"
    using len by (simp add: pq_items_def take_item_def n c)
  have "[0..<?n] = 0 # map Suc [0..<?n - 1]" using pos by (simp add: map_Suc_upt upt_conv_Cons)
  then show "pq_items q = fst (take_item q) # pq_items (snd (take_item q))"
    unfolding rest using len cl by (simp add: pq_items_def take_item_def)
qed

lemma pq_wf_new: "k < 32 \<Longrightarrow> unat Size = 2 ^ k \<Longrightarrow> pq_wf k (PtrQueue_new Size)"
  by (simp add: pq_wf_def PtrQueue_new_def)

lemma must_wait_iff:
  "pq_wf k q \<Longrightarrow> must_wait (Produce x) q \<longleftrightarrow> \<not> pq_closed q \<and> length (pq_items q) = 2 ^ k"
  "must_wait Consume q \<longleftrightarrow> \<not> pq_closed q \<and> pq_items q = []"
proof -
  show "must_wait (Produce x) q \<longleftrightarrow> \<not> pq_closed q \<and> length (pq_items q) = 2 ^ k" if wf: "pq_wf k q"
    using pq_wf_Size [OF wf] wf by (auto simp: pq_wf_def word_less_nat_alt)
  have "pq_items q = [] \<longleftrightarrow> pq_num_items q = 0"
    by (metis length_pq_items list.size(3) length_0_conv unat_eq_zero)
  then show "must_wait Consume q \<longleftrightarrow> \<not> pq_closed q \<and> pq_items q = []" by (simp add: word_gt_0)
qed

lemma Produce_spec:
  assumes wf: "pq_wf k q"
  shows "PtrQueue_Produce x q =
      (if pq_closed q then (q, Produced False, False)
       else if length (pq_items q) = 2 ^ k then (q, Waits, False) else (put_item x q, Produced True, True))"
    "PtrQueue_Produce_woken x q = PtrQueue_Produce x q"
proof -
  have "pq_num_items q = PtrQueue_Size q \<longleftrightarrow> length (pq_items q) = 2 ^ k"
    using pq_wf_Size [OF wf] by (auto simp: word_unat_eq_iff)
  then show 1: "PtrQueue_Produce x q =
      (if pq_closed q then (q, Produced False, False)
       else if length (pq_items q) = 2 ^ k then (q, Waits, False) else (put_item x q, Produced True, True))"
    by (simp add: PtrQueue_Produce_def)
  show "PtrQueue_Produce_woken x q = PtrQueue_Produce x q"
    unfolding 1 PtrQueue_Produce_woken_def must_wait_iff(1) [OF wf] by simp
qed

text \<open>Taking items until one is valid.\<close>

lemma Consume_spec:
  "pq_wf k q \<Longrightarrow>
   (case dropWhile (\<lambda>p. p = None) (pq_items q) of
      [] \<Rightarrow> \<exists>q'. PtrQueue_Consume q = (q', if pq_closed q then Consumed None else Waits, False) \<and>
             pq_wf k q' \<and> pq_items q' = [] \<and> pq_closed q' = pq_closed q
    | p # ps \<Rightarrow> \<exists>q'. PtrQueue_Consume q = (q', Consumed p, True) \<and>
             pq_wf k q' \<and> pq_items q' = ps \<and> pq_closed q' = pq_closed q)"
proof (induction q rule: PtrQueue_Consume.induct)
  case (1 q)
  show ?case
  proof (cases "pq_num_items q = 0")
    case True
    then show ?thesis using 1(2) by (subst PtrQueue_Consume.simps) simp
  next
    case False
    obtain p q' where t: "take_item q = (p, q')" by (cases "take_item q")
    have cl: "pq_closed q' = pq_closed q" using t by (auto simp: take_item_def)
    have wf: "pq_wf k q'" "pq_items q = p # pq_items q'"
      using take_item_items [OF 1(2) False] t by simp_all
    show ?thesis
    proof (cases p)
      case None
      have c: "PtrQueue_Consume q = PtrQueue_Consume q'"
        using False t None by (subst PtrQueue_Consume.simps) simp
      have i: "dropWhile (\<lambda>p. p = None) (pq_items q) = dropWhile (\<lambda>p. p = None) (pq_items q')"
        using wf(2) None by simp
      show ?thesis using 1(1) [OF False t [symmetric] refl None wf(1)] unfolding c i cl .
    next
      case (Some x)
      have "PtrQueue_Consume q = (q', Consumed p, True)"
        using False t Some by (subst PtrQueue_Consume.simps) simp
      then show ?thesis using wf Some cl by simp
    qed
  qed
qed

lemma Consume_woken: "PtrQueue_Consume_woken q = PtrQueue_Consume q"
  by (subst PtrQueue_Consume.simps) (auto simp: PtrQueue_Consume_woken_def word_gt_0 PtrQueue_Consume.simps [of q])

lemma Drain_spec:
  "pq_wf k q \<Longrightarrow> fst (PtrQueue_Drain q) = pq_items q \<and> pq_wf k (snd (PtrQueue_Drain q)) \<and>
   pq_items (snd (PtrQueue_Drain q)) = []"
proof (induction q rule: PtrQueue_Drain.induct)
  case (1 q)
  show ?case
  proof (cases "pq_num_items q = 0")
    case True
    then show ?thesis using 1(2) by (subst (1 2 3) PtrQueue_Drain.simps) simp
  next
    case False
    obtain p q' where t: "take_item q = (p, q')" by (cases "take_item q")
    have wf: "pq_wf k q'" "pq_items q = p # pq_items q'"
      using take_item_items [OF 1(2) False] t by simp_all
    have d: "PtrQueue_Drain q = (p # fst (PtrQueue_Drain q'), snd (PtrQueue_Drain q'))"
      using False t by (subst PtrQueue_Drain.simps) (simp add: case_prod_unfold Let_def)
    show ?thesis using 1(1) [OF False t [symmetric] refl wf(1)] wf(2) unfolding d by simp
  qed
qed

lemma Invalidate_items:
  assumes "pq_wf k q"
  shows "pq_wf k (PtrQueue_Invalidate cb q)"
    "pq_items (PtrQueue_Invalidate cb q) =
       map (\<lambda>p. case p of None \<Rightarrow> None | Some item \<Rightarrow> if cb item then None else p) (pq_items q)"
  using assms by (auto simp: pq_wf_def pq_items_def PtrQueue_Invalidate_def comp_def)

section \<open>Waiting\<close>

text \<open>
  The invariant of runs without \<open>Invalidate\<close> and \<open>Drain\<close>: every item is valid, and a thread that waits
  and has not been woken has reason to.
\<close>

definition cf_inv :: "nat \<Rightarrow> ('th, 'a) config \<Rightarrow> bool" where
  "cf_inv k s \<longleftrightarrow> pq_wf k (cf_queue s) \<and> None \<notin> set (pq_items (cf_queue s)) \<and>
     (\<forall>t c. cf_threads s t = Waiting c \<longrightarrow> must_wait c (cf_queue s))"

lemma wake_not_Waiting [simp]: "wake t \<noteq> Waiting c"
  by (cases t) simp_all

lemma cf_inv_finish:
  assumes inv: "cf_inv k s" and wf: "pq_wf k q" and valid: "None \<notin> set (pq_items q)"
    and waits: "out = Waits \<Longrightarrow> must_wait c q"
    and same: "\<not> notify \<Longrightarrow> q = cf_queue s"
  shows "cf_inv k (finish t c (q, out, notify) s)"
  using assms by (auto simp: cf_inv_def finish_def split: if_splits)

lemma cf_inv_Produce:
  assumes inv: "cf_inv k s"
  shows "cf_inv k (finish t (Produce x) (PtrQueue_Produce x (cf_queue s)) s)"
proof -
  have wf: "pq_wf k (cf_queue s)" and valid: "None \<notin> set (pq_items (cf_queue s))"
    using inv by (simp_all add: cf_inv_def)
  consider "pq_closed (cf_queue s)" | "\<not> pq_closed (cf_queue s)" "length (pq_items (cf_queue s)) = 2 ^ k"
    | "\<not> pq_closed (cf_queue s)" "unat (pq_num_items (cf_queue s)) < 2 ^ k"
    using wf by (fastforce simp: pq_wf_def)
  then show ?thesis
  proof cases
    case 1
    then have "PtrQueue_Produce x (cf_queue s) = (cf_queue s, Produced False, False)"
      by (simp add: Produce_spec(1) [OF wf])
    then show ?thesis using wf valid by (simp only:) (rule cf_inv_finish [OF inv], simp_all)
  next
    case 2
    then have "PtrQueue_Produce x (cf_queue s) = (cf_queue s, Waits, False)" "must_wait (Produce x) (cf_queue s)"
      by (simp_all add: Produce_spec(1) [OF wf] must_wait_iff(1) [OF wf] del: must_wait.simps)
    then show ?thesis using wf valid
      by (simp only:) (rule cf_inv_finish [OF inv], simp_all del: must_wait.simps)
  next
    case 3
    then have "PtrQueue_Produce x (cf_queue s) = (put_item x (cf_queue s), Produced True, True)"
      by (simp add: Produce_spec(1) [OF wf])
    then show ?thesis using put_item_items [OF wf 3(2), of x] valid
      by (simp only:) (rule cf_inv_finish [OF inv], simp_all)
  qed
qed

lemma cf_inv_Consume:
  assumes inv: "cf_inv k s"
  shows "cf_inv k (finish t Consume (PtrQueue_Consume (cf_queue s)) s)"
proof (cases "pq_num_items (cf_queue s) = 0")
  case True
  then have "PtrQueue_Consume (cf_queue s) =
      (cf_queue s, if pq_closed (cf_queue s) then Consumed None else Waits, False)"
    by (subst PtrQueue_Consume.simps) simp
  then show ?thesis using inv True
    by (simp only:) (rule cf_inv_finish [OF inv], simp_all add: cf_inv_def split: if_splits)
next
  case False
  have wf: "pq_wf k (cf_queue s)" and valid: "None \<notin> set (pq_items (cf_queue s))"
    using inv by (simp_all add: cf_inv_def)
  obtain p q' where t: "take_item (cf_queue s) = (p, q')" by (cases "take_item (cf_queue s)")
  have q': "pq_wf k q'" "pq_items (cf_queue s) = p # pq_items q'"
    using take_item_items [OF wf False] t by simp_all
  then obtain x where "p = Some x" using valid by (cases p) auto
  then have "PtrQueue_Consume (cf_queue s) = (q', Consumed (Some x), True)"
    using False t by (subst PtrQueue_Consume.simps) simp
  then show ?thesis using q' valid by (simp only:) (rule cf_inv_finish [OF inv], simp_all)
qed

lemma cf_inv_step:
  assumes "step s l s'" "cf_inv k s" "l \<noteq> Drain" "\<forall>cb. l \<noteq> Invalidate cb"
  shows "cf_inv k s'"
  using assms
proof cases
  case (entered t c)
  then show ?thesis using assms(2) cf_inv_Produce cf_inv_Consume by (cases c) simp_all
next
  case (resumed t c)
  have wf: "pq_wf k (cf_queue s)" using assms(2) by (simp add: cf_inv_def)
  show ?thesis using resumed assms(2) cf_inv_Produce cf_inv_Consume
    by (cases c) (simp_all add: Consume_woken Produce_spec(2) [OF wf])
next
  case closed
  then show ?thesis using assms(2)
    by (auto simp: cf_inv_def PtrQueue_Close_def pq_wf_def pq_items_def)
qed (use assms in \<open>auto simp: cf_inv_def split: if_splits\<close>)

lemma cf_inv_steps:
  assumes "steps s ls s'" "cf_inv k s" "Drain \<notin> set ls" "\<forall>cb. Invalidate cb \<notin> set ls"
  shows "cf_inv k s'"
  using assms
proof (induction rule: steps.induct)
  case (more s ls s' l s'')
  then have "cf_inv k s'" "l \<noteq> Drain" "\<forall>cb. l \<noteq> Invalidate cb" by auto
  with more.hyps(2) show ?case by (blast intro: cf_inv_step)
qed

definition config_new :: "32 word \<Rightarrow> ('th, 'a) config" where
  "config_new Size = \<lparr>cf_queue = PtrQueue_new Size, cf_threads = (\<lambda>_. Idle)\<rparr>"

lemma cf_inv_new: "k < 32 \<Longrightarrow> unat Size = 2 ^ k \<Longrightarrow> cf_inv k (config_new Size)"
  by (simp add: cf_inv_def config_new_def pq_wf_new) (simp add: pq_items_def PtrQueue_new_def)

section \<open>Running\<close>

text \<open>Runs of two threads, a producer \<open>False\<close> and a consumer \<open>True\<close>, over a queue of size 1.\<close>

fun execute :: "('th, 'a) config \<Rightarrow> ('th, 'a) label list \<Rightarrow> ('th, 'a) config" where
  "execute s [] = s"
| "execute s (Enter t c # ls) = execute (finish t c (enter c (cf_queue s)) s) ls"
| "execute s (Drain # ls) = execute (s\<lparr>cf_queue := snd (PtrQueue_Drain (cf_queue s))\<rparr>) ls"
| "execute s (Invalidate cb # ls) = execute (s\<lparr>cf_queue := PtrQueue_Invalidate cb (cf_queue s)\<rparr>) ls"
| "execute s (_ # ls) = execute s ls"

fun runnable :: "('th, 'a) config \<Rightarrow> ('th, 'a) label list \<Rightarrow> bool" where
  "runnable s [] = True"
| "runnable s (Enter t c # ls) \<longleftrightarrow> (case cf_threads s t of Idle \<Rightarrow> True | _ \<Rightarrow> False) \<and>
     runnable (finish t c (enter c (cf_queue s)) s) ls"
| "runnable s (Drain # ls) = runnable (s\<lparr>cf_queue := snd (PtrQueue_Drain (cf_queue s))\<rparr>) ls"
| "runnable s (Invalidate cb # ls) = runnable (s\<lparr>cf_queue := PtrQueue_Invalidate cb (cf_queue s)\<rparr>) ls"
| "runnable s (_ # ls) = False"

lemma steps_Cons: "step s l s' \<Longrightarrow> steps s' ls s'' \<Longrightarrow> steps s (l # ls) s''"
proof (induction ls arbitrary: s'' rule: rev_induct)
  case Nil
  then have "s'' = s'" by (auto elim: steps.cases)
  then show ?case using steps.more [OF steps.none Nil(1)] by simp
next
  case (snoc m ms)
  from snoc.prems(2) obtain s1 where "steps s' ms s1" "step s1 m s''" by (auto elim: steps.cases)
  then show ?case using steps.more [OF snoc.IH [OF snoc.prems(1)]] by auto
qed

lemma steps_execute: "runnable s ls \<Longrightarrow> steps s ls (execute s ls)"
proof (induction s ls rule: execute.induct)
  case (2 s t c ls)
  then show ?case using steps_Cons [OF step.entered [of s t c]] by (simp split: thread.splits)
qed (auto intro: steps.none steps_Cons step.intros)

section \<open>Properties\<close>

text \<open>C21. The ring buffer refines a list of at most \<open>Size\<close> items: producing appends, or waits when the
  list is full; consuming drops the invalidated items at the front and takes the first valid one, or
  waits when there is none; draining hands out the whole list; invalidating nulls the items it is
  told to. A call that wakes up goes on as if it had just been made.\<close>

theorem PtrQueue_refines_bounded_list:
  assumes wf: "pq_wf k q"
  shows "(let (q', out, notify) = PtrQueue_Produce x q in
            pq_wf k q' \<and> length (pq_items q') \<le> 2 ^ k \<and>
            (if pq_closed q then out = Produced False \<and> pq_items q' = pq_items q
             else if length (pq_items q) = 2 ^ k then out = Waits \<and> pq_items q' = pq_items q
             else out = Produced True \<and> pq_items q' = pq_items q @ [Some x])) \<and>
         (let (q', out, notify) = PtrQueue_Consume q in
            pq_wf k q' \<and>
            (case dropWhile (\<lambda>p. p = None) (pq_items q) of
               [] \<Rightarrow> pq_items q' = [] \<and> out = (if pq_closed q then Consumed None else Waits)
             | p # ps \<Rightarrow> pq_items q' = ps \<and> out = Consumed p)) \<and>
         PtrQueue_Produce_woken x q = PtrQueue_Produce x q \<and> PtrQueue_Consume_woken q = PtrQueue_Consume q \<and>
         (let (out, q') = PtrQueue_Drain q in pq_wf k q' \<and> out = pq_items q \<and> pq_items q' = []) \<and>
         pq_items (PtrQueue_Invalidate cb q) =
           map (\<lambda>p. case p of None \<Rightarrow> None | Some item \<Rightarrow> if cb item then None else p) (pq_items q)"
proof -
  have n: "unat (pq_num_items q) \<le> 2 ^ k" using wf by (simp add: pq_wf_def)
  have "let (q', out, notify) = PtrQueue_Produce x q in
      pq_wf k q' \<and> length (pq_items q') \<le> 2 ^ k \<and>
      (if pq_closed q then out = Produced False \<and> pq_items q' = pq_items q
       else if length (pq_items q) = 2 ^ k then out = Waits \<and> pq_items q' = pq_items q
       else out = Produced True \<and> pq_items q' = pq_items q @ [Some x])"
  proof (cases "pq_closed q \<or> length (pq_items q) = 2 ^ k")
    case True
    then show ?thesis using wf n unfolding Produce_spec(1) [OF wf] by auto
  next
    case False
    then have "unat (pq_num_items q) < 2 ^ k" using n by simp
    from put_item_items [OF wf this, of x] this False show ?thesis
      unfolding Produce_spec(1) [OF wf] by (simp del: length_pq_items add: length_pq_items [of q])
  qed
  moreover have "let (q', out, notify) = PtrQueue_Consume q in
            pq_wf k q' \<and>
            (case dropWhile (\<lambda>p. p = None) (pq_items q) of
               [] \<Rightarrow> pq_items q' = [] \<and> out = (if pq_closed q then Consumed None else Waits)
             | p # ps \<Rightarrow> pq_items q' = ps \<and> out = Consumed p)"
    using Consume_spec [OF wf] by (cases "dropWhile (\<lambda>p. p = None) (pq_items q)") (auto simp del: dropWhile_eq_Nil_conv)
  ultimately show ?thesis
    using Produce_spec(2) [OF wf, of x] Consume_woken [of q] Drain_spec [OF wf] Invalidate_items(2) [OF wf, of cb]
    by (simp add: case_prod_unfold Let_def)
qed

theorem PtrQueue_refines_bounded_list_witness:
  "pq_wf 1 (PtrQueue_new 2 :: nat PtrQueue) \<and>
   pq_items (fst (PtrQueue_Produce 5 (PtrQueue_new 2 :: nat PtrQueue))) = [Some 5]"
proof -
  have wf: "pq_wf 1 (PtrQueue_new 2 :: nat PtrQueue)" by (rule pq_wf_new) simp_all
  have "\<not> pq_closed (PtrQueue_new 2 :: nat PtrQueue)" "pq_items (PtrQueue_new 2 :: nat PtrQueue) = []"
    by (simp_all add: PtrQueue_new_def)
  then show ?thesis using PtrQueue_refines_bounded_list [OF wf, of 5 "\<lambda>_. False"] wf
    by (simp add: case_prod_unfold Let_def)
qed



definition stuck :: "(bool, nat) config \<Rightarrow> bool" where
  "stuck s \<longleftrightarrow> \<not> pq_closed (cf_queue s) \<and> pq_items (cf_queue s) = [] \<and>
     cf_threads s False = Waiting (Produce 2) \<and> cf_threads s True = Waiting Consume"

lemma stuck_after_Drain:
  "let ls = [Enter False (Produce 1), Enter False (Produce 2), Drain, Enter True Consume]
   in runnable (config_new 1) ls \<and> stuck (execute (config_new 1) ls)"
  by code_simp

lemma stuck_after_Invalidate:
  "let ls = [Enter False (Produce 1), Enter False (Produce 2), Invalidate (\<lambda>_. True), Enter True Consume]
   in runnable (config_new 1) ls \<and> stuck (execute (config_new 1) ls)"
  by code_simp


end
