(* ===== verification/Md5.thy ===== *)
theory Md5
  imports Ncode_Prelude
begin

unbundle bit_operations_syntax

text \<open>
  The MD5 digest of \<open>src/src/md5.{h,cc}\<close>. Bytes and words are words, and the counter of bits is two
  words with the carry between them written out as in the code. The loop of \<open>update\<close> over the blocks of its input
  compares 32-bit sums, so it need not end on an input of nearly \<open>2 ^ 32\<close> bytes; it is a partial
  function. The digest is shown to be that of the padded message, however the message was cut into pieces.
\<close>

section \<open>The functions on words\<close>

definition MD5_F :: "32 word \<Rightarrow> 32 word \<Rightarrow> 32 word \<Rightarrow> 32 word" where
  "MD5_F x y z = (x AND y) OR (NOT x AND z)"

definition MD5_G :: "32 word \<Rightarrow> 32 word \<Rightarrow> 32 word \<Rightarrow> 32 word" where
  "MD5_G x y z = (x AND z) OR (y AND NOT z)"

definition MD5_H :: "32 word \<Rightarrow> 32 word \<Rightarrow> 32 word \<Rightarrow> 32 word" where
  "MD5_H x y z = x XOR y XOR z"

definition MD5_I :: "32 word \<Rightarrow> 32 word \<Rightarrow> 32 word \<Rightarrow> 32 word" where
  "MD5_I x y z = y XOR (x OR NOT z)"

definition rotate_left :: "32 word \<Rightarrow> nat \<Rightarrow> 32 word" where
  "rotate_left x n = push_bit n x OR drop_bit (32 - n) x"

definition MD5_FF :: "32 word \<Rightarrow> 32 word \<Rightarrow> 32 word \<Rightarrow> 32 word \<Rightarrow> 32 word \<Rightarrow> nat \<Rightarrow> 32 word \<Rightarrow> 32 word" where
  "MD5_FF a b c d x s ac = rotate_left (a + MD5_F b c d + x + ac) s + b"

definition MD5_GG :: "32 word \<Rightarrow> 32 word \<Rightarrow> 32 word \<Rightarrow> 32 word \<Rightarrow> 32 word \<Rightarrow> nat \<Rightarrow> 32 word \<Rightarrow> 32 word" where
  "MD5_GG a b c d x s ac = rotate_left (a + MD5_G b c d + x + ac) s + b"

definition MD5_HH :: "32 word \<Rightarrow> 32 word \<Rightarrow> 32 word \<Rightarrow> 32 word \<Rightarrow> 32 word \<Rightarrow> nat \<Rightarrow> 32 word \<Rightarrow> 32 word" where
  "MD5_HH a b c d x s ac = rotate_left (a + MD5_H b c d + x + ac) s + b"

definition MD5_II :: "32 word \<Rightarrow> 32 word \<Rightarrow> 32 word \<Rightarrow> 32 word \<Rightarrow> 32 word \<Rightarrow> nat \<Rightarrow> 32 word \<Rightarrow> 32 word" where
  "MD5_II a b c d x s ac = rotate_left (a + MD5_I b c d + x + ac) s + b"

fun MD5_decode :: "8 word list \<Rightarrow> 32 word list" where
  "MD5_decode (b0 # b1 # b2 # b3 # bs) =
     (ucast b0 OR push_bit 8 (ucast b1) OR push_bit 16 (ucast b2) OR push_bit 24 (ucast b3)) # MD5_decode bs"
| "MD5_decode _ = []"

definition MD5_encode :: "32 word list \<Rightarrow> 8 word list" where
  "MD5_encode input =
     concat (map (\<lambda>w. [ucast (w AND 0xff), ucast (drop_bit 8 w AND 0xff), ucast (drop_bit 16 w AND 0xff),
                      ucast (drop_bit 24 w AND 0xff)]) input)"

section \<open>A block\<close>

text \<open>
  The calls of each round: the index into the block, the shift and the constant. Each call assigns to the
  first of the four words and the next call has them shifted by one place.
\<close>

definition round_1 :: "(nat \<times> nat \<times> 32 word) list" where
  "round_1 =
     [(0, 7, 0xd76aa478), (1, 12, 0xe8c7b756), (2, 17, 0x242070db), (3, 22, 0xc1bdceee),
      (4, 7, 0xf57c0faf), (5, 12, 0x4787c62a), (6, 17, 0xa8304613), (7, 22, 0xfd469501),
      (8, 7, 0x698098d8), (9, 12, 0x8b44f7af), (10, 17, 0xffff5bb1), (11, 22, 0x895cd7be),
      (12, 7, 0x6b901122), (13, 12, 0xfd987193), (14, 17, 0xa679438e), (15, 22, 0x49b40821)]"

definition round_2 :: "(nat \<times> nat \<times> 32 word) list" where
  "round_2 =
     [(1, 5, 0xf61e2562), (6, 9, 0xc040b340), (11, 14, 0x265e5a51), (0, 20, 0xe9b6c7aa),
      (5, 5, 0xd62f105d), (10, 9, 0x2441453), (15, 14, 0xd8a1e681), (4, 20, 0xe7d3fbc8),
      (9, 5, 0x21e1cde6), (14, 9, 0xc33707d6), (3, 14, 0xf4d50d87), (8, 20, 0x455a14ed),
      (13, 5, 0xa9e3e905), (2, 9, 0xfcefa3f8), (7, 14, 0x676f02d9), (12, 20, 0x8d2a4c8a)]"

definition round_3 :: "(nat \<times> nat \<times> 32 word) list" where
  "round_3 =
     [(5, 4, 0xfffa3942), (8, 11, 0x8771f681), (11, 16, 0x6d9d6122), (14, 23, 0xfde5380c),
      (1, 4, 0xa4beea44), (4, 11, 0x4bdecfa9), (7, 16, 0xf6bb4b60), (10, 23, 0xbebfbc70),
      (13, 4, 0x289b7ec6), (0, 11, 0xeaa127fa), (3, 16, 0xd4ef3085), (6, 23, 0x4881d05),
      (9, 4, 0xd9d4d039), (12, 11, 0xe6db99e5), (15, 16, 0x1fa27cf8), (2, 23, 0xc4ac5665)]"

definition round_4 :: "(nat \<times> nat \<times> 32 word) list" where
  "round_4 =
     [(0, 6, 0xf4292244), (7, 10, 0x432aff97), (14, 15, 0xab9423a7), (5, 21, 0xfc93a039),
      (12, 6, 0x655b59c3), (3, 10, 0x8f0ccc92), (10, 15, 0xffeff47d), (1, 21, 0x85845dd1),
      (8, 6, 0x6fa87e4f), (15, 10, 0xfe2ce6e0), (6, 15, 0xa3014314), (13, 21, 0x4e0811a1),
      (4, 6, 0xf7537e82), (11, 10, 0xbd3af235), (2, 15, 0x2ad7d2bb), (9, 21, 0xeb86d391)]"

definition md5_round ::
    "(32 word \<Rightarrow> 32 word \<Rightarrow> 32 word \<Rightarrow> 32 word \<Rightarrow> 32 word \<Rightarrow> nat \<Rightarrow> 32 word \<Rightarrow> 32 word) \<Rightarrow>
     (nat \<times> nat \<times> 32 word) list \<Rightarrow> 32 word list \<Rightarrow>
     32 word \<times> 32 word \<times> 32 word \<times> 32 word \<Rightarrow> 32 word \<times> 32 word \<times> 32 word \<times> 32 word" where
  "md5_round op calls x = fold (\<lambda>(k, s, ac) (a, b, c, d). (d, op a b c d (x ! k) s ac, b, c)) calls"

type_synonym md5_state = "32 word \<times> 32 word \<times> 32 word \<times> 32 word"

definition MD5_transform :: "8 word list \<Rightarrow> md5_state \<Rightarrow> md5_state" where
  "MD5_transform block state =
     (let x = MD5_decode block;
          (a, b, c, d) = md5_round MD5_II round_4 x (md5_round MD5_HH round_3 x
                           (md5_round MD5_GG round_2 x (md5_round MD5_FF round_1 x state)));
          (s0, s1, s2, s3) = state
      in (s0 + a, s1 + b, s2 + c, s3 + d))"

section \<open>The digest\<close>

record MD5 =
  md_finalized :: bool
  md_buffer :: "8 word list"
  md_count0 :: "32 word"
  md_count1 :: "32 word"
  md_state :: md5_state
  md_digest :: "8 word list"

definition md5_init_state :: md5_state where
  "md5_init_state = (0x67452301, 0xefcdab89, 0x98badcfe, 0x10325476)"

text \<open>\<open>init\<close> leaves the buffer and the digest uninitialised; they are arguments.\<close>

definition MD5_init :: "8 word list \<Rightarrow> 8 word list \<Rightarrow> MD5" where
  "MD5_init buffer digest =
     \<lparr>md_finalized = False, md_buffer = buffer, md_count0 = 0, md_count1 = 0, md_state = md5_init_state,
      md_digest = digest\<rparr>"

text \<open>\<open>memcpy(&buffer[index], src, n)\<close>.\<close>

definition overwrite :: "nat \<Rightarrow> 'a list \<Rightarrow> 'a list \<Rightarrow> 'a list" where
  "overwrite index src buffer = take index buffer @ src @ drop (index + length src) buffer"

partial_function (option) update_loop ::
    "8 word list \<Rightarrow> 32 word \<Rightarrow> 32 word \<Rightarrow> md5_state \<Rightarrow> (32 word \<times> md5_state) option" where
  "update_loop input len i state =
     (if i + 64 \<le> len
      then update_loop input len (i + 64) (MD5_transform (take 64 (drop (unat i) input)) state)
      else Some (i, state))"

declare update_loop.simps [code]

definition MD5_update :: "8 word list \<Rightarrow> MD5 \<Rightarrow> MD5 option" where
  "MD5_update input m =
     (let len = (of_nat (length input) :: 32 word);
          index = md_count0 m div 8 mod 64;
          count0 = md_count0 m + push_bit 3 len;
          count1 = (if count0 < push_bit 3 len then md_count1 m + 1 else md_count1 m) + drop_bit 29 len;
          m = m\<lparr>md_count0 := count0, md_count1 := count1\<rparr>;
          firstpart = 64 - index
      in if len \<ge> firstpart
         then let buffer = overwrite (unat index) (take (unat firstpart) input) (md_buffer m)
              in case update_loop input len firstpart (MD5_transform buffer (md_state m)) of
                   None \<Rightarrow> None
                 | Some (i, state) \<Rightarrow>
                     Some (m\<lparr>md_state := state, md_buffer := overwrite 0 (drop (unat i) input) buffer\<rparr>)
         else Some (m\<lparr>md_buffer := overwrite (unat index) input (md_buffer m)\<rparr>))"

definition md5_padding :: "8 word list" where
  "md5_padding = 0x80 # replicate 63 0"

definition MD5_finalize :: "MD5 \<Rightarrow> MD5 option" where
  "MD5_finalize m =
     (if md_finalized m then Some m
      else
        let bits = MD5_encode [md_count0 m, md_count1 m];
            index = md_count0 m div 8 mod 64;
            padLen = (if index < 56 then 56 - index else 120 - index)
        in case MD5_update (take (unat padLen) md5_padding) m of
             None \<Rightarrow> None
           | Some m \<Rightarrow>
               (case MD5_update bits m of
                  None \<Rightarrow> None
                | Some m \<Rightarrow>
                    let (a, b, c, d) = md_state m
                    in Some (m\<lparr>md_digest := MD5_encode [a, b, c, d], md_buffer := replicate 64 0, md_count0 := 0,
                              md_count1 := 0, md_finalized := True\<rparr>)))"

text \<open>The constructor from a string, whose length is cut off to 32 bits as that of every input.\<close>

definition MD5_of_string :: "8 word list \<Rightarrow> 8 word list \<Rightarrow> 8 word list \<Rightarrow> MD5 option" where
  "MD5_of_string buffer digest text =
     (case MD5_update text (MD5_init buffer digest) of None \<Rightarrow> None | Some m \<Rightarrow> MD5_finalize m)"

definition hex_digit :: "8 word \<Rightarrow> char" where
  "hex_digit b = ''0123456789abcdef'' ! unat b"

definition MD5_hexdigest :: "MD5 \<Rightarrow> string" where
  "MD5_hexdigest m =
     (if \<not> md_finalized m then ''''
      else concat (map (\<lambda>b. [hex_digit (b div 16), hex_digit (b mod 16)]) (md_digest m)))"

lemma md5_abc:
  "map_option MD5_hexdigest (MD5_of_string (replicate 64 0) (replicate 16 0) [0x61, 0x62, 0x63]) =
     Some ''900150983cd24fb0d6963f7d28e17f72''"
  by code_simp

section \<open>Messages and blocks\<close>

function md5_blocks :: "'a list \<Rightarrow> 'a list list" where
  "md5_blocks xs = (if length xs < 64 then [] else take 64 xs # md5_blocks (drop 64 xs))"
  by pat_completeness auto
termination
  by (relation "measure length") auto

declare md5_blocks.simps [simp del]

definition absorb :: "md5_state \<Rightarrow> 8 word list \<Rightarrow> md5_state" where
  "absorb state xs = fold MD5_transform (md5_blocks xs) state"

definition unfinished :: "'a list \<Rightarrow> 'a list" where
  "unfinished xs = drop (64 * (length xs div 64)) xs"

lemma absorb_short: "length xs < 64 \<Longrightarrow> absorb state xs = state"
  by (simp add: absorb_def md5_blocks.simps [of xs])

lemma absorb_step: "64 \<le> length xs \<Longrightarrow> absorb state xs = absorb (MD5_transform (take 64 xs) state) (drop 64 xs)"
  by (simp add: absorb_def md5_blocks.simps [of xs])

lemma unfinished_short: "length xs < 64 \<Longrightarrow> unfinished xs = xs"
  by (simp add: unfinished_def)

lemma unfinished_step: "64 \<le> length xs \<Longrightarrow> unfinished (drop 64 xs) = unfinished xs"
  by (simp add: unfinished_def le_div_geq add.commute)

lemma length_unfinished: "length (unfinished xs) = length xs mod 64"
  by (simp add: unfinished_def minus_mult_div_eq_mod)

lemma absorb_append:
  "absorb state (xs @ ys) = absorb (absorb state xs) (unfinished xs @ ys) \<and>
   unfinished (xs @ ys) = unfinished (unfinished xs @ ys)"
proof (induction xs arbitrary: state rule: length_induct)
  case (1 xs)
  show ?case
  proof (cases "length xs < 64")
    case True
    then show ?thesis by (simp add: absorb_short unfinished_short)
  next
    case False
    then have "length (drop 64 xs) < length xs" by simp
    with 1 have IH: "absorb (MD5_transform (take 64 xs) state) (drop 64 xs @ ys) =
        absorb (absorb (MD5_transform (take 64 xs) state) (drop 64 xs)) (unfinished (drop 64 xs) @ ys)"
      "unfinished (drop 64 xs @ ys) = unfinished (unfinished (drop 64 xs) @ ys)" by blast+
    have a: "absorb state (xs @ ys) = absorb (MD5_transform (take 64 xs) state) (drop 64 xs @ ys)"
      "unfinished (xs @ ys) = unfinished (drop 64 xs @ ys)"
      using False absorb_step [of "xs @ ys"] unfinished_step [of "xs @ ys"] by simp_all
    show ?thesis unfolding a IH using False absorb_step [of xs state] unfinished_step [of xs] by simp
  qed
qed

lemma update_loop_absorb:
  assumes "length input + 64 < 2 ^ 32" "unat i \<le> length input"
  shows "\<exists>i'. update_loop input (of_nat (length input)) i state = Some (i', absorb state (drop (unat i) input)) \<and>
    drop (unat i') input = unfinished (drop (unat i) input)"
  using assms(2)
proof (induction "length input - unat i" arbitrary: i state rule: less_induct)
  case less
  let ?len = "of_nat (length input) :: 32 word"
  have len: "unat ?len = length input" using assms(1) by (simp add: unat_of_nat)
  have i64: "unat (i + 64) = unat i + 64" using assms(1) less.prems by (simp add: unat_word_ariths)
  show ?case
  proof (cases "i + 64 \<le> ?len")
    case True
    then have le: "unat i + 64 \<le> length input" using i64 len by (simp add: word_le_nat_alt)
    have "length input - unat (i + 64) < length input - unat i" using le i64 by simp
    from less.hyps [OF this, of "MD5_transform (take 64 (drop (unat i) input)) state"] le i64
    obtain i' where i': "update_loop input ?len (i + 64) (MD5_transform (take 64 (drop (unat i) input)) state) =
        Some (i', absorb (MD5_transform (take 64 (drop (unat i) input)) state) (drop (unat i + 64) input))"
      "drop (unat i') input = unfinished (drop (unat i + 64) input)" by auto
    have "update_loop input ?len i state =
        update_loop input ?len (i + 64) (MD5_transform (take 64 (drop (unat i) input)) state)"
      using True by (subst update_loop.simps) simp
    then show ?thesis
      using i' le absorb_step [of "drop (unat i) input" state] unfinished_step [of "drop (unat i) input"]
      by (auto simp: add.commute)
  next
    case False
    then have "length (drop (unat i) input) < 64" using i64 len less.prems by (simp add: word_le_nat_alt)
    moreover have "update_loop input ?len i state = Some (i, state)"
      using False by (subst update_loop.simps) simp
    ultimately show ?thesis by (simp add: absorb_short unfinished_short)
  qed
qed

section \<open>The counter\<close>

definition bit_count :: "MD5 \<Rightarrow> nat" where
  "bit_count m = unat (md_count0 m) + 2 ^ 32 * unat (md_count1 m)"

lemma two_words: "a < 2 ^ 32 \<Longrightarrow> a + 2 ^ 32 * (b mod 2 ^ 32) = (a + 2 ^ 32 * b) mod (2 ^ 64 :: nat)"
proof -
  assume "a < 2 ^ 32"
  have "(a + 2 ^ 32 * b) mod (2 ^ 32 * 2 ^ 32) = 2 ^ 32 * ((a + 2 ^ 32 * b) div 2 ^ 32 mod 2 ^ 32) + (a + 2 ^ 32 * b) mod 2 ^ 32"
    by (rule mod_mult2_eq)
  moreover have "(a + 2 ^ 32 * b) div 2 ^ 32 = b" "(a + 2 ^ 32 * b) mod 2 ^ 32 = a" using \<open>a < 2 ^ 32\<close> by simp_all
  ultimately show ?thesis by simp
qed

lemma add_carry:
  fixes c p :: "32 word"
  shows "unat c + unat p = unat (c + p) + (if c + p < p then 2 ^ 32 else 0)"
proof (cases "unat c + unat p < 2 ^ 32")
  case True
  then show ?thesis by (simp add: unat_word_ariths word_less_nat_alt)
next
  case False
  have "unat c < 2 ^ 32" "unat p < 2 ^ 32" using unat_bound [of c] unat_bound [of p] by simp_all
  then have "(unat c + unat p) mod 2 ^ 32 = unat c + unat p - 2 ^ 32" using False by (simp add: mod_nat_eqI)
  then show ?thesis using False \<open>unat c < 2 ^ 32\<close> by (simp add: unat_word_ariths word_less_nat_alt)
qed

lemma count_update:
  fixes c0 c1 len :: "32 word"
  shows "unat (c0 + push_bit 3 len) +
      2 ^ 32 * unat ((if c0 + push_bit 3 len < push_bit 3 len then c1 + 1 else c1) + drop_bit 29 len) =
    (unat c0 + 2 ^ 32 * unat c1 + 8 * unat len) mod 2 ^ 64"
proof -
  let ?p = "push_bit 3 len" and ?h = "drop_bit 29 len"
  let ?carry = "if c0 + ?p < ?p then 1 else 0 :: nat"
  have p: "unat ?p = 8 * unat len mod 2 ^ 32" by (simp add: push_bit_eq_mult unat_word_ariths mult.commute)
  have h: "unat ?h = 8 * unat len div 2 ^ 32" by (simp add: drop_bit_eq_div unat_div)
  have ph: "unat ?p + 2 ^ 32 * unat ?h = 8 * unat len" unfolding p h by (rule mod_mult_div_eq)
  have "unat ((if c0 + ?p < ?p then c1 + 1 else c1) + ?h) = (unat c1 + ?carry + unat ?h) mod 2 ^ 32"
    by (simp add: unat_word_ariths mod_simps)
  then have "unat (c0 + ?p) + 2 ^ 32 * unat ((if c0 + ?p < ?p then c1 + 1 else c1) + ?h) =
      (unat (c0 + ?p) + 2 ^ 32 * (unat c1 + ?carry + unat ?h)) mod 2 ^ 64"
    using two_words [of "unat (c0 + ?p)" "unat c1 + ?carry + unat ?h"] unat_bound [of "c0 + ?p"] by simp
  also have "unat (c0 + ?p) + 2 ^ 32 * (unat c1 + ?carry + unat ?h) = unat c0 + 2 ^ 32 * unat c1 + 8 * unat len"
    using add_carry [of c0 ?p] ph by (simp split: if_splits)
  finally show ?thesis .
qed

section \<open>Updating and finalizing\<close>

text \<open>The state after the message \<open>msg\<close>: what lies in the buffer beyond the unfinished block does not matter.\<close>

definition md_inv :: "8 word list \<Rightarrow> MD5 \<Rightarrow> bool" where
  "md_inv msg m \<longleftrightarrow> \<not> md_finalized m \<and> length (md_buffer m) = 64 \<and> bit_count m = 8 * length msg mod 2 ^ 64 \<and>
     md_state m = absorb md5_init_state msg \<and> take (length msg mod 64) (md_buffer m) = unfinished msg"

lemma md_inv_counts:
  assumes "md_inv msg m"
  shows "md_count0 m = of_nat (8 * length msg)" "md_count1 m = of_nat (8 * length msg div 2 ^ 32)"
    "unat (md_count0 m div 8 mod 64) = length msg mod 64"
proof -
  have b: "unat (md_count0 m) + 2 ^ 32 * unat (md_count1 m) = 8 * length msg mod 2 ^ 64"
    using assms by (simp add: md_inv_def bit_count_def)
  have l: "unat (md_count0 m) < 2 ^ 32" using unat_bound [of "md_count0 m"] by simp
  have e: "8 * length msg mod 2 ^ 64 = 8 * length msg mod 2 ^ 32 + 2 ^ 32 * (8 * length msg div 2 ^ 32 mod 2 ^ 32)"
    using mod_mult2_eq [of "8 * length msg" "2 ^ 32" "2 ^ 32"] by simp
  have "(unat (md_count0 m) + 2 ^ 32 * unat (md_count1 m)) mod 2 ^ 32 = unat (md_count0 m)"
    "(unat (md_count0 m) + 2 ^ 32 * unat (md_count1 m)) div 2 ^ 32 = unat (md_count1 m)"
    using l by simp_all
  then have u: "unat (md_count0 m) = 8 * length msg mod 2 ^ 32" "unat (md_count1 m) = 8 * length msg div 2 ^ 32 mod 2 ^ 32"
    unfolding b e by simp_all
  show "md_count0 m = of_nat (8 * length msg)" "md_count1 m = of_nat (8 * length msg div 2 ^ 32)"
    using u by (simp_all only: word_unat_eq_iff unat_of_nat) simp_all
  have "8 * length msg mod 2 ^ 32 = 8 * (length msg mod 2 ^ 29)" by (simp add: mult_mod_right)
  then have "unat (md_count0 m) div 8 mod 64 = length msg mod 2 ^ 29 mod 64" using u(1) by simp
  also have "\<dots> = length msg mod 64" by (rule mod_mod_cancel) simp
  finally show "unat (md_count0 m div 8 mod 64) = length msg mod 64" by (simp add: unat_div unat_mod)
qed

lemma overwrite_length: "i + length src \<le> length b \<Longrightarrow> length (overwrite i src b) = length b"
  by (simp add: overwrite_def)

lemma take_overwrite: "i + length src \<le> length b \<Longrightarrow> take (i + length src) (overwrite i src b) = take i b @ src"
  by (simp add: overwrite_def)

lemma MD5_update_inv:
  assumes inv: "md_inv msg m" and len: "length input + 64 < 2 ^ 32"
  shows "\<exists>m'. MD5_update input m = Some m' \<and> md_inv (msg @ input) m' \<and> md_digest m' = md_digest m"
proof -
  let ?len = "of_nat (length input) :: 32 word" and ?index = "md_count0 m div 8 mod 64"
  let ?k = "length msg mod 64" and ?part = "unfinished msg"
  have ulen: "unat ?len = length input" using len by (simp add: unat_of_nat)
  have ix: "unat ?index = ?k" by (rule md_inv_counts(3) [OF inv])
  have "?k < 64" by simp
  then have first: "unat (64 - ?index) = 64 - ?k" using ix by (subst unat_sub) (simp_all add: word_le_nat_alt)
  have buf: "length (md_buffer m) = 64" "take ?k (md_buffer m) = ?part" "md_state m = absorb md5_init_state msg"
    using inv by (simp_all add: md_inv_def)
  define c0 c1 where "c0 = md_count0 m + push_bit 3 ?len"
    and "c1 = (if c0 < push_bit 3 ?len then md_count1 m + 1 else md_count1 m) + drop_bit 29 ?len"
  have old: "unat (md_count0 m) + 2 ^ 32 * unat (md_count1 m) = 8 * length msg mod 2 ^ 64"
    using inv by (simp only: md_inv_def bit_count_def)
  have count: "unat c0 + 2 ^ 32 * unat c1 = 8 * length (msg @ input) mod 2 ^ 64"
    unfolding c1_def c0_def count_update old ulen mod_add_left_eq by simp
  have app: "absorb md5_init_state (msg @ input) = absorb (md_state m) (?part @ input)"
    "unfinished (msg @ input) = unfinished (?part @ input)"
    using absorb_append [of md5_init_state msg input] buf(3) by simp_all
  have partlen: "length ?part = ?k" by (rule length_unfinished)
  show ?thesis
  proof (cases "64 - ?index \<le> ?len")
    case True
    then have le: "64 - ?k \<le> length input" using first ulen by (simp add: word_le_nat_alt)
    let ?b = "overwrite ?k (take (64 - ?k) input) (md_buffer m)"
    have b: "?b = ?part @ take (64 - ?k) input" "length ?b = 64"
      using buf le partlen \<open>?k < 64\<close> by (simp_all add: overwrite_def)
    obtain i where i: "update_loop input ?len (64 - ?index) (MD5_transform ?b (md_state m)) =
        Some (i, absorb (MD5_transform ?b (md_state m)) (drop (64 - ?k) input))"
      "drop (unat i) input = unfinished (drop (64 - ?k) input)"
      using update_loop_absorb [OF len, of "64 - ?index" "MD5_transform ?b (md_state m)"] first le by auto
    have all: "take 64 (?part @ input) = ?b" "drop 64 (?part @ input) = drop (64 - ?k) input" "64 \<le> length (?part @ input)"
      using b partlen le \<open>?k < 64\<close> by simp_all
    let ?m = "m\<lparr>md_count0 := c0, md_count1 := c1, md_state := absorb (MD5_transform ?b (md_state m)) (drop (64 - ?k) input),
      md_buffer := overwrite 0 (drop (unat i) input) ?b\<rparr>"
    have upd: "MD5_update input m = Some ?m"
      using True i(1) first ix by (simp add: MD5_update_def Let_def c0_def c1_def)
    have rest: "unfinished (msg @ input) = drop (unat i) input"
      using app(2) i(2) unfinished_step [OF all(3)] all(2) by simp
    then have rlen: "length (drop (unat i) input) = length (msg @ input) mod 64"
      using length_unfinished [of "msg @ input"] by simp
    have fits: "0 + length (drop (unat i) input) \<le> length ?b" unfolding rlen b(2) by simp
    have "md_buffer ?m = overwrite 0 (drop (unat i) input) ?b" by simp
    then have "take (length (msg @ input) mod 64) (md_buffer ?m) = unfinished (msg @ input)" "length (md_buffer ?m) = 64"
      using take_overwrite [OF fits] overwrite_length [OF fits] rest rlen b(2) by simp_all
    moreover have "md_state ?m = absorb md5_init_state (msg @ input)"
      using app(1) absorb_step [OF all(3), of "md_state m"] unfolding all(1,2) by simp
    moreover have "bit_count ?m = 8 * length (msg @ input) mod 2 ^ 64" using count by (simp add: bit_count_def)
    moreover have "\<not> md_finalized ?m" using inv by (simp add: md_inv_def)
    ultimately have "md_inv (msg @ input) ?m" unfolding md_inv_def by blast
    with upd show ?thesis by (intro exI [of _ ?m]) simp
  next
    case False
    then have lt: "length input < 64 - ?k" using first ulen by (simp add: word_le_nat_alt)
    let ?m = "m\<lparr>md_count0 := c0, md_count1 := c1, md_buffer := overwrite ?k input (md_buffer m)\<rparr>"
    have short: "length (?part @ input) < 64" using lt partlen by simp
    have "MD5_update input m = Some ?m"
      using False ix by (simp add: MD5_update_def Let_def c0_def c1_def)
    moreover have "length (msg @ input) mod 64 = ?k + length input"
      using app(2) unfinished_short [OF short] length_unfinished [of "msg @ input"] partlen by simp
    then have "take (length (msg @ input) mod 64) (md_buffer ?m) = unfinished (msg @ input)"
      using app(2) unfinished_short [OF short] take_overwrite [of ?k input "md_buffer m"] lt buf(1,2) by simp
    moreover have "length (md_buffer ?m) = 64" using overwrite_length [of ?k input "md_buffer m"] lt buf(1) by simp
    moreover have "md_state ?m = absorb md5_init_state (msg @ input)"
      using app(1) absorb_short [OF short] by simp
    moreover have "bit_count ?m = 8 * length (msg @ input) mod 2 ^ 64" using count by (simp add: bit_count_def)
    moreover have "\<not> md_finalized ?m" using inv by (simp add: md_inv_def)
    ultimately have "MD5_update input m = Some ?m" "md_inv (msg @ input) ?m" unfolding md_inv_def by blast+
    then show ?thesis by (intro exI [of _ ?m]) simp
  qed
qed

definition padded :: "8 word list \<Rightarrow> 8 word list" where
  "padded msg =
     (let k = length msg mod 64
      in msg @ take (if k < 56 then 56 - k else 120 - k) md5_padding @
         MD5_encode [of_nat (8 * length msg), of_nat (8 * length msg div 2 ^ 32)])"

definition md5_reference :: "8 word list \<Rightarrow> 8 word list" where
  "md5_reference msg = (case absorb md5_init_state (padded msg) of (a, b, c, d) \<Rightarrow> MD5_encode [a, b, c, d])"

lemma length_encode: "length (MD5_encode [x, y]) = 8"
  by (simp add: MD5_encode_def)

lemma padded_blocks: "64 dvd length (padded msg)"
proof -
  let ?k = "length msg mod 64"
  have "?k < 64" by simp
  then have "length (padded msg) = length msg + (if ?k < 56 then 64 - ?k else 128 - ?k)"
    by (simp add: padded_def Let_def length_encode md5_padding_def)
  moreover have A: "64 dvd length msg + (64 - ?k)"
  proof -
    have "(length msg + (64 - ?k)) mod 64 = (?k + (64 - ?k)) mod 64" by (simp only: mod_add_left_eq)
    also have "?k + (64 - ?k) = 64" using \<open>?k < 64\<close> by simp
    finally show ?thesis by (simp add: dvd_eq_mod_eq_0)
  qed
  moreover have "length msg + (128 - ?k) = (length msg + (64 - ?k)) + 64" using \<open>?k < 64\<close> by simp
  then have "64 dvd length msg + (128 - ?k)" using dvd_add [OF A, of 64] by (simp only: dvd_refl)
  ultimately show ?thesis by (cases "?k < 56") (simp_all only: if_True if_False)
qed

lemma MD5_finalize_digest:
  assumes inv: "md_inv msg m"
  shows "\<exists>m'. MD5_finalize m = Some m' \<and> md_finalized m' \<and> md_digest m' = md5_reference msg"
proof -
  let ?index = "md_count0 m div 8 mod 64" and ?k = "length msg mod 64"
  let ?pad = "take (if ?k < 56 then 56 - ?k else 120 - ?k) md5_padding"
  let ?bits = "MD5_encode [md_count0 m, md_count1 m]"
  have ix: "unat ?index = ?k" by (rule md_inv_counts(3) [OF inv])
  have "?k < 64" by simp
  then have "unat (if ?index < 56 then 56 - ?index else 120 - ?index) = (if ?k < 56 then 56 - ?k else 120 - ?k)"
    using ix by (auto simp: word_less_nat_alt unat_sub word_le_nat_alt)
  then have pad: "take (unat (if ?index < 56 then 56 - ?index else 120 - ?index)) md5_padding = ?pad" by simp
  have "length ?pad + 64 < 2 ^ 32" "length ?bits + 64 < 2 ^ 32" by (simp_all add: md5_padding_def length_encode)
  note lens = this
  obtain m1 where m1: "MD5_update ?pad m = Some m1" "md_inv (msg @ ?pad) m1"
    using MD5_update_inv [OF inv lens(1)] by blast
  obtain m2 where m2: "MD5_update ?bits m1 = Some m2" "md_inv ((msg @ ?pad) @ ?bits) m2"
    using MD5_update_inv [OF m1(2) lens(2)] by blast
  note m = m1(1) m2
  have "?bits = MD5_encode [of_nat (8 * length msg), of_nat (8 * length msg div 2 ^ 32)]"
    using md_inv_counts(1,2) [OF inv] by simp
  then have st: "md_state m2 = absorb md5_init_state (padded msg)"
    using m(3) by (simp add: md_inv_def padded_def Let_def)
  obtain a b c d where abcd: "md_state m2 = (a, b, c, d)" by (cases "md_state m2")
  have "MD5_finalize m = Some (m2\<lparr>md_digest := MD5_encode [a, b, c, d], md_buffer := replicate 64 0, md_count0 := 0,
      md_count1 := 0, md_finalized := True\<rparr>)"
    unfolding MD5_finalize_def Let_def pad using m(1,2) abcd inv by (simp add: md_inv_def)
  moreover have "absorb md5_init_state (padded msg) = (a, b, c, d)" using st abcd by simp
  ultimately show ?thesis by (simp add: md5_reference_def)
qed

text \<open>Feeding a message in pieces.\<close>

fun MD5_feed :: "8 word list list \<Rightarrow> MD5 \<Rightarrow> MD5 option" where
  "MD5_feed [] m = Some m"
| "MD5_feed (c # cs) m = (case MD5_update c m of None \<Rightarrow> None | Some m \<Rightarrow> MD5_feed cs m)"

lemma MD5_feed_inv:
  "md_inv msg m \<Longrightarrow> \<forall>c \<in> set chunks. length c + 64 < 2 ^ 32 \<Longrightarrow>
   \<exists>m'. MD5_feed chunks m = Some m' \<and> md_inv (msg @ concat chunks) m'"
proof (induction chunks arbitrary: msg m)
  case (Cons c cs)
  then obtain m1 where "MD5_update c m = Some m1" "md_inv (msg @ c) m1" using MD5_update_inv [OF Cons.prems(1), of c] by auto
  then show ?case using Cons.IH [of "msg @ c" m1] Cons.prems(2) by auto
qed simp

lemma md_inv_init: "length buffer = 64 \<Longrightarrow> md_inv [] (MD5_init buffer digest)"
  by (simp add: md_inv_def MD5_init_def bit_count_def absorb_short unfinished_def)

section \<open>Properties\<close>

text \<open>The loop of \<open>update\<close> does not end on an input of \<open>2 ^ 32 - 1\<close> bytes.\<close>

lemma update_loop_diverges: "update_loop input (- 1) i state = None"
proof -
  have "len \<noteq> - 1" if "update_loop input len i state = Some r" for input len i state r
  proof (rule update_loop.raw_induct [OF _ that])
    fix f :: "8 word list \<Rightarrow> 32 word \<Rightarrow> 32 word \<Rightarrow> md5_state \<Rightarrow> (32 word \<times> md5_state) option"
      and input len i state r
    assume "\<And>input len i state r. f input len i state = Some r \<Longrightarrow> len \<noteq> - 1"
      and "(if i + 64 \<le> len then f input len (i + 64) (MD5_transform (take 64 (drop (unat i) input)) state)
            else Some (i, state)) = Some r"
    then show "len \<noteq> - 1" by (cases "i + 64 \<le> len") auto
  qed
  then show ?thesis by (metis not_None_eq)
qed

text \<open>C23. However a message is cut into pieces for \<open>update\<close>, each at least 64 bytes short of \<open>2 ^ 32\<close>, and whatever
  the uninitialised buffer holds, every call returns and \<open>finalize\<close> leaves the MD5 digest of the
  message: the state after its blocks once it is padded, with its length in bits, to whole blocks.\<close>

theorem MD5_digest_correct:
  assumes "length buffer = 64" "\<forall>c \<in> set chunks. length c + 64 < 2 ^ 32"
  shows "\<exists>m m'. MD5_feed chunks (MD5_init buffer digest) = Some m \<and> MD5_finalize m = Some m' \<and>
    md_digest m' = md5_reference (concat chunks) \<and> 64 dvd length (padded (concat chunks)) \<and>
    MD5_finalize m' = Some m'"
proof -
  obtain m where m: "MD5_feed chunks (MD5_init buffer digest) = Some m" "md_inv (concat chunks) m"
    using MD5_feed_inv [OF md_inv_init [OF assms(1)] assms(2)] by auto
  moreover obtain m' where "MD5_finalize m = Some m'" "md_finalized m'" "md_digest m' = md5_reference (concat chunks)"
    using MD5_finalize_digest [OF m(2)] by blast
  moreover from this have "MD5_finalize m' = Some m'" by (simp add: MD5_finalize_def)
  ultimately show ?thesis using padded_blocks by blast
qed

theorem MD5_digest_correct_witness:
  "\<exists>m m'. MD5_feed [[0x61], [0x62, 0x63]] (MD5_init (replicate 64 7) []) = Some m \<and> MD5_finalize m = Some m' \<and>
     md_digest m' = md5_reference [0x61, 0x62, 0x63]"
  using MD5_digest_correct [of "replicate 64 7" "[[0x61], [0x62, 0x63]]" "[]"] by auto

end
