(* ===== verification/Spec2Isabelle.thy ===== *)
theory Spec2Isabelle
  imports Perfect_Hash Priority_Queue Std_Map Net_Types Graph_Storage Graph_Transform Walks Shortest_Path Path_Search Ksp_Correct Ksp_Waypoints Event_Queue
    Packer Circular_Array Lru_Cache Net_Trie Interval_Tree Alphanum Bloom Sim_Queue Match_Rules Network_Links Ptr_Queue Md5
begin

text \<open>
  A verification library for ncode-common, a C++ library for working with networks: graphs and paths
  (\<open>src/src/net\<close>), a packet-level simulator (\<open>src/src/htsim\<close>), the event queue both kinds of
  simulation run on, and the containers and codecs underneath (\<open>src/src\<close>).

  \<^bold>\<open>How the code is modelled.\<close> Definitions carry the names of the functions they translate, with the class in
  front (\<open>LRUCache_Emplace\<close>). Objects are records, passed in and returned updated; machine integers are words of their
  width, except where a text says why a natural number or an integer does. A failed \<open>CHECK\<close>, a \<open>LOG(FATAL)\<close>
  and undefined behaviour are values of \<open>failure\<close> in the result type \<open>res\<close> of \<open>Ncode_Prelude\<close>. A loop that
  need not end is a \<open>partial_function (option)\<close>; no fuel is used anywhere, and where a loop is shown to end that is
  part of the theorem. What is virtual, drawn at random, or computed in floating point without effect on the
  property is an argument, of which nothing is assumed. Pointers to objects that can be freed or changed through another
  pointer (match rules) are addresses into a store; what threads do under a mutex is a step relation.

  \<^bold>\<open>Containers.\<close> \<open>Perfect_Hash\<close> has \<open>perfect_hash.h\<close>: sets and maps from small indices, kept as vectors; the locales
  \<open>index_set\<close> and \<open>index_map\<close> are what the graph code uses of them. The set's iterator meets each
  element once in order, unless the set is as large as the index type has values: then \<open>end()\<close> wraps
  (\<open>PHSet_iteration_wraps\<close>). \<open>Priority_Queue\<close> has \<open>VectorPriorityQueue\<close> of \<open>common.h\<close>, with the locale
  \<open>priority_queue\<close>; \<open>Std_Map\<close> has ordered maps, with \<open>ordered_map\<close>. \<open>Circular_Array\<close>, \<open>Lru_Cache\<close> and \<open>Ptr_Queue\<close> are
  refinements of lists (\<open>circular_array.h\<close>, \<open>lru_cache.h\<close>, \<open>ptr_queue.h\<close>). For the last, any number of threads
  interleave: no wake-up is lost without \<open>Invalidate\<close> and \<open>Drain\<close>, and with them there are runs that
  leave a producer and a consumer waiting for each other. \<open>Net_Trie\<close> (\<open>net/trie.h\<close>) and \<open>Interval_Tree\<close>
  (\<open>interval_tree.h\<close>) answer the lookups their set of sequences or intervals gives; \<open>IPRangeTrie\<close> confuses
  ranges, which is proved too. \<open>Bloom\<close> (\<open>bloom.{h,cc}\<close>) has the filter and MurmurHash3.

  \<^bold>\<open>Codecs.\<close> \<open>Packer\<close> (\<open>packer.{h,cc}\<close>): what was appended to a packed or run-length encoded sequence
  is what its iterators give back. \<open>Md5\<close> (\<open>md5.{h,cc}\<close>): the digest does not depend on how the message
  was cut up and is that of the padded message. \<open>Alphanum\<close> (\<open>alphanum.h\<close>): the one-pass comparison is the
  lexicographic one on numbers and characters.

  \<^bold>\<open>Graphs.\<close> \<open>Net_Types\<close> has the scalar types of \<open>net/net_common.h\<close>: five-tuples, and address ranges, whose
  containment is that of the sets of addresses they cover. \<open>Graph_Storage\<close> has links, builder, adjacency list and
  storage: from a builder with fewer than \<open>2 ^ 16\<close> links and node names the constructor of \<open>GraphStorage\<close> always gives a
  well-formed graph with the links of the builder. \<open>Graph_Transform\<close> has \<open>RemoveMultipleLinks\<close> and \<open>ToBuilder\<close>, \<open>Walks\<close> the functions on
  lists of links, with the cases in which \<open>LinksDetour\<close> and \<open>BottleneckLinks\<close> do not give what their comments
  say. \<open>Shortest_Path\<close> has Dijkstra's algorithm of \<open>net/algorithm.{h,cc}\<close>: with positive delays the search ends,
  and the path it recovers is a path of the graph without the excluded nodes and links, of least delay.

  \<^bold>\<open>Simulation.\<close> \<open>Event_Queue\<close> (\<open>event_queue.{h,cc}\<close>) runs the handlers of its consumers in the order of their times,
  up to the stop time, and ends if every event is scheduled later than the one that schedules it; a consumer
  that is destroyed leaves no event behind. On it, \<open>Sim_Packet\<close> (\<open>htsim/packet.{h,cc}\<close>) and
  \<open>Sim_Queue\<close> (\<open>htsim/queue.{h,cc}\<close>): a queue never holds more than its capacity, passes packets on in order, and drains; a
  pipe delivers each packet after its delay. Queues and pipes are both interpretations of the locale
  \<open>packet_server\<close>, and the ways of dropping packets of \<open>drop_policies\<close>. \<open>Match_Rules\<close> (\<open>htsim/match.{h,cc}\<close>) is the rule table of a
  switch: a tree over seven fields that finds the most specific rule of a packet and never
  follows a pointer to a rule that has been replaced. The last section below joins a queue and a pipe to a link.

  \<^bold>\<open>Bounds.\<close> The widths are those of the code. Hypotheses on sizes keep a 64-bit counter of bytes or a 32-bit
  length from wrapping: the capacity of a queue is at least \<open>2 ^ 32\<close> below \<open>2 ^ 64\<close>, the pieces of a message
  are 64 bytes shorter than \<open>2 ^ 32\<close>, the numbers in compared strings are below \<open>2 ^ 31\<close>. What happens beyond some of them
  is proved as well (\<open>update_loop_diverges\<close>, \<open>alphanum_comp_truncates\<close>).

  \<^bold>\<open>Not modelled.\<close> Input and output, logging, string formatting and parsing (\<open>file\<close>, \<open>fwrapper\<close>, \<open>logging\<close>, \<open>strutil\<close>, \<open>stringpiece\<close>,
  \<open>substitute\<close>, \<open>status\<close>), visualisation and the template library it uses (\<open>viz\<close>), the linear programs and their external
  solver (\<open>lp\<close>), captures and raw sockets (\<open>net/pcap\<close>, \<open>htsim/physical\<close>), statistics in
  floating point (\<open>stats\<close>, \<open>predict\<close>, \<open>htsim/flow_counter\<close>, \<open>htsim/animator\<close>), random topologies and
  traffic (\<open>net/net_gen\<close>, \<open>htsim/bulk_gen\<close>, \<open>htsim/flow_driver\<close>), the grammar of graph queries, and for now TCP, the wiring of devices
  (\<open>htsim/network\<close>), the columns of \<open>num_col\<close> and the algorithms of \<open>net/algorithm\<close> other than shortest paths.
\<close>

section \<open>A link\<close>

text \<open>
  A \<open>Link\<close> is a queue whose other end is a pipe: what the queue passes on is handed to the pipe at once,
  and what leaves the pipe is recorded with the time.
\<close>

datatype link_end = The_queue | The_pipe

definition link_handler ::
    "(link_end, ('r, 'st) FIFOQueue \<times> ('r, 'st) Pipe \<times> (EventQueueTime \<times> ('r, 'st) Packet) list) handler" where
  "link_handler c now s =
     (case s of (q, p, out) \<Rightarrow>
        case c of
          The_queue \<Rightarrow>
            (case FIFOQueue_HandleEvent The_queue q of
               Inr (q, requests, pkt) \<Rightarrow>
                 (case Pipe_HandlePacket The_pipe now pkt p of (p, requests') \<Rightarrow> ((q, p, out), requests @ requests'))
             | Inl _ \<Rightarrow> (s, [Stop]))
        | The_pipe \<Rightarrow>
            (case Pipe_HandleEvent The_pipe p of
               Inr (p, requests, pkt) \<Rightarrow> ((q, p, out @ [(now, pkt)]), requests)
             | Inl _ \<Rightarrow> (s, [Stop])))"

lemma EventQueue_Run_step: "EventQueue_step h e = Inr (ev, e') \<Longrightarrow> EventQueue_Run h e = EventQueue_Run h e'"
  by (subst EventQueue_Run.simps) simp

lemma EventQueue_Run_done: "es_queue e = [] \<Longrightarrow> EventQueue_Run h e = Some e"
  by (subst EventQueue_Run.simps) (simp add: EventQueue_step_def VPQ_empty_def)

text \<open>A handler called for the only event in the queue, which makes one call or none.\<close>

lemma only_event_step:
  assumes "es_queue e = [(t, c)]" "t < es_stop_time e" "h c t (es_consumers e) = (s, rs)"
    and "rs = [] \<or> (\<exists>d u. rs = [EnqueueIn d u])"
  shows "\<exists>e'. EventQueue_step h e = Inr ((t, c), e') \<and> es_consumers e' = s \<and> es_stop_time e' = es_stop_time e \<and>
    es_queue e' = map (\<lambda>r. case r of EnqueueIn d u \<Rightarrow> (t + u, d)) rs"
  using assms
  by (auto simp: EventQueue_step_def VPQ_empty_def Let_def EventConsumer_HandleEventPublic_def pop_singleton
      EventConsumer_EnqueueIn_def EventQueue_Enqueue_def emplace_Nil)

text \<open>C12. A packet that arrives at an idle link of a connected queue and pipe, and is not dropped, comes out of the
  pipe after the time it takes to drain it and the delay of the pipe, with that delay added to its propagation
  time and nothing to its queueing time; the run ends with both empty. The times are those before the
  stop time.\<close>

theorem Link_delivers:
  assumes "fq_connected q" "fq_queue q = []" "pipe_connected p" "pipe_queue p = []"
    and "\<not> FIFOQueue_ShouldDrop q (ucast (pkt_size_bytes pkt))" "qs_queue_size_bytes (fq_stats q) = 0"
    and "FIFOQueue_HandlePacket FIFOQueue_ShouldDrop The_queue pkt q = (q', rs)"
    and "es_queue e = []" "es_consumers e = (q', p, [])"
    and "es_time e + PacketDrainTime q pkt < es_stop_time e"
    and "es_time e + PacketDrainTime q pkt + pipe_delay p < es_stop_time e"
  shows "\<exists>e' q'' p''. EventQueue_Run link_handler (fold apply_request rs e) = Some e' \<and> es_queue e' = [] \<and>
    fq_queue q'' = [] \<and> pipe_queue p'' = [] \<and>
    es_consumers e' = (q'', p'',
      [(es_time e + PacketDrainTime q pkt + pipe_delay p, Packet_AddToPropagationTime (pipe_delay p) pkt)])"
proof -
  let ?t = "es_time e + PacketDrainTime q pkt"
  have arrive: "rs = [EnqueueIn The_queue (PacketDrainTime q pkt)]" "fq_queue q' = [pkt]" "fq_connected q'"
    using assms(1,2,5,6,7)
    by (auto simp: FIFOQueue_HandlePacket_def Let_def Packet_AddToQueueingTime_def PacketDrainTime_def)
  let ?e = "fold apply_request rs e"
  have e: "es_queue ?e = [(?t, The_queue)]" "es_consumers ?e = (q', p, [])" "es_stop_time ?e = es_stop_time e"
    using assms(8,9) by (simp_all add: arrive(1) EventConsumer_EnqueueIn_def EventQueue_Enqueue_def emplace_Nil)
  obtain q1 where q1: "FIFOQueue_HandleEvent The_queue q' = Ok (q1, [], pkt)" "fq_queue q1 = []"
    using FIFOQueue_serves [OF arrive(3,2), of The_queue] by auto
  define p1 where "p1 = fst (Pipe_HandlePacket The_pipe ?t pkt p)"
  have p1: "Pipe_HandlePacket The_pipe ?t pkt p = (p1, [EnqueueIn The_pipe (pipe_delay p)])"
    "pipe_queue p1 = [(?t + pipe_delay p, Packet_AddToPropagationTime (pipe_delay p) pkt)]" "pipe_connected p1"
    using assms(3,4) by (simp_all add: p1_def Pipe_HandlePacket_def Let_def)
  have "link_handler The_queue ?t (es_consumers ?e) = ((q1, p1, []), [EnqueueIn The_pipe (pipe_delay p)])"
    by (simp add: link_handler_def e(2) q1(1) p1(1))
  from only_event_step [where h = link_handler, OF e(1) _ this] assms(10) e(3)
  obtain e1 where e1: "EventQueue_step link_handler ?e = Inr ((?t, The_queue), e1)" "es_consumers e1 = (q1, p1, [])"
    "es_stop_time e1 = es_stop_time e" "es_queue e1 = [(?t + pipe_delay p, The_pipe)]" by auto
  obtain p2 where p2: "Pipe_HandleEvent The_pipe p1 = Ok (p2, [], Packet_AddToPropagationTime (pipe_delay p) pkt)"
    "pipe_queue p2 = []"
    using Pipe_serves [OF p1(3,2), of The_pipe] by auto
  have "link_handler The_pipe (?t + pipe_delay p) (es_consumers e1) =
      ((q1, p2, [(?t + pipe_delay p, Packet_AddToPropagationTime (pipe_delay p) pkt)]), [])"
    by (simp add: link_handler_def e1(2) p2(1))
  from only_event_step [where h = link_handler, OF e1(4) _ this] assms(11) e1(3)
  obtain e2 where e2: "EventQueue_step link_handler e1 = Inr ((?t + pipe_delay p, The_pipe), e2)"
    "es_consumers e2 = (q1, p2, [(?t + pipe_delay p, Packet_AddToPropagationTime (pipe_delay p) pkt)])"
    "es_queue e2 = []" by auto
  have "EventQueue_Run link_handler ?e = Some e2"
    using EventQueue_Run_step [OF e1(1)] EventQueue_Run_step [OF e2(1)] EventQueue_Run_done [OF e2(3)] by simp
  then show ?thesis using e2 q1(2) p2(2) by blast
qed

theorem Link_delivers_witness:
  "\<exists>e'. EventQueue_Run link_handler
     (fold apply_request (snd (FIFOQueue_HandlePacket FIFOQueue_ShouldDrop The_queue sample_packet sample_queue))
       (SimTimeEventQueue_new (fst (FIFOQueue_HandlePacket FIFOQueue_ShouldDrop The_queue sample_packet sample_queue),
          Pipe_Connect (Pipe_new 5), []))) = Some e' \<and>
     snd (snd (es_consumers e')) = [(800005, Packet_AddToPropagationTime 5 sample_packet)]"
proof -
  have q: "fq_connected sample_queue" "fq_queue sample_queue = []" "qs_queue_size_bytes (fq_stats sample_queue) = 0"
    "PacketDrainTime sample_queue sample_packet = 800000"
    by (simp_all add: sample_queue_def FIFOQueue_new_def FIFOQueue_SetRate_def Bandwidth_FromBitsPerSecond_def
        Queue_Connect_def PacketDrainTime_def sample_packet_def Packet_new_def)
  have p: "pipe_connected (Pipe_Connect (Pipe_new 5))" "pipe_queue (Pipe_Connect (Pipe_new 5)) = []"
    "pipe_delay (Pipe_Connect (Pipe_new 5)) = 5"
    by (simp_all add: Pipe_Connect_def Pipe_new_def)
  show ?thesis
    using Link_delivers [OF q(1,2) p(1,2) sample_queue_takes q(3) prod.collapse [symmetric],
        of "SimTimeEventQueue_new (fst (FIFOQueue_HandlePacket FIFOQueue_ShouldDrop The_queue sample_packet sample_queue),
          Pipe_Connect (Pipe_new 5), [])"]
    by (auto simp: q(4) p(3) SimTimeEventQueue_new_def EventQueueTime_MaxTime_def)
qed

end
